(* ===== verification/Prelude.thy ===== *)
theory Prelude
  imports Main "HOL-Library.Word" "HOL-Library.Code_Target_Nat"
begin

unbundle bit_operations_syntax

text \<open>
  Shared ground of the development: the error values that stand for \<open>luaG_runerror\<close>,
  \<open>luaL_error\<close>, \<open>luaD_throw\<close> and for C behaviour the language leaves undefined, the sequencing
  of fallible steps, the collections of simplification rules the component theories extend,
  and generic lemmas on words, lists and powers of two.
\<close>

section \<open>Machine types of the modelled build\<close>

text \<open>
  The build modelled is the usual LP64 one (32-bit \<open>int\<close>, 64-bit \<open>size_t\<close>, \<open>ptrdiff_t\<close> and
  pointers, little endian, IEEE doubles). Unsigned C types are words; a signed \<open>int\<close> is a HOL
  \<open>int\<close> with its range kept by the definitions that produce it.
\<close>

type_synonym uint32 = "32 word"
type_synonym uint64 = "64 word"
type_synonym size_t = "64 word"
type_synonym ptr = "64 word"
type_synonym bytes = "char list"

definition MAX_SIZET :: nat where "MAX_SIZET = 2 ^ 64 - 1 - 2"
definition LUAI_MAXCCALLS :: int where "LUAI_MAXCCALLS = 200"

section \<open>Errors and fallible steps\<close>

datatype lua_error =
    RunError string      \<comment> \<open>\<open>luaG_runerror\<close>, \<open>luaL_error\<close>, \<open>luaL_argerror\<close>: LUA_ERRRUN\<close>
  | SyntaxError string   \<comment> \<open>\<open>luaX_lexerror\<close>, \<open>error\<close> of lundump.c: LUA_ERRSYNTAX\<close>
  | MemError string      \<comment> \<open>\<open>luaM_toobig\<close>, allocation failure: LUA_ERRMEM\<close>
  | Undefined string     \<comment> \<open>the C program's behaviour is undefined on this path\<close>

type_synonym 'a res = "lua_error + 'a"

fun rbind :: "'a res \<Rightarrow> ('a \<Rightarrow> 'b res) \<Rightarrow> 'b res" where
  "rbind (Inl e) f = Inl e"
| "rbind (Inr x) f = f x"

lemma rbind_eq_Inr [simp]: "rbind m f = Inr y \<longleftrightarrow> (\<exists>x. m = Inr x \<and> f x = Inr y)"
  by (cases m) auto

lemma rbind_eq_Inl: "rbind m f = Inl e \<longleftrightarrow> m = Inl e \<or> (\<exists>x. m = Inr x \<and> f x = Inl e)"
  by (cases m) auto

lemma rbind_case [code_unfold]: "rbind m f = (case m of Inl e \<Rightarrow> Inl e | Inr x \<Rightarrow> f x)"
  by (cases m) auto

lemma rbind_assoc: "rbind (rbind m f) g = rbind m (\<lambda>x. rbind (f x) g)"
  by (cases m) auto

lemma rbind_cong [fundef_cong]:
  "m = m' \<Longrightarrow> (\<And>x. m' = Inr x \<Longrightarrow> f x = f' x) \<Longrightarrow> rbind m f = rbind m' f'"
  by (cases m') auto

text \<open>
  Postconditions. \<open>ens r Q\<close>: if the step returns, \<open>Q\<close> holds of its value. \<open>yields E r Q\<close>: moreover, when it
  raises, the error is one of \<open>E\<close>.
\<close>

definition ens :: "'a res \<Rightarrow> ('a \<Rightarrow> bool) \<Rightarrow> bool" where
  "ens r Q = (\<forall>x. r = Inr x \<longrightarrow> Q x)"

definition yields :: "(lua_error \<Rightarrow> bool) \<Rightarrow> 'a res \<Rightarrow> ('a \<Rightarrow> bool) \<Rightarrow> bool" where
  "yields E r Q = (case r of Inl e \<Rightarrow> E e | Inr x \<Rightarrow> Q x)"

lemma ens_bind: "ens m P \<Longrightarrow> (\<And>x. P x \<Longrightarrow> ens (f x) Q) \<Longrightarrow> ens (rbind m f) Q"
  by (auto simp: ens_def)

lemma ens_simps [simp]: "ens (Inl e) Q" "ens (Inr x) Q \<longleftrightarrow> Q x"
  by (auto simp: ens_def)

lemma ens_mono: "ens r P \<Longrightarrow> (\<And>x. P x \<Longrightarrow> Q x) \<Longrightarrow> ens r Q"
  by (auto simp: ens_def)

lemma ensD: "ens r Q \<Longrightarrow> r = Inr x \<Longrightarrow> Q x"
  by (simp add: ens_def)

lemma yields_bind: "yields E m P \<Longrightarrow> (\<And>x. P x \<Longrightarrow> yields E (f x) Q) \<Longrightarrow> yields E (rbind m f) Q"
  by (cases m) (auto simp: yields_def)

lemma yields_simps [simp]: "yields E (Inl e) Q \<longleftrightarrow> E e" "yields E (Inr x) Q \<longleftrightarrow> Q x"
  by (auto simp: yields_def)

lemma yields_mono: "yields E r P \<Longrightarrow> (\<And>x. P x \<Longrightarrow> Q x) \<Longrightarrow> yields E r Q"
  by (cases r) (auto simp: yields_def)

lemma yields_if: "(c \<Longrightarrow> yields E r Q) \<Longrightarrow> (\<not> c \<Longrightarrow> yields E s Q) \<Longrightarrow> yields E (if c then r else s) Q"
  by auto

section \<open>Rule collections\<close>

named_theorems num_simps \<open>field and value equations of doubles\<close>
named_theorems op_simps \<open>definitions of the instruction-field macros\<close>
named_theorems tab_simps \<open>selectors and updates of the table model\<close>
named_theorems str_simps \<open>selectors and updates of the string table model\<close>

section \<open>Bit lengths\<close>

fun nbits :: "nat \<Rightarrow> nat" where
  "nbits n = (if n = 0 then 0 else Suc (nbits (n div 2)))"

declare nbits.simps [simp del]

lemma nbits_0 [simp]: "nbits 0 = 0"
  by (simp add: nbits.simps)

lemma nbits_pos [simp]: "0 < nbits n \<longleftrightarrow> 0 < n"
  by (cases "n = 0") (simp_all add: nbits.simps [of n])

lemma nbits_less: "n < 2 ^ nbits n"
proof (induction n rule: nbits.induct)
  case (1 n)
  show ?case
  proof (cases "n = 0")
    case False
    with 1 have "n div 2 < 2 ^ nbits (n div 2)" by simp
    then have "n < 2 * 2 ^ nbits (n div 2)" by linarith
    with False show ?thesis by (simp add: nbits.simps [of n])
  qed simp
qed

lemma nbits_le: "0 < n \<Longrightarrow> 2 ^ (nbits n - 1) \<le> n"
proof (induction n rule: nbits.induct)
  case (1 n)
  show ?case
  proof (cases "n div 2 = 0")
    case True
    with 1 have "n = 1" by linarith
    then show ?thesis by (simp add: nbits.simps [of "Suc 0"])
  next
    case False
    with 1 have "2 ^ (nbits (n div 2) - 1) \<le> n div 2" by simp
    moreover have "0 < nbits (n div 2)" using False by simp
    ultimately have "2 ^ nbits (n div 2) \<le> 2 * (n div 2)"
      by (cases "nbits (n div 2)") auto
    with 1 show ?thesis by (simp add: nbits.simps [of n])
  qed
qed

lemma nbits_le_iff: "nbits n \<le> k \<longleftrightarrow> n < 2 ^ k"
proof
  assume "nbits n \<le> k"
  then have "(2::nat) ^ nbits n \<le> 2 ^ k" by simp
  with nbits_less [of n] show "n < 2 ^ k" by linarith
next
  assume *: "n < 2 ^ k"
  show "nbits n \<le> k"
  proof (cases "n = 0")
    case False
    then have "(2::nat) ^ (nbits n - 1) < 2 ^ k" using nbits_le [of n] * by linarith
    then show ?thesis by simp
  qed simp
qed

lemma nbits_unique: "2 ^ k \<le> n \<Longrightarrow> n < 2 ^ Suc k \<Longrightarrow> nbits n = Suc k"
  using nbits_le_iff [of n k] nbits_le_iff [of n "Suc k"] by linarith

lemma nbits_div: "nbits (n div 2 ^ k) = nbits n - k"
proof (rule order_antisym)
  show "nbits (n div 2 ^ k) \<le> nbits n - k"
  proof (cases "k \<le> nbits n")
    case True
    then show ?thesis using nbits_less [of n]
      by (simp add: nbits_le_iff div_less_iff_less_mult flip: power_add)
  next
    case False
    then have "(2::nat) ^ nbits n \<le> 2 ^ k" by simp
    then have "n < 2 ^ k" using nbits_less [of n] by linarith
    then show ?thesis by simp
  qed
  have "n < 2 ^ k * 2 ^ nbits (n div 2 ^ k)"
    using nbits_less [of "n div 2 ^ k"] by (simp add: div_less_iff_less_mult mult.commute)
  then have "nbits n \<le> k + nbits (n div 2 ^ k)"
    by (simp add: nbits_le_iff power_add)
  then show "nbits n - k \<le> nbits (n div 2 ^ k)" by simp
qed

lemma or_disjoint_int:
  assumes "0 \<le> b" "b < 2 ^ n"
  shows "(a * 2 ^ n) OR b = a * 2 ^ n + (b :: int)"
proof -
  have "take_bit n b = b" using assms by (simp add: take_bit_int_eq_self)
  then have "push_bit n a OR b = push_bit n a + b"
    using concat_bit_eq [of n b a] by (simp add: concat_bit_def or.commute)
  then show ?thesis by (simp add: push_bit_eq_mult)
qed

lemma and_mask_int: "v AND 31 = v mod 32" "v AND 7 = v mod 8" for v :: int
  using take_bit_eq_mask [of 5 v] take_bit_eq_mask [of 3 v]
  by (simp_all add: take_bit_eq_mod mask_eq_exp_minus_1)

section \<open>Shifts\<close>

lemma unat_shiftr: "unat (drop_bit n (w :: 'a::len word)) = unat w div 2 ^ n"
  unfolding unat_drop_bit_eq by (simp add: drop_bit_eq_div)

lemma unat_and_mask: "unat (w AND mask n) = unat (w :: 'a::len word) mod 2 ^ n"
proof -
  have "unat (take_bit n w) = take_bit n (unat w)" by (rule unsigned_take_bit_eq)
  then show ?thesis by (simp add: take_bit_eq_mask) (simp add: take_bit_eq_mod flip: take_bit_eq_mask)
qed

lemma unat_word_of_int: "0 \<le> k \<Longrightarrow> k < 2 ^ LENGTH('a) \<Longrightarrow> unat (word_of_int k :: 'a::len word) = nat k"
  by (simp add: unsigned_of_int take_bit_int_eq_self)

section \<open>Lists\<close>

lemma set_concat_nth: "x \<in> set (concat xss) \<longleftrightarrow> (\<exists>i<length xss. x \<in> set (xss ! i))"
proof
  assume "x \<in> set (concat xss)"
  then obtain xs where "xs \<in> set xss" "x \<in> set xs" by auto
  then show "\<exists>i<length xss. x \<in> set (xss ! i)" by (metis in_set_conv_nth)
next
  assume "\<exists>i<length xss. x \<in> set (xss ! i)"
  then show "x \<in> set (concat xss)" using nth_mem by fastforce
qed

end
