(* ===== verification/Lnumber.thy ===== *)
theory Lnumber
  imports Prelude
begin

text \<open>
  \<open>lua_Number\<close> (luaconf.h): an IEEE 754 double kept as its 64 bits, because \<open>hashnum\<close>
  (ltable.c) and the precompiled-chunk format (ldump.c) look at them. A finite double is
  \<open>m * 2 ^ (e - 1074)\<close> with the integers \<open>num_mant\<close> and \<open>num_expo\<close>; arithmetic is exact on
  those integers followed by \<open>round_mag\<close>, round-to-nearest-even.
\<close>

datatype lua_Number = Dbl (dbits: uint64)

section \<open>Fields and value\<close>

definition num_sign :: "lua_Number \<Rightarrow> bool" where
  "num_sign d = (2 ^ 63 \<le> unat (dbits d))"

definition num_mag :: "lua_Number \<Rightarrow> nat" where
  "num_mag d = unat (dbits d) mod 2 ^ 63"

definition mag_nan :: "nat \<Rightarrow> bool" where
  "mag_nan n = (2047 * 2 ^ 52 < n)"

definition mag_mant :: "nat \<Rightarrow> nat" where
  "mag_mant n = (if n < 2 ^ 52 then n else 2 ^ 52 + n mod 2 ^ 52)"

definition mag_expo :: "nat \<Rightarrow> nat" where
  "mag_expo n = n div 2 ^ 52 - 1"

definition num_isnan :: "lua_Number \<Rightarrow> bool" where
  "num_isnan d = mag_nan (num_mag d)"

definition num_isinf :: "lua_Number \<Rightarrow> bool" where
  "num_isinf d = (num_mag d = 2047 * 2 ^ 52)"

definition num_finite :: "lua_Number \<Rightarrow> bool" where
  "num_finite d = (num_mag d < 2047 * 2 ^ 52)"

definition num_mant :: "lua_Number \<Rightarrow> nat" where
  "num_mant d = mag_mant (num_mag d)"

definition num_expo :: "lua_Number \<Rightarrow> nat" where
  "num_expo d = mag_expo (num_mag d)"

definition mk_num :: "bool \<Rightarrow> nat \<Rightarrow> lua_Number" where
  "mk_num s n = Dbl (word_of_nat ((if s then 2 ^ 63 else 0) + n))"

definition num_key :: "lua_Number \<Rightarrow> int" where
  "num_key d = (if num_sign d then - int (num_mag d) else int (num_mag d))"

definition num_zero :: lua_Number where "num_zero = Dbl 0"

definition num_nan :: lua_Number where "num_nan = Dbl 0xFFF8000000000000"

definition num_inf :: "bool \<Rightarrow> lua_Number" where
  "num_inf s = mk_num s (2047 * 2 ^ 52)"

section \<open>Rounding\<close>

definition rne_div :: "nat \<Rightarrow> nat \<Rightarrow> nat" where
  "rne_div a b = (let q = a div b; r = a mod b in
     if 2 * r < b \<or> 2 * r = b \<and> even q then q else q + 1)"

text \<open>
  \<open>round_mag p q\<close>: the magnitude bits of the double nearest to \<open>p / q\<close>. \<open>e\<close> is the binary
  exponent of \<open>p / q\<close>, \<open>m\<close> the significand; adding \<open>m\<close> to the exponent field makes a carry out
  of the significand increment the exponent, and overflow saturates at infinity.
\<close>

definition pow2_ge :: "nat \<Rightarrow> nat \<Rightarrow> int \<Rightarrow> bool" where
  "pow2_ge p q l = (if 0 \<le> l then q * 2 ^ nat l \<le> p else q \<le> p * 2 ^ nat (- l))"

definition round_mag :: "nat \<Rightarrow> nat \<Rightarrow> nat" where
  "round_mag p q =
     (if p = 0 then 0 else
      let l = int (nbits p) - int (nbits q);
          e = (if pow2_ge p q l then l else l - 1);
          e' = max e (- 1022);
          sh = e' - 52;
          m = (if 0 \<le> sh then rne_div p (q * 2 ^ nat sh) else rne_div (p * 2 ^ nat (- sh)) q)
      in if 1024 \<le> e' then 2047 * 2 ^ 52
         else min (nat (e' + 1022) * 2 ^ 52 + m) (2047 * 2 ^ 52))"

definition num_round :: "bool \<Rightarrow> nat \<Rightarrow> nat \<Rightarrow> lua_Number" where
  "num_round s p q = mk_num s (round_mag p q)"

section \<open>The macros of luaconf.h\<close>

definition quiet :: "lua_Number \<Rightarrow> lua_Number" where
  "quiet d = Dbl (dbits d OR 0x0008000000000000)"

definition nan_arg :: "lua_Number \<Rightarrow> lua_Number \<Rightarrow> lua_Number" where
  "nan_arg a b = (if num_isnan a then quiet a else quiet b)"

definition num_signed :: "lua_Number \<Rightarrow> int" where
  "num_signed d = (if num_sign d then - int (num_mant d) else int (num_mant d))"

definition luai_numunm :: "lua_Number \<Rightarrow> lua_Number" where
  "luai_numunm a = Dbl (dbits a XOR 0x8000000000000000)"

definition luai_numadd :: "lua_Number \<Rightarrow> lua_Number \<Rightarrow> lua_Number" where
  "luai_numadd a b =
     (if num_isnan a \<or> num_isnan b then nan_arg a b
      else if num_isinf a then (if num_isinf b \<and> num_sign a \<noteq> num_sign b then num_nan else a)
      else if num_isinf b then b
      else let e = min (num_expo a) (num_expo b);
               n = num_signed a * 2 ^ (num_expo a - e) + num_signed b * 2 ^ (num_expo b - e)
           in if n = 0 then mk_num (num_sign a \<and> num_sign b) 0
              else if e \<le> 1074 then num_round (n < 0) (nat \<bar>n\<bar>) (2 ^ (1074 - e))
              else num_round (n < 0) (nat \<bar>n\<bar> * 2 ^ (e - 1074)) 1)"

definition luai_numsub :: "lua_Number \<Rightarrow> lua_Number \<Rightarrow> lua_Number" where
  "luai_numsub a b =
     (if num_isnan a \<or> num_isnan b then nan_arg a b else luai_numadd a (luai_numunm b))"

definition luai_nummul :: "lua_Number \<Rightarrow> lua_Number \<Rightarrow> lua_Number" where
  "luai_nummul a b =
     (let s = (num_sign a \<noteq> num_sign b) in
      if num_isnan a \<or> num_isnan b then nan_arg a b
      else if num_isinf a \<or> num_isinf b then
        (if num_mag a = 0 \<or> num_mag b = 0 then num_nan else num_inf s)
      else let e = num_expo a + num_expo b in
        if e \<le> 2148 then num_round s (num_mant a * num_mant b) (2 ^ (2148 - e))
        else num_round s (num_mant a * num_mant b * 2 ^ (e - 2148)) 1)"

definition luai_numdiv :: "lua_Number \<Rightarrow> lua_Number \<Rightarrow> lua_Number" where
  "luai_numdiv a b =
     (let s = (num_sign a \<noteq> num_sign b) in
      if num_isnan a \<or> num_isnan b then nan_arg a b
      else if num_isinf a then (if num_isinf b then num_nan else num_inf s)
      else if num_isinf b then mk_num s 0
      else if num_mag b = 0 then (if num_mag a = 0 then num_nan else num_inf s)
      else num_round s (num_mant a * 2 ^ (num_expo a - num_expo b))
                       (num_mant b * 2 ^ (num_expo b - num_expo a)))"

definition luai_numeq :: "lua_Number \<Rightarrow> lua_Number \<Rightarrow> bool" where
  "luai_numeq a b = (\<not> num_isnan a \<and> \<not> num_isnan b \<and> num_key a = num_key b)"

definition luai_numlt :: "lua_Number \<Rightarrow> lua_Number \<Rightarrow> bool" where
  "luai_numlt a b = (\<not> num_isnan a \<and> \<not> num_isnan b \<and> num_key a < num_key b)"

definition luai_numle :: "lua_Number \<Rightarrow> lua_Number \<Rightarrow> bool" where
  "luai_numle a b = (\<not> num_isnan a \<and> \<not> num_isnan b \<and> num_key a \<le> num_key b)"

definition luai_numisnan :: "lua_Number \<Rightarrow> bool" where
  "luai_numisnan a = (\<not> luai_numeq a a)"

section \<open>Conversions\<close>

definition cast_num :: "int \<Rightarrow> lua_Number" where
  "cast_num k = num_round (k < 0) (nat \<bar>k\<bar>) 1"

definition num_trunc :: "lua_Number \<Rightarrow> int" where
  "num_trunc d =
     (let n = (if 1074 \<le> num_expo d then num_mant d * 2 ^ (num_expo d - 1074)
               else num_mant d div 2 ^ (1074 - num_expo d))
      in if num_sign d then - int n else int n)"

text \<open>
  \<open>(int)(d)\<close> and \<open>(lua_Integer)(d)\<close>: truncation. Out of range (and for NaN) C leaves the result
  undefined; the x86-64 conversion instruction yields the least integer of the type, which is
  what the model returns. \<open>arrayindex_any\<close> in Ltable shows that tables do not depend on it.
\<close>

definition num_conv :: "nat \<Rightarrow> lua_Number \<Rightarrow> int" where
  "num_conv w d =
     (if num_finite d \<and> - (2 ^ (w - 1)) \<le> num_trunc d \<and> num_trunc d < 2 ^ (w - 1)
      then num_trunc d else - (2 ^ (w - 1)))"

definition lua_number2int :: "lua_Number \<Rightarrow> int" where
  "lua_number2int d = num_conv 32 d"

definition lua_number2integer :: "lua_Number \<Rightarrow> int" where
  "lua_number2integer d = num_conv 64 d"

section \<open>Field lemmas\<close>

lemma mag_bounds [simp]: "num_mag d < 2 ^ 63"
  by (simp add: num_mag_def)

lemma unat_mk_num:
  assumes "n < 2 ^ 63"
  shows "unat (dbits (mk_num s n)) = (if s then 2 ^ 63 else 0) + n"
proof -
  have "(if s then 2 ^ 63 else 0) + n < 2 ^ LENGTH(64)" using assms by simp
  then have "unat (word_of_nat ((if s then 2 ^ 63 else 0) + n) :: 64 word)
      = (if s then 2 ^ 63 else 0) + n"
    unfolding unat_of_nat by (rule mod_less)
  then show ?thesis by (simp only: mk_num_def lua_Number.sel)
qed

lemma num_sign_mk [num_simps]: "n < 2 ^ 63 \<Longrightarrow> num_sign (mk_num s n) = s"
  by (simp add: num_sign_def unat_mk_num)

lemma num_mag_mk [num_simps]: "n < 2 ^ 63 \<Longrightarrow> num_mag (mk_num s n) = n"
  by (simp add: num_mag_def unat_mk_num)

lemma mk_num_sign_mag: "mk_num (num_sign d) (num_mag d) = d"
proof -
  have *: "unat (dbits d) < 2 ^ 64" using unsigned_less [of "dbits d"] by simp
  have "(if num_sign d then 2 ^ 63 else 0) + num_mag d = unat (dbits d)"
    using * by (auto simp: num_sign_def num_mag_def mod_if)
  then show ?thesis by (simp add: mk_num_def)
qed

lemma round_mag_le: "round_mag p q \<le> 2047 * 2 ^ 52"
  by (simp add: round_mag_def Let_def)

lemma round_mag_less: "round_mag p q < 2 ^ 63"
  using round_mag_le [of p q] by simp

lemma num_sign_round [num_simps]: "num_sign (num_round s p q) = s"
  and num_mag_round [num_simps]: "num_mag (num_round s p q) = round_mag p q"
  using round_mag_less [of p q] by (simp_all add: num_round_def num_sign_mk num_mag_mk)

lemma num_isnan_round [simp]: "\<not> num_isnan (num_round s p q)"
  using round_mag_le [of p q] by (simp add: num_isnan_def mag_nan_def num_mag_round)

lemma rne_div_1 [simp]: "rne_div a (Suc 0) = a"
  by (simp add: rne_div_def)

section \<open>Integers are exact\<close>

lemma round_mag_int:
  assumes "0 < p" "p < 2 ^ 53"
  defines "k \<equiv> nbits p - 1"
  shows "k \<le> 52" and "round_mag p 1 = (1022 + k) * 2 ^ 52 + p * 2 ^ (52 - k)"
    and "2 ^ 52 \<le> p * 2 ^ (52 - k)" and "p * 2 ^ (52 - k) < 2 ^ 53"
proof -
  have np: "nbits p = Suc k" using assms(1) nbits_pos [of p] by (simp add: k_def)
  show k: "k \<le> 52" using nbits_le_iff [of p 53] assms(2) np by simp
  have lo: "2 ^ k \<le> p" using nbits_le [OF assms(1)] np by simp
  have hi: "p < 2 ^ Suc k" using nbits_less [of p] np by simp
  have "2 ^ 52 = (2::nat) ^ k * 2 ^ (52 - k)" using k by (simp flip: power_add)
  also have "\<dots> \<le> p * 2 ^ (52 - k)" using lo by simp
  finally show m_lo: "2 ^ 52 \<le> p * 2 ^ (52 - k)" .
  have "p * 2 ^ (52 - k) < 2 ^ Suc k * 2 ^ (52 - k)" using hi by simp
  also have "\<dots> = 2 ^ 53" using k by (simp flip: power_add power_Suc)
  finally show m_hi: "p * 2 ^ (52 - k) < 2 ^ 53" .
  have n1: "nbits (Suc 0) = Suc 0" by (simp add: nbits.simps)
  have e: "pow2_ge p 1 (int k)" using lo by (simp add: pow2_ge_def)
  have c: "(1022 + k) * 2 ^ 52 + p * 2 ^ (52 - k) \<le> 2047 * 2 ^ 52"
    using k m_hi by simp
  have nt: "nat (int k + 1022) = 1022 + k" by simp
  show "round_mag p 1 = (1022 + k) * 2 ^ 52 + p * 2 ^ (52 - k)"
    using assms(1) e k c unfolding round_mag_def Let_def
    by (auto simp: np n1 max_def nt nat_diff_distrib simp del: power_numeral)
qed

lemma round_mag_int_fields:
  assumes "0 < p" "p < 2 ^ 53"
  shows "mag_mant (round_mag p 1) = p * 2 ^ (53 - nbits p)"
    and "mag_expo (round_mag p 1) = 1021 + nbits p"
    and "round_mag p 1 < 2047 * 2 ^ 52"
proof -
  define k m where "k = nbits p - 1" and "m = p * 2 ^ (52 - k)"
  note r = round_mag_int [OF assms, folded k_def, folded m_def]
  have np: "nbits p = Suc k" using assms(1) nbits_pos [of p] by (simp add: k_def)
  have eq: "round_mag p 1 = (1023 + k) * 2 ^ 52 + (m - 2 ^ 52)" using r(2,3) by simp
  have f: "m - 2 ^ 52 < 2 ^ 52" using r(4) by simp
  have md: "round_mag p 1 mod 2 ^ 52 = m - 2 ^ 52"
    unfolding eq using f by (metis mod_less mod_mult_self3)
  have dv: "round_mag p 1 div 2 ^ 52 = 1023 + k"
    unfolding eq using f by simp
  have "\<not> round_mag p 1 < 2 ^ 52" using dv by (auto simp: div_eq_0_iff)
  then have "mag_mant (round_mag p 1) = m" using md r(3) by (simp add: mag_mant_def)
  then show "mag_mant (round_mag p 1) = p * 2 ^ (53 - nbits p)" by (simp add: np m_def)
  show "mag_expo (round_mag p 1) = 1021 + nbits p" using dv by (simp add: mag_expo_def np)
  show "round_mag p 1 < 2047 * 2 ^ 52" using f r(1) by (simp add: eq [simplified])
qed

lemma num_trunc_cast_num:
  assumes "\<bar>k\<bar> < 2 ^ 53"
  shows "num_trunc (cast_num k) = k" and "num_finite (cast_num k)"
proof -
  define p where "p = nat \<bar>k\<bar>"
  have p: "p < 2 ^ 53" using assms by (simp add: p_def nat_less_iff)
  have k: "(if k < 0 then - int p else int p) = k" by (simp add: p_def)
  have "num_trunc (cast_num k) = k \<and> num_finite (cast_num k)"
  proof (cases "p = 0")
    case True
    then have "k = 0" using k by (simp split: if_splits)
    with True show ?thesis
      by (simp add: num_trunc_def cast_num_def num_mant_def num_expo_def num_finite_def
          num_simps p_def [symmetric] round_mag_def mag_mant_def)
  next
    case False
    then have p0: "0 < p" by simp
    note f = round_mag_int_fields [OF p0 p]
    have nb: "nbits p \<le> 53" using p nbits_le_iff by blast
    have "p * 2 ^ (53 - nbits p) div 2 ^ (1074 - (1021 + nbits p)) = p"
      using nb by simp
    then show ?thesis using k nb f
      by (auto simp: num_trunc_def cast_num_def num_mant_def num_expo_def num_finite_def
          num_simps p_def [symmetric])
  qed
  then show "num_trunc (cast_num k) = k" and "num_finite (cast_num k)" by simp_all
qed

lemma num_isnan_cast [simp]: "\<not> num_isnan (cast_num k)"
  by (simp add: cast_num_def)

lemma num_conv_cast_num:
  assumes "- (2 ^ (w - 1)) \<le> k" "k < 2 ^ (w - 1)" "\<bar>k\<bar> < 2 ^ 53"
  shows "num_conv w (cast_num k) = k"
  using assms by (simp add: num_conv_def num_trunc_cast_num)

lemma number2int_cast_num [simp]:
  "- (2 ^ 31) \<le> k \<Longrightarrow> k < 2 ^ 31 \<Longrightarrow> lua_number2int (cast_num k) = k"
  by (simp add: lua_number2int_def num_conv_cast_num)

lemma lua_number2int_range: "- (2 ^ 31) \<le> lua_number2int d \<and> lua_number2int d < 2 ^ 31"
  by (simp add: lua_number2int_def num_conv_def)

lemma num_key_eq:
  "num_key a = num_key b \<Longrightarrow> num_mag a = num_mag b \<and> (num_mag a = 0 \<or> num_sign a = num_sign b)"
  by (auto simp: num_key_def split: if_splits)

lemma num_trunc_0: "num_mag a = 0 \<Longrightarrow> num_trunc a = 0"
  by (simp add: num_trunc_def num_mant_def num_expo_def mag_mant_def mag_expo_def)

lemma num_trunc_key:
  assumes "num_key a = num_key b"
  shows "num_trunc a = num_trunc b"
proof (cases "num_mag a = 0")
  case True
  then show ?thesis using num_key_eq [OF assms] by (simp add: num_trunc_0)
next
  case False
  then have "num_mag a = num_mag b" "num_sign a = num_sign b" using num_key_eq [OF assms] by auto
  then show ?thesis by (simp only: num_trunc_def num_mant_def num_expo_def)
qed

lemma numeq_cast_num [simp]:
  assumes "\<bar>j\<bar> < 2 ^ 53" "\<bar>k\<bar> < 2 ^ 53"
  shows "luai_numeq (cast_num j) (cast_num k) \<longleftrightarrow> j = k"
proof
  assume "luai_numeq (cast_num j) (cast_num k)"
  then have "num_trunc (cast_num j) = num_trunc (cast_num k)"
    by (intro num_trunc_key) (simp add: luai_numeq_def)
  then show "j = k" by (simp only: num_trunc_cast_num(1) [OF assms(1)] num_trunc_cast_num(1) [OF assms(2)])
qed (simp add: luai_numeq_def)

section \<open>Equality is an equivalence away from NaN\<close>

lemma numeq_refl [simp]: "luai_numeq a a \<longleftrightarrow> \<not> num_isnan a"
  by (simp add: luai_numeq_def)

lemma luai_numisnan_iff [simp]: "luai_numisnan a \<longleftrightarrow> num_isnan a"
  by (simp add: luai_numisnan_def)

lemma numeq_sym: "luai_numeq a b \<Longrightarrow> luai_numeq b a"
  by (simp add: luai_numeq_def)

lemma numeq_trans: "luai_numeq a b \<Longrightarrow> luai_numeq b c \<Longrightarrow> luai_numeq a c"
  by (simp add: luai_numeq_def)

lemma numeq_bits:
  assumes "luai_numeq a b"
  shows "a = b \<or> num_mag a = 0 \<and> num_mag b = 0"
proof -
  have "num_mag a = num_mag b \<and> (num_mag a = 0 \<or> num_sign a = num_sign b)"
    using assms by (intro num_key_eq) (simp add: luai_numeq_def)
  then show ?thesis using mk_num_sign_mag [of a] mk_num_sign_mag [of b] by auto
qed

end
