(* ===== verification/Lobject.thy ===== *)
theory Lobject
  imports Lnumber
begin

text \<open>
  lobject.h and lobject.c: tagged values, raw equality, the ``floating point byte'' that
  OP_NEWTABLE uses for size hints, the table-driven \<open>luaO_log2\<close> that sizes tables, the
  power-of-two modulus \<open>lmod\<close>, and \<open>luaO_chunkid\<close>, which fills a fixed buffer with the display
  name of a chunk. The lemmas give each its arithmetical meaning and bound.
\<close>

section \<open>Tagged values\<close>

text \<open>
  \<open>'s\<close> is what stands for a string: its address in the core (tables compare strings by
  pointer), its contents in the libraries and in precompiled chunks. \<open>Vdeadkey\<close> is a key whose
  object was collected (LUA_TDEADKEY): only its old address is left.
\<close>

datatype 's TValue =
    Vnil
  | Vboolean bool
  | Vlightuserdata ptr
  | Vnumber lua_Number
  | Vstring 's
  | Vtable ptr
  | Vfunction ptr
  | Vuserdata ptr
  | Vthread ptr
  | Vdeadkey ptr

text \<open>The tags of lua.h and the extra one of lobject.h.\<close>

fun ttype :: "'s TValue \<Rightarrow> int" where
  "ttype Vnil = 0"
| "ttype (Vboolean _) = 1"
| "ttype (Vlightuserdata _) = 2"
| "ttype (Vnumber _) = 3"
| "ttype (Vstring _) = 4"
| "ttype (Vtable _) = 5"
| "ttype (Vfunction _) = 6"
| "ttype (Vuserdata _) = 7"
| "ttype (Vthread _) = 8"
| "ttype (Vdeadkey _) = 11"

definition ttisnil :: "'s TValue \<Rightarrow> bool" where
  "ttisnil v = (v = Vnil)"

lemma ttisnil_code [code]: "ttisnil v = (case v of Vnil \<Rightarrow> True | _ \<Rightarrow> False)"
  by (simp add: ttisnil_def split: TValue.splits)

definition iscollectable :: "'s TValue \<Rightarrow> bool" where
  "iscollectable v = (4 \<le> ttype v)"

definition l_isfalse :: "'s TValue \<Rightarrow> bool" where
  "l_isfalse v = (v = Vnil \<or> v = Vboolean False)"

definition luaO_rawequalObj :: "'s TValue \<Rightarrow> 's TValue \<Rightarrow> bool" where
  "luaO_rawequalObj t1 t2 =
     (if ttype t1 \<noteq> ttype t2 then False
      else case t1 of
          Vnil \<Rightarrow> True
        | Vnumber a \<Rightarrow> (case t2 of Vnumber b \<Rightarrow> luai_numeq a b | _ \<Rightarrow> False)
        | Vboolean a \<Rightarrow> (case t2 of Vboolean b \<Rightarrow> a = b | _ \<Rightarrow> False)
        | Vlightuserdata a \<Rightarrow> (case t2 of Vlightuserdata b \<Rightarrow> a = b | _ \<Rightarrow> False)
        | _ \<Rightarrow> t1 = t2)"

lemma rawequalObj_cases:
  "luaO_rawequalObj v w \<longleftrightarrow> (\<exists>a b. v = Vnumber a \<and> w = Vnumber b \<and> luai_numeq a b) \<or>
     v = w \<and> (\<forall>a. v \<noteq> Vnumber a)"
  by (cases v; cases w) (auto simp: luaO_rawequalObj_def)

lemma rawequalObj_sym: "luaO_rawequalObj v w \<Longrightarrow> luaO_rawequalObj w v"
  by (auto simp: rawequalObj_cases numeq_sym)

lemma rawequalObj_trans:
  "luaO_rawequalObj u v \<Longrightarrow> luaO_rawequalObj v w \<Longrightarrow> luaO_rawequalObj u w"
  by (auto simp: rawequalObj_cases intro: numeq_trans)

lemma rawequalObj_refl: "luaO_rawequalObj v v \<longleftrightarrow> (\<forall>a. v = Vnumber a \<longrightarrow> \<not> num_isnan a)"
  by (auto simp: rawequalObj_cases)

section \<open>Floating point bytes\<close>

lemma unat_shift1_less:
  assumes "16 \<le> (x :: uint32)"
  shows "unat (drop_bit 1 (x + 1)) < unat x"
proof -
  have "unat (x + 1) \<le> unat x + 1" by (simp add: unat_word_ariths)
  moreover have "16 \<le> unat x" using assms by (simp add: word_le_nat_alt)
  ultimately show ?thesis by (simp add: unat_shiftr)
qed

function int2fb_loop :: "uint32 \<Rightarrow> nat \<Rightarrow> uint32 \<times> nat" where
  "int2fb_loop x e = (if 16 \<le> x then int2fb_loop (drop_bit 1 (x + 1)) (e + 1) else (x, e))"
  by pat_completeness auto
termination
  by (relation "measure (\<lambda>(x, e). unat x)") (auto simp: unat_shift1_less [simplified])

declare int2fb_loop.simps [simp del]

definition luaO_int2fb :: "uint32 \<Rightarrow> int" where
  "luaO_int2fb x =
     (let (y, e) = int2fb_loop x 0
      in if y < 8 then uint y
         else ((int e + 1) * 8) OR (uint y - 8))"

definition luaO_fb2int :: "int \<Rightarrow> int" where
  "luaO_fb2int x =
     (let e = (x div 8) AND 31
      in if e = 0 then x else ((x AND 7) + 8) * 2 ^ nat (e - 1))"

section \<open>Logarithms and the power-of-two modulus\<close>

definition log_2 :: "int list" where
  "log_2 = [0, 1] @ replicate 2 2 @ replicate 4 3 @ replicate 8 4 @ replicate 16 5 @
     replicate 32 6 @ replicate 64 7 @ replicate 128 8"

function log2_loop :: "uint32 \<Rightarrow> int \<Rightarrow> uint32 \<times> int" where
  "log2_loop x l = (if 256 \<le> x then log2_loop (drop_bit 8 x) (l + 8) else (x, l))"
  by pat_completeness auto
termination
proof (relation "measure (\<lambda>(x, l). unat x)")
  fix x :: uint32 and l :: int
  assume "256 \<le> x"
  then have "256 \<le> unat x" by (simp add: word_le_nat_alt)
  then show "((drop_bit 8 x, l + 8), x, l) \<in> measure (\<lambda>(x, l). unat x)"
    by (simp add: unat_shiftr)
qed simp

declare log2_loop.simps [simp del]

definition luaO_log2 :: "uint32 \<Rightarrow> int" where
  "luaO_log2 x = (let (y, l) = log2_loop x (- 1) in l + log_2 ! unat y)"

definition ceillog2 :: "int \<Rightarrow> int" where
  "ceillog2 x = luaO_log2 (word_of_int (x - 1)) + 1"

definition twoto :: "nat \<Rightarrow> nat" where
  "twoto x = 2 ^ x"

text \<open>\<open>lmod(s, size)\<close>: the bitwise form; \<open>lmod_eq_mod\<close> is the check its \<open>check_exp\<close> makes.\<close>

definition lmod :: "uint32 \<Rightarrow> nat \<Rightarrow> nat" where
  "lmod s sz = unat (s AND (word_of_nat sz - 1))"

section \<open>Chunk names\<close>

definition strcspn_nl :: "string \<Rightarrow> nat" where
  "strcspn_nl s = length (takeWhile (\<lambda>c. c \<noteq> CHR 0x0A \<and> c \<noteq> CHR 0x0D) s)"

text \<open>
  \<open>source\<close> is the C string without its terminator and the result the C string left in \<open>out\<close>.
  The literals' sizes (8 and 17) count the terminating zero, as \<open>sizeof\<close> does.
\<close>

definition luaO_chunkid :: "string \<Rightarrow> nat \<Rightarrow> string" where
  "luaO_chunkid source bufflen =
     (if source \<noteq> [] \<and> hd source = CHR ''='' then take (bufflen - 1) (tl source)
      else if source \<noteq> [] \<and> hd source = CHR ''@'' then
        let src = tl source; b = bufflen - 8; l = length src
        in if b < l then ''...'' @ drop (l - b) src else src
      else
        let b = bufflen - 17; len = min (strcspn_nl source) b
        in ''[string '' @ [CHR 0x22] @
           (if len < length source then take len source @ ''...'' else source) @
           [CHR 0x22] @ '']'')"

section \<open>Lemmas\<close>

lemma lmod_eq_mod:
  assumes "sz = 2 ^ k" "k < 32"
  shows "lmod s sz = unat s mod sz"
proof -
  have "word_of_nat sz - 1 = (mask k :: uint32)"
    by (simp add: assms(1) mask_eq_exp_minus_1)
  then show ?thesis by (simp add: lmod_def unat_and_mask) (simp add: assms(1))
qed

lemma lmod_less: "sz = 2 ^ k \<Longrightarrow> k < 32 \<Longrightarrow> lmod s sz < sz"
  by (simp add: lmod_eq_mod)

subsection \<open>Floating point bytes round up, by less than one part in seven\<close>

lemma int2fb_loop_spec:
  assumes "int2fb_loop x e = (y, e')" "unat x < 2 ^ 32 - 1"
  shows "e \<le> e' \<and> unat y < 16 \<and> unat x \<le> unat y * 2 ^ (e' - e) \<and>
    unat y * 2 ^ (e' - e) < unat x + 2 ^ (e' - e) \<and> (e < e' \<longrightarrow> 8 \<le> unat y)"
  using assms
proof (induction x e arbitrary: y e' rule: int2fb_loop.induct)
  case (1 x e)
  show ?case
  proof (cases "16 \<le> x")
    case False
    then show ?thesis using 1 by (simp add: int2fb_loop.simps word_le_nat_alt)
  next
    case True
    define x' where "x' = drop_bit 1 (x + 1)"
    have x16: "16 \<le> unat x" using True by (simp add: word_le_nat_alt)
    have ux: "unat x' = (unat x + 1) div 2"
      using "1.prems"(2) by (simp add: x'_def unat_shiftr unat_word_ariths)
    have loop: "int2fb_loop x' (e + 1) = (y, e')"
      using "1.prems"(1) True by (simp add: int2fb_loop.simps [of x] x'_def)
    have "unat x' < 2 ^ 32 - 1" using ux "1.prems"(2) by simp
    with 1 True loop have IH: "e + 1 \<le> e' \<and> unat y < 16 \<and> unat x' \<le> unat y * 2 ^ (e' - (e + 1)) \<and>
        unat y * 2 ^ (e' - (e + 1)) < unat x' + 2 ^ (e' - (e + 1)) \<and> (e + 1 < e' \<longrightarrow> 8 \<le> unat y)"
      unfolding x'_def by blast
    define k where "k = e' - (e + 1)"
    have k: "e' - e = Suc k" using IH unfolding k_def by linarith
    have y8: "8 \<le> unat y"
    proof (cases "e + 1 < e'")
      case False
      then have "unat x' \<le> unat y" using IH by simp
      then show ?thesis using ux x16 by linarith
    qed (use IH in blast)
    have "unat x \<le> 2 * unat x'" "2 * unat x' \<le> unat x + 1" using ux by linarith+
    with IH y8 show ?thesis unfolding k power_Suc k_def [symmetric] by auto
  qed
qed

lemma fb2int_encode:
  assumes "8 \<le> y" "y < 16" "k < 31"
  shows "luaO_fb2int (((int k + 1) * 8) OR (int y - 8)) = int y * 2 ^ k"
proof -
  have enc: "((int k + 1) * 8) OR (int y - 8) = (int k + 1) * 8 + (int y - 8)"
    using or_disjoint_int [of "int y - 8" 3 "int k + 1"] assms by simp
  have z: "(int y - 8) div 8 = 0" "(int y - 8) mod 8 = int y - 8"
    using assms by (intro div_pos_pos_trivial mod_pos_pos_trivial; simp)+
  have d: "((int k + 1) * 8 + (int y - 8)) div 8 = int k + 1"
    using z(1) div_mult_self3 [of 8 "int k + 1" "int y - 8"] by simp
  have "((int k + 1) * 8 + (int y - 8)) mod 8 = int y - 8"
    using z(2) mod_mult_self3 [of "int k + 1" 8 "int y - 8"] by simp
  moreover have "(int k + 1) mod 32 = int k + 1" using assms by simp
  ultimately show ?thesis using assms unfolding luaO_fb2int_def enc and_mask_int d Let_def by simp
qed

lemma int2fb_value:
  assumes "unat x < 2 ^ 32 - 1"
  obtains k where "unat x \<le> nat (luaO_fb2int (luaO_int2fb x))"
    "nat (luaO_fb2int (luaO_int2fb x)) < unat x + 2 ^ k"
    "k = 0 \<or> 7 * 2 ^ k < unat x" "0 \<le> luaO_int2fb x" "luaO_int2fb x < 256"
proof -
  obtain y e where loop: "int2fb_loop x 0 = (y, e)" by fastforce
  note sp = int2fb_loop_spec [OF loop assms, simplified]
  show thesis
  proof (cases "unat y < 8")
    case True
    define n where "n = unat y"
    have "unat x = n" using sp True by (cases e) (auto simp: n_def)
    moreover have "luaO_int2fb x = int n" using True
      by (simp add: luaO_int2fb_def loop word_less_nat_alt n_def)
    moreover have n8: "n < 8" using True by (simp add: n_def)
    moreover have "luaO_fb2int (int n) = int n" using n8 by (simp add: luaO_fb2int_def Let_def)
    ultimately show thesis by (intro that [of 0]) simp_all
  next
    case False
    define n where "n = unat y"
    have n: "8 \<le> n" "n < 16" "unat x \<le> n * 2 ^ e" "n * 2 ^ e < unat x + 2 ^ e"
      using sp False by (auto simp: n_def)
    have "8 * 2 ^ e \<le> n * 2 ^ e" using n by simp
    then have x7: "7 * 2 ^ e < unat x" using n by linarith
    then have "2 ^ e < (2::nat) ^ 30" using assms by simp
    then have e30: "e < 30" by (rule power_less_imp_less_exp [rotated]) simp
    have fb: "luaO_int2fb x = ((int e + 1) * 8) OR (int n - 8)" using False
      by (simp add: luaO_int2fb_def loop word_less_nat_alt n_def)
    have "((int e + 1) * 8) OR (int n - 8) = (int e + 1) * 8 + (int n - 8)"
      using or_disjoint_int [of "int n - 8" 3 "int e + 1"] n by simp
    then have "0 \<le> luaO_int2fb x" "luaO_int2fb x < 256" using fb n e30 by simp_all
    moreover have "luaO_fb2int (luaO_int2fb x) = int n * 2 ^ e"
      unfolding fb using n e30 by (intro fb2int_encode) auto
    moreover have "nat (int n * 2 ^ e) = n * 2 ^ e"
      by (metis nat_int of_nat_mult of_nat_numeral of_nat_power)
    ultimately show thesis using n x7 by (intro that [of e]) simp_all
  qed
qed

subsection \<open>The logarithm table\<close>

lemma log_2_table: "n < 256 \<Longrightarrow> log_2 ! n = int (nbits n)"
proof -
  assume "n < 256"
  then consider "n = 0" | "n = 1" | "2 \<le> n \<and> n < 4" | "4 \<le> n \<and> n < 8" | "8 \<le> n \<and> n < 16" |
    "16 \<le> n \<and> n < 32" | "32 \<le> n \<and> n < 64" | "64 \<le> n \<and> n < 128" | "128 \<le> n \<and> n < 256"
    by linarith
  then show "log_2 ! n = int (nbits n)"
    using nbits_unique [of 0 n] nbits_unique [of 1 n] nbits_unique [of 2 n] nbits_unique [of 3 n]
      nbits_unique [of 4 n] nbits_unique [of 5 n] nbits_unique [of 6 n] nbits_unique [of 7 n]
    by cases (auto simp: log_2_def nth_append nth_Cons')
qed

lemma log2_loop_spec:
  "log2_loop x l = (y, l') \<Longrightarrow> unat y < 256 \<and> l' + int (nbits (unat y)) = l + int (nbits (unat x))"
proof (induction x l arbitrary: y l' rule: log2_loop.induct)
  case (1 x l)
  show ?case
  proof (cases "256 \<le> x")
    case False
    then show ?thesis using 1 by (simp add: log2_loop.simps [of x] word_le_nat_alt)
  next
    case True
    then have "256 \<le> unat x" by (simp add: word_le_nat_alt)
    then have "8 \<le> nbits (unat x)" using nbits_le_iff [of "unat x" 8] by simp
    moreover have "nbits (unat (drop_bit 8 x)) = nbits (unat x) - 8"
      using nbits_div [of "unat x" 8] by (simp add: unat_shiftr)
    ultimately show ?thesis using 1 True by (simp add: log2_loop.simps [of x])
  qed
qed

lemma luaO_log2_nbits: "luaO_log2 x = int (nbits (unat x)) - 1"
proof -
  obtain y l where "log2_loop x (- 1) = (y, l)" by fastforce
  with log2_loop_spec [OF this] show ?thesis by (simp add: luaO_log2_def log_2_table)
qed

lemma ceillog2_spec:
  assumes "1 \<le> k" "k < 2 ^ 32"
  shows "0 \<le> ceillog2 k" "k \<le> 2 ^ nat (ceillog2 k)" "2 ^ nat (ceillog2 k) < 2 * k"
proof -
  have u: "unat (word_of_int (k - 1) :: uint32) = nat (k - 1)"
    using assms by (intro unat_word_of_int) simp_all
  then have c: "ceillog2 k = int (nbits (nat (k - 1)))"
    by (simp add: ceillog2_def luaO_log2_nbits)
  then show "0 \<le> ceillog2 k" by simp
  have "nat (k - 1) < 2 ^ nbits (nat (k - 1))" by (rule nbits_less)
  then have "k - 1 < 2 ^ nbits (nat (k - 1))" using assms by (simp add: nat_less_iff)
  then show "k \<le> 2 ^ nat (ceillog2 k)" by (simp add: c)
  show "2 ^ nat (ceillog2 k) < 2 * k"
  proof (cases "k = 1")
    case False
    then have p: "0 < nat (k - 1)" using assms by simp
    then have "2 ^ (nbits (nat (k - 1)) - 1) \<le> nat (k - 1)" by (rule nbits_le)
    then have "2 * 2 ^ (nbits (nat (k - 1)) - 1) \<le> 2 * (k - 1)" using assms by (simp add: le_nat_iff)
    moreover have "2 * 2 ^ (nbits (nat (k - 1)) - 1) = (2::int) ^ nbits (nat (k - 1))"
      using p nbits_pos [of "nat (k - 1)"] by (cases "nbits (nat (k - 1))") auto
    ultimately show ?thesis by (simp add: c)
  qed (use c in simp)
qed

subsection \<open>Chunk names fit their buffer\<close>

lemma luaO_chunkid_length:
  assumes "17 \<le> bufflen"
  shows "length (luaO_chunkid source bufflen) < bufflen"
  using assms by (auto simp: luaO_chunkid_def Let_def strcspn_nl_def)

end
