(* ===== verification/Lopcodes.thy ===== *)
theory Lopcodes
  imports Lobject
begin

text \<open>
  lopcodes.h and lopcodes.c: the 32-bit instruction word. Every field macro is translated as
  written, on masks and shifts. The interface \<open>bit_field\<close> states what a get/set pair of macros
  promises, \<open>bit_fields2\<close> that two of them do not touch each other; both are interpreted for
  the macros, and the encode/decode theorems are read off the interpretations.
\<close>

type_synonym Instruction = uint32

section \<open>Field sizes and positions\<close>

definition SIZE_C :: nat where "SIZE_C = 9"
definition SIZE_B :: nat where "SIZE_B = 9"
definition SIZE_Bx :: nat where "SIZE_Bx = SIZE_C + SIZE_B"
definition SIZE_A :: nat where "SIZE_A = 8"
definition SIZE_OP :: nat where "SIZE_OP = 6"
definition POS_OP :: nat where "POS_OP = 0"
definition POS_A :: nat where "POS_A = POS_OP + SIZE_OP"
definition POS_C :: nat where "POS_C = POS_A + SIZE_A"
definition POS_B :: nat where "POS_B = POS_C + SIZE_C"
definition POS_Bx :: nat where "POS_Bx = POS_C"

lemmas field_sizes [op_simps] =
  SIZE_C_def SIZE_B_def SIZE_Bx_def SIZE_A_def SIZE_OP_def
  POS_OP_def POS_A_def POS_C_def POS_B_def POS_Bx_def

definition MAXARG_Bx :: int where "MAXARG_Bx = 2 ^ SIZE_Bx - 1"
definition MAXARG_sBx :: int where "MAXARG_sBx = MAXARG_Bx div 2"
definition MAXARG_A :: int where "MAXARG_A = 2 ^ SIZE_A - 1"
definition MAXARG_B :: int where "MAXARG_B = 2 ^ SIZE_B - 1"
definition MAXARG_C :: int where "MAXARG_C = 2 ^ SIZE_C - 1"

section \<open>The macros\<close>

definition MASK1 :: "nat \<Rightarrow> nat \<Rightarrow> Instruction" where
  "MASK1 n p = push_bit p (NOT (push_bit n (NOT 0)))"

definition MASK0 :: "nat \<Rightarrow> nat \<Rightarrow> Instruction" where
  "MASK0 n p = NOT (MASK1 n p)"

definition GET_OPCODE :: "Instruction \<Rightarrow> int" where
  "GET_OPCODE i = uint (drop_bit POS_OP i AND MASK1 SIZE_OP 0)"

definition SET_OPCODE :: "Instruction \<Rightarrow> int \<Rightarrow> Instruction" where
  "SET_OPCODE i o' = (i AND MASK0 SIZE_OP POS_OP) OR
     (push_bit POS_OP (word_of_int o') AND MASK1 SIZE_OP POS_OP)"

definition GETARG_A :: "Instruction \<Rightarrow> int" where
  "GETARG_A i = uint (drop_bit POS_A i AND MASK1 SIZE_A 0)"

definition SETARG_A :: "Instruction \<Rightarrow> int \<Rightarrow> Instruction" where
  "SETARG_A i u = (i AND MASK0 SIZE_A POS_A) OR
     (push_bit POS_A (word_of_int u) AND MASK1 SIZE_A POS_A)"

definition GETARG_B :: "Instruction \<Rightarrow> int" where
  "GETARG_B i = uint (drop_bit POS_B i AND MASK1 SIZE_B 0)"

definition SETARG_B :: "Instruction \<Rightarrow> int \<Rightarrow> Instruction" where
  "SETARG_B i u = (i AND MASK0 SIZE_B POS_B) OR
     (push_bit POS_B (word_of_int u) AND MASK1 SIZE_B POS_B)"

definition GETARG_C :: "Instruction \<Rightarrow> int" where
  "GETARG_C i = uint (drop_bit POS_C i AND MASK1 SIZE_C 0)"

definition SETARG_C :: "Instruction \<Rightarrow> int \<Rightarrow> Instruction" where
  "SETARG_C i u = (i AND MASK0 SIZE_C POS_C) OR
     (push_bit POS_C (word_of_int u) AND MASK1 SIZE_C POS_C)"

definition GETARG_Bx :: "Instruction \<Rightarrow> int" where
  "GETARG_Bx i = uint (drop_bit POS_Bx i AND MASK1 SIZE_Bx 0)"

definition SETARG_Bx :: "Instruction \<Rightarrow> int \<Rightarrow> Instruction" where
  "SETARG_Bx i u = (i AND MASK0 SIZE_Bx POS_Bx) OR
     (push_bit POS_Bx (word_of_int u) AND MASK1 SIZE_Bx POS_Bx)"

definition GETARG_sBx :: "Instruction \<Rightarrow> int" where
  "GETARG_sBx i = GETARG_Bx i - MAXARG_sBx"

definition SETARG_sBx :: "Instruction \<Rightarrow> int \<Rightarrow> Instruction" where
  "SETARG_sBx i b = SETARG_Bx i (b + MAXARG_sBx)"

definition CREATE_ABC :: "int \<Rightarrow> int \<Rightarrow> int \<Rightarrow> int \<Rightarrow> Instruction" where
  "CREATE_ABC o' a b c =
     push_bit POS_OP (word_of_int o') OR push_bit POS_A (word_of_int a) OR
     push_bit POS_B (word_of_int b) OR push_bit POS_C (word_of_int c)"

definition CREATE_ABx :: "int \<Rightarrow> int \<Rightarrow> int \<Rightarrow> Instruction" where
  "CREATE_ABx o' a bc =
     push_bit POS_OP (word_of_int o') OR push_bit POS_A (word_of_int a) OR
     push_bit POS_Bx (word_of_int bc)"

definition BITRK :: int where "BITRK = 2 ^ (SIZE_B - 1)"
definition ISK :: "int \<Rightarrow> bool" where "ISK x = (x AND BITRK \<noteq> 0)"
definition INDEXK :: "int \<Rightarrow> int" where "INDEXK r = r AND NOT BITRK"
definition MAXINDEXRK :: int where "MAXINDEXRK = BITRK - 1"
definition RKASK :: "int \<Rightarrow> int" where "RKASK x = x OR BITRK"
definition NO_REG :: int where "NO_REG = MAXARG_A"
definition LFIELDS_PER_FLUSH :: int where "LFIELDS_PER_FLUSH = 50"

section \<open>Opcodes and their modes\<close>

datatype OpCode =
     OP_MOVE | OP_LOADK | OP_LOADBOOL | OP_LOADNIL | OP_GETUPVAL | OP_GETGLOBAL |
     OP_GETTABLE | OP_SETGLOBAL | OP_SETUPVAL | OP_SETTABLE | OP_NEWTABLE | OP_SELF |
     OP_ADD | OP_SUB | OP_MUL | OP_DIV | OP_MOD | OP_POW | OP_UNM | OP_NOT | OP_LEN |
     OP_CONCAT | OP_JMP | OP_EQ | OP_LT | OP_LE | OP_TEST | OP_TESTSET | OP_CALL |
     OP_TAILCALL | OP_RETURN | OP_FORLOOP | OP_FORPREP | OP_TFORLOOP | OP_SETLIST |
     OP_CLOSE | OP_CLOSURE | OP_VARARG

definition opcodes :: "OpCode list" where
  "opcodes = [
     OP_MOVE, OP_LOADK, OP_LOADBOOL, OP_LOADNIL, OP_GETUPVAL, OP_GETGLOBAL, OP_GETTABLE,
     OP_SETGLOBAL, OP_SETUPVAL, OP_SETTABLE, OP_NEWTABLE, OP_SELF, OP_ADD, OP_SUB, OP_MUL,
     OP_DIV, OP_MOD, OP_POW, OP_UNM, OP_NOT, OP_LEN, OP_CONCAT, OP_JMP, OP_EQ, OP_LT,
     OP_LE, OP_TEST, OP_TESTSET, OP_CALL, OP_TAILCALL, OP_RETURN, OP_FORLOOP, OP_FORPREP,
     OP_TFORLOOP, OP_SETLIST, OP_CLOSE, OP_CLOSURE, OP_VARARG]"

fun op_num :: "OpCode \<Rightarrow> int" where
  "op_num OP_MOVE = 0"
| "op_num OP_LOADK = 1"
| "op_num OP_LOADBOOL = 2"
| "op_num OP_LOADNIL = 3"
| "op_num OP_GETUPVAL = 4"
| "op_num OP_GETGLOBAL = 5"
| "op_num OP_GETTABLE = 6"
| "op_num OP_SETGLOBAL = 7"
| "op_num OP_SETUPVAL = 8"
| "op_num OP_SETTABLE = 9"
| "op_num OP_NEWTABLE = 10"
| "op_num OP_SELF = 11"
| "op_num OP_ADD = 12"
| "op_num OP_SUB = 13"
| "op_num OP_MUL = 14"
| "op_num OP_DIV = 15"
| "op_num OP_MOD = 16"
| "op_num OP_POW = 17"
| "op_num OP_UNM = 18"
| "op_num OP_NOT = 19"
| "op_num OP_LEN = 20"
| "op_num OP_CONCAT = 21"
| "op_num OP_JMP = 22"
| "op_num OP_EQ = 23"
| "op_num OP_LT = 24"
| "op_num OP_LE = 25"
| "op_num OP_TEST = 26"
| "op_num OP_TESTSET = 27"
| "op_num OP_CALL = 28"
| "op_num OP_TAILCALL = 29"
| "op_num OP_RETURN = 30"
| "op_num OP_FORLOOP = 31"
| "op_num OP_FORPREP = 32"
| "op_num OP_TFORLOOP = 33"
| "op_num OP_SETLIST = 34"
| "op_num OP_CLOSE = 35"
| "op_num OP_CLOSURE = 36"
| "op_num OP_VARARG = 37"

lemma opcodes_num: "opcodes ! nat (op_num x) = x"
  by (cases x) (simp_all add: opcodes_def)

lemma op_num_inject: "op_num x = op_num y \<longleftrightarrow> x = y"
  by (metis opcodes_num)

lemma equal_OpCode_code [code]: "HOL.equal x y \<longleftrightarrow> op_num x = op_num y"
  by (simp add: equal_eq op_num_inject)

definition NUM_OPCODES :: int where "NUM_OPCODES = op_num OP_VARARG + 1"

text \<open>\<open>cast(OpCode, n)\<close>: the enumerator with value \<open>n\<close>, when there is one.\<close>

definition cast_OpCode :: "int \<Rightarrow> OpCode option" where
  "cast_OpCode n = (if 0 \<le> n \<and> n < NUM_OPCODES then Some (opcodes ! nat n) else None)"

definition luaP_opnames :: "string list" where
  "luaP_opnames = [
     ''MOVE'', ''LOADK'', ''LOADBOOL'', ''LOADNIL'', ''GETUPVAL'', ''GETGLOBAL'',
     ''GETTABLE'', ''SETGLOBAL'', ''SETUPVAL'', ''SETTABLE'', ''NEWTABLE'', ''SELF'',
     ''ADD'', ''SUB'', ''MUL'', ''DIV'', ''MOD'', ''POW'', ''UNM'', ''NOT'', ''LEN'',
     ''CONCAT'', ''JMP'', ''EQ'', ''LT'', ''LE'', ''TEST'', ''TESTSET'', ''CALL'',
     ''TAILCALL'', ''RETURN'', ''FORLOOP'', ''FORPREP'', ''TFORLOOP'', ''SETLIST'',
     ''CLOSE'', ''CLOSURE'', ''VARARG'']"

datatype OpMode = iABC | iABx | iAsBx

datatype OpArgMask = OpArgN | OpArgU | OpArgR | OpArgK

fun mode_num :: "OpMode \<Rightarrow> int" where
  "mode_num iABC = 0" | "mode_num iABx = 1" | "mode_num iAsBx = 2"

fun arg_num :: "OpArgMask \<Rightarrow> int" where
  "arg_num OpArgN = 0" | "arg_num OpArgU = 1" | "arg_num OpArgR = 2" | "arg_num OpArgK = 3"

definition opmode :: "int \<Rightarrow> int \<Rightarrow> OpArgMask \<Rightarrow> OpArgMask \<Rightarrow> OpMode \<Rightarrow> int" where
  "opmode t a b c m =
     push_bit 7 t OR push_bit 6 a OR push_bit 4 (arg_num b) OR push_bit 2 (arg_num c) OR mode_num m"

definition luaP_opmodes :: "int list" where
  "luaP_opmodes = [
     opmode 0 1 OpArgR OpArgN iABC, opmode 0 1 OpArgK OpArgN iABx,
     opmode 0 1 OpArgU OpArgU iABC, opmode 0 1 OpArgR OpArgN iABC,
     opmode 0 1 OpArgU OpArgN iABC, opmode 0 1 OpArgK OpArgN iABx,
     opmode 0 1 OpArgR OpArgK iABC, opmode 0 0 OpArgK OpArgN iABx,
     opmode 0 0 OpArgU OpArgN iABC, opmode 0 0 OpArgK OpArgK iABC,
     opmode 0 1 OpArgU OpArgU iABC, opmode 0 1 OpArgR OpArgK iABC,
     opmode 0 1 OpArgK OpArgK iABC, opmode 0 1 OpArgK OpArgK iABC,
     opmode 0 1 OpArgK OpArgK iABC, opmode 0 1 OpArgK OpArgK iABC,
     opmode 0 1 OpArgK OpArgK iABC, opmode 0 1 OpArgK OpArgK iABC,
     opmode 0 1 OpArgR OpArgN iABC, opmode 0 1 OpArgR OpArgN iABC,
     opmode 0 1 OpArgR OpArgN iABC, opmode 0 1 OpArgR OpArgR iABC,
     opmode 0 0 OpArgR OpArgN iAsBx, opmode 1 0 OpArgK OpArgK iABC,
     opmode 1 0 OpArgK OpArgK iABC, opmode 1 0 OpArgK OpArgK iABC,
     opmode 1 1 OpArgR OpArgU iABC, opmode 1 1 OpArgR OpArgU iABC,
     opmode 0 1 OpArgU OpArgU iABC, opmode 0 1 OpArgU OpArgU iABC,
     opmode 0 0 OpArgU OpArgN iABC, opmode 0 1 OpArgR OpArgN iAsBx,
     opmode 0 1 OpArgR OpArgN iAsBx, opmode 1 0 OpArgN OpArgU iABC,
     opmode 0 0 OpArgU OpArgU iABC, opmode 0 0 OpArgN OpArgN iABC,
     opmode 0 1 OpArgU OpArgN iABx, opmode 0 1 OpArgU OpArgN iABC]"

lemma luaP_opmodes_code [code]:
  "luaP_opmodes = [
     96, 113, 84, 96, 80, 113, 108, 49, 16, 60, 84, 108, 124, 124, 124, 124, 124, 124, 96, 96,
     96, 104, 34, 188, 188, 188, 228, 228, 84, 84, 16, 98, 98, 132, 20, 0, 81, 80]"
  unfolding luaP_opmodes_def by code_simp

definition getOpMode :: "int \<Rightarrow> OpMode" where
  "getOpMode m = [iABC, iABx, iAsBx] ! nat (luaP_opmodes ! nat m AND 3)"

definition getBMode :: "int \<Rightarrow> OpArgMask" where
  "getBMode m = [OpArgN, OpArgU, OpArgR, OpArgK] ! nat (drop_bit 4 (luaP_opmodes ! nat m) AND 3)"

definition getCMode :: "int \<Rightarrow> OpArgMask" where
  "getCMode m = [OpArgN, OpArgU, OpArgR, OpArgK] ! nat (drop_bit 2 (luaP_opmodes ! nat m) AND 3)"

definition testAMode :: "int \<Rightarrow> bool" where
  "testAMode m = (luaP_opmodes ! nat m AND 2 ^ 6 \<noteq> 0)"

definition testTMode :: "int \<Rightarrow> bool" where
  "testTMode m = (luaP_opmodes ! nat m AND 2 ^ 7 \<noteq> 0)"

section \<open>The contract of a field\<close>

text \<open>
  A field occupies \<open>len\<close> bits from \<open>pos\<close>. Its reader sees exactly these bits, its writer
  replaces exactly these bits by the low bits of its argument.
\<close>

locale bit_field =
  fixes pos len :: nat
    and get :: "Instruction \<Rightarrow> int"
    and set :: "Instruction \<Rightarrow> int \<Rightarrow> Instruction"
  assumes inside: "pos + len \<le> 32"
    and get_bits: "bit (get i) n \<longleftrightarrow> n < len \<and> bit i (pos + n)"
    and set_bits: "n < 32 \<Longrightarrow> bit (set i u) n \<longleftrightarrow>
      (if pos \<le> n \<and> n < pos + len then bit u (n - pos) else bit i n)"
begin

lemma get_set: "get (set i u) = take_bit len u"
  using inside by (auto intro!: bit_eqI simp: get_bits set_bits bit_take_bit_iff)

lemma get_set_small: "0 \<le> u \<Longrightarrow> u < 2 ^ len \<Longrightarrow> get (set i u) = u"
  by (simp add: get_set take_bit_int_eq_self)

lemma set_get: "set i (get i) = i"
  using inside by (auto intro!: bit_word_eqI simp: get_bits set_bits split: if_splits)

lemma set_set: "set (set i u) v = set i v"
  by (auto intro!: bit_word_eqI simp: set_bits)

lemma get_take_bit: "get i = take_bit len (get i)"
  by (auto intro!: bit_eqI simp: get_bits bit_take_bit_iff)

lemma get_nonneg: "0 \<le> get i"
  by (subst get_take_bit) simp

lemma get_less: "get i < 2 ^ len"
  by (subst get_take_bit) simp

end

locale bit_fields2 =
  f: bit_field pos1 len1 get1 set1 + g: bit_field pos2 len2 get2 set2
  for pos1 len1 get1 set1 pos2 len2 get2 set2 +
  assumes apart: "pos1 + len1 \<le> pos2 \<or> pos2 + len2 \<le> pos1"
begin

lemma get1_set2: "get1 (set2 i u) = get1 i"
  using apart f.inside by (auto intro!: bit_eqI simp: f.get_bits g.set_bits)

lemma get2_set1: "get2 (set1 i u) = get2 i"
  using apart g.inside by (auto intro!: bit_eqI simp: g.get_bits f.set_bits)

end

section \<open>The macros keep it\<close>

lemma bit_MASK1: "n < 32 \<Longrightarrow> bit (MASK1 k p) n \<longleftrightarrow> p \<le> n \<and> n < p + k"
  by (auto simp: MASK1_def bit_push_bit_iff bit_mask_iff)

lemma bit_MASK0: "n < 32 \<Longrightarrow> bit (MASK0 k p) n \<longleftrightarrow> \<not> (p \<le> n \<and> n < p + k)"
  by (simp add: MASK0_def bit_not_iff bit_MASK1)

lemma getter_bits:
  "p + k \<le> 32 \<Longrightarrow> bit (uint (drop_bit p i AND MASK1 k 0)) n \<longleftrightarrow> n < k \<and> bit (i :: Instruction) (p + n)"
  by (cases "n < 32") (auto simp: bit_uint_iff bit_and_iff bit_drop_bit_eq bit_MASK1 dest: bit_imp_le_length)

lemma setter_bits:
  "n < 32 \<Longrightarrow> bit ((i AND MASK0 k p) OR (push_bit p (word_of_int u) AND MASK1 k p)) n \<longleftrightarrow>
     (if p \<le> n \<and> n < p + k then bit u (n - p) else bit (i :: Instruction) n)"
  by (auto simp: bit_and_iff bit_or_iff bit_MASK0 bit_MASK1 bit_push_bit_iff bit_word_of_int_iff)

lemma macro_field:
  assumes "p + k \<le> 32"
  shows "bit_field p k (\<lambda>i. uint (drop_bit p i AND MASK1 k 0))
    (\<lambda>i u. (i AND MASK0 k p) OR (push_bit p (word_of_int u) AND MASK1 k p))"
  using assms by unfold_locales (simp_all only: getter_bits setter_bits)

interpretation OP: bit_field POS_OP SIZE_OP GET_OPCODE SET_OPCODE
  using macro_field [of POS_OP SIZE_OP]
  unfolding GET_OPCODE_def [abs_def] SET_OPCODE_def [abs_def] by (simp add: op_simps)

interpretation A: bit_field POS_A SIZE_A GETARG_A SETARG_A
  using macro_field [of POS_A SIZE_A]
  unfolding GETARG_A_def [abs_def] SETARG_A_def [abs_def] by (simp add: op_simps)

interpretation B: bit_field POS_B SIZE_B GETARG_B SETARG_B
  using macro_field [of POS_B SIZE_B]
  unfolding GETARG_B_def [abs_def] SETARG_B_def [abs_def] by (simp add: op_simps)

interpretation C: bit_field POS_C SIZE_C GETARG_C SETARG_C
  using macro_field [of POS_C SIZE_C]
  unfolding GETARG_C_def [abs_def] SETARG_C_def [abs_def] by (simp add: op_simps)

interpretation Bx: bit_field POS_Bx SIZE_Bx GETARG_Bx SETARG_Bx
  using macro_field [of POS_Bx SIZE_Bx]
  unfolding GETARG_Bx_def [abs_def] SETARG_Bx_def [abs_def] by (simp add: op_simps)

interpretation OP_A: bit_fields2 POS_OP SIZE_OP GET_OPCODE SET_OPCODE POS_A SIZE_A GETARG_A SETARG_A
  by unfold_locales (simp add: op_simps)

interpretation OP_B: bit_fields2 POS_OP SIZE_OP GET_OPCODE SET_OPCODE POS_B SIZE_B GETARG_B SETARG_B
  by unfold_locales (simp add: op_simps)

interpretation OP_C: bit_fields2 POS_OP SIZE_OP GET_OPCODE SET_OPCODE POS_C SIZE_C GETARG_C SETARG_C
  by unfold_locales (simp add: op_simps)

interpretation OP_Bx: bit_fields2 POS_OP SIZE_OP GET_OPCODE SET_OPCODE POS_Bx SIZE_Bx GETARG_Bx SETARG_Bx
  by unfold_locales (simp add: op_simps)

interpretation A_B: bit_fields2 POS_A SIZE_A GETARG_A SETARG_A POS_B SIZE_B GETARG_B SETARG_B
  by unfold_locales (simp add: op_simps)

interpretation A_C: bit_fields2 POS_A SIZE_A GETARG_A SETARG_A POS_C SIZE_C GETARG_C SETARG_C
  by unfold_locales (simp add: op_simps)

interpretation A_Bx: bit_fields2 POS_A SIZE_A GETARG_A SETARG_A POS_Bx SIZE_Bx GETARG_Bx SETARG_Bx
  by unfold_locales (simp add: op_simps)

interpretation B_C: bit_fields2 POS_B SIZE_B GETARG_B SETARG_B POS_C SIZE_C GETARG_C SETARG_C
  by unfold_locales (simp add: op_simps)

lemmas field_frame =
  OP_A.get1_set2 OP_A.get2_set1 OP_B.get1_set2 OP_B.get2_set1 OP_C.get1_set2 OP_C.get2_set1
  OP_Bx.get1_set2 OP_Bx.get2_set1 A_B.get1_set2 A_B.get2_set1 A_C.get1_set2 A_C.get2_set1
  A_Bx.get1_set2 A_Bx.get2_set1 B_C.get1_set2 B_C.get2_set1

section \<open>Building and taking apart\<close>

lemma bit_small: "0 \<le> u \<Longrightarrow> u < 2 ^ k \<Longrightarrow> k \<le> n \<Longrightarrow> \<not> bit (u :: int) n"
proof -
  assume u: "0 \<le> u" "u < 2 ^ k" and n: "k \<le> n"
  then have "take_bit k u = u" by (simp add: take_bit_int_eq_self)
  then have "bit u n = bit (take_bit k u) n" by simp
  then show ?thesis using n by (simp add: bit_take_bit_iff)
qed

text \<open>An instruction built from arguments in range is the zero word with its fields set.\<close>

lemma CREATE_ABC_set:
  assumes "0 \<le> o'" "o' < 2 ^ 6" "0 \<le> a" "a < 2 ^ 8" "0 \<le> b" "b < 2 ^ 9" "0 \<le> c" "c < 2 ^ 9"
  shows "CREATE_ABC o' a b c = SETARG_C (SETARG_B (SETARG_A (SET_OPCODE 0 o') a) b) c"
proof (rule bit_word_eqI)
  fix n assume "n < LENGTH(32)"
  then have n: "n < 32" by simp
  show "bit (CREATE_ABC o' a b c) n = bit (SETARG_C (SETARG_B (SETARG_A (SET_OPCODE 0 o') a) b) c) n"
    using n bit_small [OF assms(1,2)] bit_small [OF assms(3,4)] bit_small [OF assms(5,6)]
      bit_small [OF assms(7,8)]
    unfolding CREATE_ABC_def OP.set_bits [OF n] A.set_bits [OF n] B.set_bits [OF n] C.set_bits [OF n]
    by (auto simp: op_simps bit_or_iff bit_push_bit_iff bit_word_of_int_iff)
qed

lemma CREATE_ABx_set:
  assumes "0 \<le> o'" "o' < 2 ^ 6" "0 \<le> a" "a < 2 ^ 8" "0 \<le> b" "b < 2 ^ 18"
  shows "CREATE_ABx o' a b = SETARG_Bx (SETARG_A (SET_OPCODE 0 o') a) b"
proof (rule bit_word_eqI)
  fix n assume "n < LENGTH(32)"
  then have n: "n < 32" by simp
  show "bit (CREATE_ABx o' a b) n = bit (SETARG_Bx (SETARG_A (SET_OPCODE 0 o') a) b) n"
    using n bit_small [OF assms(1,2)] bit_small [OF assms(3,4)] bit_small [OF assms(5,6)]
    unfolding CREATE_ABx_def OP.set_bits [OF n] A.set_bits [OF n] Bx.set_bits [OF n]
    by (auto simp: op_simps bit_or_iff bit_push_bit_iff bit_word_of_int_iff)
qed

lemma instruction_from_fields:
  "SETARG_C (SETARG_B (SETARG_A (SET_OPCODE 0 (GET_OPCODE i)) (GETARG_A i)) (GETARG_B i)) (GETARG_C i) = i"
proof (rule bit_word_eqI)
  fix n assume "n < LENGTH(32)"
  then have n: "n < 32" by simp
  then show "bit (SETARG_C (SETARG_B (SETARG_A (SET_OPCODE 0 (GET_OPCODE i)) (GETARG_A i))
      (GETARG_B i)) (GETARG_C i)) n = bit i n"
    unfolding OP.set_bits [OF n] A.set_bits [OF n] B.set_bits [OF n] C.set_bits [OF n]
      OP.get_bits A.get_bits B.get_bits C.get_bits
    by (auto simp: op_simps)
qed

lemma field_ranges:
  "0 \<le> GET_OPCODE i" "GET_OPCODE i < 2 ^ 6" "0 \<le> GETARG_A i" "GETARG_A i < 2 ^ 8"
  "0 \<le> GETARG_B i" "GETARG_B i < 2 ^ 9" "0 \<le> GETARG_C i" "GETARG_C i < 2 ^ 9"
  "0 \<le> GETARG_Bx i" "GETARG_Bx i < 2 ^ 18"
  using OP.get_nonneg OP.get_less A.get_nonneg A.get_less B.get_nonneg B.get_less
    C.get_nonneg C.get_less Bx.get_nonneg Bx.get_less
  by (simp_all add: op_simps)

lemma cast_OpCode_num: "cast_OpCode (op_num o') = Some o'"
  by (cases o') (simp_all add: cast_OpCode_def NUM_OPCODES_def opcodes_def)

lemma op_num_range: "0 \<le> op_num o' \<and> op_num o' < NUM_OPCODES"
  by (cases o') (simp_all add: NUM_OPCODES_def)

section \<open>Properties\<close>

text \<open>
  Decoding inverts encoding for the three-argument format: an instruction built by
  CREATE_ABC from an opcode and in-range arguments gives each of them back through its own
  reader macro, and any instruction word is rebuilt from the four fields read off it.
\<close>

theorem CREATE_ABC_roundtrip:
  assumes "0 \<le> a" "a \<le> MAXARG_A" "0 \<le> b" "b \<le> MAXARG_B" "0 \<le> c" "c \<le> MAXARG_C"
  shows "cast_OpCode (GET_OPCODE (CREATE_ABC (op_num o') a b c)) = Some o' \<and>
    GETARG_A (CREATE_ABC (op_num o') a b c) = a \<and>
    GETARG_B (CREATE_ABC (op_num o') a b c) = b \<and>
    GETARG_C (CREATE_ABC (op_num o') a b c) = c \<and>
    CREATE_ABC (GET_OPCODE i) (GETARG_A i) (GETARG_B i) (GETARG_C i) = i"
proof -
  have r: "a < 2 ^ 8" "b < 2 ^ 9" "c < 2 ^ 9" "0 \<le> op_num o'" "op_num o' < 2 ^ 6"
    using assms op_num_range [of o']
    by (simp_all add: MAXARG_A_def MAXARG_B_def MAXARG_C_def NUM_OPCODES_def op_simps)
  have e: "CREATE_ABC (op_num o') a b c = SETARG_C (SETARG_B (SETARG_A (SET_OPCODE 0 (op_num o')) a) b) c"
    using assms r by (intro CREATE_ABC_set) auto
  have d: "CREATE_ABC (GET_OPCODE i) (GETARG_A i) (GETARG_B i) (GETARG_C i) = i"
    using field_ranges [of i] by (subst CREATE_ABC_set) (simp_all add: instruction_from_fields)
  show ?thesis using assms r d
    by (simp add: e field_frame OP.get_set_small A.get_set_small B.get_set_small C.get_set_small
        cast_OpCode_num op_simps)
qed

theorem CREATE_ABC_roundtrip_witness:
  "cast_OpCode (GET_OPCODE (CREATE_ABC (op_num OP_ADD) 7 261 3)) = Some OP_ADD"
proof -
  have "0 \<le> (7::int)" "7 \<le> MAXARG_A" "0 \<le> (261::int)" "261 \<le> MAXARG_B" "0 \<le> (3::int)" "3 \<le> MAXARG_C"
    by (simp_all add: MAXARG_A_def MAXARG_B_def MAXARG_C_def op_simps)
  from CREATE_ABC_roundtrip [OF this, of OP_ADD 0] show ?thesis by blast
qed

text \<open>
  Patching a jump: storing a signed offset with SETARG_sBx into an instruction whose
  opcode and A field are already set changes neither of them, and GETARG_sBx returns the
  offset, for every offset the excess-K encoding can hold.
\<close>

theorem SETARG_sBx_roundtrip:
  assumes "- MAXARG_sBx \<le> b" "b \<le> MAXARG_sBx"
  shows "GETARG_sBx (SETARG_sBx i b) = b \<and> GET_OPCODE (SETARG_sBx i b) = GET_OPCODE i \<and>
    GETARG_A (SETARG_sBx i b) = GETARG_A i"
proof -
  have "0 \<le> b + MAXARG_sBx" "b + MAXARG_sBx < 2 ^ SIZE_Bx"
    using assms by (simp_all add: MAXARG_sBx_def MAXARG_Bx_def op_simps)
  then show ?thesis
    by (simp add: GETARG_sBx_def SETARG_sBx_def Bx.get_set_small field_frame)
qed

theorem SETARG_sBx_roundtrip_witness:
  "GETARG_sBx (SETARG_sBx (CREATE_ABx (op_num OP_JMP) 0 0) (- 131071)) = - 131071"
proof -
  have "- MAXARG_sBx \<le> - 131071" "- 131071 \<le> MAXARG_sBx"
    by (simp_all add: MAXARG_sBx_def MAXARG_Bx_def op_simps)
  from SETARG_sBx_roundtrip [OF this] show ?thesis by blast
qed

end
