(* ===== verification/Siphash.thy ===== *)
theory Siphash
  imports Prelude
begin

text \<open>
  \<open>SipHash\<close> of lstring.c, in the default build (HalfSipHash-1-3 on 32-bit words) and the
  FullSipHash builds (SipHash-1-3, and SipHash-2-4 under SIP24). The C functions run one
  byte-at-a-time loop that decides inside itself when a block is complete and when the padded
  last block is due; the reference is the published construction: split the message into
  little-endian words, put the length byte on top of the last one, compress each word, then
  finish. Both C functions have the same loop, so it is translated once, over the word width
  and the compression step.
\<close>

section \<open>The loop of the C functions\<close>

definition rotl :: "nat \<Rightarrow> 'a::len word \<Rightarrow> 'a word" where
  "rotl n v = push_bit n v OR drop_bit (LENGTH('a) - n) v"

text \<open>
  The inner loop, on \<open>(offset, shift, m, v)\<close>: absorb the word \<open>m\<close>; at the end of the message put
  the low byte of the length on top first and step past the end.
\<close>

function sip_inner ::
  "('v \<Rightarrow> 'a::len word \<Rightarrow> 'v) \<Rightarrow> nat \<Rightarrow> nat \<times> nat \<times> 'a word \<times> 'v \<Rightarrow> nat \<times> nat \<times> 'a word \<times> 'v" where
  "sip_inner absorb l (offset, shift, m, v) =
     (if LENGTH('a) \<le> shift \<or> offset = l then
        let (m', offset') =
              (if offset = l \<and> shift \<noteq> LENGTH('a)
               then (m OR push_bit (LENGTH('a) - 8) (word_of_nat l AND 0xff), offset + 1)
               else (m, offset))
        in sip_inner absorb l (offset', 0, 0, absorb v m')
      else (offset, shift, m, v))"
  by pat_completeness auto
termination
  by (relation "measure (\<lambda>(_ :: 'a \<Rightarrow> 'b::len word \<Rightarrow> 'a, l, offset, shift, m, v).
       (if offset = l then 2 else 0) + (if LENGTH('b::len) \<le> shift then 1 else 0))")
    (auto split: if_splits)

declare sip_inner.simps [simp del]

lemma sip_inner_offset:
  fixes m :: "'a::len word"
  shows "offset \<le> fst (sip_inner absorb l (offset, shift, m, v))"
proof (induction absorb l "(offset, shift, m, v)" arbitrary: offset shift m v rule: sip_inner.induct)
  case (1 absorb l offset shift m v)
  then show ?case
    by (cases "LENGTH('a) \<le> shift \<or> offset = l")
      (auto simp: sip_inner.simps [of absorb l offset shift m v] split: if_splits intro: Suc_leD)
qed

function sip_outer ::
  "('v \<Rightarrow> 'a::len word \<Rightarrow> 'v) \<Rightarrow> bytes \<Rightarrow> nat \<Rightarrow> nat \<times> nat \<times> 'a word \<times> 'v \<Rightarrow> 'v" where
  "sip_outer absorb str l (offset, shift, m, v) =
     (if offset \<le> l then
        let (m1, shift1) =
              (if offset < l then (m OR push_bit shift (of_char (str ! offset)), shift + 8)
               else (m, shift));
            (offset2, shift2, m2, v2) = sip_inner absorb l (offset, shift1, m1, v)
        in sip_outer absorb str l (offset2 + 1, shift2, m2, v2)
      else v)"
  by pat_completeness auto
termination
proof (relation "measure (\<lambda>(_, str, l, offset, shift, m, v). Suc l - offset)", goal_cases)
  case (2 absorb str l offset shift m v x m1 shift1 y offset2 z shift2 a m2 v2)
  have "offset2 = fst (sip_inner absorb l (offset, shift1, m1, v))" using 2 by (metis fst_conv)
  then have "offset \<le> offset2" by (simp add: sip_inner_offset)
  with 2 show ?case by simp
qed simp

declare sip_outer.simps [simp del]

section \<open>The two C functions\<close>

type_synonym 'a sip = "'a word \<times> 'a word \<times> 'a word \<times> 'a word"

text \<open>One HalfSipHash round, statement by statement.\<close>

definition halfsip_round :: "32 sip \<Rightarrow> 32 sip" where
  "halfsip_round v =
     (let (v0, v1, v2, v3) = v;
          v0 = v0 + v1;
          v1 = push_bit 5 v1 OR drop_bit 27 v1;
          v1 = v1 XOR v0;
          v0 = push_bit 16 v0 OR drop_bit 16 v0;
          v2 = v2 + v3;
          v3 = push_bit 8 v3 OR drop_bit 24 v3;
          v3 = v3 XOR v2; v0 = v0 + v3;
          v3 = push_bit 7 v3 OR drop_bit 25 v3;
          v3 = v3 XOR v0; v2 = v2 + v1;
          v1 = push_bit 13 v1 OR drop_bit 19 v1;
          v1 = v1 XOR v2;
          v2 = push_bit 16 v2 OR drop_bit 16 v2
      in (v0, v1, v2, v3))"

definition halfsip_absorb :: "32 sip \<Rightarrow> uint32 \<Rightarrow> 32 sip" where
  "halfsip_absorb v m =
     (let (v0, v1, v2, v3) = v;
          (v0, v1, v2, v3) = halfsip_round (v0, v1, v2, v3 XOR m)
      in (v0 XOR m, v1, v2, v3))"

text \<open>\<open>SipHash\<close> without FullSipHash; \<open>sipKey1\<close> and \<open>sipKey2\<close> are the globals it reads.\<close>

definition SipHash :: "uint32 \<Rightarrow> uint32 \<Rightarrow> bytes \<Rightarrow> uint32" where
  "SipHash sipKey1 sipKey2 str =
     (let v0 = sipKey1; v1 = sipKey2;
          v2 = v0 XOR 0x6c796765; v3 = v1 XOR 0x74656462;
          (v0, v1, v2, v3) = sip_outer halfsip_absorb str (length str) (0, 0, 0, (v0, v1, v2, v3));
          (v0, v1, v2, v3) = (halfsip_round ^^ 3) (v0, v1, v2 XOR 255, v3)
      in v1 XOR v3)"

definition fullsip_round :: "64 sip \<Rightarrow> 64 sip" where
  "fullsip_round v =
     (let (v0, v1, v2, v3) = v;
          v0 = v0 + v1; v2 = v2 + v3;
          v1 = push_bit 13 v1 OR drop_bit 51 v1;
          v3 = push_bit 16 v3 OR drop_bit 48 v3;
          v1 = v1 XOR v0; v3 = v3 XOR v2;
          v0 = push_bit 32 v0 OR drop_bit 32 v0;
          v2 = v2 + v1; v0 = v0 + v3;
          v1 = push_bit 17 v1 OR drop_bit 47 v1;
          v3 = push_bit 21 v3 OR drop_bit 43 v3;
          v1 = v1 XOR v2; v3 = v3 XOR v0;
          v2 = push_bit 32 v2 OR drop_bit 32 v2
      in (v0, v1, v2, v3))"

definition fullsip_absorb :: "bool \<Rightarrow> 64 sip \<Rightarrow> uint64 \<Rightarrow> 64 sip" where
  "fullsip_absorb SIP24 v m =
     (let (v0, v1, v2, v3) = v;
          (v0, v1, v2, v3) = (fullsip_round ^^ (if SIP24 then 2 else 1)) (v0, v1, v2, v3 XOR m)
      in (v0 XOR m, v1, v2, v3))"

definition SipHash_full :: "bool \<Rightarrow> uint64 \<Rightarrow> uint64 \<Rightarrow> bytes \<Rightarrow> uint64" where
  "SipHash_full SIP24 sipKey1 sipKey2 str =
     (let v0 = sipKey1 XOR 0x736f6d6570736575;
          v1 = sipKey2 XOR 0x646f72616e646f6d;
          v2 = sipKey1 XOR 0x6c7967656e657261;
          v3 = sipKey2 XOR 0x7465646279746573;
          (v0, v1, v2, v3) = sip_outer (fullsip_absorb SIP24) str (length str) (0, 0, 0, (v0, v1, v2, v3));
          (v0, v1, v2, v3) = (fullsip_round ^^ (if SIP24 then 4 else 3)) (v0, v1, v2 XOR 255, v3)
      in v0 XOR v1 XOR v2 XOR v3)"

section \<open>The reference construction\<close>

fun le_word :: "bytes \<Rightarrow> 'a::len word" where
  "le_word [] = 0"
| "le_word (c # cs) = of_char c OR push_bit 8 (le_word cs)"

text \<open>The message blocks: full words of \<open>n\<close> bytes, then what is left with the length on top.\<close>

function sip_words :: "nat \<Rightarrow> nat \<Rightarrow> bytes \<Rightarrow> 'a::len word list" where
  "sip_words n l s =
     (if 0 < n \<and> n \<le> length s then le_word (take n s) # sip_words n l (drop n s)
      else [le_word s OR push_bit (8 * n - 8) (word_of_nat l AND 0xff)])"
  by pat_completeness auto
termination
  by (relation "measure (\<lambda>(n, l, s). length s)") auto

declare sip_words.simps [simp del]

definition ref_round32 :: "32 sip \<Rightarrow> 32 sip" where
  "ref_round32 = (\<lambda>(a, b, c, d).
     let a = a + b; c = c + d; b = rotl 5 b XOR a; d = rotl 8 d XOR c; a = rotl 16 a;
         a = a + d; c = c + b; d = rotl 7 d XOR a; b = rotl 13 b XOR c; c = rotl 16 c
     in (a, b, c, d))"

definition ref_compress :: "nat \<Rightarrow> ('a::len sip \<Rightarrow> 'a sip) \<Rightarrow> 'a sip \<Rightarrow> 'a word \<Rightarrow> 'a sip" where
  "ref_compress c rnd = (\<lambda>(v0, v1, v2, v3) m.
     case (rnd ^^ c) (v0, v1, v2, v3 XOR m) of (w0, w1, w2, w3) \<Rightarrow> (w0 XOR m, w1, w2, w3))"

definition ref_finish :: "nat \<Rightarrow> ('a::len sip \<Rightarrow> 'a sip) \<Rightarrow> 'a sip \<Rightarrow> 'a sip" where
  "ref_finish d rnd = (\<lambda>(v0, v1, v2, v3). (rnd ^^ d) (v0, v1, v2 XOR 0xff, v3))"

definition halfsiphash_1_3 :: "uint32 \<Rightarrow> uint32 \<Rightarrow> bytes \<Rightarrow> uint32" where
  "halfsiphash_1_3 k0 k1 s =
     (case ref_finish 3 ref_round32
        (foldl (ref_compress 1 ref_round32) (k0, k1, 0x6c796765 XOR k0, 0x74656462 XOR k1)
           (sip_words 4 (length s) s))
      of (v0, v1, v2, v3) \<Rightarrow> v1 XOR v3)"

definition ref_round64 :: "64 sip \<Rightarrow> 64 sip" where
  "ref_round64 = (\<lambda>(a, b, c, d).
     let a = a + b; c = c + d; b = rotl 13 b XOR a; d = rotl 16 d XOR c; a = rotl 32 a;
         c = c + b; a = a + d; b = rotl 17 b XOR c; d = rotl 21 d XOR a; c = rotl 32 c
     in (a, b, c, d))"

definition siphash :: "nat \<Rightarrow> nat \<Rightarrow> uint64 \<Rightarrow> uint64 \<Rightarrow> bytes \<Rightarrow> uint64" where
  "siphash c d k0 k1 s =
     (case ref_finish d ref_round64
        (foldl (ref_compress c ref_round64)
           (0x736f6d6570736575 XOR k0, 0x646f72616e646f6d XOR k1,
            0x6c7967656e657261 XOR k0, 0x7465646279746573 XOR k1)
           (sip_words 8 (length s) s))
      of (v0, v1, v2, v3) \<Rightarrow> v0 XOR v1 XOR v2 XOR v3)"

section \<open>The loop compresses exactly the blocks\<close>

lemma le_word_snoc:
  "le_word (bs @ [c]) = le_word bs OR push_bit (8 * length bs) (of_char c :: 'a::len word)"
  by (induction bs) (simp_all add: ac_simps)

lemma sip_inner_idle:
  "shift < LENGTH('a) \<Longrightarrow> offset \<noteq> l \<Longrightarrow>
     sip_inner absorb l (offset, shift, (m :: 'a::len word), v) = (offset, shift, m, v)"
  by (simp add: sip_inner.simps)

lemma sip_inner_block:
  "offset \<noteq> l \<Longrightarrow>
     sip_inner absorb l (offset, LENGTH('a), (m :: 'a::len word), v) = (offset, 0, 0, absorb v m)"
  by (simp add: sip_inner.simps [of _ _ offset "LENGTH('a)"] sip_inner_idle)

lemma sip_inner_last:
  "shift < LENGTH('a) \<Longrightarrow>
     sip_inner absorb l (l, shift, (m :: 'a::len word), v) =
       (Suc l, 0, 0, absorb v (m OR push_bit (LENGTH('a) - 8) (word_of_nat l AND 0xff)))"
  by (simp add: sip_inner.simps [of _ _ l shift] sip_inner_idle)

lemma sip_outer_blocks:
  fixes absorb :: "'v \<Rightarrow> 'a::len word \<Rightarrow> 'v"
  assumes "LENGTH('a) = 8 * n" "0 < n" "length part < n" "str = pre @ part @ rest"
  shows "sip_outer absorb str (length str)
      (length pre + length part, 8 * length part, le_word part, v) =
    foldl absorb v (sip_words n (length str) (part @ rest))"
  using assms(3,4)
proof (induction rest arbitrary: pre part v)
  case Nil
  have "sip_outer absorb str (length str) (length str, 8 * length part, le_word part, v) =
      absorb v (le_word part OR push_bit (LENGTH('a) - 8) (word_of_nat (length str) AND 0xff))"
    using Nil assms(1) by (simp add: sip_outer.simps sip_inner_last)
  then show ?case using Nil assms(1,2) by (simp add: sip_words.simps)
next
  case (Cons c rest)
  define off where "off = length pre + length part"
  have less: "off < length str" and nth: "str ! off = c"
    using Cons.prems by (simp_all add: off_def nth_append)
  have m: "le_word part OR push_bit (8 * length part) (of_char c :: 'a word) = le_word (part @ [c])"
    by (simp add: le_word_snoc)
  show ?case
  proof (cases "Suc (length part) < n")
    case True
    have "sip_outer absorb str (length str) (off, 8 * length part, le_word part, v) =
        sip_outer absorb str (length str) (Suc off, 8 * Suc (length part), le_word (part @ [c]), v)"
      using less True assms(1)
      by (simp add: sip_outer.simps [of _ _ _ off] nth m sip_inner_idle add.commute)
    also have "\<dots> = foldl absorb v (sip_words n (length str) ((part @ [c]) @ rest))"
      using Cons.IH [of "part @ [c]" pre v] Cons.prems True by (simp add: off_def)
    finally show ?thesis by (simp add: off_def)
  next
    case False
    then have full: "Suc (length part) = n" using Cons.prems by simp
    have nl: "n - length part = Suc 0" using full by simp
    have shift: "8 * length part + 8 = LENGTH('a)" using full assms(1) by simp
    have "sip_outer absorb str (length str) (off, 8 * length part, le_word part, v) =
        sip_outer absorb str (length str) (Suc off, 0, 0, absorb v (le_word (part @ [c])))"
      using less by (simp add: sip_outer.simps [of _ _ _ off] nth m shift sip_inner_block)
    also have "\<dots> = foldl absorb (absorb v (le_word (part @ [c]))) (sip_words n (length str) rest)"
      using Cons.IH [of "[]" "pre @ part @ [c]" "absorb v (le_word (part @ [c]))"] Cons.prems assms(2)
      by (simp add: off_def)
    also have "\<dots> = foldl absorb v (sip_words n (length str) (part @ c # rest))"
      using full by (simp add: sip_words.simps [of n _ "part @ c # rest"] nl)
    finally show ?thesis by (simp add: off_def)
  qed
qed

lemma rotl32: "rotl n v = push_bit n v OR drop_bit (32 - n) (v :: uint32)"
  and rotl64: "rotl n w = push_bit n w OR drop_bit (64 - n) (w :: uint64)"
  by (simp_all add: rotl_def)

lemma halfsip_round_ref: "halfsip_round = ref_round32"
proof
  fix v show "halfsip_round v = ref_round32 v"
    unfolding halfsip_round_def ref_round32_def Let_def rotl32 by (cases v) simp
qed

lemma fullsip_round_ref: "fullsip_round = ref_round64"
proof
  fix v show "fullsip_round v = ref_round64 v"
    unfolding fullsip_round_def ref_round64_def Let_def rotl64 by (cases v) simp
qed

lemma halfsip_absorb_ref: "halfsip_absorb = ref_compress 1 ref_round32"
  by (simp add: fun_eq_iff halfsip_absorb_def ref_compress_def halfsip_round_ref Let_def)

lemma fullsip_absorb_ref:
  "fullsip_absorb SIP24 = ref_compress (if SIP24 then 2 else 1) ref_round64"
  by (simp add: fun_eq_iff fullsip_absorb_def ref_compress_def fullsip_round_ref Let_def)

section \<open>Properties\<close>

text \<open>
  C21. The string hash of the default build is HalfSipHash-1-3: for every key and every
  byte string, the byte-wise loop of \<open>SipHash\<close> returns what the reference construction
  (little-endian blocks, length byte on the last block, one round per block, three to finish)
  gives.
\<close>

theorem SipHash_is_HalfSipHash: "SipHash k0 k1 s = halfsiphash_1_3 k0 k1 s"
  using sip_outer_blocks [where 'a = 32 and n = 4 and part = "[]" and pre = "[]" and rest = s
      and absorb = halfsip_absorb]
  by (simp add: SipHash_def halfsiphash_1_3_def ref_finish_def halfsip_absorb_ref
      halfsip_round_ref Let_def xor.commute split: prod.splits)

text \<open>
  C22. With FullSipHash defined, \<open>SipHash\<close> is SipHash-1-3, and with SIP24 as well it is
  SipHash-2-4, for every 128-bit key and every byte string.
\<close>

theorem SipHash_full_is_SipHash:
  "SipHash_full SIP24 k0 k1 s = (if SIP24 then siphash 2 4 k0 k1 s else siphash 1 3 k0 k1 s)"
  using sip_outer_blocks [where 'a = 64 and n = 8 and part = "[]" and pre = "[]" and rest = s
      and absorb = "fullsip_absorb SIP24"]
  by (simp add: SipHash_full_def siphash_def ref_finish_def fullsip_absorb_ref
      fullsip_round_ref Let_def xor.commute split: prod.splits)

end
