(* ===== verification/Lstring.thy ===== *)
theory Lstring
  imports Lobject Siphash "HOL-Library.Multiset"
begin

text \<open>
  lstring.c: the global table of interned strings. A bucket of \<open>strt.hash\<close> is the list of
  addresses on its chain, head first; \<open>strs\<close> is the part of the heap that holds string
  objects. The allocator is outside the program: each operation that allocates takes what the
  allocator answered (an address or a failure), and the state is returned in every outcome
  because an error is thrown after the state was changed.
\<close>

section \<open>Objects and the string table\<close>

record TString =
  tsv_hash :: uint32
  tsv_len :: nat
  tsv_chars :: bytes
  tsv_marked :: "8 word"
  tsv_reserved :: "8 word"

record stringtable =
  st_hash :: "ptr list list"
  st_nuse :: uint32
  st_size :: nat

text \<open>The fields of \<open>global_State\<close> that lstring.c uses, and the globals of the hash.\<close>

record strstate =
  strt :: stringtable
  strs :: "ptr \<rightharpoonup> TString"
  currentwhite :: "8 word"
  gcstate :: nat
  sipKey1 :: uint32
  sipKey2 :: uint32

definition SipHashSetKey :: "uint32 \<Rightarrow> uint32 \<Rightarrow> strstate \<Rightarrow> strstate" where
  "SipHashSetKey a b g = g\<lparr>sipKey1 := a, sipKey2 := b\<rparr>"

definition GCSsweepstring :: nat where "GCSsweepstring = 2"
definition WHITEBITS :: "8 word" where "WHITEBITS = 3"
definition FIXEDBIT :: nat where "FIXEDBIT = 5"
definition MAX_INT :: nat where "MAX_INT = 2 ^ 31 - 1 - 2"
definition sizeof_TString :: nat where "sizeof_TString = 24"

definition luaC_white :: "strstate \<Rightarrow> 8 word" where
  "luaC_white g = currentwhite g AND WHITEBITS"

definition otherwhite :: "strstate \<Rightarrow> 8 word" where
  "otherwhite g = currentwhite g XOR WHITEBITS"

definition isdead :: "strstate \<Rightarrow> TString \<Rightarrow> bool" where
  "isdead g ts = (tsv_marked ts AND otherwhite g AND WHITEBITS \<noteq> 0)"

definition changewhite :: "TString \<Rightarrow> TString" where
  "changewhite ts = ts\<lparr>tsv_marked := tsv_marked ts XOR WHITEBITS\<rparr>"

definition luaS_fix :: "TString \<Rightarrow> TString" where
  "luaS_fix ts = ts\<lparr>tsv_marked := tsv_marked ts OR push_bit FIXEDBIT 1\<rparr>"

section \<open>Operations\<close>

definition ts_hash_at :: "strstate \<Rightarrow> ptr \<Rightarrow> uint32" where
  "ts_hash_at g p = (case strs g p of Some ts \<Rightarrow> tsv_hash ts | None \<Rightarrow> 0)"

text \<open>Move every node of one chain to the front of its new bucket, in chain order.\<close>

fun rehash_chain :: "strstate \<Rightarrow> nat \<Rightarrow> ptr list \<Rightarrow> ptr list list \<Rightarrow> ptr list list" where
  "rehash_chain g newsize [] newhash = newhash"
| "rehash_chain g newsize (p # next) newhash =
     (let h1 = lmod (ts_hash_at g p) newsize
      in rehash_chain g newsize next (newhash[h1 := p # newhash ! h1]))"

fun rehash_all :: "strstate \<Rightarrow> nat \<Rightarrow> ptr list list \<Rightarrow> ptr list list \<Rightarrow> ptr list list" where
  "rehash_all g newsize [] newhash = newhash"
| "rehash_all g newsize (chain # rest) newhash =
     rehash_all g newsize rest (rehash_chain g newsize chain newhash)"

definition luaS_resize :: "strstate \<Rightarrow> nat \<Rightarrow> bool \<Rightarrow> strstate \<times> unit res" where
  "luaS_resize g newsize alloc_ok =
     (if gcstate g = GCSsweepstring then (g, Inr ())
      else if \<not> alloc_ok then (g, Inl (MemError ''not enough memory''))
      else let tb = strt g;
               newhash = rehash_all g newsize (st_hash tb) (replicate newsize [])
           in (g\<lparr>strt := tb\<lparr>st_size := newsize, st_hash := newhash\<rparr>\<rparr>, Inr ()))"

definition newlstr ::
  "strstate \<Rightarrow> bytes \<Rightarrow> uint32 \<Rightarrow> ptr option \<Rightarrow> bool \<Rightarrow> strstate \<times> ptr res" where
  "newlstr g str h addr alloc_ok =
     (if MAX_SIZET - sizeof_TString < length str + 1
      then (g, Inl (MemError ''memory allocation error: block too big''))
      else case addr of
        None \<Rightarrow> (g, Inl (MemError ''not enough memory''))
      | Some p \<Rightarrow>
          let ts = \<lparr>tsv_hash = h, tsv_len = length str, tsv_chars = str,
                    tsv_marked = luaC_white g, tsv_reserved = 0\<rparr>;
              tb = strt g;
              i = lmod h (st_size tb);
              tb' = tb\<lparr>st_hash := (st_hash tb)[i := p # st_hash tb ! i], st_nuse := st_nuse tb + 1\<rparr>;
              g' = g\<lparr>strs := (strs g)(p \<mapsto> ts), strt := tb'\<rparr>
          in if word_of_nat (st_size tb') < st_nuse tb' \<and> st_size tb' \<le> MAX_INT div 2
             then case luaS_resize g' (st_size tb' * 2) alloc_ok of
                    (g'', Inl e) \<Rightarrow> (g'', Inl e)
                  | (g'', Inr _) \<Rightarrow> (g'', Inr p)
             else (g', Inr p))"

definition ts_matches :: "strstate \<Rightarrow> bytes \<Rightarrow> ptr \<Rightarrow> bool" where
  "ts_matches g str p =
     (case strs g p of
        None \<Rightarrow> False
      | Some ts \<Rightarrow> tsv_len ts = length str \<and> take (length str) (tsv_chars ts) = str)"

definition luaS_newlstr :: "strstate \<Rightarrow> bytes \<Rightarrow> ptr option \<Rightarrow> bool \<Rightarrow> strstate \<times> ptr res" where
  "luaS_newlstr g str addr alloc_ok =
     (let h = SipHash (sipKey1 g) (sipKey2 g) str
      in case find (ts_matches g str) (st_hash (strt g) ! lmod h (st_size (strt g))) of
           Some p \<Rightarrow>
             (let ts = the (strs g p)
              in (if isdead g ts then g\<lparr>strs := (strs g)(p \<mapsto> changewhite ts)\<rparr> else g, Inr p))
         | None \<Rightarrow> newlstr g str h addr alloc_ok)"

section \<open>Invariant\<close>

definition linked :: "strstate \<Rightarrow> ptr set" where
  "linked g = set (concat (st_hash (strt g)))"

definition interned :: "strstate \<Rightarrow> ptr \<Rightarrow> bytes option" where
  "interned g p = (if p \<in> linked g then map_option tsv_chars (strs g p) else None)"

definition entry_ok :: "strstate \<Rightarrow> ptr \<Rightarrow> bool" where
  "entry_ok g p = (case strs g p of None \<Rightarrow> False
     | Some ts \<Rightarrow> tsv_len ts = length (tsv_chars ts) \<and>
         tsv_hash ts = SipHash (sipKey1 g) (sipKey2 g) (tsv_chars ts))"

definition is_size :: "nat \<Rightarrow> bool" where
  "is_size n = (\<exists>k\<le>30. n = 2 ^ k)"

definition strt_ok :: "strstate \<Rightarrow> bool" where
  "strt_ok g =
     (is_size (st_size (strt g)) \<and> length (st_hash (strt g)) = st_size (strt g) \<and>
      (\<forall>i < st_size (strt g). \<forall>p \<in> set (st_hash (strt g) ! i).
         entry_ok g p \<and> lmod (ts_hash_at g p) (st_size (strt g)) = i) \<and>
      distinct (concat (st_hash (strt g))) \<and>
      inj_on (interned g) (linked g) \<and>
      st_nuse (strt g) = word_of_nat (length (concat (st_hash (strt g)))))"

lemma entry_ok_iff:
  "entry_ok g p \<longleftrightarrow> (\<exists>ts. strs g p = Some ts \<and> tsv_len ts = length (tsv_chars ts) \<and>
     tsv_hash ts = SipHash (sipKey1 g) (sipKey2 g) (tsv_chars ts))"
  by (simp add: entry_ok_def split: option.split)

section \<open>Chains under update\<close>

lemma is_size_lmod: "is_size n \<Longrightarrow> lmod h n < n"
  by (auto simp: is_size_def intro: lmod_less)

lemma mset_concat_update:
  "i < length xss \<Longrightarrow> mset (concat (xss[i := p # xss ! i])) = add_mset p (mset (concat xss))"
proof (induction xss arbitrary: i)
  case (Cons xs xss)
  then show ?case by (cases i) simp_all
qed simp

lemma length_rehash_chain [simp]: "length (rehash_chain g n ps nh) = length nh"
  by (induction ps arbitrary: nh) (simp_all add: Let_def)

lemma length_rehash_all [simp]: "length (rehash_all g n cs nh) = length nh"
  by (induction cs arbitrary: nh) simp_all

lemma mset_rehash_chain:
  "is_size n \<Longrightarrow> length nh = n \<Longrightarrow>
     mset (concat (rehash_chain g n ps nh)) = mset ps + mset (concat nh)"
  by (induction ps arbitrary: nh) (simp_all add: Let_def mset_concat_update is_size_lmod)

lemma mset_rehash_all:
  "is_size n \<Longrightarrow> length nh = n \<Longrightarrow>
     mset (concat (rehash_all g n cs nh)) = mset (concat cs) + mset (concat nh)"
  by (induction cs arbitrary: nh) (simp_all add: mset_rehash_chain)

text \<open>Every node of a rehashed vector sits in the bucket its hash selects.\<close>

definition placed :: "strstate \<Rightarrow> nat \<Rightarrow> ptr list list \<Rightarrow> bool" where
  "placed g n nh = (\<forall>i < length nh. \<forall>p \<in> set (nh ! i). lmod (ts_hash_at g p) n = i)"

lemma placed_rehash_chain: "placed g n nh \<Longrightarrow> placed g n (rehash_chain g n ps nh)"
proof (induction ps arbitrary: nh)
  case (Cons p ps)
  have "placed g n (nh[lmod (ts_hash_at g p) n := p # nh ! lmod (ts_hash_at g p) n])"
    using Cons.prems by (cases "lmod (ts_hash_at g p) n < length nh")
      (auto simp: placed_def nth_list_update list_update_beyond split: if_splits)
  then show ?case by (simp add: Let_def Cons.IH)
qed simp

lemma placed_rehash_all: "placed g n nh \<Longrightarrow> placed g n (rehash_all g n cs nh)"
  by (induction cs arbitrary: nh) (simp_all add: placed_rehash_chain)

lemma strt_ok_alt:
  "strt_ok g \<longleftrightarrow> is_size (st_size (strt g)) \<and> length (st_hash (strt g)) = st_size (strt g) \<and>
     placed g (st_size (strt g)) (st_hash (strt g)) \<and> (\<forall>p \<in> linked g. entry_ok g p) \<and>
     distinct (concat (st_hash (strt g))) \<and> inj_on (interned g) (linked g) \<and>
     st_nuse (strt g) = word_of_nat (length (concat (st_hash (strt g))))"
proof -
  have "(\<forall>p \<in> linked g. entry_ok g p) \<longleftrightarrow>
      (\<forall>i < length (st_hash (strt g)). \<forall>p \<in> set (st_hash (strt g) ! i). entry_ok g p)"
    unfolding linked_def Ball_def set_concat_nth by blast
  then show ?thesis by (auto simp: strt_ok_def placed_def)
qed

section \<open>Resizing\<close>

lemma luaS_resize_keeps:
  assumes "strt_ok g" "is_size n" "luaS_resize g n ok = (g', r)"
  shows "strt_ok g' \<and> linked g' = linked g \<and> strs g' = strs g \<and>
    sipKey1 g' = sipKey1 g \<and> sipKey2 g' = sipKey2 g \<and> st_nuse (strt g') = st_nuse (strt g)"
proof (cases "gcstate g = GCSsweepstring \<or> \<not> ok")
  case True
  then show ?thesis using assms by (auto simp: luaS_resize_def split: if_splits)
next
  case False
  define nh where "nh = rehash_all g n (st_hash (strt g)) (replicate n [])"
  have g': "g' = g\<lparr>strt := (strt g)\<lparr>st_size := n, st_hash := nh\<rparr>\<rparr>"
    using False assms(3) by (simp add: luaS_resize_def nh_def Let_def)
  have ms: "mset (concat nh) = mset (concat (st_hash (strt g)))"
    using assms(2) by (simp add: nh_def mset_rehash_all)
  have len: "length (concat nh) = length (concat (st_hash (strt g)))"
    using arg_cong [OF ms, of size] by simp
  have set: "set (concat nh) = set (concat (st_hash (strt g)))" using ms by (rule mset_eq_setD)
  have "placed g n (replicate n [])" by (simp add: placed_def)
  then have "placed g n nh" by (simp add: nh_def placed_rehash_all)
  then have pl: "placed g' n nh" by (simp add: placed_def ts_hash_at_def g')
  have lk: "linked g' = linked g" using set by (simp add: linked_def g')
  have "interned g' = interned g" using lk by (simp add: fun_eq_iff interned_def g')
  moreover have "entry_ok g' = entry_ok g" by (simp add: fun_eq_iff entry_ok_iff g')
  moreover have "distinct (concat nh)"
    using ms assms(1) mset_eq_imp_distinct_iff unfolding strt_ok_alt by blast
  ultimately show ?thesis using assms(1,2) pl lk len
    unfolding strt_ok_alt by (simp add: g' nh_def)
qed

section \<open>Interning\<close>

text \<open>
  What users of interned strings rely on. \<open>step g s g' p\<close>: a successful call of the interning
  operation on contents \<open>s\<close> leads from \<open>g\<close> to \<open>g'\<close> and returns \<open>p\<close>.
\<close>

locale interning =
  fixes inv :: "'g \<Rightarrow> bool"
    and content :: "'g \<Rightarrow> ptr \<Rightarrow> bytes option"
    and step :: "'g \<Rightarrow> bytes \<Rightarrow> 'g \<Rightarrow> ptr \<Rightarrow> bool"
  assumes step_inv: "inv g \<Longrightarrow> step g s g' p \<Longrightarrow> inv g'"
    and step_content: "inv g \<Longrightarrow> step g s g' p \<Longrightarrow> content g' p = Some s"
    and step_keeps: "inv g \<Longrightarrow> step g s g' p \<Longrightarrow> content g q = Some t \<Longrightarrow> content g' q = Some t"
    and content_inj: "inv g \<Longrightarrow> content g p = Some s \<Longrightarrow> content g q = Some s \<Longrightarrow> p = q"
begin

inductive steps :: "'g \<Rightarrow> bytes list \<Rightarrow> 'g \<Rightarrow> ptr list \<Rightarrow> bool" where
  none: "steps g [] g []"
| more: "step g s g' p \<Longrightarrow> steps g' ss g'' ps \<Longrightarrow> steps g (s # ss) g'' (p # ps)"

lemma steps_keep: "steps g ss g' ps \<Longrightarrow> inv g \<Longrightarrow> inv g' \<and> (\<forall>q t. content g q = Some t \<longrightarrow> content g' q = Some t)"
  by (induction rule: steps.induct) (auto dest: step_inv step_keeps)

lemma steps_content: "steps g ss g' ps \<Longrightarrow> inv g \<Longrightarrow> map (content g') ps = map Some ss"
proof (induction rule: steps.induct)
  case (more g s g' p ss g'' ps)
  have "inv g'" using more by (blast intro: step_inv)
  moreover have "content g'' p = Some s"
    using more steps_keep [of g' ss g'' ps] \<open>inv g'\<close> step_content by blast
  ultimately show ?case using more by simp
qed simp

lemma pointer_eq_iff_content_eq:
  assumes "inv g" "steps g ss g' ps" "i < length ss" "j < length ss"
  shows "ps ! i = ps ! j \<longleftrightarrow> ss ! i = ss ! j"
proof -
  have m: "map (content g') ps = map Some ss" using assms by (rule_tac steps_content)
  then have len: "length ps = length ss" using map_eq_imp_length_eq by blast
  have c: "content g' (ps ! k) = Some (ss ! k)" if "k < length ss" for k
    using arg_cong [OF m, of "\<lambda>xs. xs ! k"] that len by simp
  have "inv g'" using assms steps_keep by blast
  then show ?thesis using c [OF assms(3)] c [OF assms(4)] content_inj by (metis option.inject)
qed

end

lemma find_bucket:
  assumes "strt_ok g" "q \<in> linked g" "interned g q = Some str"
  shows "q \<in> set (st_hash (strt g) ! lmod (SipHash (sipKey1 g) (sipKey2 g) str) (st_size (strt g)))"
proof -
  obtain i where i: "i < length (st_hash (strt g))" "q \<in> set (st_hash (strt g) ! i)"
    using assms(2) unfolding linked_def set_concat_nth by blast
  have "entry_ok g q" using assms(1,2) by (simp add: strt_ok_alt)
  then have "ts_hash_at g q = SipHash (sipKey1 g) (sipKey2 g) str"
    using assms(2,3) by (auto simp: entry_ok_iff ts_hash_at_def interned_def)
  moreover have "lmod (ts_hash_at g q) (st_size (strt g)) = i"
    using assms(1) i by (simp add: strt_ok_def)
  ultimately show ?thesis using i by simp
qed

lemma ts_matches_interned:
  "strt_ok g \<Longrightarrow> q \<in> linked g \<Longrightarrow> ts_matches g str q \<longleftrightarrow> interned g q = Some str"
  unfolding strt_ok_alt by (auto simp: ts_matches_def interned_def entry_ok_iff dest!: bspec)

lemma bucket_linked: "strt_ok g \<Longrightarrow> q \<in> set (st_hash (strt g) ! lmod h (st_size (strt g))) \<Longrightarrow> q \<in> linked g"
  using is_size_lmod [of "st_size (strt g)" h] by (auto simp: strt_ok_def linked_def)

text \<open>The state right after \<open>newlstr\<close> has chained the new entry, before any resize.\<close>

lemma chain_new_ok:
  assumes ok: "strt_ok g" and fresh: "strs g p = None" and new: "\<forall>q. interned g q \<noteq> Some str"
  defines "h \<equiv> SipHash (sipKey1 g) (sipKey2 g) str"
  defines "i \<equiv> lmod h (st_size (strt g))"
  defines "g' \<equiv> g\<lparr>strs := (strs g)(p \<mapsto> \<lparr>tsv_hash = h, tsv_len = length str, tsv_chars = str,
      tsv_marked = luaC_white g, tsv_reserved = 0\<rparr>),
    strt := (strt g)\<lparr>st_hash := (st_hash (strt g))[i := p # st_hash (strt g) ! i],
      st_nuse := st_nuse (strt g) + 1\<rparr>\<rparr>"
  shows "strt_ok g'" and "linked g' = insert p (linked g)"
    and "interned g' = (interned g)(p \<mapsto> str)"
proof -
  have i: "i < length (st_hash (strt g))"
    using ok is_size_lmod [of "st_size (strt g)" h] by (simp add: strt_ok_def i_def)
  have ms: "mset (concat (st_hash (strt g'))) = add_mset p (mset (concat (st_hash (strt g))))"
    using i by (simp add: g'_def mset_concat_update)
  have "set (concat (st_hash (strt g'))) = insert p (set (concat (st_hash (strt g))))"
    using arg_cong [OF ms, of set_mset] by simp
  then show lk: "linked g' = insert p (linked g)" by (simp add: linked_def)
  have pn: "p \<notin> linked g" using ok fresh unfolding strt_ok_alt by (auto simp: entry_ok_iff)
  show int: "interned g' = (interned g)(p \<mapsto> str)"
    by (auto simp: fun_eq_iff interned_def lk) (simp_all add: g'_def)
  have "distinct (concat (st_hash (strt g')))"
    using ms ok pn unfolding strt_ok_alt
    by (metis distinct.simps(2) linked_def mset.simps(2) mset_eq_imp_distinct_iff)
  moreover have "inj_on (interned g') (linked g')"
  proof -
    have "Some str \<notin> interned g ` linked g" using new by auto
    moreover from this have "inj_on ((interned g)(p \<mapsto> str)) (linked g)"
      using ok unfolding strt_ok_alt by (intro inj_on_fun_updI) auto
    ultimately show ?thesis using pn new unfolding int lk by (auto simp: inj_on_def split: if_splits)
  qed
  moreover have "placed g' (st_size (strt g')) (st_hash (strt g'))"
    using ok pn i unfolding strt_ok_alt placed_def
    by (auto simp: g'_def i_def nth_list_update ts_hash_at_def linked_def)
  moreover have "\<forall>q \<in> linked g'. entry_ok g' q"
    using ok unfolding lk strt_ok_alt by (auto simp: entry_ok_iff g'_def h_def)
  moreover have "length (concat (st_hash (strt g'))) = Suc (length (concat (st_hash (strt g))))"
    using arg_cong [OF ms, of size] by simp
  ultimately show "strt_ok g'"
    using ok unfolding strt_ok_alt by (simp add: g'_def)
qed

text \<open>
  A successful call: \<open>addr\<close> is what the allocator returned, an address no string object uses.
\<close>

definition intern_step :: "strstate \<Rightarrow> bytes \<Rightarrow> strstate \<Rightarrow> ptr \<Rightarrow> bool" where
  "intern_step g str g' p =
     (\<exists>addr ok. strs g addr = None \<and> luaS_newlstr g str (Some addr) ok = (g', Inr p))"

lemma changewhite_keeps:
  assumes "strt_ok g" "p \<in> linked g" "g' = g\<lparr>strs := (strs g)(p \<mapsto> changewhite (the (strs g p)))\<rparr>"
  shows "strt_ok g' \<and> interned g' = interned g \<and> linked g' = linked g"
proof -
  obtain ts where ts: "strs g p = Some ts"
    using assms(1,2) unfolding strt_ok_alt by (auto simp: entry_ok_iff)
  have lk: "linked g' = linked g" by (simp add: linked_def assms(3))
  have int: "interned g' = interned g" using ts lk by (auto simp: fun_eq_iff interned_def assms(3) changewhite_def)
  have "entry_ok g' = entry_ok g" using ts by (auto simp: fun_eq_iff entry_ok_iff assms(3) changewhite_def)
  moreover have "ts_hash_at g' = ts_hash_at g"
    using ts by (auto simp: fun_eq_iff ts_hash_at_def assms(3) changewhite_def)
  ultimately show ?thesis using assms(1) lk int
    by (simp add: strt_ok_alt placed_def) (simp add: assms(3))
qed

lemma size_double: "is_size n \<Longrightarrow> n \<le> MAX_INT div 2 \<Longrightarrow> is_size (n * 2)"
proof -
  assume "is_size n" and le: "n \<le> MAX_INT div 2"
  then obtain k where k: "n = 2 ^ k" by (auto simp: is_size_def)
  have "(2::nat) ^ k < 2 ^ 30" using le by (simp add: k MAX_INT_def)
  then have "k < 30" by (rule power_less_imp_less_exp [rotated]) simp
  then show "is_size (n * 2)" unfolding is_size_def by (intro exI [of _ "Suc k"]) (simp add: k)
qed

lemma find_None_absent:
  assumes "strt_ok g"
    "find (ts_matches g str) (st_hash (strt g) ! lmod (SipHash (sipKey1 g) (sipKey2 g) str) (st_size (strt g))) = None"
  shows "\<forall>q. interned g q \<noteq> Some str"
proof (intro allI notI)
  fix q assume q: "interned g q = Some str"
  then have "q \<in> linked g" by (auto simp: interned_def split: if_splits)
  then show False using assms q find_bucket ts_matches_interned by (force simp: find_None_iff)
qed

lemma newlstr_ok:
  assumes "strt_ok g" "strs g a = None" "\<forall>q. interned g q \<noteq> Some str"
    "newlstr g str (SipHash (sipKey1 g) (sipKey2 g) str) (Some a) ok = (g', Inr p)"
  shows "p = a \<and> strt_ok g' \<and> interned g' = (interned g)(a \<mapsto> str)"
proof -
  define h i g1 where "h = SipHash (sipKey1 g) (sipKey2 g) str" and "i = lmod h (st_size (strt g))"
    and "g1 = g\<lparr>strs := (strs g)(a \<mapsto> \<lparr>tsv_hash = h, tsv_len = length str, tsv_chars = str,
        tsv_marked = luaC_white g, tsv_reserved = 0\<rparr>),
      strt := (strt g)\<lparr>st_hash := (st_hash (strt g))[i := a # st_hash (strt g) ! i],
        st_nuse := st_nuse (strt g) + 1\<rparr>\<rparr>"
  note c = chain_new_ok [OF assms(1-3), folded h_def, folded i_def, folded g1_def]
  show ?thesis
  proof (cases "g' = g1")
    case True
    then show ?thesis using c assms(4)
      by (auto simp: newlstr_def Let_def h_def i_def g1_def split: if_splits prod.splits sum.splits)
  next
    case False
    have sz: "is_size (st_size (strt g) * 2)" "p = a" "luaS_resize g1 (st_size (strt g) * 2) ok = (g', Inr ())"
      using False assms(1,4) size_double
      by (auto simp: newlstr_def Let_def h_def i_def g1_def strt_ok_def split: if_splits prod.splits sum.splits)
    from luaS_resize_keeps [OF c(1) sz(1,3)] have "strt_ok g'" "interned g' = interned g1"
      by (auto simp: fun_eq_iff interned_def)
    then show ?thesis using c sz by simp
  qed
qed

lemma intern_step_cases:
  assumes "strt_ok g" "intern_step g str g' p"
  shows "strt_ok g' \<and> interned g' p = Some str \<and>
    (interned g' = interned g \<or> (\<forall>q. interned g q \<noteq> Some str) \<and>
      interned g p = None \<and> interned g' = (interned g)(p \<mapsto> str))"
proof -
  obtain a ok where a: "strs g a = None" "luaS_newlstr g str (Some a) ok = (g', Inr p)"
    using assms(2) by (auto simp: intern_step_def)
  define b where "b = st_hash (strt g) ! lmod (SipHash (sipKey1 g) (sipKey2 g) str) (st_size (strt g))"
  show ?thesis
  proof (cases "find (ts_matches g str) b")
    case (Some q)
    then have q: "q \<in> set b" "ts_matches g str q" by (auto simp: find_Some_iff)
    then have l: "q \<in> linked g" using assms(1) bucket_linked by (simp add: b_def)
    then have "interned g q = Some str" using q assms(1) ts_matches_interned by simp
    moreover have "p = q" "g' = g \<or> g' = g\<lparr>strs := (strs g)(q \<mapsto> changewhite (the (strs g q)))\<rparr>"
      using a(2) Some by (auto simp: luaS_newlstr_def Let_def b_def split: if_splits)
    ultimately show ?thesis using assms(1) changewhite_keeps [OF assms(1) l] by metis
  next
    case None
    have new: "\<forall>q. interned g q \<noteq> Some str" using assms(1) None by (simp add: b_def find_None_absent)
    have "newlstr g str (SipHash (sipKey1 g) (sipKey2 g) str) (Some a) ok = (g', Inr p)"
      using a(2) None by (simp add: luaS_newlstr_def Let_def b_def)
    from newlstr_ok [OF assms(1) a(1) new this]
    have "p = a" "strt_ok g'" "interned g' = (interned g)(a \<mapsto> str)" by auto
    moreover have "interned g a = None" by (simp add: interned_def a(1))
    ultimately show ?thesis using new by simp
  qed
qed

interpretation strtab: interning strt_ok interned intern_step
proof
  fix g p q s assume "strt_ok g" "interned g p = Some s" "interned g q = Some s"
  moreover from this have "p \<in> linked g" "q \<in> linked g" by (auto simp: interned_def split: if_splits)
  ultimately show "p = q" unfolding strt_ok_alt inj_on_def by metis
next
  fix g s g' p q t assume "strt_ok g" "intern_step g s g' p" "interned g q = Some t"
  with intern_step_cases [of g s g' p] show "interned g' q = Some t" by (cases "q = p") auto
qed (use intern_step_cases in blast)+

section \<open>Sequences of calls\<close>

text \<open>A sequence of calls, each with the address and the answer the allocator has for it.\<close>

fun intern_all :: "strstate \<Rightarrow> (bytes \<times> ptr \<times> bool) list \<Rightarrow> (strstate \<times> ptr list) option" where
  "intern_all g [] = Some (g, [])"
| "intern_all g ((str, a, ok) # calls) =
     (if strs g a \<noteq> None then None
      else case luaS_newlstr g str (Some a) ok of
        (g', Inl e) \<Rightarrow> None
      | (g', Inr p) \<Rightarrow> map_option (\<lambda>(g'', ps). (g'', p # ps)) (intern_all g' calls))"

lemma intern_all_steps:
  "intern_all g calls = Some (g', ps) \<Longrightarrow> strtab.steps g (map fst calls) g' ps"
proof (induction g calls arbitrary: ps rule: intern_all.induct)
  case (1 g)
  then show ?case by (auto intro: strtab.steps.none)
next
  case (2 g str a ok calls)
  from 2(2) obtain g1 p ps' where *: "strs g a = None" "luaS_newlstr g str (Some a) ok = (g1, Inr p)"
      "intern_all g1 calls = Some (g', ps')" "ps = p # ps'"
    by (auto split: if_splits prod.splits sum.splits)
  have "intern_step g str g1 p" using * by (auto simp: intern_step_def)
  then show ?case using 2(1) * by (auto intro: strtab.steps.more)
qed


text \<open>A table with one bucket, as a run of the program starts from.\<close>

definition small_strt :: strstate where
  "small_strt = \<lparr>strt = \<lparr>st_hash = [[]], st_nuse = 0, st_size = 1\<rparr>, strs = Map.empty,
     currentwhite = 1, gcstate = 0, sipKey1 = 7, sipKey2 = 9\<rparr>"

lemma small_strt_ok: "strt_ok small_strt"
  by (simp add: strt_ok_alt small_strt_def is_size_def placed_def linked_def exI [of _ 0])


lemma newlstr_keeps:
  assumes "strt_ok g" "\<And>a. addr = Some a \<Longrightarrow> strs g a = None" "\<forall>q. interned g q \<noteq> Some str"
    "newlstr g str (SipHash (sipKey1 g) (sipKey2 g) str) addr ok = (g', r)"
  shows "strt_ok g'"
proof (cases r)
  case (Inr p)
  then obtain a where "addr = Some a" using assms(4) by (cases addr) (auto simp: newlstr_def split: if_splits)
  then show ?thesis using newlstr_ok assms Inr by blast
next
  case (Inl e)
  show ?thesis
  proof (cases "g' = g")
    case False
    then obtain a where a: "addr = Some a" using assms(4) by (cases addr) (auto simp: newlstr_def split: if_splits)
    have na: "strs g a = None" using a assms(2) by simp
    define h i g1 where "h = SipHash (sipKey1 g) (sipKey2 g) str" and "i = lmod h (st_size (strt g))"
      and "g1 = g\<lparr>strs := (strs g)(a \<mapsto> \<lparr>tsv_hash = h, tsv_len = length str, tsv_chars = str,
          tsv_marked = luaC_white g, tsv_reserved = 0\<rparr>),
        strt := (strt g)\<lparr>st_hash := (st_hash (strt g))[i := a # st_hash (strt g) ! i],
          st_nuse := st_nuse (strt g) + 1\<rparr>\<rparr>"
    have "strt_ok g1"
      using chain_new_ok [OF assms(1) na assms(3), folded h_def, folded i_def, folded g1_def] by simp
    moreover have "is_size (st_size (strt g) * 2)" "luaS_resize g1 (st_size (strt g) * 2) ok = (g', Inl e)"
      using False assms(1,4) size_double Inl a
      by (auto simp: newlstr_def Let_def h_def i_def g1_def strt_ok_def split: if_splits prod.splits sum.splits)
    ultimately show ?thesis using luaS_resize_keeps by blast
  qed (simp add: assms(1))
qed

text \<open>
  C20. \<open>luaS_newlstr\<close> keeps the string table well formed in every outcome, the memory errors
  included: also when the allocation of the string object fails, and when growing the bucket
  vector fails after the new string was linked.
\<close>

theorem luaS_newlstr_keeps_strt_ok:
  assumes "strt_ok g" "\<And>a. addr = Some a \<Longrightarrow> strs g a = None" "luaS_newlstr g str addr ok = (g', r)"
  shows "strt_ok g'"
proof -
  define b where "b = st_hash (strt g) ! lmod (SipHash (sipKey1 g) (sipKey2 g) str) (st_size (strt g))"
  show ?thesis
  proof (cases "find (ts_matches g str) b")
    case (Some q)
    then have "q \<in> set b" by (auto simp: find_Some_iff)
    then have "q \<in> linked g" using assms(1) bucket_linked by (simp add: b_def)
    moreover have "g' = g \<or> g' = g\<lparr>strs := (strs g)(q \<mapsto> changewhite (the (strs g q)))\<rparr>"
      using assms(3) Some by (auto simp: luaS_newlstr_def Let_def b_def split: if_splits)
    ultimately show ?thesis using assms(1) changewhite_keeps by metis
  next
    case None
    then show ?thesis using newlstr_keeps [of g addr str ok g' r] assms find_None_absent
      by (simp add: luaS_newlstr_def Let_def b_def)
  qed
qed

theorem luaS_newlstr_keeps_strt_ok_witness:
  "\<exists>g' r. luaS_newlstr small_strt ''ab'' (Some 16) False = (g', r) \<and> strt_ok g'"
proof (intro exI conjI)
  show r: "luaS_newlstr small_strt ''ab'' (Some 16) False =
      (fst (luaS_newlstr small_strt ''ab'' (Some 16) False), snd (luaS_newlstr small_strt ''ab'' (Some 16) False))"
    by simp
  show "strt_ok (fst (luaS_newlstr small_strt ''ab'' (Some 16) False))"
    by (rule luaS_newlstr_keeps_strt_ok [OF small_strt_ok _ r]) (simp add: small_strt_def)
qed

text \<open>
  \<open>luaS_resize\<close> to a power of two keeps every string of the table where it is, changes no
  string and leaves the table well formed, also when it fails; when it ran (no error, and the
  collector is not sweeping strings) the table has the new size.
\<close>

theorem luaS_resize_keeps_strings:
  assumes "strt_ok g" "is_size n" "luaS_resize g n ok = (g', r)"
  shows "strt_ok g' \<and> interned g' = interned g \<and> strs g' = strs g \<and>
    (r = Inr () \<and> gcstate g \<noteq> GCSsweepstring \<longrightarrow> st_size (strt g') = n)"
  using luaS_resize_keeps [OF assms] assms(3)
  by (auto simp: fun_eq_iff interned_def luaS_resize_def Let_def split: if_splits)

theorem luaS_resize_keeps_strings_witness:
  "st_size (strt (fst (luaS_resize small_strt 32 True))) = 32 \<and>
   interned (fst (luaS_resize small_strt 32 True)) = interned small_strt"
proof -
  have n: "is_size 32" unfolding is_size_def by (rule exI [of _ 5]) simp
  have "luaS_resize small_strt 32 True = (fst (luaS_resize small_strt 32 True), Inr ())"
    by (simp add: luaS_resize_def small_strt_def GCSsweepstring_def Let_def)
  from luaS_resize_keeps_strings [OF small_strt_ok n this] show ?thesis
    by (simp add: small_strt_def GCSsweepstring_def)
qed

end
