(* ===== verification/Ltable.thy ===== *)
theory Ltable
  imports Lobject
begin

text \<open>
  ltable.c: the hybrid array/hash tables. A node vector is a list of nodes whose \<open>next\<close> field is
  an index into the same vector (NULL is \<open>None\<close>). A \<open>TValue *\<close> into a table is a \<open>slot\<close>; writing
  through it is \<open>store\<close>. The string hash stored in a string object is the parameter \<open>sh\<close>
  (\<open>ts_hash_at\<close> of Lstring is its value in the running program). The node vector that several
  tables share when they are empty (\<open>dummynode\<close>) is a private one-node vector and the flag
  \<open>isdummy\<close>. \<open>newkey\<close>, \<open>rehash\<close>, \<open>resize\<close> and \<open>luaH_set\<close> call each other: each takes \<open>newkey\<close> as
  the argument \<open>nk\<close>, and \<open>newkey sh d\<close> ties the knot for \<open>d\<close> nested calls. Allocation is taken to
  succeed.
\<close>

section \<open>Data\<close>

type_synonym tval = "ptr TValue"

record Node =
  i_val :: tval
  i_key :: tval
  i_next :: "nat option"

record Table =
  flags :: "8 word"
  lsizenode :: nat
  metatable :: "ptr option"
  tarray :: "tval list"
  node :: "Node list"
  isdummy :: bool
  lastfree :: int
  sizearray :: nat

datatype slot = NilObject | ArraySlot nat | NodeSlot nat

definition MAXBITS :: nat where "MAXBITS = 26"
definition MAXASIZE :: nat where "MAXASIZE = 2 ^ MAXBITS"

definition sizenode :: "Table \<Rightarrow> nat" where
  "sizenode t = twoto (lsizenode t)"

definition nilnode :: Node where
  "nilnode = \<lparr>i_val = Vnil, i_key = Vnil, i_next = None\<rparr>"

definition slot_val :: "Table \<Rightarrow> slot \<Rightarrow> tval" where
  "slot_val t s = (case s of NilObject \<Rightarrow> Vnil | ArraySlot i \<Rightarrow> tarray t ! i | NodeSlot i \<Rightarrow> i_val (node t ! i))"

definition store :: "Table \<Rightarrow> slot \<Rightarrow> tval \<Rightarrow> Table" where
  "store t s v = (case s of NilObject \<Rightarrow> t
     | ArraySlot i \<Rightarrow> t\<lparr>tarray := (tarray t)[i := v]\<rparr>
     | NodeSlot i \<Rightarrow> t\<lparr>node := (node t)[i := (node t ! i)\<lparr>i_val := v\<rparr>]\<rparr>)"

section \<open>Hashing\<close>

definition hashpow2 :: "Table \<Rightarrow> uint32 \<Rightarrow> nat" where
  "hashpow2 t n = lmod n (sizenode t)"

definition hashmod :: "Table \<Rightarrow> uint32 \<Rightarrow> nat" where
  "hashmod t n = unat (n mod (word_of_nat (sizenode t - 1) OR 1))"

definition IntPoint :: "ptr \<Rightarrow> uint32" where
  "IntPoint p = ucast p"

definition hashnum :: "Table \<Rightarrow> lua_Number \<Rightarrow> nat" where
  "hashnum t n =
     (if luai_numeq n (cast_num 0) then 0
      else let a0 = ucast (dbits n); a1 = ucast (drop_bit 32 (dbits n)) in hashmod t (a0 + a1))"

text \<open>A nil key never reaches \<open>mainposition\<close>: \<open>gcvalue\<close> of it is not defined.\<close>

definition mainposition :: "(ptr \<Rightarrow> uint32) \<Rightarrow> Table \<Rightarrow> tval \<Rightarrow> nat" where
  "mainposition sh t key =
     (case key of
        Vnumber n \<Rightarrow> hashnum t n
      | Vstring s \<Rightarrow> hashpow2 t (sh s)
      | Vboolean b \<Rightarrow> hashpow2 t (if b then 1 else 0)
      | Vlightuserdata p \<Rightarrow> hashmod t (IntPoint p)
      | Vtable p \<Rightarrow> hashmod t (IntPoint p)
      | Vfunction p \<Rightarrow> hashmod t (IntPoint p)
      | Vuserdata p \<Rightarrow> hashmod t (IntPoint p)
      | Vthread p \<Rightarrow> hashmod t (IntPoint p)
      | Vdeadkey p \<Rightarrow> hashmod t (IntPoint p)
      | Vnil \<Rightarrow> 0)"

definition arrayindex :: "tval \<Rightarrow> int" where
  "arrayindex key =
     (case key of
        Vnumber n \<Rightarrow> (let k = lua_number2int n in if luai_numeq (cast_num k) n then k else - 1)
      | _ \<Rightarrow> - 1)"

section \<open>Lookup\<close>

text \<open>
  The \<open>do ... while\<close> loops that follow a chain: \<open>fuel\<close> bounds the nodes visited, and the callers
  give the size of the vector (\<open>search_enough\<close>: more makes no difference).
\<close>

fun search :: "(Node \<Rightarrow> bool) \<Rightarrow> Node list \<Rightarrow> nat \<Rightarrow> nat \<Rightarrow> nat option" where
  "search P ns 0 n = None"
| "search P ns (Suc fuel) n =
     (if P (ns ! n) then Some n
      else case i_next (ns ! n) of None \<Rightarrow> None | Some m \<Rightarrow> search P ns fuel m)"

definition node_slot :: "nat option \<Rightarrow> slot" where
  "node_slot r = (case r of None \<Rightarrow> NilObject | Some n \<Rightarrow> NodeSlot n)"

definition key_is_num :: "lua_Number \<Rightarrow> Node \<Rightarrow> bool" where
  "key_is_num nk n = (case i_key n of Vnumber m \<Rightarrow> luai_numeq m nk | _ \<Rightarrow> False)"

definition key_is_str :: "ptr \<Rightarrow> Node \<Rightarrow> bool" where
  "key_is_str p n = (case i_key n of Vstring q \<Rightarrow> q = p | _ \<Rightarrow> False)"

definition luaH_getnum :: "Table \<Rightarrow> int \<Rightarrow> slot" where
  "luaH_getnum t key =
     (if (word_of_int (key - 1) :: uint32) < word_of_nat (sizearray t) then ArraySlot (nat (key - 1))
      else let nk = cast_num key
           in node_slot (search (key_is_num nk) (node t) (length (node t)) (hashnum t nk)))"

definition luaH_getstr :: "(ptr \<Rightarrow> uint32) \<Rightarrow> Table \<Rightarrow> ptr \<Rightarrow> slot" where
  "luaH_getstr sh t key =
     node_slot (search (key_is_str key) (node t) (length (node t)) (hashpow2 t (sh key)))"

definition get_generic :: "(ptr \<Rightarrow> uint32) \<Rightarrow> Table \<Rightarrow> tval \<Rightarrow> slot" where
  "get_generic sh t key =
     node_slot (search (\<lambda>n. luaO_rawequalObj (i_key n) key) (node t) (length (node t)) (mainposition sh t key))"

definition luaH_get :: "(ptr \<Rightarrow> uint32) \<Rightarrow> Table \<Rightarrow> tval \<Rightarrow> slot" where
  "luaH_get sh t key =
     (case key of
        Vnil \<Rightarrow> NilObject
      | Vstring s \<Rightarrow> luaH_getstr sh t s
      | Vnumber n \<Rightarrow>
          (let k = lua_number2int n
           in if luai_numeq (cast_num k) n then luaH_getnum t k else get_generic sh t key)
      | _ \<Rightarrow> get_generic sh t key)"

section \<open>Sizes\<close>

fun computesizes_loop :: "nat list \<Rightarrow> nat \<Rightarrow> nat \<Rightarrow> nat \<Rightarrow> nat \<Rightarrow> nat \<Rightarrow> (nat \<times> nat) res" where
  "computesizes_loop nums narray twotoi a na n =
     (if \<not> twotoi div 2 < narray then Inr (na, n)
      else case nums of
        [] \<Rightarrow> Inl (Undefined ''nums'')
      | c # cs \<Rightarrow>
          (let a' = (if 0 < c then a + c else a);
               big = (0 < c \<and> twotoi div 2 < a');
               n' = (if big then twotoi else n);
               na' = (if big then a' else na)
           in if a' = narray then Inr (na', n')
              else computesizes_loop cs narray (twotoi * 2) a' na' n'))"

declare computesizes_loop.simps [simp del]

text \<open>The pair of the result and the new \<open>*narray\<close>.\<close>

definition computesizes :: "nat list \<Rightarrow> nat \<Rightarrow> (nat \<times> nat) res" where
  "computesizes nums narray = computesizes_loop nums narray 1 0 0 0"

definition countint :: "tval \<Rightarrow> nat list \<Rightarrow> nat list \<times> nat" where
  "countint key nums =
     (let k = arrayindex key
      in if 0 < k \<and> k \<le> int MAXASIZE
         then (let i = nat (ceillog2 k) in (nums[i := nums ! i + 1], 1))
         else (nums, 0))"

primrec numusearray_loop ::
  "tval list \<Rightarrow> nat \<Rightarrow> nat \<Rightarrow> nat \<Rightarrow> nat \<Rightarrow> nat \<Rightarrow> nat list \<Rightarrow> nat \<Rightarrow> nat list \<times> nat" where
  "numusearray_loop arr sz 0 lg ttlg i nums ause = (nums, ause)"
| "numusearray_loop arr sz (Suc r) lg ttlg i nums ause =
     (if sz < ttlg \<and> sz < i then (nums, ause)
      else let lim = min ttlg sz;
               lc = length (filter (\<lambda>j. \<not> ttisnil (arr ! (j - 1))) [i..<lim + 1])
           in numusearray_loop arr sz r (lg + 1) (ttlg * 2) (max i (lim + 1))
                (nums[lg := nums ! lg + lc]) (ause + lc))"

definition numusearray :: "Table \<Rightarrow> nat list \<Rightarrow> nat list \<times> nat" where
  "numusearray t nums = numusearray_loop (tarray t) (sizearray t) (MAXBITS + 1) 0 1 1 nums 0"

fun numusehash_loop :: "Node list \<Rightarrow> nat \<Rightarrow> nat list \<Rightarrow> nat \<Rightarrow> nat \<Rightarrow> nat list \<times> nat \<times> nat" where
  "numusehash_loop ns 0 nums totaluse ause = (nums, totaluse, ause)"
| "numusehash_loop ns (Suc i) nums totaluse ause =
     (if ttisnil (i_val (ns ! i)) then numusehash_loop ns i nums totaluse ause
      else let (nums', c) = countint (i_key (ns ! i)) nums
           in numusehash_loop ns i nums' (totaluse + 1) (ause + c))"

definition numusehash :: "Table \<Rightarrow> nat list \<Rightarrow> nat \<Rightarrow> nat list \<times> nat \<times> nat" where
  "numusehash t nums pnasize =
     (let (nums', totaluse, ause) = numusehash_loop (node t) (sizenode t) nums 0 0
      in (nums', totaluse, pnasize + ause))"

section \<open>Vectors\<close>

definition setarrayvector :: "Table \<Rightarrow> nat \<Rightarrow> Table" where
  "setarrayvector t n =
     t\<lparr>tarray := take n (take (sizearray t) (tarray t) @ replicate (n - sizearray t) Vnil),
       sizearray := n\<rparr>"

definition setnodevector :: "Table \<Rightarrow> nat \<Rightarrow> Table res" where
  "setnodevector t n =
     (if n = 0 then Inr (t\<lparr>node := [nilnode], isdummy := True, lsizenode := 0, lastfree := 0\<rparr>)
      else let lsize = nat (ceillog2 (int n))
           in if MAXBITS < lsize then Inl (RunError ''table overflow'')
              else Inr (t\<lparr>node := replicate (twoto lsize) nilnode, isdummy := False,
                          lsizenode := lsize, lastfree := int (twoto lsize)\<rparr>))"

definition luaH_new :: "nat \<Rightarrow> nat \<Rightarrow> Table res" where
  "luaH_new narray nhash =
     (let t = \<lparr>flags = 255, lsizenode = 0, metatable = None, tarray = [], node = [nilnode],
               isdummy = True, lastfree = 0, sizearray = 0\<rparr>
      in setnodevector (setarrayvector t narray) nhash)"

fun getfree_loop :: "Node list \<Rightarrow> nat \<Rightarrow> int \<times> nat option" where
  "getfree_loop ns 0 = (- 1, None)"
| "getfree_loop ns (Suc m) =
     (if ttisnil (i_key (ns ! m)) then (int m, Some m) else getfree_loop ns m)"

definition getfreepos :: "Table \<Rightarrow> Table \<times> nat option" where
  "getfreepos t =
     (if lastfree t \<le> 0 then (t\<lparr>lastfree := lastfree t - 1\<rparr>, None)
      else let (lf, r) = getfree_loop (node t) (nat (lastfree t)) in (t\<lparr>lastfree := lf\<rparr>, r))"

section \<open>Insertion\<close>

type_synonym newkey_fn = "Table \<Rightarrow> tval \<Rightarrow> (Table \<times> slot) res"

definition luaH_set_with :: "(ptr \<Rightarrow> uint32) \<Rightarrow> newkey_fn \<Rightarrow> newkey_fn" where
  "luaH_set_with sh nk t key =
     (let p = luaH_get sh t key; t' = t\<lparr>flags := 0\<rparr>
      in if p \<noteq> NilObject then Inr (t', p)
         else if ttisnil key then Inl (RunError ''table index is nil'')
         else if (case key of Vnumber n \<Rightarrow> luai_numisnan n | _ \<Rightarrow> False)
              then Inl (RunError ''table index is NaN'')
         else nk t' key)"

definition luaH_setnum_with :: "newkey_fn \<Rightarrow> Table \<Rightarrow> int \<Rightarrow> (Table \<times> slot) res" where
  "luaH_setnum_with nk t key =
     (let p = luaH_getnum t key
      in if p \<noteq> NilObject then Inr (t, p) else nk t (Vnumber (cast_num key)))"

definition luaH_setstr_with ::
  "(ptr \<Rightarrow> uint32) \<Rightarrow> newkey_fn \<Rightarrow> Table \<Rightarrow> ptr \<Rightarrow> (Table \<times> slot) res" where
  "luaH_setstr_with sh nk t key =
     (let p = luaH_getstr sh t key
      in if p \<noteq> NilObject then Inr (t, p) else nk t (Vstring key))"

text \<open>
  The two loops of \<open>resize\<close>. The first reads the old array memory while \<open>luaH_setnum\<close> may, through
  \<open>newkey\<close> and \<open>rehash\<close>, reallocate it: from then on the loop reads freed memory.
\<close>

fun reinsert_array :: "newkey_fn \<Rightarrow> nat \<Rightarrow> nat \<Rightarrow> Table \<Rightarrow> Table res" where
  "reinsert_array nk i 0 t = Inr t"
| "reinsert_array nk i (Suc r) t =
     (let v = tarray t ! i
      in if ttisnil v then reinsert_array nk (i + 1) r t
         else rbind (luaH_setnum_with nk t (int i + 1)) (\<lambda>(t', s).
           if tarray t' \<noteq> tarray t then Inl (Undefined ''array reallocated'')
           else reinsert_array nk (i + 1) r (store t' s v)))"

fun reinsert_hash :: "(ptr \<Rightarrow> uint32) \<Rightarrow> newkey_fn \<Rightarrow> Node list \<Rightarrow> nat \<Rightarrow> Table \<Rightarrow> Table res" where
  "reinsert_hash sh nk nold 0 t = Inr t"
| "reinsert_hash sh nk nold (Suc i) t =
     (if ttisnil (i_val (nold ! i)) then reinsert_hash sh nk nold i t
      else rbind (luaH_set_with sh nk t (i_key (nold ! i))) (\<lambda>(t', s).
        reinsert_hash sh nk nold i (store t' s (i_val (nold ! i)))))"

definition resize_with :: "(ptr \<Rightarrow> uint32) \<Rightarrow> newkey_fn \<Rightarrow> Table \<Rightarrow> nat \<Rightarrow> nat \<Rightarrow> Table res" where
  "resize_with sh nk t nasize nhsize =
     (let oldasize = sizearray t;
          oldhsize = lsizenode t;
          nold = node t;
          t1 = (if oldasize < nasize then setarrayvector t nasize else t)
      in rbind (setnodevector t1 nhsize) (\<lambda>t2.
         rbind (if nasize < oldasize
                then rbind (reinsert_array nk nasize (oldasize - nasize) (t2\<lparr>sizearray := nasize\<rparr>))
                       (\<lambda>t3. Inr (t3\<lparr>tarray := take nasize (tarray t3)\<rparr>))
                else Inr t2) (\<lambda>t4.
         reinsert_hash sh nk nold (twoto oldhsize) t4)))"

definition rehash_with :: "(ptr \<Rightarrow> uint32) \<Rightarrow> newkey_fn \<Rightarrow> Table \<Rightarrow> tval \<Rightarrow> Table res" where
  "rehash_with sh nk t ek =
     (let (nums1, nasize1) = numusearray t (replicate (MAXBITS + 1) 0);
          (nums2, usehash, nasize2) = numusehash t nums1 nasize1;
          totaluse = nasize1 + usehash;
          (nums3, c) = countint ek nums2
      in rbind (computesizes nums3 (nasize2 + c)) (\<lambda>(na, nasize).
           resize_with sh nk t nasize (totaluse + 1 - na)))"

fun find_previous :: "Node list \<Rightarrow> nat \<Rightarrow> nat \<Rightarrow> nat \<Rightarrow> nat option" where
  "find_previous ns 0 othern mp = None"
| "find_previous ns (Suc fuel) othern mp =
     (if i_next (ns ! othern) = Some mp then Some othern
      else case i_next (ns ! othern) of None \<Rightarrow> None | Some o' \<Rightarrow> find_previous ns fuel o' mp)"

definition set_key :: "Table \<Rightarrow> nat \<Rightarrow> tval \<Rightarrow> Table" where
  "set_key t mp key = t\<lparr>node := (node t)[mp := (node t ! mp)\<lparr>i_key := key\<rparr>]\<rparr>"

definition newkey_with :: "(ptr \<Rightarrow> uint32) \<Rightarrow> newkey_fn \<Rightarrow> newkey_fn" where
  "newkey_with sh nk t key =
     (let mp = mainposition sh t key
      in if \<not> ttisnil (i_val (node t ! mp)) \<or> isdummy t
         then case getfreepos t of
             (t1, None) \<Rightarrow> rbind (rehash_with sh nk t1 key) (\<lambda>t2. luaH_set_with sh nk t2 key)
           | (t1, Some n) \<Rightarrow>
               (let ns = node t1; othern = mainposition sh t1 (i_key (ns ! mp))
                in if othern \<noteq> mp
                   then case find_previous ns (length ns) othern mp of
                       None \<Rightarrow> Inl (Undefined ''no previous node'')
                     | Some pr \<Rightarrow>
                         (let ns1 = ns[pr := (ns ! pr)\<lparr>i_next := Some n\<rparr>];
                              ns2 = ns1[n := ns1 ! mp];
                              ns3 = ns2[mp := (ns2 ! mp)\<lparr>i_next := None, i_val := Vnil\<rparr>]
                          in Inr (set_key (t1\<lparr>node := ns3\<rparr>) mp key, NodeSlot mp))
                   else (let ns1 = ns[n := (ns ! n)\<lparr>i_next := i_next (ns ! mp)\<rparr>];
                             ns2 = ns1[mp := (ns1 ! mp)\<lparr>i_next := Some n\<rparr>]
                         in Inr (set_key (t1\<lparr>node := ns2\<rparr>) n key, NodeSlot n)))
         else Inr (set_key t mp key, NodeSlot mp))"

primrec newkey :: "(ptr \<Rightarrow> uint32) \<Rightarrow> nat \<Rightarrow> newkey_fn" where
  "newkey sh 0 = (\<lambda>t key. Inl (Undefined ''nesting''))"
| "newkey sh (Suc d) = newkey_with sh (newkey sh d)"

text \<open>Two nested calls are enough (\<open>luaH_set_total\<close>): the one that rehashes and its insertions.\<close>

definition luaH_set :: "(ptr \<Rightarrow> uint32) \<Rightarrow> newkey_fn" where
  "luaH_set sh = luaH_set_with sh (newkey sh 2)"

definition luaH_setnum :: "(ptr \<Rightarrow> uint32) \<Rightarrow> Table \<Rightarrow> int \<Rightarrow> (Table \<times> slot) res" where
  "luaH_setnum sh = luaH_setnum_with (newkey sh 2)"

definition luaH_setstr :: "(ptr \<Rightarrow> uint32) \<Rightarrow> Table \<Rightarrow> ptr \<Rightarrow> (Table \<times> slot) res" where
  "luaH_setstr sh = luaH_setstr_with sh (newkey sh 2)"

definition luaH_resizearray :: "(ptr \<Rightarrow> uint32) \<Rightarrow> Table \<Rightarrow> nat \<Rightarrow> Table res" where
  "luaH_resizearray sh t nasize =
     resize_with sh (newkey sh 2) t nasize (if isdummy t then 0 else sizenode t)"

text \<open>lgc.c clears an entry whose value became nil: a collectable key dies.\<close>

definition removeentry :: "Node \<Rightarrow> Node" where
  "removeentry n = (if iscollectable (i_key n) then
     (case i_key n of
        Vstring p \<Rightarrow> n\<lparr>i_key := Vdeadkey p\<rparr>
      | Vtable p \<Rightarrow> n\<lparr>i_key := Vdeadkey p\<rparr>
      | Vfunction p \<Rightarrow> n\<lparr>i_key := Vdeadkey p\<rparr>
      | Vuserdata p \<Rightarrow> n\<lparr>i_key := Vdeadkey p\<rparr>
      | Vthread p \<Rightarrow> n\<lparr>i_key := Vdeadkey p\<rparr>
      | _ \<Rightarrow> n) else n)"

section \<open>Traversal\<close>

definition gcvalue :: "tval \<Rightarrow> ptr option" where
  "gcvalue v = (case v of Vstring p \<Rightarrow> Some p | Vtable p \<Rightarrow> Some p | Vfunction p \<Rightarrow> Some p
     | Vuserdata p \<Rightarrow> Some p | Vthread p \<Rightarrow> Some p | Vdeadkey p \<Rightarrow> Some p | _ \<Rightarrow> None)"

definition next_matches :: "tval \<Rightarrow> Node \<Rightarrow> bool" where
  "next_matches key n = (luaO_rawequalObj (i_key n) key \<or>
     (ttype (i_key n) = 11 \<and> iscollectable key \<and> gcvalue (i_key n) = gcvalue key))"

text \<open>The index is returned plus one: the \<open>-1\<close> that starts a traversal is 0.\<close>

definition findindex :: "(ptr \<Rightarrow> uint32) \<Rightarrow> Table \<Rightarrow> tval \<Rightarrow> nat res" where
  "findindex sh t key =
     (if ttisnil key then Inr 0
      else let i = arrayindex key
           in if 0 < i \<and> i \<le> int (sizearray t) then Inr (nat i)
              else case search (next_matches key) (node t) (length (node t)) (mainposition sh t key) of
                     Some n \<Rightarrow> Inr (n + sizearray t + 1)
                   | None \<Rightarrow> Inl (RunError ''invalid key to next''))"

fun next_array :: "tval list \<Rightarrow> nat \<Rightarrow> nat \<Rightarrow> (tval \<times> tval) option" where
  "next_array arr i 0 = None"
| "next_array arr i (Suc r) =
     (if ttisnil (arr ! i) then next_array arr (i + 1) r
      else Some (Vnumber (cast_num (int i + 1)), arr ! i))"

fun next_hash :: "Node list \<Rightarrow> nat \<Rightarrow> nat \<Rightarrow> (tval \<times> tval) option" where
  "next_hash ns i 0 = None"
| "next_hash ns i (Suc r) =
     (if ttisnil (i_val (ns ! i)) then next_hash ns (i + 1) r
      else Some (i_key (ns ! i), i_val (ns ! i)))"

definition luaH_next :: "(ptr \<Rightarrow> uint32) \<Rightarrow> Table \<Rightarrow> tval \<Rightarrow> (tval \<times> tval) option res" where
  "luaH_next sh t key =
     rbind (findindex sh t key) (\<lambda>i.
       case next_array (tarray t) i (sizearray t - i) of
         Some kv \<Rightarrow> Inr (Some kv)
       | None \<Rightarrow> (let i' = max i (sizearray t) - sizearray t
                  in Inr (next_hash (node t) i' (sizenode t - i'))))"

section \<open>Boundaries\<close>

function border_array :: "(nat \<Rightarrow> bool) \<Rightarrow> nat \<Rightarrow> nat \<Rightarrow> nat" where
  "border_array absent i j =
     (if j - i > 1 then let m = (i + j) div 2 in if absent m then border_array absent i m else border_array absent m j
      else i)"
  by pat_completeness auto
termination by (relation "measure (\<lambda>(f, i, j). j - i)") auto

declare border_array.simps [simp del]

definition absent :: "Table \<Rightarrow> nat \<Rightarrow> bool" where
  "absent t i = ttisnil (slot_val t (luaH_getnum t (int i)))"

fun linear_search :: "Table \<Rightarrow> nat \<Rightarrow> nat \<Rightarrow> nat option" where
  "linear_search t 0 i = None"
| "linear_search t (Suc fuel) i = (if absent t i then Some (i - 1) else linear_search t fuel (i + 1))"

function unbound_loop :: "Table \<Rightarrow> nat \<Rightarrow> nat \<Rightarrow> nat option" where
  "unbound_loop t i j =
     (if absent t j then Some (border_array (absent t) i j)
      else if j = 0 \<or> 2 * j > 2 ^ 31 - 3 then linear_search t (sizearray t + sizenode t + 1) 1
      else unbound_loop t j (2 * j))"
  by pat_completeness auto
termination by (relation "measure (\<lambda>(t, i, j). 2 ^ 31 - j)") auto

declare unbound_loop.simps [simp del]

definition unbound_search :: "Table \<Rightarrow> nat \<Rightarrow> nat option" where
  "unbound_search t j = unbound_loop t j (j + 1)"

definition luaH_getn :: "Table \<Rightarrow> nat option" where
  "luaH_getn t =
     (let j = sizearray t
      in if 0 < j \<and> ttisnil (tarray t ! (j - 1))
         then Some (border_array (\<lambda>m. ttisnil (tarray t ! (m - 1))) 0 j)
         else if isdummy t then Some j
         else unbound_search t j)"

end
