(* ===== verification/Ltable_hash.thy ===== *)
theory Ltable_hash
  imports Ltable
begin

text \<open>
  The hash part of a table: the invariant of a node vector (chains are disjoint and end, every
  key is reachable from its main position, keys are unique), the searches under it, and the
  three ways in which \<open>newkey\<close> places a key.
\<close>

section \<open>Main positions\<close>

lemma or_1_mask:
  assumes "l \<le> 26"
  shows "(word_of_nat (2 ^ l - 1) OR 1 :: uint32) = (if l = 0 then 1 else mask l)"
proof (cases "l = 0")
  case False
  have m: "(word_of_nat (2 ^ l - 1) :: uint32) = mask l"
    by (simp add: mask_eq_exp_minus_1)
  have "bit (mask l OR 1 :: uint32) k = bit (mask l :: uint32) k" for k
    using False by (auto simp: bit_or_iff bit_mask_iff bit_1_iff)
  then have "(mask l OR 1 :: uint32) = mask l" by (rule bit_eqI)
  with m False show ?thesis by simp
qed simp

lemma hashmod_less:
  assumes "lsizenode t \<le> 26"
  shows "hashmod t n < 2 ^ lsizenode t"
proof -
  have le: "(2::nat) ^ lsizenode t \<le> 2 ^ 26" using assms by (rule power_increasing) simp
  have "(mask (lsizenode t) :: uint32) = word_of_nat (2 ^ lsizenode t - 1)"
    by (simp add: mask_eq_exp_minus_1)
  then have "unat (mask (lsizenode t) :: uint32) = 2 ^ lsizenode t - 1"
    using le by (simp only: unsigned_of_nat) (simp add: take_bit_nat_eq_self)
  moreover have "x mod (2 ^ l - Suc 0) < 2 ^ l" if "0 < l" for x l :: nat
    using mod_less_divisor [of "2 ^ l - Suc 0" x] one_less_power [of "2::nat" l] that by linarith
  ultimately show ?thesis using or_1_mask [OF assms]
    by (cases "lsizenode t = 0") (auto simp: hashmod_def sizenode_def twoto_def unat_mod)
qed

lemma mainposition_less: "lsizenode t \<le> 26 \<Longrightarrow> mainposition sh t k < 2 ^ lsizenode t"
  by (auto simp: mainposition_def hashmod_less hashpow2_def hashnum_def Let_def sizenode_def twoto_def
      intro: lmod_less split: TValue.split)

lemma mainposition_cong: "lsizenode t = lsizenode t' \<Longrightarrow> mainposition sh t = mainposition sh t'"
  by (simp add: fun_eq_iff mainposition_def hashnum_def hashmod_def hashpow2_def sizenode_def Let_def
      split: TValue.split)

lemma num_key_cast_0: "num_key (cast_num 0) = 0"
  by (simp add: num_key_def cast_num_def num_simps round_mag_def rne_div_def pow2_ge_def)

lemma hashnum_numeq: "luai_numeq a b \<Longrightarrow> hashnum t a = hashnum t b"
proof (cases "a = b")
  case False
  assume "luai_numeq a b"
  moreover from this False have "num_key a = 0" "num_key b = 0"
    using numeq_bits [of a b] by (simp_all add: num_key_def)
  ultimately show ?thesis by (simp add: hashnum_def luai_numeq_def num_key_cast_0)
qed simp

lemma mainposition_rawequal: "luaO_rawequalObj k k' \<Longrightarrow> mainposition sh t k = mainposition sh t k'"
  by (auto simp: rawequalObj_cases mainposition_def hashnum_numeq)

section \<open>The invariant\<close>

definition proper :: "tval \<Rightarrow> bool" where
  "proper k = (k \<noteq> Vnil \<and> (\<forall>p. k \<noteq> Vdeadkey p))"

definition edges :: "Node list \<Rightarrow> (nat \<times> nat) set" where
  "edges ns = {(i, j). i < length ns \<and> i_next (ns ! i) = Some j}"

definition links_ok :: "Node list \<Rightarrow> bool" where
  "links_ok ns \<longleftrightarrow>
     (\<forall>i j. (i, j) \<in> edges ns \<longrightarrow> j < length ns \<and> i_key (ns ! i) \<noteq> Vnil \<and> i_key (ns ! j) \<noteq> Vnil) \<and>
     (\<forall>i i' j. (i, j) \<in> edges ns \<and> (i', j) \<in> edges ns \<longrightarrow> i = i') \<and>
     (\<exists>r :: nat \<Rightarrow> nat. \<forall>i j. (i, j) \<in> edges ns \<longrightarrow> r i < r j)"

definition keys_ok :: "(tval \<Rightarrow> nat) \<Rightarrow> Node list \<Rightarrow> bool" where
  "keys_ok mp ns \<longleftrightarrow>
     (\<forall>i < length ns. proper (i_key (ns ! i)) \<longrightarrow>
        (mp (i_key (ns ! i)), i) \<in> (edges ns)\<^sup>* \<and>
        i_key (ns ! mp (i_key (ns ! i))) \<noteq> Vnil \<and>
        (proper (i_key (ns ! mp (i_key (ns ! i)))) \<longrightarrow>
           mp (i_key (ns ! mp (i_key (ns ! i)))) = mp (i_key (ns ! i)))) \<and>
     (\<forall>i < length ns. \<forall>j < length ns. proper (i_key (ns ! i)) \<longrightarrow>
        luaO_rawequalObj (i_key (ns ! i)) (i_key (ns ! j)) \<longrightarrow> i = j) \<and>
     (\<forall>i < length ns. \<not> proper (i_key (ns ! i)) \<longrightarrow> i_val (ns ! i) = Vnil) \<and>
     (\<forall>i < length ns. \<forall>a. i_key (ns ! i) = Vnumber a \<longrightarrow> \<not> num_isnan a)"

lemma links_okD:
  assumes "links_ok ns"
  shows "\<And>i j. (i, j) \<in> edges ns \<Longrightarrow> i < length ns"
    and "\<And>i j. (i, j) \<in> edges ns \<Longrightarrow> j < length ns"
    and "\<And>i j. (i, j) \<in> edges ns \<Longrightarrow> i_key (ns ! i) \<noteq> Vnil"
    and "\<And>i j. (i, j) \<in> edges ns \<Longrightarrow> i_key (ns ! j) \<noteq> Vnil"
    and "\<And>i i' j. (i, j) \<in> edges ns \<Longrightarrow> (i', j) \<in> edges ns \<Longrightarrow> i = i'"
    and "\<exists>r :: nat \<Rightarrow> nat. \<forall>i j. (i, j) \<in> edges ns \<longrightarrow> r i < r j"
proof -
  show "\<And>i j. (i, j) \<in> edges ns \<Longrightarrow> i < length ns" by (simp add: edges_def)
qed (use assms in \<open>unfold links_ok_def, blast\<close>)+

lemma keys_okD:
  assumes "keys_ok mp ns" "i < length ns"
  shows "proper (i_key (ns ! i)) \<Longrightarrow> (mp (i_key (ns ! i)), i) \<in> (edges ns)\<^sup>*"
    and "proper (i_key (ns ! i)) \<Longrightarrow> mp (i_key (ns ! i)) < length ns"
    and "proper (i_key (ns ! i)) \<Longrightarrow> i_key (ns ! mp (i_key (ns ! i))) \<noteq> Vnil"
    and "proper (i_key (ns ! i)) \<Longrightarrow> proper (i_key (ns ! mp (i_key (ns ! i)))) \<Longrightarrow>
      mp (i_key (ns ! mp (i_key (ns ! i)))) = mp (i_key (ns ! i))"
    and "j < length ns \<Longrightarrow> proper (i_key (ns ! i)) \<Longrightarrow>
      luaO_rawequalObj (i_key (ns ! i)) (i_key (ns ! j)) \<Longrightarrow> i = j"
    and "\<not> proper (i_key (ns ! i)) \<Longrightarrow> i_val (ns ! i) = Vnil"
    and "i_key (ns ! i) = Vnumber a \<Longrightarrow> \<not> num_isnan a"
proof -
  show r: "(mp (i_key (ns ! i)), i) \<in> (edges ns)\<^sup>*" if "proper (i_key (ns ! i))"
    using assms that unfolding keys_ok_def by blast
  show "mp (i_key (ns ! i)) < length ns" if "proper (i_key (ns ! i))"
    using r [OF that] assms(2) by (cases rule: converse_rtranclE) (auto simp: edges_def)
qed (use assms in \<open>unfold keys_ok_def, blast\<close>)+

section \<open>Searching a chain\<close>

lemma edges_lt:
  assumes "links_ok ns" "(i, j) \<in> (edges ns)\<^sup>*" "i < length ns"
  shows "j < length ns"
  using assms(2,1,3) by (induction rule: rtrancl_induct) (auto simp: links_ok_def)

lemma reach_next:
  assumes "i < length ns"
  shows "{j. (i, j) \<in> (edges ns)\<^sup>*} =
    (case i_next (ns ! i) of None \<Rightarrow> {i} | Some m \<Rightarrow> insert i {j. (m, j) \<in> (edges ns)\<^sup>*})"
  using assms by (auto simp: edges_def elim: converse_rtranclE intro: converse_rtrancl_into_rtrancl split: option.split)

lemma reach_rank:
  assumes "\<And>i j. (i, j) \<in> E \<Longrightarrow> (r :: nat \<Rightarrow> nat) i < r j" "(i, j) \<in> E\<^sup>*"
  shows "r i \<le> r j"
  using assms(2) by (induction rule: rtrancl_induct) (auto dest: assms(1))

lemma reach_card_next:
  assumes "links_ok ns" "i < length ns" "i_next (ns ! i) = Some m"
  shows "m < length ns" "card {j. (i, j) \<in> (edges ns)\<^sup>*} = Suc (card {j. (m, j) \<in> (edges ns)\<^sup>*})"
proof -
  have e: "(i, m) \<in> edges ns" using assms by (simp add: edges_def)
  then show m: "m < length ns" using assms(1) by (auto simp: links_ok_def)
  obtain r :: "nat \<Rightarrow> nat" where r: "\<And>i j. (i, j) \<in> edges ns \<Longrightarrow> r i < r j"
    using assms(1) by (auto simp: links_ok_def)
  have "(m, i) \<notin> (edges ns)\<^sup>*" using reach_rank [of "edges ns" r m i] r e by fastforce
  moreover have "finite {j. (m, j) \<in> (edges ns)\<^sup>*}"
    using edges_lt [OF assms(1) _ m] by (auto intro: finite_subset [of _ "{..<length ns}"])
  ultimately show "card {j. (i, j) \<in> (edges ns)\<^sup>*} = Suc (card {j. (m, j) \<in> (edges ns)\<^sup>*})"
    using reach_next [OF assms(2)] assms(3) by simp
qed

lemma reach_card_le:
  assumes "links_ok ns" "i < length ns"
  shows "card {j. (i, j) \<in> (edges ns)\<^sup>*} \<le> length ns" "card {j. (i, j) \<in> (edges ns)\<^sup>*} \<noteq> 0"
proof -
  have s: "{j. (i, j) \<in> (edges ns)\<^sup>*} \<subseteq> {..<length ns}" using edges_lt [OF assms(1) _ assms(2)] by auto
  then show "card {j. (i, j) \<in> (edges ns)\<^sup>*} \<le> length ns" using card_mono [OF _ s] by simp
  have "finite {j. (i, j) \<in> (edges ns)\<^sup>*}" using s by (rule finite_subset) simp
  then show "card {j. (i, j) \<in> (edges ns)\<^sup>*} \<noteq> 0" by (auto simp: card_eq_0_iff)
qed

lemma search_Some:
  "search P ns f i = Some j \<Longrightarrow> i < length ns \<Longrightarrow> links_ok ns \<Longrightarrow> (i, j) \<in> (edges ns)\<^sup>* \<and> P (ns ! j)"
proof (induction P ns f i rule: search.induct)
  case (2 P ns fuel n)
  show ?case
  proof (cases "P (ns ! n)")
    case False
    then obtain m where m: "i_next (ns ! n) = Some m" "search P ns fuel m = Some j"
      using 2(2) by (auto split: option.splits)
    have "(m, j) \<in> (edges ns)\<^sup>* \<and> P (ns ! j)"
      using 2(1) False m 2(3,4) reach_card_next(1) by blast
    moreover have "(n, m) \<in> edges ns" using m 2(3) by (simp add: edges_def)
    ultimately show ?thesis by (blast intro: converse_rtrancl_into_rtrancl)
  qed (use 2 in simp)
qed simp

lemma search_None:
  assumes "search P ns f i = None" "links_ok ns" "i < length ns"
    "card {j. (i, j) \<in> (edges ns)\<^sup>*} \<le> f" "(i, j) \<in> (edges ns)\<^sup>*"
  shows "\<not> P (ns ! j)"
  using assms
proof (induction P ns f i rule: search.induct)
  case (1 P ns n)
  then show ?case using reach_card_le [of ns n] by simp
next
  case (2 P ns fuel n)
  have j: "j \<in> {j. (n, j) \<in> (edges ns)\<^sup>*}" using 2 by simp
  show ?case
  proof (cases "i_next (ns ! n)")
    case None
    then show ?thesis using 2 j reach_next [of n ns] by (auto split: if_splits)
  next
    case (Some m)
    have P: "\<not> P (ns ! n)" "search P ns fuel m = None" using 2(2) Some by (auto split: if_splits)
    note m = reach_card_next [OF 2(3,4) Some]
    have "j = n \<or> (m, j) \<in> (edges ns)\<^sup>*" using j reach_next [OF 2(4)] Some by auto
    moreover have "\<not> P (ns ! j)" if "(m, j) \<in> (edges ns)\<^sup>*"
      using 2(1) [OF P(1) Some P(2) 2(3) m(1) _ that] m(2) 2(5) by simp
    ultimately show ?thesis using P by blast
  qed
qed

lemma search_fuel:
  assumes "links_ok ns" "i < length ns"
    "card {j. (i, j) \<in> (edges ns)\<^sup>*} \<le> f" "card {j. (i, j) \<in> (edges ns)\<^sup>*} \<le> f'"
  shows "search P ns f i = search P ns f' i"
  using assms
proof (induction f arbitrary: f' i)
  case 0
  then show ?case using reach_card_le(2) [of ns i] by simp
next
  case (Suc f)
  then obtain g where g: "f' = Suc g" using reach_card_le(2) [of ns i] by (cases f') auto
  show ?case
  proof (cases "i_next (ns ! i)")
    case (Some m)
    note m = reach_card_next [OF Suc(2,3) Some]
    have "search P ns f m = search P ns g m" using Suc(1) [OF Suc(2) m(1), of g] m(2) Suc(4,5) g by linarith
    then show ?thesis using g Some by simp
  qed (simp add: g)
qed

lemma find_previous_search: "find_previous ns f i mp = search (\<lambda>n. i_next n = Some mp) ns f i"
  by (induction ns f i mp rule: find_previous.induct) (auto split: option.split)

lemma find_previous_ok:
  assumes "links_ok ns" "i < length ns" "(i, mp) \<in> (edges ns)\<^sup>*" "i \<noteq> mp"
  obtains pr where "find_previous ns (length ns) i mp = Some pr" "(pr, mp) \<in> edges ns"
proof -
  obtain p where p: "(i, p) \<in> (edges ns)\<^sup>*" "(p, mp) \<in> edges ns" using assms(3,4) by (metis rtranclE)
  obtain pr where pr: "find_previous ns (length ns) i mp = Some pr"
    using search_None [of "\<lambda>n. i_next n = Some mp" ns "length ns" i p] assms(1,2) p reach_card_le [of ns i]
    by (cases "find_previous ns (length ns) i mp") (auto simp: find_previous_search edges_def)
  moreover have "(pr, mp) \<in> edges ns"
    using pr search_Some [of "\<lambda>n. i_next n = Some mp" ns "length ns" i pr] assms(1,2) edges_lt [of ns i pr]
    by (auto simp: find_previous_search edges_def)
  ultimately show ?thesis by (rule that)
qed

text \<open>Under the invariant a search from the main position finds the node that holds the key.\<close>

lemma search_key:
  assumes "links_ok ns" "keys_ok mp ns" "proper k" "mp k < length ns"
    and mp: "\<And>k'. luaO_rawequalObj k' k \<Longrightarrow> mp k' = mp k"
    and P: "\<And>n. P n \<longleftrightarrow> luaO_rawequalObj (i_key n) k"
  shows "search P ns (length ns) (mp k) = Some i \<longleftrightarrow> i < length ns \<and> luaO_rawequalObj (i_key (ns ! i)) k"
proof -
  have found: "\<exists>j. search P ns (length ns) (mp k) = Some j"
    if i: "i < length ns" "luaO_rawequalObj (i_key (ns ! i)) k" for i
  proof (rule ccontr)
    assume "\<nexists>j. search P ns (length ns) (mp k) = Some j"
    then have n: "search P ns (length ns) (mp k) = None" by simp
    have "proper (i_key (ns ! i))" using i(2) assms(3) by (auto simp: rawequalObj_cases proper_def)
    then have "(mp k, i) \<in> (edges ns)\<^sup>*" using assms(2) i mp [OF i(2)] by (auto simp: keys_ok_def)
    then show False using search_None [OF n assms(1,4)] reach_card_le [OF assms(1,4)] i(2) P by simp
  qed
  have sound: "j < length ns \<and> luaO_rawequalObj (i_key (ns ! j)) k"
    if "search P ns (length ns) (mp k) = Some j" for j
    using search_Some [OF that assms(4,1)] edges_lt [OF assms(1) _ assms(4)] P by auto
  show ?thesis
  proof
    assume i: "i < length ns \<and> luaO_rawequalObj (i_key (ns ! i)) k"
    then obtain j where j: "search P ns (length ns) (mp k) = Some j" using found by blast
    have "proper (i_key (ns ! i))" using i assms(3) by (auto simp: rawequalObj_cases proper_def)
    moreover have "luaO_rawequalObj (i_key (ns ! i)) (i_key (ns ! j))"
      using sound [OF j] i rawequalObj_sym rawequalObj_trans by blast
    ultimately have "i = j" using assms(2) i sound [OF j] by (auto simp: keys_ok_def)
    then show "search P ns (length ns) (mp k) = Some i" using j by simp
  qed (rule sound)
qed

section \<open>Placing a key\<close>

text \<open>The entries a node vector holds: the keys with a value.\<close>

definition live_entries :: "Node list \<Rightarrow> (tval \<times> tval) set" where
  "live_entries ns = {(i_key n, i_val n) | n. n \<in> set ns \<and> i_val n \<noteq> Vnil}"

lemma live_entries_nth:
  "live_entries ns = {(i_key (ns ! i), i_val (ns ! i)) | i. i < length ns \<and> i_val (ns ! i) \<noteq> Vnil}"
  unfolding live_entries_def by (metis (no_types, opaque_lifting) in_set_conv_nth)

lemma live_entries_cong:
  assumes "length ns' = length ns"
    "\<And>i. i < length ns \<Longrightarrow> i_val (ns' ! i) = i_val (ns ! i)"
    "\<And>i. i < length ns \<Longrightarrow> i_val (ns ! i) \<noteq> Vnil \<Longrightarrow> i_key (ns' ! i) = i_key (ns ! i)"
  shows "live_entries ns' = live_entries ns"
  unfolding live_entries_nth using assms by (intro Collect_cong) (metis (no_types, lifting))

definition good_key :: "Node list \<Rightarrow> tval \<Rightarrow> bool" where
  "good_key ns k \<longleftrightarrow> proper k \<and> (\<forall>a. k = Vnumber a \<longrightarrow> \<not> num_isnan a) \<and>
     (\<forall>i < length ns. \<not> luaO_rawequalObj (i_key (ns ! i)) k)"

lemma good_key_sym:
  "good_key ns k \<Longrightarrow> i < length ns \<Longrightarrow> \<not> luaO_rawequalObj k (i_key (ns ! i))"
  using rawequalObj_sym by (auto simp: good_key_def)

lemma place_free:
  assumes "links_ok ns" "keys_ok mp ns" "mp k < length ns" "i_val (ns ! mp k) = Vnil" "good_key ns k"
  defines "ns' \<equiv> ns[mp k := (ns ! mp k)\<lparr>i_key := k\<rparr>]"
  shows "links_ok ns'" "keys_ok mp ns'" "live_entries ns' = live_entries ns"
proof -
  have [simp]: "length ns' = length ns" by (simp add: ns'_def)
  have nth: "ns' ! i = (if i = mp k then (ns ! i)\<lparr>i_key := k\<rparr> else ns ! i)" if "i < length ns" for i
    using that assms(3) by (simp add: ns'_def nth_list_update)
  have e: "edges ns' = edges ns" by (auto simp: edges_def nth split: if_splits)
  have k: "proper k" "k \<noteq> Vnil" "\<And>a. k = Vnumber a \<Longrightarrow> \<not> num_isnan a" using assms(5) by (auto simp: good_key_def proper_def)
  note L = links_okD [OF assms(1)] and K = keys_okD [OF assms(2)]
  show "links_ok ns'"
    unfolding links_ok_def e using L k by (auto simp: nth)
  show "keys_ok mp ns'"
    unfolding keys_ok_def e
  proof (intro conjI allI impI)
    fix i assume i: "i < length ns'" and p: "proper (i_key (ns' ! i))"
    then have i': "i < length ns" by simp
    show "(mp (i_key (ns' ! i)), i) \<in> (edges ns)\<^sup>*"
      using i p K(1) by (cases "i = mp k") (auto simp: nth)
    show "i_key (ns' ! mp (i_key (ns' ! i))) \<noteq> Vnil"
      using i' p k K(2,3) [OF i'] assms(3) by (cases "i = mp k") (auto simp: nth)
    show "mp (i_key (ns' ! mp (i_key (ns' ! i)))) = mp (i_key (ns' ! i))"
      if "proper (i_key (ns' ! mp (i_key (ns' ! i))))"
      using that i' p k K(2,4) [OF i'] assms(3) by (cases "i = mp k") (auto simp: nth split: if_splits)
  next
    fix i j assume "i < length ns'" "j < length ns'" "proper (i_key (ns' ! i))"
      "luaO_rawequalObj (i_key (ns' ! i)) (i_key (ns' ! j))"
    then show "i = j" using K(5) [of i j] assms(5) good_key_sym [OF assms(5)]
      by (auto simp: nth good_key_def split: if_splits)
  next
    fix i assume "i < length ns'" "\<not> proper (i_key (ns' ! i))"
    then show "i_val (ns' ! i) = Vnil" using K(6) [of i] k by (auto simp: nth split: if_splits)
  next
    fix i a assume "i < length ns'" "i_key (ns' ! i) = Vnumber a"
    then show "\<not> num_isnan a" using K(7) [of i] k by (auto simp: nth split: if_splits)
  qed
  show "live_entries ns' = live_entries ns"
    using assms(4) by (intro live_entries_cong) (auto simp: nth)
qed

lemma place_after:
  assumes "links_ok ns" "keys_ok mp ns" "p = mp k" "p < length ns" "proper (i_key (ns ! p))"
    "mp (i_key (ns ! p)) = p" "n < length ns" "i_key (ns ! n) = Vnil" "good_key ns k"
  defines "ns' \<equiv> ns[n := (ns ! n)\<lparr>i_next := i_next (ns ! p), i_key := k\<rparr>, p := (ns ! p)\<lparr>i_next := Some n\<rparr>]"
  shows "links_ok ns'" "keys_ok mp ns'" "live_entries ns' = live_entries ns"
proof -
  have [simp]: "length ns' = length ns" by (simp add: ns'_def)
  have k: "proper k" "k \<noteq> Vnil" "\<And>a. k = Vnumber a \<Longrightarrow> \<not> num_isnan a" using assms(9) by (auto simp: good_key_def proper_def)
  have np: "n \<noteq> p" using assms(5,8) by (auto simp: proper_def)
  have nth: "ns' ! i = (if i = p then (ns ! i)\<lparr>i_next := Some n\<rparr>
      else if i = n then (ns ! i)\<lparr>i_next := i_next (ns ! p), i_key := k\<rparr> else ns ! i)" if "i < length ns" for i
    using that np by (simp add: ns'_def nth_list_update)
  note L = links_okD [OF assms(1)] and K = keys_okD [OF assms(2)]
  have noe: "(n, j) \<notin> edges ns" "(j, n) \<notin> edges ns" for j using L(3,4) assms(8) by auto
  have e: "(i, j) \<in> edges ns' \<longleftrightarrow> (if i = p then j = n else if i = n then (p, j) \<in> edges ns else (i, j) \<in> edges ns)" for i j
    using assms(4,7) np by (auto simp: edges_def nth)
  obtain r :: "nat \<Rightarrow> nat" where r: "\<And>i j. (i, j) \<in> edges ns \<Longrightarrow> r i < r j" using L(6) by blast
  show "links_ok ns'"
    unfolding links_ok_def
  proof (intro conjI allI impI)
    fix i j assume ij: "(i, j) \<in> edges ns'"
    then show "j < length ns'" using e L(2) assms(7) by (auto split: if_splits)
    show "i_key (ns' ! i) \<noteq> Vnil" "i_key (ns' ! j) \<noteq> Vnil"
      using ij e L assms(4,5,7) k by (auto simp: nth proper_def split: if_splits)
  next
    fix i i' j assume ij: "(i, j) \<in> edges ns' \<and> (i', j) \<in> edges ns'"
    have x: "x = p \<and> j = n \<or> x = n \<and> (p, j) \<in> edges ns \<or> x \<noteq> p \<and> (x, j) \<in> edges ns"
      if "(x, j) \<in> edges ns'" for x using that e [of x j] by (simp split: if_splits)
    show "i = i'" using x [of i] x [of i'] ij noe L(5) by metis
  next
    have "(if i = n then 2 * r p + 1 else 2 * r i) < (if j = n then 2 * r p + 1 else 2 * r j)"
      if "(i, j) \<in> edges ns'" for i j
      using that e [of i j] r [of p j] r [of i j] noe np by (auto split: if_splits)
    then show "\<exists>r :: nat \<Rightarrow> nat. \<forall>i j. (i, j) \<in> edges ns' \<longrightarrow> r i < r j"
      by (intro exI [of _ "\<lambda>i. if i = n then 2 * r p + 1 else 2 * r i"]) blast
  qed
  have "(i, j) \<in> (edges ns')\<^sup>*" if "(i, j) \<in> edges ns" for i j
  proof (cases "i = p")
    case True
    then have "(p, n) \<in> edges ns'" "(n, j) \<in> edges ns'" using that e np by auto
    then show ?thesis using True by (meson r_into_rtrancl rtrancl_trans)
  next
    case False
    then have "(i, j) \<in> edges ns'" using that e noe by auto
    then show ?thesis by blast
  qed
  then have "edges ns \<subseteq> (edges ns')\<^sup>*" by auto
  then have reach: "(edges ns)\<^sup>* \<subseteq> (edges ns')\<^sup>*" by (rule rtrancl_subset_rtrancl)
  have key: "i_key (ns' ! i) = (if i = n then k else i_key (ns ! i))" if "i < length ns" for i
    using that np by (simp add: nth)
  show "keys_ok mp ns'"
    unfolding keys_ok_def
  proof (intro conjI allI impI)
    fix i assume i: "i < length ns'" and pr: "proper (i_key (ns' ! i))"
    then have i': "i < length ns" by simp
    show "(mp (i_key (ns' ! i)), i) \<in> (edges ns')\<^sup>*"
      using i' pr K(1) [OF i'] reach e [of p n] assms(3) by (auto simp: key)
    show "i_key (ns' ! mp (i_key (ns' ! i))) \<noteq> Vnil"
      using i' pr K(2,3) [OF i'] k assms(3,4,5) np by (auto simp: key proper_def split: if_splits)
    have "mp (i_key (ns ! i)) \<noteq> n" if "i \<noteq> n" using pr i' K(3) [OF i'] assms(8) that by (auto simp: key)
    then show "mp (i_key (ns' ! mp (i_key (ns' ! i)))) = mp (i_key (ns' ! i))"
      if "proper (i_key (ns' ! mp (i_key (ns' ! i))))"
      using that i' pr K(2,4) [OF i'] assms(3,4,6) np by (auto simp: key split: if_splits)
  next
    fix i j assume "i < length ns'" "j < length ns'" "proper (i_key (ns' ! i))"
      "luaO_rawequalObj (i_key (ns' ! i)) (i_key (ns' ! j))"
    then show "i = j" using K(5) [of i j] assms(9) good_key_sym [OF assms(9)]
      by (auto simp: key good_key_def split: if_splits)
  next
    fix i assume "i < length ns'" "\<not> proper (i_key (ns' ! i))"
    then show "i_val (ns' ! i) = Vnil" using K(6) [of i] k np by (auto simp: nth split: if_splits)
  next
    fix i a assume "i < length ns'" "i_key (ns' ! i) = Vnumber a"
    then show "\<not> num_isnan a" using K(7) [of i] k by (auto simp: key split: if_splits)
  qed
  have "i_val (ns ! n) = Vnil" using K(6) [OF assms(7)] assms(8) by (simp add: proper_def)
  then show "live_entries ns' = live_entries ns"
    by (intro live_entries_cong) (auto simp: nth)
qed

lemma place_move:
  assumes "links_ok ns" "keys_ok mp ns" "p = mp k" "p < length ns" "proper (i_key (ns ! p))"
    "mp (i_key (ns ! p)) \<noteq> p" "(pr, p) \<in> edges ns" "n < length ns" "i_key (ns ! n) = Vnil" "good_key ns k"
  defines "ns' \<equiv> ns[pr := (ns ! pr)\<lparr>i_next := Some n\<rparr>, n := ns ! p, p := \<lparr>i_val = Vnil, i_key = k, i_next = None\<rparr>]"
  shows "links_ok ns'" "keys_ok mp ns'" "live_entries ns' = live_entries ns"
proof -
  have [simp]: "length ns' = length ns" by (simp add: ns'_def)
  have k: "proper k" "k \<noteq> Vnil" "\<And>a. k = Vnumber a \<Longrightarrow> \<not> num_isnan a" using assms(10) by (auto simp: good_key_def proper_def)
  note L = links_okD [OF assms(1)] and K = keys_okD [OF assms(2)]
  obtain r :: "nat \<Rightarrow> nat" where r: "\<And>i j. (i, j) \<in> edges ns \<Longrightarrow> r i < r j" using L(6) by blast
  have noe: "(n, j) \<notin> edges ns" "(j, n) \<notin> edges ns" "(p, p) \<notin> edges ns" for j using L(3,4) assms(9) r [of p p] by auto
  have np: "n \<noteq> p" "pr \<noteq> p" "pr \<noteq> n" "pr < length ns" using assms(5,7,9) noe L(1) by (auto simp: proper_def)
  have nth: "ns' ! i = (if i = p then \<lparr>i_val = Vnil, i_key = k, i_next = None\<rparr>
      else if i = n then ns ! p else if i = pr then (ns ! i)\<lparr>i_next := Some n\<rparr> else ns ! i)" if "i < length ns" for i
    using that np by (simp add: ns'_def nth_list_update)
  define \<rho> where "\<rho> i = (if i = p then n else if i = n then p else i)" for i
  have \<rho>: "\<rho> (\<rho> i) = i" for i by (simp add: \<rho>_def)
  have e: "(i, j) \<in> edges ns' \<longleftrightarrow> (\<rho> i, \<rho> j) \<in> edges ns" for i j
  proof -
    have e1: "(i, j) \<in> edges ns' \<longleftrightarrow> (if i = p then False else if i = n then (p, j) \<in> edges ns
        else if i = pr then j = n else (i, j) \<in> edges ns)"
      using assms(4,8) np by (auto simp: edges_def nth)
    have e2: "(pr, y) \<in> edges ns \<longleftrightarrow> y = p" for y using assms(7) by (auto simp: edges_def)
    have e3: "(x, p) \<in> edges ns \<longleftrightarrow> x = pr" for x using L(5) [OF assms(7)] assms(7) by blast
    consider "i = p" | "i = n" | "i = pr" | "i \<noteq> p" "i \<noteq> n" "i \<noteq> pr" by blast
    then show ?thesis
    proof cases
      case 1
      then show ?thesis using noe(1) unfolding e1 by (simp add: \<rho>_def)
    next
      case 2
      then show ?thesis using noe(2) np(1,2) unfolding e1 by (simp add: e3 \<rho>_def)
    next
      case 3
      then show ?thesis using np(1-3) unfolding e1 by (simp add: e2 \<rho>_def)
    next
      case 4
      then show ?thesis using noe(2) np(1) unfolding e1 by (simp add: e3 \<rho>_def)
    qed
  qed
  show "links_ok ns'"
    unfolding links_ok_def e
  proof (intro conjI allI impI)
    fix i j assume ij: "(\<rho> i, \<rho> j) \<in> edges ns"
    have "\<rho> j < length ns" "\<rho> i < length ns" using ij L(1,2) by auto
    then show "j < length ns'" using assms(4,8) by (auto simp: \<rho>_def split: if_splits)
    show "i_key (ns' ! i) \<noteq> Vnil" "i_key (ns' ! j) \<noteq> Vnil"
      using L(1-4) [OF ij] assms(4,8) noe ij np k by (auto simp: nth \<rho>_def split: if_splits)
  next
    fix i i' j assume "(\<rho> i, \<rho> j) \<in> edges ns \<and> (\<rho> i', \<rho> j) \<in> edges ns"
    then have "\<rho> i = \<rho> i'" using L(5) by blast
    then show "i = i'" using \<rho> by metis
  next
    show "\<exists>r :: nat \<Rightarrow> nat. \<forall>i j. (\<rho> i, \<rho> j) \<in> edges ns \<longrightarrow> r i < r j"
      using r by (intro exI [of _ "\<lambda>i. r (\<rho> i)"]) blast
  qed
  have reach: "(\<rho> i, \<rho> j) \<in> (edges ns')\<^sup>*" if "(i, j) \<in> (edges ns)\<^sup>*" for i j
    using that
  proof (induction rule: rtrancl_induct)
    case (step y z)
    then have "(\<rho> y, \<rho> z) \<in> edges ns'" by (simp add: e \<rho>)
    then show ?case using step by (meson rtrancl.rtrancl_into_rtrancl)
  qed simp
  have key: "i_key (ns' ! i) = (if i = p then k else if i = n then i_key (ns ! p) else i_key (ns ! i))"
    if "i < length ns" for i using that by (simp add: nth)
  have home: "mp (i_key (ns ! i)) \<noteq> p" "mp (i_key (ns ! i)) \<noteq> n"
    if "i < length ns" "proper (i_key (ns ! i))" for i
    using that K(3,4) [of i] assms(5,6,9) by auto
  show "keys_ok mp ns'"
    unfolding keys_ok_def
  proof (intro conjI allI impI)
    fix i assume i: "i < length ns'" and pr: "proper (i_key (ns' ! i))"
    define i0 where "i0 = \<rho> i"
    have i0: "i0 < length ns" using i assms(4,8) by (simp add: i0_def \<rho>_def)
    consider "i = p" | "i \<noteq> p" "proper (i_key (ns ! i0))" "i_key (ns' ! i) = i_key (ns ! i0)" "\<rho> i0 = i"
      using i pr np assms(9) by (cases "i = p"; cases "i = n") (auto simp: i0_def \<rho>_def key)
    then have "(mp (i_key (ns' ! i)), i) \<in> (edges ns')\<^sup>* \<and>
      i_key (ns' ! mp (i_key (ns' ! i))) \<noteq> Vnil \<and>
      (proper (i_key (ns' ! mp (i_key (ns' ! i)))) \<longrightarrow>
        mp (i_key (ns' ! mp (i_key (ns' ! i)))) = mp (i_key (ns' ! i)))"
    proof cases
      case 1
      then show ?thesis using assms(3,4) k by (auto simp: key)
    next
      case 2
      note h = home [OF i0 2(2)] and m = K(1-4) [OF i0 2(2)]
      have "\<rho> (mp (i_key (ns ! i0))) = mp (i_key (ns ! i0))" using h by (simp add: \<rho>_def)
      then show ?thesis using reach [OF m(1)] m h 2 by (simp add: key)
    qed
    then show "(mp (i_key (ns' ! i)), i) \<in> (edges ns')\<^sup>*" "i_key (ns' ! mp (i_key (ns' ! i))) \<noteq> Vnil"
      "proper (i_key (ns' ! mp (i_key (ns' ! i)))) \<Longrightarrow>
        mp (i_key (ns' ! mp (i_key (ns' ! i)))) = mp (i_key (ns' ! i))" by auto
  next
    fix i j assume "i < length ns'" "j < length ns'" "proper (i_key (ns' ! i))"
      "luaO_rawequalObj (i_key (ns' ! i)) (i_key (ns' ! j))"
    then show "i = j" using K(5) [of i j] K(5) [of i p] K(5) [of p j] assms(4,5,9,10) good_key_sym [OF assms(10)]
      by (auto simp: key good_key_def proper_def split: if_splits)
  next
    fix i assume "i < length ns'" "\<not> proper (i_key (ns' ! i))"
    then show "i_val (ns' ! i) = Vnil" using K(6) [of i] k np assms(5) by (auto simp: nth split: if_splits)
  next
    fix i a assume "i < length ns'" "i_key (ns' ! i) = Vnumber a"
    then show "\<not> num_isnan a" using K(7) [of i] K(7) [of p] k assms(4) by (auto simp: key split: if_splits)
  qed
  have "i_val (ns ! n) = Vnil" using K(6) [OF assms(8)] assms(9) by (simp add: proper_def)
  have val: "i_val (ns' ! i) = (if i = p then Vnil else if i = n then i_val (ns ! p) else i_val (ns ! i))"
    if "i < length ns" for i using that by (simp add: nth)
  show "live_entries ns' = live_entries ns"
  proof (intro set_eqI iffI)
    fix x assume "x \<in> live_entries ns'"
    then obtain i where "i < length ns" "i \<noteq> p" "x = (i_key (ns ! \<rho> i), i_val (ns ! \<rho> i))" "i_val (ns ! \<rho> i) \<noteq> Vnil"
      using np by (auto simp: live_entries_nth key val \<rho>_def split: if_splits)
    moreover have "\<rho> i < length ns" using calculation assms(4,8) by (simp add: \<rho>_def)
    ultimately show "x \<in> live_entries ns" unfolding live_entries_nth by blast
  next
    fix x assume "x \<in> live_entries ns"
    then obtain i where i: "i < length ns" "x = (i_key (ns ! i), i_val (ns ! i))" "i_val (ns ! i) \<noteq> Vnil"
      unfolding live_entries_nth by blast
    then have "i \<noteq> n" using \<open>i_val (ns ! n) = Vnil\<close> by auto
    then have "\<rho> i < length ns'" "x = (i_key (ns' ! \<rho> i), i_val (ns' ! \<rho> i))" "i_val (ns' ! \<rho> i) \<noteq> Vnil"
      using i np assms(4,8) by (auto simp: key val \<rho>_def)
    then show "x \<in> live_entries ns'" unfolding live_entries_nth by blast
  qed
qed

end
