(* ===== verification/Ltable_map.thy ===== *)
theory Ltable_map
  imports Ltable_hash
begin

text \<open>
  Tables as maps. \<open>tab_ok\<close> is the invariant of a table, \<open>tget\<close> the value \<open>luaH_get\<close> leads to. The
  lemmas reduce every lookup to one of two cases (the array slot the key selects, or the one
  node that holds the key) and show what \<open>newkey\<close>, \<open>luaH_set\<close> and a write through the returned
  slot do to all lookups.
\<close>

section \<open>Array keys\<close>

definition arr_key :: "Table \<Rightarrow> tval \<Rightarrow> bool" where
  "arr_key t k \<longleftrightarrow> 0 < arrayindex k \<and> arrayindex k \<le> int (sizearray t)"

lemma number2int_numeq:
  assumes "luai_numeq a b"
  shows "lua_number2int a = lua_number2int b"
proof -
  have k: "num_key a = num_key b" using assms by (simp add: luai_numeq_def)
  then have "num_finite a = num_finite b" using num_key_eq [OF k] by (simp add: num_finite_def)
  then show ?thesis using num_trunc_key [OF k] by (simp add: lua_number2int_def num_conv_def)
qed

lemma arrayindex_rawequal:
  assumes "luaO_rawequalObj k k'"
  shows "arrayindex k = arrayindex k'"
proof (cases "\<exists>a b. k = Vnumber a \<and> k' = Vnumber b \<and> luai_numeq a b")
  case True
  then obtain a b where ab: "k = Vnumber a" "k' = Vnumber b" "luai_numeq a b" by blast
  have "luai_numeq c a \<longleftrightarrow> luai_numeq c b" for c using ab(3) numeq_trans numeq_sym by blast
  then show ?thesis using number2int_numeq [OF ab(3)] by (simp add: ab(1,2) arrayindex_def)
next
  case False
  then show ?thesis using assms by (auto simp: rawequalObj_cases)
qed

lemma arrayindex_pos:
  assumes "0 < arrayindex k"
  obtains n where "k = Vnumber n" "arrayindex k = lua_number2int n" "luai_numeq (cast_num (arrayindex k)) n"
  using assms by (cases k) (auto simp: arrayindex_def Let_def split: if_splits)

lemma arrayindex_unique:
  assumes "0 < arrayindex k" "arrayindex k = arrayindex k'"
  shows "luaO_rawequalObj k k'"
proof -
  obtain n n' where "k = Vnumber n" "luai_numeq (cast_num (arrayindex k)) n"
    "k' = Vnumber n'" "luai_numeq (cast_num (arrayindex k')) n'"
    using assms arrayindex_pos [of k] arrayindex_pos [of k'] by metis
  then show ?thesis using assms(2) numeq_trans numeq_sym by (metis rawequalObj_cases)
qed

lemma arrayindex_cast [simp]:
  "- (2 ^ 31) \<le> j \<Longrightarrow> j < 2 ^ 31 \<Longrightarrow> arrayindex (Vnumber (cast_num j)) = j"
  by (simp add: arrayindex_def)

lemma arrayindex_less: "arrayindex k < 2 ^ 31"
  using lua_number2int_range by (auto simp: arrayindex_def Let_def split: TValue.split)

text \<open>
  The conversion of a number that is no \<open>int\<close> does not matter: whatever value in the range of
  \<open>int\<close> it gives, the comparison that follows rejects it.
\<close>

lemma arrayindex_any:
  assumes "- (2 ^ 31) \<le> c" "c < 2 ^ 31" "luai_numeq (cast_num c) n"
  shows "lua_number2int n = c"
  using number2int_numeq [OF assms(3)] assms(1,2) by simp

lemma getnum_range:
  assumes "- (2 ^ 31) \<le> key" "key < 2 ^ 31" "sz \<le> MAXASIZE"
  shows "(word_of_int (key - 1) :: uint32) < word_of_nat sz \<longleftrightarrow> 0 < key \<and> key \<le> int sz"
proof -
  have sz: "unat (word_of_nat sz :: uint32) = sz"
    using assms(3) by (simp add: unsigned_of_nat take_bit_nat_eq_self MAXASIZE_def MAXBITS_def)
  have k: "unat (word_of_int (key - 1) :: uint32) = nat ((key - 1) mod 2 ^ 32)"
    unfolding unsigned_of_int by (simp only: take_bit_eq_mod) simp
  show ?thesis
  proof (cases "0 < key")
    case True
    then have "(key - 1) mod 2 ^ 32 = key - 1" using assms by (intro mod_pos_pos_trivial) auto
    then show ?thesis using True k sz by (simp add: word_less_nat_alt) linarith
  next
    case False
    have "(key - 1) mod 2 ^ 32 = (key - 1 + 2 ^ 32) mod 2 ^ 32" by (rule mod_add_self2 [symmetric])
    also have "\<dots> = key - 1 + 2 ^ 32" using False assms by (intro mod_pos_pos_trivial) auto
    finally show ?thesis using False k sz assms by (simp add: word_less_nat_alt MAXASIZE_def MAXBITS_def)
  qed
qed

section \<open>Lookup\<close>

definition tab_ok :: "(ptr \<Rightarrow> uint32) \<Rightarrow> Table \<Rightarrow> bool" where
  "tab_ok sh t \<longleftrightarrow>
     lsizenode t \<le> MAXBITS \<and> length (node t) = sizenode t \<and>
     sizearray t \<le> length (tarray t) \<and> sizearray t \<le> MAXASIZE \<and>
     links_ok (node t) \<and> keys_ok (mainposition sh t) (node t) \<and>
     (\<forall>i < length (node t). \<not> arr_key t (i_key (node t ! i))) \<and>
     (if isdummy t then node t = [nilnode] \<and> lastfree t \<le> 0
      else lastfree t \<le> int (length (node t)) \<and>
        (\<forall>i < length (node t). lastfree t \<le> int i \<longrightarrow> i_key (node t ! i) \<noteq> Vnil))"

definition tget :: "(ptr \<Rightarrow> uint32) \<Rightarrow> Table \<Rightarrow> tval \<Rightarrow> tval" where
  "tget sh t k = slot_val t (luaH_get sh t k)"

lemma luaH_get_eq:
  assumes "sizearray t \<le> MAXASIZE" "k \<noteq> Vnil"
  shows "luaH_get sh t k = (if arr_key t k then ArraySlot (nat (arrayindex k - 1)) else get_generic sh t k)"
proof (cases k)
  case (Vnumber n)
  have neq: "luai_numeq m (cast_num j) \<longleftrightarrow> luai_numeq m n" if "luai_numeq (cast_num j) n" for m j
    using that numeq_trans numeq_sym by blast
  define j where "j = lua_number2int n"
  show ?thesis
  proof (cases "luai_numeq (cast_num j) n")
    case True
    have "key_is_num (cast_num j) = (\<lambda>x. luaO_rawequalObj (i_key x) (Vnumber n))"
      by (auto simp: fun_eq_iff key_is_num_def rawequalObj_cases neq [OF True] split: TValue.split)
    then show ?thesis using True getnum_range [of j "sizearray t"] lua_number2int_range [of n] assms
      by (simp add: Vnumber luaH_get_def luaH_getnum_def Let_def get_generic_def mainposition_def
          arr_key_def arrayindex_def hashnum_numeq [OF True] flip: j_def)
  next
    case False
    then show ?thesis by (simp add: Vnumber luaH_get_def Let_def arr_key_def arrayindex_def flip: j_def)
  qed
next
  case (Vstring s)
  have "key_is_str s = (\<lambda>x. luaO_rawequalObj (i_key x) (Vstring s))"
    by (auto simp: fun_eq_iff key_is_str_def rawequalObj_cases split: TValue.split)
  then show ?thesis
    by (simp add: Vstring luaH_get_def luaH_getstr_def get_generic_def mainposition_def arr_key_def arrayindex_def)
qed (use assms in \<open>simp_all add: luaH_get_def arr_key_def arrayindex_def\<close>)

lemma luaH_getnum_eq:
  assumes "- (2 ^ 31) \<le> j" "j < 2 ^ 31"
  shows "luaH_getnum t j = luaH_get sh t (Vnumber (cast_num j))"
  using assms by (simp add: luaH_get_def)

lemma tab_ok_mp: "tab_ok sh t \<Longrightarrow> mainposition sh t k < length (node t)"
  using mainposition_less [of t sh k] by (simp add: tab_ok_def MAXBITS_def sizenode_def twoto_def)

lemma get_generic_iff:
  assumes "tab_ok sh t" "proper k"
  shows "get_generic sh t k = NodeSlot i \<longleftrightarrow> i < length (node t) \<and> luaO_rawequalObj (i_key (node t ! i)) k"
    and "get_generic sh t k \<noteq> ArraySlot i"
    and "get_generic sh t k = NilObject \<longleftrightarrow> (\<forall>i < length (node t). \<not> luaO_rawequalObj (i_key (node t ! i)) k)"
proof -
  let ?s = "search (\<lambda>n. luaO_rawequalObj (i_key n) k) (node t) (length (node t)) (mainposition sh t k)"
  have s: "?s = Some i \<longleftrightarrow> i < length (node t) \<and> luaO_rawequalObj (i_key (node t ! i)) k" for i
    using assms tab_ok_mp [OF assms(1)]
    by (intro search_key) (auto simp: tab_ok_def intro: mainposition_rawequal)
  then show "get_generic sh t k = NodeSlot i \<longleftrightarrow> i < length (node t) \<and> luaO_rawequalObj (i_key (node t ! i)) k"
    by (cases ?s) (auto simp: get_generic_def node_slot_def)
  show "get_generic sh t k \<noteq> ArraySlot i"
    by (simp add: get_generic_def node_slot_def split: option.split)
  show "get_generic sh t k = NilObject \<longleftrightarrow> (\<forall>i < length (node t). \<not> luaO_rawequalObj (i_key (node t ! i)) k)"
    using s by (cases ?s) (auto simp: get_generic_def node_slot_def)
qed

lemma luaH_get_cases:
  assumes "tab_ok sh t" "proper k"
  obtains (array) i where "luaH_get sh t k = ArraySlot i" "arr_key t k" "i < sizearray t" "int i + 1 = arrayindex k"
  | (node) i where "luaH_get sh t k = NodeSlot i" "\<not> arr_key t k" "i < length (node t)"
      "luaO_rawequalObj (i_key (node t ! i)) k"
  | (none) "luaH_get sh t k = NilObject" "\<not> arr_key t k"
      "\<And>i. i < length (node t) \<Longrightarrow> \<not> luaO_rawequalObj (i_key (node t ! i)) k"
proof (cases "arr_key t k")
  case True
  then show ?thesis using assms luaH_get_eq [of t k sh]
    by (intro array [of "nat (arrayindex k - 1)"]) (auto simp: tab_ok_def proper_def arr_key_def)
next
  case False
  then have g: "luaH_get sh t k = get_generic sh t k"
    using assms luaH_get_eq [of t k sh] by (simp add: tab_ok_def proper_def)
  show ?thesis
  proof (cases "get_generic sh t k")
    case NilObject
    then show ?thesis using none g False get_generic_iff(3) [OF assms] by simp
  next
    case (ArraySlot i)
    then show ?thesis using get_generic_iff(2) [OF assms] by simp
  next
    case (NodeSlot i)
    then show ?thesis using node [of i] g False get_generic_iff(1) [OF assms] by simp
  qed
qed

lemma luaH_get_rawequal:
  assumes "tab_ok sh t" "proper k" "luaO_rawequalObj k' k"
  shows "luaH_get sh t k' = luaH_get sh t k"
proof -
  have p: "proper k'" using assms by (auto simp: proper_def rawequalObj_cases)
  have a: "arr_key t k' = arr_key t k" "arrayindex k' = arrayindex k"
    using arrayindex_rawequal [OF assms(3)] by (auto simp: arr_key_def)
  have r: "luaO_rawequalObj x k' \<longleftrightarrow> luaO_rawequalObj x k" for x
    using assms(3) rawequalObj_sym rawequalObj_trans by blast
  have "get_generic sh t k' = get_generic sh t k"
    using get_generic_iff [OF assms(1) p] get_generic_iff [OF assms(1,2)] r
    by (cases "get_generic sh t k") auto
  then show ?thesis using luaH_get_eq [of t _ sh] assms p a by (simp add: tab_ok_def proper_def)
qed

lemma luaH_get_inj:
  assumes "tab_ok sh t" "proper k" "proper k'" "luaH_get sh t k = luaH_get sh t k'" "luaH_get sh t k \<noteq> NilObject"
  shows "luaO_rawequalObj k k'"
  using assms(1,2)
proof (cases rule: luaH_get_cases)
  case (array i)
  then show ?thesis using assms(1,3,4)
    by (elim luaH_get_cases) (auto simp: arr_key_def intro: arrayindex_unique)
next
  case (node i)
  then show ?thesis using assms(1,3,4)
    by (elim luaH_get_cases) (auto dest: rawequalObj_sym intro: rawequalObj_trans)
next
  case none
  then show ?thesis using assms by simp
qed

section \<open>Values and live entries\<close>

lemma live_entriesI:
  "i < length ns \<Longrightarrow> i_val (ns ! i) = v \<Longrightarrow> v \<noteq> Vnil \<Longrightarrow> (i_key (ns ! i), v) \<in> live_entries ns"
  unfolding live_entries_nth by blast

lemma live_entriesE:
  assumes "(k, v) \<in> live_entries ns"
  obtains i where "i < length ns" "k = i_key (ns ! i)" "v = i_val (ns ! i)" "v \<noteq> Vnil"
  using assms unfolding live_entries_nth by blast

lemma tget_node:
  assumes "tab_ok sh t" "proper k" "\<not> arr_key t k" "v \<noteq> Vnil"
  shows "tget sh t k = v \<longleftrightarrow> (\<exists>k'. (k', v) \<in> live_entries (node t) \<and> luaO_rawequalObj k' k)"
proof -
  have uniq: "i = j" if "i < length (node t)" "j < length (node t)"
      "luaO_rawequalObj (i_key (node t ! i)) k" "luaO_rawequalObj (i_key (node t ! j)) k" for i j
  proof -
    have "proper (i_key (node t ! i))" using that(3) assms(2) by (auto simp: proper_def rawequalObj_cases)
    then show ?thesis using that assms(1) keys_okD(5) [of "mainposition sh t" "node t" i j]
      rawequalObj_trans [OF that(3) rawequalObj_sym [OF that(4)]] by (simp add: tab_ok_def)
  qed
  show ?thesis
    using assms(1,2)
  proof (cases rule: luaH_get_cases)
    case (array i)
    then show ?thesis using assms(3) by simp
  next
    case (node i)
    then have v: "tget sh t k = i_val (node t ! i)" by (simp add: tget_def slot_val_def)
    show ?thesis
    proof
      assume "tget sh t k = v"
      then show "\<exists>k'. (k', v) \<in> live_entries (node t) \<and> luaO_rawequalObj k' k"
        using node v assms(4) by (intro exI [of _ "i_key (node t ! i)"]) (simp add: live_entriesI)
    next
      assume "\<exists>k'. (k', v) \<in> live_entries (node t) \<and> luaO_rawequalObj k' k"
      then obtain j where "j < length (node t)" "luaO_rawequalObj (i_key (node t ! j)) k" "v = i_val (node t ! j)"
        by (auto elim: live_entriesE)
      then show "tget sh t k = v" using uniq [of i j] node v by simp
    qed
  next
    case none
    then have "tget sh t k = Vnil" by (simp add: tget_def slot_val_def)
    then show ?thesis using none(3) assms(4) by (auto elim!: live_entriesE)
  qed
qed

lemma tget_array:
  assumes "tab_ok sh t" "arr_key t k"
  shows "tget sh t k = tarray t ! nat (arrayindex k - 1)"
proof -
  have "k \<noteq> Vnil" using assms(2) by (auto simp: arr_key_def arrayindex_def)
  then show ?thesis using assms luaH_get_eq [of t k sh] by (simp add: tab_ok_def tget_def slot_val_def)
qed

lemma tget_Vnil [simp]: "tget sh t Vnil = Vnil"
  by (simp add: tget_def luaH_get_def slot_val_def)

text \<open>Lookups see nothing but the array part and the live entries.\<close>

lemma tget_cong:
  assumes "tab_ok sh t" "tab_ok sh t'" "live_entries (node t') = live_entries (node t)"
    "sizearray t' = sizearray t" "take (sizearray t) (tarray t') = take (sizearray t) (tarray t)" "proper k"
  shows "tget sh t' k = tget sh t k"
proof (cases "arr_key t k")
  case True
  then have a: "arr_key t' k" using assms(4) by (simp add: arr_key_def)
  define i where "i = nat (arrayindex k - 1)"
  have "i < sizearray t" using True by (auto simp: arr_key_def i_def)
  then have "tarray t' ! i = tarray t ! i" using assms(5) by (metis nth_take)
  then show ?thesis using tget_array [OF assms(1) True] tget_array [OF assms(2) a] by (simp add: i_def)
next
  case False
  then have a: "\<not> arr_key t' k" using assms(4) by (simp add: arr_key_def)
  have "tget sh t' k = v \<longleftrightarrow> tget sh t k = v" if "v \<noteq> Vnil" for v
    using tget_node [OF assms(1,6) False that] tget_node [OF assms(2,6) a that] assms(3) by simp
  then show ?thesis by metis
qed

lemma tab_ok_entry:
  assumes "tab_ok sh t" "i < length (node t)" "i_val (node t ! i) \<noteq> Vnil"
  shows "proper (i_key (node t ! i))" "\<not> arr_key t (i_key (node t ! i))"
    "\<And>a. i_key (node t ! i) = Vnumber a \<Longrightarrow> \<not> num_isnan a"
    "tget sh t (i_key (node t ! i)) = i_val (node t ! i)"
proof -
  note K = keys_okD [of "mainposition sh t" "node t" i]
  show p: "proper (i_key (node t ! i))" and a: "\<not> arr_key t (i_key (node t ! i))"
    and n: "\<And>a. i_key (node t ! i) = Vnumber a \<Longrightarrow> \<not> num_isnan a"
    using assms K(6,7) by (auto simp: tab_ok_def)
  have "luaO_rawequalObj (i_key (node t ! i)) (i_key (node t ! i))" using n by (auto simp: rawequalObj_refl)
  then show "tget sh t (i_key (node t ! i)) = i_val (node t ! i)"
    using tget_node [OF assms(1) p a assms(3)] live_entriesI [OF assms(2) refl assms(3)] by blast
qed

section \<open>Free nodes\<close>

definition nfree :: "Table \<Rightarrow> nat" where
  "nfree t = (if isdummy t then 0 else length (filter (\<lambda>n. i_key n = Vnil) (node t)))"

lemma getfree_loop_spec:
  "getfree_loop ns m = (lf, r) \<Longrightarrow>
     (case r of None \<Rightarrow> lf = - 1 \<and> (\<forall>i < m. i_key (ns ! i) \<noteq> Vnil)
      | Some n \<Rightarrow> lf = int n \<and> n < m \<and> i_key (ns ! n) = Vnil \<and> (\<forall>i. n < i \<and> i < m \<longrightarrow> i_key (ns ! i) \<noteq> Vnil))"
proof (induction m arbitrary: lf r)
  case (Suc m)
  then show ?case
    by (cases "i_key (ns ! m) = Vnil") (fastforce simp: ttisnil_def less_Suc_eq split: option.splits)+
qed simp

lemma getfreepos_Some:
  assumes "tab_ok sh t" "getfreepos t = (t1, Some n)"
  shows "t1 = t\<lparr>lastfree := int n\<rparr>" "\<not> isdummy t" "n < length (node t)" "i_key (node t ! n) = Vnil"
    "\<And>i. n < i \<Longrightarrow> i < length (node t) \<Longrightarrow> i_key (node t ! i) \<noteq> Vnil"
proof -
  have lf: "0 < lastfree t" using assms(2) by (auto simp: getfreepos_def split: if_splits)
  then show d: "\<not> isdummy t" using assms(1) by (auto simp: tab_ok_def)
  obtain lf' where l: "getfree_loop (node t) (nat (lastfree t)) = (lf', Some n)" "t1 = t\<lparr>lastfree := lf'\<rparr>"
    using assms(2) lf by (auto simp: getfreepos_def split: prod.splits)
  note s = getfree_loop_spec [OF l(1), simplified]
  show "t1 = t\<lparr>lastfree := int n\<rparr>" "i_key (node t ! n) = Vnil" using l(2) s by simp_all
  show "n < length (node t)" using s assms(1) d by (auto simp: tab_ok_def)
  show "i_key (node t ! i) \<noteq> Vnil" if "n < i" "i < length (node t)" for i
    using s assms(1) d lf that by (cases "int i < lastfree t") (auto simp: tab_ok_def)
qed

lemma getfreepos_None:
  assumes "tab_ok sh t" "getfreepos t = (t1, None)"
  shows "\<exists>lf. t1 = t\<lparr>lastfree := lf\<rparr>" "tab_ok sh t1" "nfree t = 0"
proof -
  obtain lf where t1: "t1 = t\<lparr>lastfree := lf\<rparr>" "lf < lastfree t"
    and all: "\<not> isdummy t \<Longrightarrow> i < length (node t) \<Longrightarrow> i_key (node t ! i) \<noteq> Vnil" for i
  proof (cases "lastfree t \<le> 0")
    case True
    then show ?thesis using assms that [of "lastfree t - 1"] by (auto simp: getfreepos_def tab_ok_def)
  next
    case False
    then obtain lf where l: "getfree_loop (node t) (nat (lastfree t)) = (lf, None)" "t1 = t\<lparr>lastfree := lf\<rparr>"
      using assms(2) by (auto simp: getfreepos_def split: prod.splits)
    note s = getfree_loop_spec [OF l(1), simplified]
    show ?thesis
    proof (rule that [of lf])
      show "t1 = t\<lparr>lastfree := lf\<rparr>" "lf < lastfree t" using l s False by auto
      show "i_key (node t ! i) \<noteq> Vnil" if "\<not> isdummy t" "i < length (node t)" for i
        using s assms(1) that by (cases "int i < lastfree t") (auto simp: tab_ok_def)
    qed
  qed
  then show "\<exists>lf. t1 = t\<lparr>lastfree := lf\<rparr>" by blast
  have "mainposition sh (t\<lparr>lastfree := lf\<rparr>) = mainposition sh t" by (rule mainposition_cong) simp
  then show "tab_ok sh t1" using assms(1) all t1 by (auto simp: tab_ok_def sizenode_def arr_key_def)
  show "nfree t = 0" using all by (auto simp: nfree_def filter_empty_conv in_set_conv_nth)
qed

section \<open>Insertion into a vector with room\<close>

lemma tab_ok_place:
  assumes "tab_ok sh t" "\<not> isdummy t" "links_ok ns'" "keys_ok (mainposition sh t) ns'" "length ns' = length (node t)"
    "\<And>i. i < length ns' \<Longrightarrow> i_key (ns' ! i) = k \<or> (\<exists>j < length ns'. i_key (ns' ! i) = i_key (node t ! j))"
    "\<not> arr_key t k" "lf \<le> int (length ns')"
    "\<And>i. i < length ns' \<Longrightarrow> lf \<le> int i \<Longrightarrow> i_key (ns' ! i) \<noteq> Vnil"
    "\<And>i. i < length ns' \<Longrightarrow> i \<noteq> n \<Longrightarrow> i_key (node t ! i) = Vnil \<Longrightarrow> i_key (ns' ! i) = Vnil"
  shows "tab_ok sh (t\<lparr>lastfree := lf, node := ns'\<rparr>)" "nfree t \<le> nfree (t\<lparr>lastfree := lf, node := ns'\<rparr>) + 1"
proof -
  have mp: "mainposition sh (t\<lparr>lastfree := lf, node := ns'\<rparr>) = mainposition sh t" by (rule mainposition_cong) simp
  have arr: "arr_key (t\<lparr>lastfree := lf, node := ns'\<rparr>) = arr_key t" by (simp add: fun_eq_iff arr_key_def)
  have "\<not> arr_key t (i_key (ns' ! i))" if "i < length ns'" for i
    using assms(6) [OF that] assms(1,5,7) by (auto simp: tab_ok_def)
  then show "tab_ok sh (t\<lparr>lastfree := lf, node := ns'\<rparr>)"
    using assms mp arr by (simp add: tab_ok_def sizenode_def)
  have "{i. i < length (node t) \<and> i_key (node t ! i) = Vnil} \<subseteq> insert n {i. i < length ns' \<and> i_key (ns' ! i) = Vnil}"
    using assms(5,10) by auto
  from card_mono [OF _ this] have "card {i. i < length (node t) \<and> i_key (node t ! i) = Vnil}
      \<le> Suc (card {i. i < length ns' \<and> i_key (ns' ! i) = Vnil})"
    using card_insert_le_m1 by (simp add: card_insert_if split: if_splits)
  then show "nfree t \<le> nfree (t\<lparr>lastfree := lf, node := ns'\<rparr>) + 1"
    using assms(2) by (simp add: nfree_def length_filter_conv_card)
qed

definition same_frame :: "Table \<Rightarrow> Table \<Rightarrow> bool" where
  "same_frame t t' \<longleftrightarrow> tarray t' = tarray t \<and> sizearray t' = sizearray t \<and> isdummy t' = isdummy t \<and>
     lsizenode t' = lsizenode t \<and> metatable t' = metatable t"

text \<open>What \<open>newkey\<close> promises when it does not have to rehash.\<close>

definition placed :: "(ptr \<Rightarrow> uint32) \<Rightarrow> Table \<Rightarrow> tval \<Rightarrow> Table \<Rightarrow> nat \<Rightarrow> bool" where
  "placed sh t k t' i \<longleftrightarrow> tab_ok sh t' \<and> same_frame t t' \<and> i < length (node t') \<and> i_key (node t' ! i) = k \<and>
     live_entries (node t') = live_entries (node t) \<and> nfree t \<le> nfree t' + 1"

lemma newkey_free_main:
  assumes "tab_ok sh t" "good_key (node t) k" "\<not> arr_key t k" "\<not> isdummy t"
    "i_val (node t ! mainposition sh t k) = Vnil"
  shows "\<exists>t' i. newkey_with sh nk t k = Inr (t', NodeSlot i) \<and> placed sh t k t' i"
proof -
  define p ns where "p = mainposition sh t k" and "ns = node t"
  have p: "p < length ns" using tab_ok_mp [OF assms(1)] by (simp add: p_def ns_def)
  have ok: "links_ok ns" "keys_ok (mainposition sh t) ns" using assms(1) by (auto simp: tab_ok_def ns_def)
  define ns' where "ns' = ns[p := (ns ! p)\<lparr>i_key := k\<rparr>]"
  note pl = place_free [OF ok, of k, folded p_def, folded ns'_def]
  have nk: "newkey_with sh nk t k = Inr (t\<lparr>node := ns'\<rparr>, NodeSlot p)"
    using assms(4,5) by (simp add: newkey_with_def p_def [symmetric] Let_def ttisnil_def set_key_def ns'_def ns_def)
  have kn: "k \<noteq> Vnil" using assms(2) by (auto simp: good_key_def proper_def)
  have key: "i_key (ns' ! i) = (if i = p then k else i_key (ns ! i))" if "i < length ns" for i
    using that by (simp add: ns'_def nth_list_update)
  have len: "length ns' = length ns" by (simp add: ns'_def)
  have "tab_ok sh (t\<lparr>lastfree := lastfree t, node := ns'\<rparr>) \<and> nfree t \<le> nfree (t\<lparr>lastfree := lastfree t, node := ns'\<rparr>) + 1"
    using assms(1,3,4) pl p assms(2,5) len kn
    by (intro conjI tab_ok_place [where k = k and n = p])
      (auto simp: key p_def [symmetric] ns_def [symmetric] tab_ok_def)
  then have "placed sh t k (t\<lparr>node := ns'\<rparr>) p"
    using pl(3) p assms(2,5) len key [OF p]
    by (simp add: placed_def same_frame_def p_def [symmetric] ns_def [symmetric])
  then show ?thesis using nk by blast
qed

lemma newkey_collision:
  assumes "tab_ok sh t" "good_key (node t) k" "\<not> arr_key t k" "0 < nfree t"
    "i_val (node t ! mainposition sh t k) \<noteq> Vnil"
  shows "\<exists>t' i. newkey_with sh nk t k = Inr (t', NodeSlot i) \<and> placed sh t k t' i"
proof -
  define p ns where "p = mainposition sh t k" and "ns = node t"
  have p: "p < length ns" using tab_ok_mp [OF assms(1)] by (simp add: p_def ns_def)
  have ok: "links_ok ns" "keys_ok (mainposition sh t) ns" using assms(1) by (auto simp: tab_ok_def ns_def)
  obtain t1 fr where g: "getfreepos t = (t1, fr)" by (rule prod.exhaust)
  have "fr \<noteq> None"
  proof
    assume "fr = None"
    then have "nfree t = 0" using g by (intro getfreepos_None(3) [OF assms(1)]) simp
    then show False using assms(4) by simp
  qed
  then obtain n where gf: "getfreepos t = (t1, Some n)" using g by blast
  note f = getfreepos_Some [OF assms(1) gf, folded ns_def]
  have d: "\<not> isdummy t" using assms(4) by (auto simp: nfree_def)
  have kp: "proper (i_key (ns ! p))" using keys_okD(6) [OF ok(2) p] assms(5) by (auto simp: p_def ns_def)
  have kn: "k \<noteq> Vnil" using assms(2) by (auto simp: good_key_def proper_def)
  have np: "n \<noteq> p" using kp f(4) by (auto simp: proper_def)
  have mp1: "mainposition sh t1 = mainposition sh t" using f(1) by (intro mainposition_cong) simp
  have t1: "node t1 = ns" "lastfree t1 = int n" using f(1) by (simp_all add: ns_def)
  have gk: "good_key ns k" using assms(2) by (simp add: ns_def)
  let ?o = "mainposition sh t (i_key (ns ! p))"
  show ?thesis
  proof (cases "?o = p")
    case True
    define ns' where "ns' = ns[n := (ns ! n)\<lparr>i_next := i_next (ns ! p), i_key := k\<rparr>, p := (ns ! p)\<lparr>i_next := Some n\<rparr>]"
    note pl = place_after [OF ok p_def p kp True f(3,4) gk, folded ns'_def]
    have "ns[n := (ns ! n)\<lparr>i_next := i_next (ns ! p)\<rparr>, p := (ns ! p)\<lparr>i_next := Some n\<rparr>,
        n := (ns ! n)\<lparr>i_next := i_next (ns ! p), i_key := k\<rparr>] = ns'"
      using np by (simp add: ns'_def list_update_swap)
    then have nk: "newkey_with sh nk t k = Inr (t\<lparr>lastfree := int n, node := ns'\<rparr>, NodeSlot n)"
      using assms(5) gf np f(1,3) p True mp1 t1
      by (simp add: newkey_with_def p_def [symmetric] ns_def [symmetric] Let_def ttisnil_def set_key_def nth_list_update)
    have key: "i_key (ns' ! i) = (if i = n then k else i_key (ns ! i))" if "i < length ns" for i
      using that np by (cases "i = p") (simp_all add: ns'_def nth_list_update)
    have len: "length ns' = length ns" by (simp add: ns'_def)
    have "tab_ok sh (t\<lparr>lastfree := int n, node := ns'\<rparr>) \<and> nfree t \<le> nfree (t\<lparr>lastfree := int n, node := ns'\<rparr>) + 1"
      using assms(1,3) d pl(1,2) f(3,5) len kn
      by (intro conjI tab_ok_place [where k = k and n = n])
        (auto simp: key p_def [symmetric] ns_def [symmetric])
    then have "placed sh t k (t\<lparr>lastfree := int n, node := ns'\<rparr>) n"
      using pl(3) f(3) len key by (simp add: placed_def same_frame_def ns_def [symmetric])
    then show ?thesis using nk by blast
  next
    case False
    have o: "?o < length ns" "(?o, p) \<in> (edges ns)\<^sup>*" using keys_okD(1,2) [OF ok(2) p kp] by auto
    obtain pr where pr: "find_previous ns (length ns) ?o p = Some pr" "(pr, p) \<in> edges ns"
      using find_previous_ok [OF ok(1) o False] by blast
    define ns' where "ns' = ns[pr := (ns ! pr)\<lparr>i_next := Some n\<rparr>, n := ns ! p, p := \<lparr>i_val = Vnil, i_key = k, i_next = None\<rparr>]"
    note pl = place_move [OF ok p_def p kp False pr(2) f(3,4) gk, folded ns'_def]
    obtain r :: "nat \<Rightarrow> nat" where r: "\<And>i j. (i, j) \<in> edges ns \<Longrightarrow> r i < r j" using links_okD(6) [OF ok(1)] by blast
    have ne: "pr \<noteq> p" "pr \<noteq> n" using pr(2) r [of p p] links_okD(3) [OF ok(1)] f(4) by auto
    have "set_key (t\<lparr>lastfree := int n, node := ns[pr := (ns ! pr)\<lparr>i_next := Some n\<rparr>, n := ns ! p,
        p := (ns ! p)\<lparr>i_next := None, i_val := Vnil\<rparr>]\<rparr>) p k = t\<lparr>lastfree := int n, node := ns'\<rparr>"
      using p by (cases "ns ! p") (simp add: set_key_def ns'_def)
    then have nk: "newkey_with sh nk t k = Inr (t\<lparr>lastfree := int n, node := ns'\<rparr>, NodeSlot p)"
      using assms(5) gf np ne f(1,3) p False mp1 t1 pr(1)
      by (simp add: newkey_with_def p_def [symmetric] ns_def [symmetric] Let_def ttisnil_def nth_list_update)
    have key: "i_key (ns' ! i) = (if i = p then k else if i = n then i_key (ns ! p) else i_key (ns ! i))"
      if "i < length ns" for i using that np by (cases "i = pr") (simp_all add: ns'_def nth_list_update)
    have len: "length ns' = length ns" by (simp add: ns'_def)
    have "tab_ok sh (t\<lparr>lastfree := int n, node := ns'\<rparr>) \<and> nfree t \<le> nfree (t\<lparr>lastfree := int n, node := ns'\<rparr>) + 1"
      using assms(1,3) d pl(1,2) f(3,5) len kn kp p
      by (intro conjI tab_ok_place [where k = k and n = n])
        (auto simp: key p_def [symmetric] ns_def [symmetric] proper_def)
    then have "placed sh t k (t\<lparr>lastfree := int n, node := ns'\<rparr>) p"
      using pl(3) p len key by (simp add: placed_def same_frame_def ns_def [symmetric])
    then show ?thesis using nk by blast
  qed
qed

lemma newkey_room:
  assumes "tab_ok sh t" "good_key (node t) k" "\<not> arr_key t k" "0 < nfree t"
  shows "\<exists>t' i. newkey_with sh nk t k = Inr (t', NodeSlot i) \<and> placed sh t k t' i"
proof (cases "i_val (node t ! mainposition sh t k) = Vnil")
  case True
  have "\<not> isdummy t" using assms(4) by (auto simp: nfree_def)
  with True show ?thesis using newkey_free_main assms by blast
next
  case False
  then show ?thesis using newkey_collision assms by blast
qed

section \<open>Assignment\<close>

lemma tab_ok_flags [simp]: "tab_ok sh (t\<lparr>flags := x\<rparr>) = tab_ok sh t"
proof -
  have "mainposition sh (t\<lparr>flags := x\<rparr>) = mainposition sh t" by (rule mainposition_cong) simp
  then show ?thesis by (simp add: tab_ok_def sizenode_def arr_key_def)
qed

lemma luaH_get_flags [simp]: "luaH_get sh (t\<lparr>flags := x\<rparr>) = luaH_get sh t"
proof -
  have "mainposition sh (t\<lparr>flags := x\<rparr>) = mainposition sh t" by (rule mainposition_cong) simp
  then show ?thesis
    by (simp add: fun_eq_iff luaH_get_def get_generic_def luaH_getnum_def luaH_getstr_def Let_def
        hashnum_def hashpow2_def hashmod_def sizenode_def split: TValue.split)
qed

lemma flags_simps [simp]:
  "nfree (t\<lparr>flags := x\<rparr>) = nfree t" "tget sh (t\<lparr>flags := x\<rparr>) = tget sh t"
  "arr_key (t\<lparr>flags := x\<rparr>) = arr_key t" "same_frame (t\<lparr>flags := x\<rparr>) t' = same_frame t t'"
  "same_frame t (t\<lparr>flags := x\<rparr>)"
  by (simp_all add: nfree_def tget_def fun_eq_iff slot_val_def arr_key_def same_frame_def split: slot.split)

definition no_nan :: "tval \<Rightarrow> bool" where
  "no_nan k = (case k of Vnumber n \<Rightarrow> \<not> num_isnan n | _ \<Rightarrow> True)"

lemma no_nan_iff: "no_nan k \<longleftrightarrow> luaO_rawequalObj k k"
  by (cases k) (auto simp: no_nan_def rawequalObj_refl)

text \<open>
  What \<open>luaH_set\<close> promises: the slot it returns is the one \<open>luaH_get\<close> finds for the key from now
  on, and no lookup has changed yet.
\<close>

definition set_post :: "(ptr \<Rightarrow> uint32) \<Rightarrow> Table \<Rightarrow> tval \<Rightarrow> Table \<Rightarrow> slot \<Rightarrow> bool" where
  "set_post sh t k t' s \<longleftrightarrow> tab_ok sh t' \<and> luaH_get sh t' k = s \<and> s \<noteq> NilObject \<and>
     (\<forall>k'. proper k' \<longrightarrow> tget sh t' k' = tget sh t k')"

lemma good_key_iff:
  assumes "tab_ok sh t" "proper k" "no_nan k" "luaH_get sh t k = NilObject"
  shows "good_key (node t) k" "\<not> arr_key t k"
  using assms(1,2)
  by (cases rule: luaH_get_cases; use assms in \<open>auto simp: good_key_def no_nan_def\<close>)+

lemma placed_post:
  assumes "tab_ok sh t" "good_key (node t) k" "\<not> arr_key t k" "placed sh t k t' i"
  shows "set_post sh t k t' (NodeSlot i)"
proof -
  have k: "proper k" "no_nan k" using assms(2) by (auto simp: good_key_def no_nan_def split: TValue.split)
  have t': "tab_ok sh t'" "same_frame t t'" "i < length (node t')" "i_key (node t' ! i) = k"
    "live_entries (node t') = live_entries (node t)" using assms(4) by (auto simp: placed_def)
  have a: "\<not> arr_key t' k" using assms(3) t'(2) by (simp add: arr_key_def same_frame_def)
  have "get_generic sh t' k = NodeSlot i"
    using get_generic_iff(1) [OF t'(1) k(1)] t'(3,4) k(2) by (simp add: no_nan_iff)
  then have "luaH_get sh t' k = NodeSlot i"
    using luaH_get_eq [of t' k sh] t'(1) a k by (simp add: tab_ok_def proper_def)
  then show ?thesis using t' tget_cong [OF assms(1) t'(1)] by (simp add: set_post_def same_frame_def)
qed

lemma set_room:
  assumes "tab_ok sh t" "proper k" "no_nan k" "luaH_get sh t k = NilObject \<Longrightarrow> 0 < nfree t"
  shows "\<exists>t' s. luaH_set_with sh (newkey_with sh nk) t k = Inr (t', s) \<and> set_post sh t k t' s \<and>
    same_frame t t' \<and> nfree t \<le> nfree t' + (if arr_key t k then 0 else 1)"
proof (cases "luaH_get sh t k = NilObject")
  case False
  then show ?thesis using assms(1) by (simp add: luaH_set_with_def Let_def set_post_def)
next
  case True
  note g = good_key_iff [OF assms(1-3) True]
  have s: "luaH_set_with sh (newkey_with sh nk) t k = newkey_with sh nk (t\<lparr>flags := 0\<rparr>) k"
    using True assms(2,3)
    by (auto simp: luaH_set_with_def Let_def ttisnil_def proper_def no_nan_def split: TValue.splits)
  obtain t' i where n: "newkey_with sh nk (t\<lparr>flags := 0\<rparr>) k = Inr (t', NodeSlot i)" "placed sh (t\<lparr>flags := 0\<rparr>) k t' i"
    using newkey_room [of sh "t\<lparr>flags := 0\<rparr>" k nk] assms g True by auto
  have "set_post sh (t\<lparr>flags := 0\<rparr>) k t' (NodeSlot i)" using placed_post [OF _ _ _ n(2)] assms(1) g by simp
  then show ?thesis using s n g by (auto simp: set_post_def placed_def)
qed

lemma setnum_room:
  assumes "tab_ok sh t" "0 < j" "j < 2 ^ 31" "luaH_getnum t j = NilObject \<Longrightarrow> 0 < nfree t"
  shows "\<exists>t' s. luaH_setnum_with (newkey_with sh nk) t j = Inr (t', s) \<and> set_post sh t (Vnumber (cast_num j)) t' s \<and>
    same_frame t t' \<and> nfree t \<le> nfree t' + 1"
proof -
  let ?k = "Vnumber (cast_num j)"
  have g: "luaH_getnum t j = luaH_get sh t ?k" using assms(2,3) by (intro luaH_getnum_eq) auto
  have k: "proper ?k" "no_nan ?k" by (simp_all add: proper_def no_nan_def)
  show ?thesis
  proof (cases "luaH_get sh t ?k = NilObject")
    case False
    then show ?thesis using assms(1) g by (simp add: luaH_setnum_with_def Let_def set_post_def same_frame_def)
  next
    case True
    note gk = good_key_iff [OF assms(1) k True]
    obtain t' i where "newkey_with sh nk t ?k = Inr (t', NodeSlot i)" "placed sh t ?k t' i"
      using newkey_room [OF assms(1) gk, of nk] assms(4) g True by auto
    then show ?thesis using placed_post [OF assms(1) gk] True g
      by (auto simp: luaH_setnum_with_def Let_def placed_def)
  qed
qed

lemma same_keys:
  assumes "length ns' = length ns" "\<And>i. i < length ns \<Longrightarrow> i_key (ns' ! i) = i_key (ns ! i)"
    "\<And>i. i < length ns \<Longrightarrow> i_next (ns' ! i) = i_next (ns ! i)"
    "\<And>i. i < length ns \<Longrightarrow> \<not> proper (i_key (ns ! i)) \<Longrightarrow> i_val (ns' ! i) = i_val (ns ! i)"
    "links_ok ns" "keys_ok mp ns"
  shows "links_ok ns'" "keys_ok mp ns'"
proof -
  have e: "edges ns' = edges ns" using assms(1,3) by (auto simp: edges_def)
  note L = links_okD [OF assms(5)]
  show "links_ok ns'" unfolding links_ok_def e
    using L assms(1,2) by (intro conjI allI impI; metis)
  show "keys_ok mp ns'" unfolding keys_ok_def e
    using keys_okD [OF assms(6)] assms(1,2,4) by (intro conjI allI impI; simp)
qed

lemma luaH_get_same_keys:
  assumes "tab_ok sh t" "tab_ok sh t'" "length (node t') = length (node t)" "sizearray t' = sizearray t"
    "\<And>i. i < length (node t) \<Longrightarrow> i_key (node t' ! i) = i_key (node t ! i)" "proper k"
  shows "luaH_get sh t' k = luaH_get sh t k"
proof -
  have "get_generic sh t' k = get_generic sh t k"
  proof (cases "get_generic sh t k")
    case NilObject
    then show ?thesis using get_generic_iff(3) [OF assms(1,6)] get_generic_iff(3) [OF assms(2,6)] assms(3,5) by simp
  next
    case (ArraySlot i)
    then show ?thesis using get_generic_iff(2) [OF assms(1,6)] by simp
  next
    case (NodeSlot i)
    moreover from this have "get_generic sh t' k = NodeSlot i"
      using get_generic_iff(1) [OF assms(1,6)] get_generic_iff(1) [OF assms(2,6)] assms(3,5) by simp
    ultimately show ?thesis by simp
  qed
  then show ?thesis
    using assms luaH_get_eq [of t k sh] luaH_get_eq [of t' k sh] by (simp add: tab_ok_def proper_def arr_key_def)
qed

lemma tab_ok_store:
  assumes "tab_ok sh t" "proper k" "luaH_get sh t k = s" "s \<noteq> NilObject"
  shows "tab_ok sh (store t s v)" "nfree (store t s v) = nfree t" "sizearray (store t s v) = sizearray t"
    "isdummy (store t s v) = isdummy t" "length (tarray (store t s v)) = length (tarray t)"
    "lsizenode (store t s v) = lsizenode t"
    "\<not> arr_key t k \<Longrightarrow> tarray (store t s v) = tarray t"
    "\<And>i. i < length (node t) \<Longrightarrow> i_key (node (store t s v) ! i) = i_key (node t ! i)"
    "length (node (store t s v)) = length (node t)"
proof -
  define t' where "t' = store t s v"
  have key: "i_key (node t' ! i) = i_key (node t ! i)" "i_next (node t' ! i) = i_next (node t ! i)"
    if "i < length (node t)" for i
    using that by (cases s; cases "s = NodeSlot i"; simp add: t'_def store_def)+
  have len: "length (node t') = length (node t)" "length (tarray t') = length (tarray t)"
    by (auto simp: t'_def store_def split: slot.split)
  have fr: "sizearray t' = sizearray t" "isdummy t' = isdummy t" "lsizenode t' = lsizenode t" "lastfree t' = lastfree t"
    by (auto simp: t'_def store_def split: slot.split)
  have val: "i_val (node t' ! i) = i_val (node t ! i)" if "i < length (node t)" "\<not> proper (i_key (node t ! i))" for i
  proof -
    have "s \<noteq> NodeSlot i"
      using assms(1,2)
    proof (cases rule: luaH_get_cases)
      case (node j)
      then have "proper (i_key (node t ! j))" using assms(2) by (auto simp: proper_def rawequalObj_cases)
      then show ?thesis using node that assms(3) by auto
    qed (use assms(3,4) in auto)
    then show ?thesis by (cases s) (auto simp: t'_def store_def)
  qed
  have arr: "arr_key t' = arr_key t" by (simp add: fun_eq_iff arr_key_def fr)
  have mp: "mainposition sh t' = mainposition sh t" by (rule mainposition_cong) (rule fr)
  have ok: "links_ok (node t)" "keys_ok (mainposition sh t) (node t)" using assms(1) by (auto simp: tab_ok_def)
  note lk = same_keys [OF len(1) key val ok]
  have dm: "\<not> isdummy t" if "s = NodeSlot i" for i
  proof
    assume "isdummy t"
    then have "node t = [nilnode]" using assms(1) by (simp add: tab_ok_def)
    with assms(1,2) show False using that assms(2,3)
      by (cases rule: luaH_get_cases) (auto simp: nilnode_def proper_def rawequalObj_cases)
  qed
  have nd: "isdummy t \<Longrightarrow> node t' = node t"
    using dm assms(4) by (auto simp: t'_def store_def split: slot.split)
  have "\<forall>i < length (node t'). \<not> arr_key t' (i_key (node t' ! i))" using assms(1) key len arr by (simp add: tab_ok_def)
  then show "tab_ok sh (store t s v)"
    using assms(1) lk key len fr nd
    unfolding t'_def [symmetric] tab_ok_def mp sizenode_def by (cases "isdummy t") auto
  have "{i. i < length (node t') \<and> i_key (node t' ! i) = Vnil} = {i. i < length (node t) \<and> i_key (node t ! i) = Vnil}"
    using key len by auto
  then show "nfree (store t s v) = nfree t"
    unfolding t'_def [symmetric] by (simp add: nfree_def length_filter_conv_card fr)
  show "sizearray (store t s v) = sizearray t" "isdummy (store t s v) = isdummy t"
    "length (tarray (store t s v)) = length (tarray t)" "lsizenode (store t s v) = lsizenode t"
    "length (node (store t s v)) = length (node t)"
    "\<And>i. i < length (node t) \<Longrightarrow> i_key (node (store t s v) ! i) = i_key (node t ! i)"
    using fr len key unfolding t'_def by auto
  show "tarray (store t s v) = tarray t" if "\<not> arr_key t k"
    using assms(1,2) by (cases rule: luaH_get_cases) (use that assms in \<open>auto simp: store_def\<close>)
qed

lemma tget_store:
  assumes "tab_ok sh t" "proper k" "luaH_get sh t k = s" "s \<noteq> NilObject" "proper k'"
  shows "tget sh (store t s v) k' = (if luaO_rawequalObj k' k then v else tget sh t k')"
proof -
  note st = tab_ok_store [OF assms(1-4), where v = v]
  have g: "luaH_get sh (store t s v) k' = luaH_get sh t k'"
    using luaH_get_same_keys [OF assms(1) st(1) st(9) st(3) _ assms(5)] st(8) by simp
  show ?thesis
  proof (cases "luaO_rawequalObj k' k")
    case True
    then have s: "luaH_get sh t k' = s" using luaH_get_rawequal [OF assms(1,2)] assms(3) by simp
    have "slot_val (store t s v) s = v"
      using assms(1,2)
      by (cases rule: luaH_get_cases)
        (use assms(1,3,4) in \<open>auto simp: slot_val_def store_def tab_ok_def\<close>)
    then show ?thesis using True g s by (simp add: tget_def)
  next
    case False
    then have ne: "luaH_get sh t k' \<noteq> s" using luaH_get_inj [OF assms(1,5,2)] assms(3,4) by auto
    have "slot_val (store t s v) s' = slot_val t s'" if "s' \<noteq> s" for s'
      using that by (cases s; cases s') (auto simp: slot_val_def store_def)
    then show ?thesis using False g ne by (simp add: tget_def)
  qed
qed

end
