(* ===== verification/Ltable_resize.thy ===== *)
theory Ltable_resize
  imports Ltable_map
begin

text \<open>
  Growing a table: \<open>resize\<close> keeps every lookup and has room for all entries when \<open>rehash\<close> chose the
  sizes, so that \<open>luaH_set\<close> returns after at most one rehash.
\<close>

section \<open>Loading entries into a table\<close>

definition agrees :: "(tval \<Rightarrow> tval) \<Rightarrow> (tval \<times> tval) set \<Rightarrow> bool" where
  "agrees f E \<longleftrightarrow> (\<forall>(k, v) \<in> E. \<forall>k'. proper k' \<and> luaO_rawequalObj k' k \<longrightarrow> f k' = v)"

definition covers :: "(tval \<times> tval) set \<Rightarrow> tval \<Rightarrow> bool" where
  "covers E k' \<longleftrightarrow> (\<exists>(k, v) \<in> E. luaO_rawequalObj k' k)"

definition loaded :: "(ptr \<Rightarrow> uint32) \<Rightarrow> Table \<Rightarrow> (tval \<times> tval) set \<Rightarrow> Table \<Rightarrow> bool" where
  "loaded sh t E t' \<longleftrightarrow> (\<forall>f. agrees f E \<longrightarrow>
     (\<forall>k'. proper k' \<longrightarrow> covers E k' \<or> tget sh t k' = f k' \<longrightarrow> tget sh t' k' = f k'))"

lemma loaded_refl: "loaded sh t {} t"
  by (simp add: loaded_def covers_def)

lemma loaded_step:
  assumes "\<And>k'. proper k' \<Longrightarrow> tget sh t1 k' = (if luaO_rawequalObj k' k then v else tget sh t k')" "loaded sh t1 E t'"
  shows "loaded sh t (insert (k, v) E) t'"
  unfolding loaded_def
proof (intro allI impI)
  fix f k' assume f: "agrees f (insert (k, v) E)" and k': "proper k'" "covers (insert (k, v) E) k' \<or> tget sh t k' = f k'"
  have "agrees f E" using f by (simp add: agrees_def)
  moreover have "covers E k' \<or> tget sh t1 k' = f k'"
    using f k' assms(1) [OF k'(1)] by (auto simp: agrees_def covers_def)
  ultimately show "tget sh t' k' = f k'" using assms(2) k'(1) unfolding loaded_def by blast
qed

lemma loaded_trans:
  assumes "loaded sh t E t1" "loaded sh t1 E' t2"
  shows "loaded sh t (E \<union> E') t2"
  unfolding loaded_def
proof (intro allI impI)
  fix f k' assume f: "agrees f (E \<union> E')" and k': "proper k'" "covers (E \<union> E') k' \<or> tget sh t k' = f k'"
  have "agrees f E" "agrees f E'" using f by (auto simp: agrees_def)
  then show "tget sh t2 k' = f k'" using assms k' unfolding loaded_def covers_def by blast
qed

definition hash_entries :: "Node list \<Rightarrow> nat \<Rightarrow> (tval \<times> tval) set" where
  "hash_entries ns i = {(i_key (ns ! j), i_val (ns ! j)) | j. j < i \<and> i_val (ns ! j) \<noteq> Vnil}"

definition outside :: "nat \<Rightarrow> int \<Rightarrow> bool" where
  "outside n x \<longleftrightarrow> \<not> (0 < x \<and> x \<le> int n)"

definition hash_count :: "nat \<Rightarrow> Node list \<Rightarrow> nat \<Rightarrow> nat" where
  "hash_count n ns i =
     length (filter (\<lambda>j. i_val (ns ! j) \<noteq> Vnil \<and> outside n (arrayindex (i_key (ns ! j)))) [0..<i])"

lemma arr_key_outside: "arr_key t k \<longleftrightarrow> \<not> outside (sizearray t) (arrayindex k)"
  by (simp add: arr_key_def outside_def)

lemma hash_entries_Suc:
  "hash_entries ns (Suc i) = (if i_val (ns ! i) = Vnil then hash_entries ns i
     else insert (i_key (ns ! i), i_val (ns ! i)) (hash_entries ns i))"
  by (auto simp: hash_entries_def less_Suc_eq)

lemma reinsert_hash_spec:
  assumes "tab_ok sh t" "\<And>j. j < i \<Longrightarrow> i_val (ns ! j) \<noteq> Vnil \<Longrightarrow> proper (i_key (ns ! j)) \<and> no_nan (i_key (ns ! j))"
    "hash_count (sizearray t) ns i \<le> nfree t"
  shows "\<exists>t'. reinsert_hash sh (newkey_with sh nk) ns i t = Inr t' \<and> tab_ok sh t' \<and> sizearray t' = sizearray t \<and>
    length (tarray t') = length (tarray t) \<and>
    nfree t \<le> nfree t' + hash_count (sizearray t) ns i \<and> loaded sh t (hash_entries ns i) t'"
  using assms
proof (induction i arbitrary: t)
  case 0
  then show ?case by (simp add: hash_entries_def loaded_refl)
next
  case (Suc i)
  show ?case
  proof (cases "i_val (ns ! i) = Vnil")
    case True
    then show ?thesis using Suc by (simp add: ttisnil_def hash_entries_Suc hash_count_def)
  next
    case False
    let ?k = "i_key (ns ! i)" and ?v = "i_val (ns ! i)" and ?n = "sizearray t"
    have k: "proper ?k" "no_nan ?k" using Suc.prems(2) False by auto
    have c: "hash_count ?n ns (Suc i) = hash_count ?n ns i + (if arr_key t ?k then 0 else 1)"
      using False by (simp add: hash_count_def arr_key_outside)
    have "0 < nfree t" if "luaH_get sh t ?k = NilObject"
      using good_key_iff(2) [OF Suc.prems(1) k that] c Suc.prems(3) by simp
    then obtain t1 s where s: "luaH_set_with sh (newkey_with sh nk) t ?k = Inr (t1, s)" "set_post sh t ?k t1 s"
        "same_frame t t1" "nfree t \<le> nfree t1 + (if arr_key t ?k then 0 else 1)"
      using set_room [OF Suc.prems(1) k, of nk] by blast
    have p: "tab_ok sh t1" "luaH_get sh t1 ?k = s" "s \<noteq> NilObject"
      and tg: "\<And>k'. proper k' \<Longrightarrow> tget sh t1 k' = tget sh t k'" using s(2) by (auto simp: set_post_def)
    define t2 where "t2 = store t1 s ?v"
    note st = tab_ok_store [OF p(1) k(1) p(2,3), where v = ?v, folded t2_def]
    have t2: "sizearray t2 = ?n" "length (tarray t2) = length (tarray t)" using st s(3) by (auto simp: same_frame_def)
    have step: "tget sh t2 k' = (if luaO_rawequalObj k' ?k then ?v else tget sh t k')" if "proper k'" for k'
      using tget_store [OF p(1) k(1) p(2,3) that] tg [OF that] by (simp add: t2_def)
    have "hash_count ?n ns i \<le> nfree t2" using c s(4) st(2) Suc.prems(3) by (simp split: if_splits)
    then obtain t' where "reinsert_hash sh (newkey_with sh nk) ns i t2 = Inr t'" "tab_ok sh t'" "sizearray t' = ?n"
        "length (tarray t') = length (tarray t)" "nfree t2 \<le> nfree t' + hash_count ?n ns i" "loaded sh t2 (hash_entries ns i) t'"
      using Suc.IH [of t2] st(1) Suc.prems(2) t2 by auto
    then show ?thesis using False s(1,4) c st(2) loaded_step [OF step]
      by (auto simp: ttisnil_def hash_entries_Suc t2_def [symmetric] split: if_splits)
  qed
qed

definition array_entries :: "tval list \<Rightarrow> nat \<Rightarrow> nat \<Rightarrow> (tval \<times> tval) set" where
  "array_entries arr i r =
     (\<lambda>j. (Vnumber (cast_num (int j + 1)), arr ! j)) ` {j \<in> {i..<i + r}. arr ! j \<noteq> Vnil}"

definition array_count :: "tval list \<Rightarrow> nat \<Rightarrow> nat \<Rightarrow> nat" where
  "array_count arr i r = length (filter (\<lambda>j. arr ! j \<noteq> Vnil) [i..<i + r])"

lemma array_entries_Suc:
  "array_entries arr i (Suc r) = (if arr ! i = Vnil then array_entries arr (Suc i) r
     else insert (Vnumber (cast_num (int i + 1)), arr ! i) (array_entries arr (Suc i) r))"
proof -
  have "{i..<i + Suc r} = insert i {Suc i..<Suc i + r}" by auto
  then show ?thesis by (auto simp: array_entries_def)
qed

lemma array_count_Suc: "array_count arr i (Suc r) = (if arr ! i = Vnil then 0 else 1) + array_count arr (Suc i) r"
proof -
  have "[i..<i + Suc r] = i # [Suc i..<Suc i + r]" by (simp add: upt_conv_Cons)
  then show ?thesis by (simp add: array_count_def)
qed

lemma reinsert_array_spec:
  assumes "tab_ok sh t" "sizearray t \<le> i" "i + r \<le> MAXASIZE" "array_count (tarray t) i r \<le> nfree t"
  shows "\<exists>t'. reinsert_array (newkey_with sh nk) i r t = Inr t' \<and> tab_ok sh t' \<and> sizearray t' = sizearray t \<and>
    tarray t' = tarray t \<and> nfree t \<le> nfree t' + array_count (tarray t) i r \<and> loaded sh t (array_entries (tarray t) i r) t'"
  using assms
proof (induction r arbitrary: t i)
  case 0
  then show ?case by (simp add: array_entries_def loaded_refl)
next
  case (Suc r)
  let ?v = "tarray t ! i" and ?j = "int i + 1"
  show ?case
  proof (cases "?v = Vnil")
    case True
    then show ?thesis using Suc.IH [of t "Suc i"] Suc.prems
      by (simp add: ttisnil_def array_entries_Suc array_count_Suc)
  next
    case False
    let ?k = "Vnumber (cast_num ?j) :: tval"
    have j: "0 < ?j" "?j < 2 ^ 31" using Suc.prems(3) by (auto simp: MAXASIZE_def MAXBITS_def)
    have k: "proper ?k" by (simp add: proper_def)
    have na: "\<not> arr_key t ?k" using arrayindex_cast [of ?j] j Suc.prems(2) by (simp add: arr_key_def)
    have "0 < nfree t" using Suc.prems(4) False by (simp add: array_count_Suc)
    then obtain t1 s where s: "luaH_setnum_with (newkey_with sh nk) t ?j = Inr (t1, s)" "set_post sh t ?k t1 s"
        "same_frame t t1" "nfree t \<le> nfree t1 + 1"
      using setnum_room [OF Suc.prems(1) j, of nk] by blast
    have p: "tab_ok sh t1" "luaH_get sh t1 ?k = s" "s \<noteq> NilObject"
      and tg: "\<And>k'. proper k' \<Longrightarrow> tget sh t1 k' = tget sh t k'" using s(2) by (auto simp: set_post_def)
    have na1: "\<not> arr_key t1 ?k" using na s(3) by (simp add: arr_key_def same_frame_def)
    define t2 where "t2 = store t1 s ?v"
    note st = tab_ok_store [OF p(1) k p(2,3), where v = ?v, folded t2_def]
    have t2: "sizearray t2 = sizearray t" "tarray t2 = tarray t" using st na1 s(3) by (auto simp: same_frame_def)
    have step: "tget sh t2 k' = (if luaO_rawequalObj k' ?k then ?v else tget sh t k')" if "proper k'" for k'
      using tget_store [OF p(1) k p(2,3) that] tg [OF that] by (simp add: t2_def)
    have "array_count (tarray t) (Suc i) r \<le> nfree t2" using s(4) st(2) Suc.prems(4) False by (simp add: array_count_Suc)
    then obtain t' where "reinsert_array (newkey_with sh nk) (Suc i) r t2 = Inr t'" "tab_ok sh t'" "sizearray t' = sizearray t"
        "tarray t' = tarray t" "nfree t2 \<le> nfree t' + array_count (tarray t) (Suc i) r"
        "loaded sh t2 (array_entries (tarray t) (Suc i) r) t'"
      using Suc.IH [of t2 "Suc i"] st(1) Suc.prems(2,3) t2 by auto
    then show ?thesis using False s(1,3,4) st(2) loaded_step [OF step]
      by (auto simp: ttisnil_def array_entries_Suc array_count_Suc t2_def [symmetric] same_frame_def)
  qed
qed

section \<open>Resize\<close>

lemma setnodevector_fresh:
  assumes "sizearray t \<le> length (tarray t)" "sizearray t \<le> MAXASIZE" "n \<le> 2 ^ MAXBITS"
  obtains t2 where "setnodevector t n = Inr t2" "tab_ok sh t2" "live_entries (node t2) = {}"
    "tarray t2 = tarray t" "sizearray t2 = sizearray t" "n \<le> nfree t2"
proof (cases "n = 0")
  case True
  have "edges [nilnode] = {}" by (auto simp: edges_def nilnode_def nth_Cons')
  then have ok: "links_ok [nilnode]" "keys_ok mp [nilnode]" for mp
    by (auto simp: links_ok_def keys_ok_def nilnode_def proper_def)
  define t2 where "t2 = t\<lparr>node := [nilnode], isdummy := True, lsizenode := 0, lastfree := 0\<rparr>"
  have t: "tab_ok sh t2" using assms ok
    by (simp add: tab_ok_def t2_def sizenode_def twoto_def arr_key_def arrayindex_def nilnode_def)
  show ?thesis
    by (rule that [of t2]) (use t True in \<open>simp_all add: setnodevector_def t2_def live_entries_def nilnode_def\<close>)
next
  case False
  define l where "l = nat (ceillog2 (int n))"
  have b: "1 \<le> int n" "int n < 2 ^ 32" using False assms(3) by (simp_all add: MAXBITS_def)
  note c = ceillog2_spec [OF b, folded l_def]
  have nl: "n \<le> 2 ^ l" using c(2) by (metis of_nat_le_iff of_nat_numeral of_nat_power)
  have "(2::int) ^ l < 2 ^ Suc MAXBITS" using c(3) assms(3) by (simp add: MAXBITS_def)
  then have l: "l \<le> MAXBITS" using power_less_imp_less_exp [of "2::int" l "Suc MAXBITS"] by simp
  define ns where "ns = replicate (2 ^ l) nilnode"
  have nth: "ns ! i = nilnode" if "i < length ns" for i using that by (simp add: ns_def)
  have len: "length ns = 2 ^ l" by (simp add: ns_def)
  have e: "edges ns = {}" using nth by (auto simp: edges_def nilnode_def)
  have ok: "links_ok ns" "keys_ok mp ns" for mp
    using nth by (auto simp: links_ok_def keys_ok_def e nilnode_def proper_def)
  define t2 where "t2 = t\<lparr>node := ns, isdummy := False, lsizenode := l, lastfree := int (2 ^ l)\<rparr>"
  have t: "tab_ok sh t2" using assms ok l nth len
    by (simp add: tab_ok_def t2_def sizenode_def twoto_def arr_key_def arrayindex_def nilnode_def)
  have "setnodevector t n = Inr t2"
    using False l by (simp add: setnodevector_def Let_def t2_def ns_def twoto_def flip: l_def)
  moreover have "live_entries (node t2) = {}" by (auto simp: t2_def ns_def live_entries_def nilnode_def)
  moreover have "nfree t2 = 2 ^ l" by (simp add: nfree_def t2_def ns_def nilnode_def)
  ultimately show ?thesis using t nl that [of t2] by (simp add: t2_def)
qed

lemma setnodevector_overflow: "2 ^ MAXBITS < n \<Longrightarrow> n < 2 ^ 32 \<Longrightarrow> setnodevector t n = Inl (RunError ''table overflow'')"
proof -
  assume n: "2 ^ MAXBITS < n" "n < 2 ^ 32"
  then have "int n < 2 ^ 32" by simp
  then have "int n \<le> 2 ^ nat (ceillog2 (int n))" using ceillog2_spec(2) [of "int n"] n by simp
  moreover have "(2::int) ^ MAXBITS < int n" using n(1) by (simp add: MAXBITS_def)
  ultimately have "(2::int) ^ MAXBITS < 2 ^ nat (ceillog2 (int n))" by linarith
  then have "MAXBITS < nat (ceillog2 (int n))" by (rule power_less_imp_less_exp [rotated]) simp
  then show ?thesis using n by (simp add: setnodevector_def)
qed

lemma tget_empty:
  assumes "tab_ok sh t" "live_entries (node t) = {}" "proper k" "\<not> arr_key t k"
  shows "tget sh t k = Vnil"
  using tget_node [OF assms(1,3,4)] assms(2) by blast

lemma agrees_hash:
  assumes "tab_ok sh t"
  shows "agrees (tget sh t) (hash_entries (node t) (length (node t)))"
  unfolding agrees_def
proof (clarsimp simp: hash_entries_def)
  fix k' j assume k': "proper k'" "luaO_rawequalObj k' (i_key (node t ! j))" and j: "j < length (node t)" "i_val (node t ! j) \<noteq> Vnil"
  have "tget sh t k' = tget sh t (i_key (node t ! j))"
    using luaH_get_rawequal [OF assms tab_ok_entry(1) [OF assms j] k'(2)] by (simp add: tget_def)
  then show "tget sh t k' = i_val (node t ! j)" using tab_ok_entry(4) [OF assms j] by simp
qed

lemma covers_hash:
  assumes "tab_ok sh t" "proper k" "\<not> arr_key t k" "\<not> covers (hash_entries (node t) (length (node t))) k"
  shows "tget sh t k = Vnil"
proof (rule ccontr)
  assume "tget sh t k \<noteq> Vnil"
  then obtain k' where "(k', tget sh t k) \<in> live_entries (node t)" "luaO_rawequalObj k' k"
    using tget_node [OF assms(1-3)] by blast
  then show False using assms(4) rawequalObj_sym
    unfolding covers_def hash_entries_def live_entries_nth by blast
qed

lemma agrees_array:
  assumes "tab_ok sh t" "i + r \<le> sizearray t"
  shows "agrees (tget sh t) (array_entries (tarray t) i r)"
  unfolding agrees_def
proof (clarsimp simp: array_entries_def)
  fix k' j assume k': "proper k'" "luaO_rawequalObj k' (Vnumber (cast_num (int j + 1)))" and j: "i \<le> j" "j < i + r"
  have "int j + 1 < 2 ^ 31" using j assms by (simp add: tab_ok_def MAXASIZE_def MAXBITS_def)
  then have a: "arrayindex k' = int j + 1" using arrayindex_rawequal [OF k'(2)] arrayindex_cast [of "int j + 1"] by simp
  then have "arr_key t k'" using j assms(2) by (simp add: arr_key_def)
  then show "tget sh t k' = tarray t ! j" using tget_array [OF assms(1)] a by simp
qed

lemma covers_array:
  assumes "tab_ok sh t" "arr_key t k" "int n < arrayindex k" "\<not> covers (array_entries (tarray t) n (sizearray t - n)) k"
  shows "tget sh t k = Vnil"
proof (rule ccontr)
  assume v: "tget sh t k \<noteq> Vnil"
  define j where "j = nat (arrayindex k - 1)"
  have j: "int j + 1 = arrayindex k" "n \<le> j" "j < sizearray t" using assms(2,3) by (auto simp: j_def arr_key_def)
  have "arrayindex (Vnumber (cast_num (int j + 1))) = int j + 1"
    using j(3) assms(1) by (intro arrayindex_cast) (auto simp: tab_ok_def MAXASIZE_def MAXBITS_def)
  then have "luaO_rawequalObj k (Vnumber (cast_num (int j + 1)))" using j(1) by (intro arrayindex_unique) auto
  moreover have "tarray t ! j \<noteq> Vnil" using v tget_array [OF assms(1,2)] by (simp add: j_def)
  ultimately show False using assms(4) j(2,3) by (force simp: covers_def array_entries_def)
qed

lemma tab_ok_shrink:
  assumes "tab_ok sh t" "sizearray t \<le> n"
  shows "tab_ok sh (t\<lparr>tarray := take n (tarray t)\<rparr>)" "nfree (t\<lparr>tarray := take n (tarray t)\<rparr>) = nfree t"
    "\<And>k. proper k \<Longrightarrow> tget sh (t\<lparr>tarray := take n (tarray t)\<rparr>) k = tget sh t k"
proof -
  have mp: "mainposition sh (t\<lparr>tarray := take n (tarray t)\<rparr>) = mainposition sh t" by (rule mainposition_cong) simp
  have "arr_key (t\<lparr>tarray := take n (tarray t)\<rparr>) = arr_key t" by (simp add: fun_eq_iff arr_key_def)
  then show ok: "tab_ok sh (t\<lparr>tarray := take n (tarray t)\<rparr>)" using assms mp by (auto simp: tab_ok_def sizenode_def)
  show "nfree (t\<lparr>tarray := take n (tarray t)\<rparr>) = nfree t" by (simp add: nfree_def)
  show "tget sh (t\<lparr>tarray := take n (tarray t)\<rparr>) k = tget sh t k" if "proper k" for k
    using that assms(2) by (intro tget_cong [OF assms(1) ok]) (simp_all add: min_def)
qed

text \<open>The table between the allocation of the new vectors and the re-insertions.\<close>

lemma resize_start:
  assumes "tab_ok sh t" "na \<le> MAXASIZE" "nh \<le> 2 ^ MAXBITS"
  obtains t2 where
    "setnodevector (if sizearray t < na then setarrayvector t na else t) nh = Inr t2"
    "tab_ok sh (t2\<lparr>sizearray := na\<rparr>)" "live_entries (node t2) = {}" "nh \<le> nfree t2"
    "sizearray t2 = max na (sizearray t)" "sizearray t2 \<le> length (tarray t2)"
    "\<And>i. i < sizearray t \<Longrightarrow> tarray t2 ! i = tarray t ! i"
    "\<And>i. sizearray t \<le> i \<Longrightarrow> i < na \<Longrightarrow> tarray t2 ! i = Vnil"
proof -
  define t1 where "t1 = (if sizearray t < na then setarrayvector t na else t)"
  have t1: "sizearray t1 = max na (sizearray t)" "sizearray t1 \<le> length (tarray t1)" "sizearray t1 \<le> MAXASIZE"
    using assms by (auto simp: t1_def setarrayvector_def tab_ok_def)
  have arr: "tarray t1 ! i = tarray t ! i" if "i < sizearray t" for i
    using that assms(1) by (auto simp: t1_def setarrayvector_def tab_ok_def nth_append)
  have nil: "tarray t1 ! i = Vnil" if "sizearray t \<le> i" "i < na" for i
    using that assms(1) by (auto simp: t1_def setarrayvector_def tab_ok_def nth_append)
  obtain t2 where t2: "setnodevector t1 nh = Inr t2" "tab_ok sh t2" "live_entries (node t2) = {}"
      "tarray t2 = tarray t1" "sizearray t2 = sizearray t1" "nh \<le> nfree t2"
    using setnodevector_fresh [OF t1(2,3) assms(3)] by blast
  have nokey: "i_key (node t2 ! i) = Vnil" if "i < length (node t2)" for i
    using t2(1) that by (auto simp: setnodevector_def Let_def nilnode_def split: if_splits)
  have mp: "mainposition sh (t2\<lparr>sizearray := na\<rparr>) = mainposition sh t2" by (rule mainposition_cong) simp
  have "tab_ok sh (t2\<lparr>sizearray := na\<rparr>)"
    using t2(2,5) t1 nokey assms(2)
    by (cases "isdummy t2") (auto simp: tab_ok_def mp sizenode_def arr_key_def arrayindex_def)
  then show ?thesis using t2 t1 arr nil by (intro that [of t2]) (auto simp: t1_def)
qed

lemma resize_spec:
  assumes "tab_ok sh t" "na \<le> MAXASIZE" "nh \<le> 2 ^ MAXBITS"
    "array_count (tarray t) na (sizearray t - na) + hash_count na (node t) (length (node t)) \<le> nh"
  shows "\<exists>t'. resize_with sh (newkey_with sh nk) t na nh = Inr t' \<and> tab_ok sh t' \<and> sizearray t' = na \<and>
    (\<forall>k. proper k \<longrightarrow> tget sh t' k = tget sh t k) \<and>
    nh \<le> nfree t' + array_count (tarray t) na (sizearray t - na) + hash_count na (node t) (length (node t))"
proof -
  define AC HC where "AC = array_count (tarray t) na (sizearray t - na)"
    and "HC = hash_count na (node t) (length (node t))"
  obtain t2 where t2: "setnodevector (if sizearray t < na then setarrayvector t na else t) nh = Inr t2"
    "tab_ok sh (t2\<lparr>sizearray := na\<rparr>)" "live_entries (node t2) = {}" "nh \<le> nfree t2"
    "sizearray t2 = max na (sizearray t)" "sizearray t2 \<le> length (tarray t2)"
    and arr: "\<And>i. i < sizearray t \<Longrightarrow> tarray t2 ! i = tarray t ! i"
    and nil: "\<And>i. sizearray t \<le> i \<Longrightarrow> i < na \<Longrightarrow> tarray t2 ! i = Vnil"
    using resize_start [OF assms(1-3)] by blast
  define t3 where "t3 = t2\<lparr>sizearray := na\<rparr>"
  define E1 E2 where "E1 = array_entries (tarray t) na (sizearray t - na)"
    and "E2 = hash_entries (node t) (length (node t))"
  have t3: "tab_ok sh t3" "sizearray t3 = na" "nfree t3 = nfree t2" "live_entries (node t3) = {}" "tarray t3 = tarray t2"
    using t2 by (simp_all add: t3_def nfree_def)
  have "\<exists>t4. (if na < sizearray t
        then rbind (reinsert_array (newkey_with sh nk) na (sizearray t - na) t3) (\<lambda>t3. Inr (t3\<lparr>tarray := take na (tarray t3)\<rparr>))
        else Inr t2) = Inr t4 \<and> tab_ok sh t4 \<and> sizearray t4 = na \<and> nh \<le> nfree t4 + AC \<and> loaded sh t3 E1 t4"
  proof (cases "na < sizearray t")
    case True
    have e: "array_entries (tarray t2) na (sizearray t - na) = E1" "array_count (tarray t2) na (sizearray t - na) = AC"
      using True arr
      by (auto simp: E1_def AC_def array_entries_def array_count_def intro!: image_cong Collect_cong arg_cong [where f = length] filter_cong)
    have "AC \<le> nfree t3" using assms(4) t2(4) t3(3) unfolding AC_def by linarith
    moreover have "na + (sizearray t - na) \<le> MAXASIZE" using True assms(1) by (simp add: tab_ok_def)
    ultimately obtain t' where t': "reinsert_array (newkey_with sh nk) na (sizearray t - na) t3 = Inr t'" "tab_ok sh t'"
        "sizearray t' = na" "nfree t3 \<le> nfree t' + AC" "loaded sh t3 E1 t'"
      using reinsert_array_spec [OF t3(1), of na "sizearray t - na" nk] t3 e by auto
    note s = tab_ok_shrink [OF t'(2), of na]
    have "loaded sh t3 E1 (t'\<lparr>tarray := take na (tarray t')\<rparr>)"
      using t'(5) s(3) t'(3) unfolding loaded_def by auto
    then show ?thesis using True t' s t2(4) t3(3) by auto
  next
    case False
    then have "t2 = t3" "E1 = {}" using t2(5) by (simp_all add: t3_def E1_def array_entries_def max_def)
    then show ?thesis using False t3 t2(4) loaded_refl by simp
  qed
  then obtain t4 where t4: "(if na < sizearray t
        then rbind (reinsert_array (newkey_with sh nk) na (sizearray t - na) t3) (\<lambda>t3. Inr (t3\<lparr>tarray := take na (tarray t3)\<rparr>))
        else Inr t2) = Inr t4" "tab_ok sh t4" "sizearray t4 = na" "nh \<le> nfree t4 + AC" "loaded sh t3 E1 t4" by blast
  have "hash_count (sizearray t4) (node t) (length (node t)) \<le> nfree t4"
    using t4(3,4) assms(4) unfolding AC_def by simp
  moreover have "proper (i_key (node t ! j)) \<and> no_nan (i_key (node t ! j))"
    if "j < length (node t)" "i_val (node t ! j) \<noteq> Vnil" for j
    using tab_ok_entry [OF assms(1) that] by (auto simp: no_nan_def split: TValue.split)
  ultimately obtain t' where t': "reinsert_hash sh (newkey_with sh nk) (node t) (length (node t)) t4 = Inr t'" "tab_ok sh t'"
      "sizearray t' = na" "nfree t4 \<le> nfree t' + HC" "loaded sh t4 E2 t'"
    using reinsert_hash_spec [OF t4(2), of "length (node t)" "node t" nk] t4(3) unfolding HC_def E2_def by auto
  have r: "resize_with sh (newkey_with sh nk) t na nh = Inr t'"
    using t2(1) t4(1) t'(1) assms(1) by (auto simp: resize_with_def Let_def t3_def tab_ok_def sizenode_def)
  have ld: "loaded sh t3 (E1 \<union> E2) t'" using loaded_trans [OF t4(5) t'(5)] .
  have "agrees (tget sh t) (E1 \<union> E2)"
    using agrees_hash [OF assms(1)] agrees_array [OF assms(1), of na "sizearray t - na"]
    by (cases "na \<le> sizearray t") (auto simp: E1_def E2_def agrees_def array_entries_def)
  moreover have "covers (E1 \<union> E2) k \<or> tget sh t3 k = tget sh t k" if k: "proper k" for k
  proof (cases "covers (E1 \<union> E2) k")
    case False
      then have nc: "\<not> covers E1 k" "\<not> covers E2 k" by (auto simp: covers_def)
      have nothash: "tget sh t k = Vnil" if "\<not> arr_key t k"
        using covers_hash [OF assms(1) k that] nc by (simp add: E2_def)
      have "tget sh t3 k = tget sh t k"
      proof (cases "arr_key t3 k")
        case True
        define i where "i = nat (arrayindex k - 1)"
        have i: "i < na" "tget sh t3 k = tarray t2 ! i"
          using True t3 tget_array [OF t3(1) True] by (auto simp: arr_key_def i_def)
        show ?thesis
        proof (cases "arr_key t k")
          case True
          then show ?thesis using i arr tget_array [OF assms(1) True] by (auto simp: i_def arr_key_def)
        next
          case False
          then have "sizearray t \<le> i" using True by (auto simp: arr_key_def i_def)
          then show ?thesis using i nil nothash [OF False] by simp
        qed
      next
        case False
        have "tget sh t3 k = Vnil" using tget_empty [OF t3(1,4) k False] .
        moreover have "tget sh t k = Vnil"
        proof (cases "arr_key t k")
          case True
          then have "int na < arrayindex k" using False t3(2) by (auto simp: arr_key_def)
          then show ?thesis using covers_array [OF assms(1) True] nc(1) by (simp add: E1_def)
        qed (rule nothash)
        ultimately show ?thesis by simp
      qed
      then show ?thesis ..
  qed simp
  ultimately have "\<forall>k. proper k \<longrightarrow> tget sh t' k = tget sh t k" using ld unfolding loaded_def by blast
  moreover have "nh \<le> nfree t' + AC + HC" using t4(4) t'(4) by linarith
  ultimately show ?thesis using r t' unfolding AC_def HC_def by auto
qed

end
