(* ===== verification/Ltable_rehash.thy ===== *)
theory Ltable_rehash
  imports Ltable_resize
begin

text \<open>
  The sizes \<open>rehash\<close> computes. The integer keys of a table (and the key to be inserted) are a list
  of indices; \<open>nums\<close> counts them by slices \<open>(2^(b-1), 2^b]\<close>, \<open>computesizes\<close> picks the largest
  power of two of which more than half is used, and what is left over fits the new node vector.
\<close>

section \<open>Slices\<close>

definition in_slice :: "nat \<Rightarrow> int \<Rightarrow> bool" where
  "in_slice b x \<longleftrightarrow> 0 < x \<and> x \<le> 2 ^ b \<and> (b = 0 \<or> 2 ^ (b - 1) < x)"

lemma ceillog2_slice:
  assumes "0 < x" "x < 2 ^ 32"
  shows "nat (ceillog2 x) = b \<longleftrightarrow> in_slice b x"
proof -
  define c where "c = nat (ceillog2 x)"
  have s: "x \<le> 2 ^ c" "2 ^ c < 2 * x" using ceillog2_spec [of x] assms by (auto simp: c_def)
  have up: "c' \<le> b'" if "x \<le> 2 ^ b'" "2 ^ c' < 2 * x" for b' c'
  proof -
    have "(2::int) ^ c' < 2 ^ Suc b'" using that by simp
    then show ?thesis using power_less_imp_less_exp [of "2::int" c' "Suc b'"] by simp
  qed
  show ?thesis
  proof
    assume "nat (ceillog2 x) = b"
    then show "in_slice b x" using s assms by (cases b) (auto simp: in_slice_def c_def [symmetric])
  next
    assume b: "in_slice b x"
    then have "2 ^ b < 2 * x" using assms by (cases b) (auto simp: in_slice_def)
    then show "nat (ceillog2 x) = b"
      using up [OF s(1), of b] up [of b c] b s(2) by (simp add: in_slice_def c_def [symmetric])
  qed
qed

definition counts :: "int list \<Rightarrow> nat \<Rightarrow> nat" where
  "counts L b = length (filter (in_slice b) L)"

definition upto_count :: "nat \<Rightarrow> int list \<Rightarrow> nat" where
  "upto_count n L = length (filter (\<lambda>x. \<not> outside n x) L)"

lemma counts_simps [simp]:
  "counts [] b = 0" "counts (x # L) b = (if in_slice b x then 1 else 0) + counts L b"
  "counts (L @ M) b = counts L b + counts M b"
  by (simp_all add: counts_def)

lemma upto_count_0 [simp]: "upto_count 0 L = 0"
  by (simp add: upto_count_def outside_def)

text \<open>The sum of the first slices counts the indices up to their bound.\<close>

lemma sum_counts: "(\<Sum>b'\<le>b. counts L b') = upto_count (2 ^ b) L"
proof (induction L)
  case Nil
  then show ?case by (simp add: upto_count_def)
next
  case (Cons x L)
  have "(\<Sum>b'\<le>b. if in_slice b' x then 1 else 0) = (if outside (2 ^ b) x then 0 else (1::nat))"
  proof (induction b)
    case 0
    then show ?case by (auto simp: in_slice_def outside_def)
  next
    case (Suc b)
    have "(2::int) ^ b \<le> 2 ^ Suc b" by simp
    then show ?case using Suc by (auto simp: in_slice_def outside_def)
  qed
  then show ?case using Cons by (simp add: sum.distrib upto_count_def)
qed

lemma upto_count_le:
  assumes "distinct (filter (\<lambda>x. 0 < x) L)"
  shows "upto_count n L \<le> n"
proof -
  have "filter (\<lambda>x. \<not> outside n x) L = filter (\<lambda>x. \<not> outside n x) (filter (\<lambda>x. 0 < x) L)"
    by (induction L) (auto simp: outside_def)
  then have "distinct (filter (\<lambda>x. \<not> outside n x) L)" using assms by (metis distinct_filter)
  then have "upto_count n L = card (set (filter (\<lambda>x. \<not> outside n x) L))" unfolding upto_count_def by (rule distinct_card [symmetric])
  also have "\<dots> \<le> card {1..int n}" by (intro card_mono) (auto simp: outside_def)
  finally show ?thesis by simp
qed

section \<open>Choosing the array size\<close>

lemma sum_list_take_le: "sum_list (take i xs) \<le> sum_list (xs :: nat list)"
  using sum_list_append [of "take i xs" "drop i xs"] by simp

lemma sum_list_take_mono: "i \<le> j \<Longrightarrow> sum_list (take i xs) \<le> sum_list (take j (xs :: nat list))"
  using sum_list_take_le [of i "take j xs"] by (simp add: min_def)

lemma sum_list_take_Suc: "i < length xs \<Longrightarrow> sum_list (take (Suc i) xs) = sum_list (take i xs) + (xs ! i :: nat)"
  by (simp add: take_Suc_conv_app_nth)

lemma half_power: "i < b \<Longrightarrow> (2::nat) ^ i \<le> 2 ^ b div 2"
  by (cases b) (simp_all add: power_increasing)

text \<open>Of which powers of two more than half is used.\<close>

definition candidate :: "nat list \<Rightarrow> nat \<Rightarrow> bool" where
  "candidate nums b \<longleftrightarrow> b < length nums \<and> 2 ^ b div 2 < sum_list (take (Suc b) nums)"

lemma computesizes_loop_spec:
  assumes "cs = drop i nums" "i \<le> length nums" "sum_list nums = narray" "a = sum_list (take i nums)"
    "cs \<noteq> [] \<or> narray = 0" "\<And>b. b < i \<Longrightarrow> candidate nums b \<Longrightarrow> 2 ^ b \<le> n" "n < 2 ^ i"
    and cap: "\<And>b. b < length nums \<Longrightarrow> sum_list (take (Suc b) nums) \<le> 2 ^ b"
  shows "\<exists>na' n'. computesizes_loop cs narray (2 ^ i) a na n = Inr (na', n') \<and>
    ((na', n') = (na, n) \<or> (\<exists>b. candidate nums b \<and> n' = 2 ^ b \<and> na' = sum_list (take (Suc b) nums))) \<and>
    (\<forall>b. candidate nums b \<longrightarrow> 2 ^ b \<le> n')"
  using assms(1-7)
proof (induction cs arbitrary: i a na n)
  case Nil
  have "sum_list nums = 0" using Nil by simp
  then have "sum_list (take (Suc b) nums) = 0" for b using sum_list_take_le [of "Suc b" nums] by linarith
  then have "\<not> candidate nums b" for b by (simp only: candidate_def not_less_zero simp_thms)
  then show ?case using Nil by (simp add: computesizes_loop.simps)
next
  case (Cons c cs)
  have i: "i < length nums" using Cons.prems(1) by (cases "i < length nums") auto
  have "c # cs = nums ! i # drop (Suc i) nums" using Cons.prems(1) Cons_nth_drop_Suc [OF i] by (rule trans [OF _ sym])
  then have c: "c = nums ! i" "cs = drop (Suc i) nums" by blast+
  have Si: "sum_list (take (Suc i) nums) = a + c" using sum_list_take_Suc [OF i] Cons.prems(4) c by simp
  have none: "\<not> candidate nums b" if "sum_list nums \<le> 2 ^ b div 2" for b
    using that sum_list_take_le [of "Suc b" nums] by (auto simp: candidate_def)
  show ?case
  proof (cases "2 ^ i div 2 < narray")
    case False
    have "2 ^ b \<le> n" if "candidate nums b" for b
    proof (cases "b < i")
      case False
      then have "(2::nat) ^ i div 2 \<le> 2 ^ b div 2" by (simp add: div_le_mono power_increasing)
      then show ?thesis using none [of b] that \<open>\<not> 2 ^ i div 2 < narray\<close> Cons.prems(3) by linarith
    qed (use Cons.prems(6) that in blast)
    then show ?thesis using False by (simp add: computesizes_loop.simps)
  next
    case True
    define big where "big = (0 < c \<and> 2 ^ i div 2 < a + c)"
    define n1 na1 where "n1 = (if big then 2 ^ i else n)" and "na1 = (if big then a + c else na)"
    have loop: "computesizes_loop (c # cs) narray (2 ^ i) a na n =
        (if a + c = narray then Inr (na1, n1) else computesizes_loop cs narray (2 ^ Suc i) (a + c) na1 n1)"
      using True by (subst computesizes_loop.simps) (simp add: Let_def big_def n1_def na1_def mult.commute)
    have cand_i: "candidate nums i \<longleftrightarrow> big"
    proof
      assume ci: "candidate nums i"
      have "c \<noteq> 0"
      proof
        assume "c = 0"
        moreover have "a \<le> 2 ^ i div 2"
          using Cons.prems(4) cap [of "i - 1"] i by (cases i) auto
        ultimately show False using ci Si by (simp add: candidate_def)
      qed
      then show big using ci Si by (simp add: candidate_def big_def)
    qed (use i Si in \<open>simp add: candidate_def big_def\<close>)
    have n1: "2 ^ b \<le> n1" if "b < Suc i" "candidate nums b" for b
      using that Cons.prems(6) [of b] Cons.prems(7) cand_i by (cases "b = i") (auto simp: n1_def power_increasing)
    have n1': "n1 < 2 ^ Suc i" using Cons.prems(7) by (simp add: n1_def)
    have res: "(na1, n1) = (na, n) \<or> (\<exists>b. candidate nums b \<and> n1 = 2 ^ b \<and> na1 = sum_list (take (Suc b) nums))"
      using cand_i Si by (auto simp: n1_def na1_def)
    show ?thesis
    proof (cases "a + c = narray")
      case True
      have "2 ^ b \<le> n1" if "candidate nums b" for b
      proof (cases "b < Suc i")
        case False
        then have "(2::nat) ^ i \<le> 2 ^ b div 2" by (intro half_power) simp
        then show ?thesis using none [of b] that True cap [OF i] Si Cons.prems(3) by linarith
      qed (use n1 that in blast)
      then show ?thesis using True loop res by simp
    next
      case False
      have "cs \<noteq> []"
      proof
        assume "cs = []"
        then have "length nums \<le> Suc i" using c(2) by simp
        then show False using False Si Cons.prems(3) by simp
      qed
      then have IH: "\<exists>na' n'. computesizes_loop cs narray (2 ^ Suc i) (a + c) na1 n1 = Inr (na', n') \<and>
          ((na', n') = (na1, n1) \<or> (\<exists>b. candidate nums b \<and> n' = 2 ^ b \<and> na' = sum_list (take (Suc b) nums))) \<and>
          (\<forall>b. candidate nums b \<longrightarrow> 2 ^ b \<le> n')"
        using i c(2) Cons.prems(3) Si n1 n1' by (intro Cons.IH) auto
      then show ?thesis using loop False res by auto
    qed
  qed
qed

lemma computesizes_spec:
  assumes "sum_list nums = narray" "length nums = MAXBITS + 1"
    and cap: "\<And>b. b < length nums \<Longrightarrow> sum_list (take (Suc b) nums) \<le> 2 ^ b"
  shows "\<exists>na n. computesizes nums narray = Inr (na, n) \<and>
    ((na, n) = (0, 0) \<or> (\<exists>b \<le> MAXBITS. n = 2 ^ b \<and> na = sum_list (take (Suc b) nums) \<and> n div 2 < na)) \<and>
    (\<forall>b \<le> MAXBITS. 2 ^ b div 2 < sum_list (take (Suc b) nums) \<longrightarrow> 2 ^ b \<le> n)"
proof -
  have "\<exists>na' n'. computesizes_loop nums narray (2 ^ 0) 0 0 0 = Inr (na', n') \<and>
      ((na', n') = (0, 0) \<or> (\<exists>b. candidate nums b \<and> n' = 2 ^ b \<and> na' = sum_list (take (Suc b) nums))) \<and>
      (\<forall>b. candidate nums b \<longrightarrow> 2 ^ b \<le> n')"
    using assms by (intro computesizes_loop_spec) auto
  then show ?thesis unfolding computesizes_def candidate_def using assms(2) by (auto simp: less_Suc_eq_le)
qed



section \<open>Counting\<close>

lemma upto_count_append [simp]: "upto_count n (L @ M) = upto_count n L + upto_count n M"
  by (simp add: upto_count_def)

lemma countint_spec:
  assumes "length nums = MAXBITS + 1" "countint k nums = (nums', c)"
  shows "length nums' = MAXBITS + 1" "\<And>b. b \<le> MAXBITS \<Longrightarrow> nums' ! b = nums ! b + counts [arrayindex k] b"
    "c = upto_count MAXASIZE [arrayindex k]"
proof -
  define x where "x = arrayindex k"
  have x: "x < 2 ^ 31" by (simp add: x_def arrayindex_less [simplified])
  show "length nums' = MAXBITS + 1" "c = upto_count MAXASIZE [arrayindex k]"
    using assms by (auto simp: countint_def Let_def upto_count_def outside_def split: if_splits)
  show "nums' ! b = nums ! b + counts [arrayindex k] b" if b: "b \<le> MAXBITS" for b
  proof (cases "0 < x \<and> x \<le> int MAXASIZE")
    case True
    have "nat (ceillog2 x) = b \<longleftrightarrow> in_slice b x" using ceillog2_slice [of x b] x True by simp
    then show ?thesis using assms True b by (auto simp: countint_def Let_def x_def nth_list_update)
  next
    case False
    have "(2::int) ^ b \<le> 2 ^ MAXBITS" using b by (intro power_increasing) auto
    moreover have "int MAXASIZE = 2 ^ MAXBITS" by (simp add: MAXASIZE_def)
    ultimately have "\<not> in_slice b x" using False unfolding in_slice_def by linarith
    then show ?thesis using assms False by (auto simp: countint_def Let_def x_def)
  qed
qed

definition hash_indices :: "Node list \<Rightarrow> nat \<Rightarrow> int list" where
  "hash_indices ns i = map (\<lambda>j. arrayindex (i_key (ns ! j))) (filter (\<lambda>j. i_val (ns ! j) \<noteq> Vnil) [0..<i])"

lemma hash_indices_Suc:
  "hash_indices ns (Suc i) = hash_indices ns i @ (if i_val (ns ! i) = Vnil then [] else [arrayindex (i_key (ns ! i))])"
  by (simp add: hash_indices_def)

lemma numusehash_loop_spec:
  assumes "numusehash_loop ns i nums tot au = (nums', tot', au')" "length nums = MAXBITS + 1"
  shows "length nums' = MAXBITS + 1 \<and> (\<forall>b \<le> MAXBITS. nums' ! b = nums ! b + counts (hash_indices ns i) b) \<and>
    tot' = tot + length (hash_indices ns i) \<and> au' = au + upto_count MAXASIZE (hash_indices ns i)"
  using assms
proof (induction i arbitrary: nums tot au)
  case 0
  then show ?case by (simp add: hash_indices_def upto_count_def)
next
  case (Suc i)
  show ?case
  proof (cases "i_val (ns ! i) = Vnil")
    case True
    then show ?thesis using Suc by (simp add: ttisnil_def hash_indices_Suc)
  next
    case False
    obtain n1 c where n1: "countint (i_key (ns ! i)) nums = (n1, c)" by (rule prod.exhaust)
    note cs = countint_spec [OF Suc.prems(2) n1]
    have "numusehash_loop ns i n1 (tot + 1) (au + c) = (nums', tot', au')"
      using Suc.prems(1) False n1 by (simp add: ttisnil_def)
    from Suc.IH [OF this cs(1)] show ?thesis using cs False by (auto simp: hash_indices_Suc)
  qed
qed

definition array_indices :: "tval list \<Rightarrow> nat \<Rightarrow> int list" where
  "array_indices arr sz = map (\<lambda>j. int j + 1) (filter (\<lambda>j. arr ! j \<noteq> Vnil) [0..<sz])"

lemma filter_upt_card: "length (filter P [i..<j]) = card {x. i \<le> x \<and> x < j \<and> P x}"
proof -
  have "length (filter P [i..<j]) = card (set (filter P [i..<j]))" by (intro distinct_card [symmetric]) simp
  also have "set (filter P [i..<j]) = {x. i \<le> x \<and> x < j \<and> P x}" by auto
  finally show ?thesis .
qed

lemma array_indices_filter:
  "length (filter Q (array_indices arr sz)) = card {j. j < sz \<and> arr ! j \<noteq> Vnil \<and> Q (int j + 1)}"
  using filter_upt_card [of "\<lambda>j. arr ! j \<noteq> Vnil \<and> Q (int j + 1)" 0 sz]
  by (simp add: array_indices_def filter_map comp_def conj_commute)

definition slice_start :: "nat \<Rightarrow> nat" where
  "slice_start b = (if b = 0 then 0 else 2 ^ (b - 1))"

lemma slice_start_Suc [simp]: "slice_start (Suc b) = 2 ^ b"
  by (simp add: slice_start_def)

lemma slice_length:
  "length (filter (\<lambda>j. \<not> ttisnil (arr ! (j - 1))) [min (slice_start b) sz + 1..<min (2 ^ b) sz + 1]) =
    counts (array_indices arr sz) b"
proof -
  have "{x. min (slice_start b) sz + 1 \<le> x \<and> x < min (2 ^ b) sz + 1 \<and> \<not> ttisnil (arr ! (x - 1))} =
      Suc ` {j. j < sz \<and> arr ! j \<noteq> Vnil \<and> in_slice b (int j + 1)}" (is "?A = Suc ` ?B")
  proof (intro set_eqI iffI)
    define c d where "c = (2::nat) ^ b" and "d = (2::nat) ^ (b - 1)"
    have e: "(2::int) ^ b = int c" "(2::int) ^ (b - 1) = int d" "2 ^ b = c" "2 ^ (b - 1) = d" by (simp_all add: c_def d_def)
    fix x
    show "x \<in> Suc ` ?B" if "x \<in> ?A"
    proof
      show "x = Suc (x - 1)" using that by simp
      show "x - 1 \<in> ?B" using that unfolding in_slice_def slice_start_def e
        by (auto simp: ttisnil_def min_def split: if_splits)
    qed
    show "x \<in> ?A" if "x \<in> Suc ` ?B"
      using that unfolding in_slice_def slice_start_def e by (auto simp: ttisnil_def min_def)
  qed
  then show ?thesis unfolding filter_upt_card counts_def array_indices_filter by (simp add: card_image)
qed

lemma numusearray_loop_spec:
  assumes "numusearray_loop arr sz r b (2 ^ b) (min (slice_start b) sz + 1) nums au = (nums', au')"
    "b + r = MAXBITS + 1" "length nums = MAXBITS + 1"
  shows "length nums' = MAXBITS + 1 \<and>
    (\<forall>b' \<le> MAXBITS. nums' ! b' = nums ! b' + (if b \<le> b' then counts (array_indices arr sz) b' else 0)) \<and>
    au' = au + (\<Sum>b' \<in> {b..MAXBITS}. counts (array_indices arr sz) b')"
  using assms
proof (induction r arbitrary: b nums au)
  case 0
  then show ?case by simp
next
  case (Suc r)
  let ?A = "array_indices arr sz"
  have b: "b \<le> MAXBITS" using Suc.prems(2) by simp
  show ?case
  proof (cases "sz < 2 ^ b \<and> sz < min (slice_start b) sz + 1")
    case True
    have "counts ?A b' = 0" if "b \<le> b'" for b'
    proof -
      have "slice_start b \<le> slice_start b'" using that by (auto simp: slice_start_def intro: power_increasing)
      then have "sz \<le> slice_start b'" using True by (simp add: min_def split: if_splits)
      then show ?thesis using slice_length [of arr b' sz] by (simp add: min_def split: if_splits)
    qed
    then show ?thesis using Suc.prems True by auto
  next
    case False
    have "slice_start b \<le> 2 ^ b" by (simp add: slice_start_def power_increasing)
    then have mx: "max (min (slice_start b) sz + 1) (min (2 ^ b) sz + 1) = min (slice_start (Suc b)) sz + 1"
      by (auto simp: min_def max_def)
    define n1 where "n1 = nums[b := nums ! b + counts ?A b]"
    have "numusearray_loop arr sz r (Suc b) (2 ^ Suc b) (min (slice_start (Suc b)) sz + 1) n1 (au + counts ?A b) = (nums', au')"
      using Suc.prems(1) False mx slice_length [of arr b sz]
      by (simp add: Let_def n1_def min.commute mult.commute split: if_splits)
    from Suc.IH [OF this] have IH: "length nums' = MAXBITS + 1"
      "\<And>b'. b' \<le> MAXBITS \<Longrightarrow> nums' ! b' = n1 ! b' + (if Suc b \<le> b' then counts ?A b' else 0)"
      "au' = au + counts ?A b + (\<Sum>b' \<in> {Suc b..MAXBITS}. counts ?A b')"
      using Suc.prems(2,3) by (auto simp: n1_def)
    have "(\<Sum>b' \<in> {b..MAXBITS}. counts ?A b') = counts ?A b + (\<Sum>b' \<in> {Suc b..MAXBITS}. counts ?A b')"
      using b by (rule sum.atLeast_Suc_atMost)
    moreover have "nums' ! b' = nums ! b' + (if b \<le> b' then counts ?A b' else 0)" if "b' \<le> MAXBITS" for b'
      using IH(2) [OF that] Suc.prems(3) b by (cases "b' = b") (auto simp: n1_def nth_list_update)
    ultimately show ?thesis using IH by simp
  qed
qed

section \<open>Rehash\<close>

definition indices :: "Table \<Rightarrow> tval \<Rightarrow> int list" where
  "indices t ek = array_indices (tarray t) (sizearray t) @ hash_indices (node t) (length (node t)) @ [arrayindex ek]"

lemma distinct_indices:
  assumes "tab_ok sh t" "good_key (node t) ek" "\<not> arr_key t ek"
  shows "distinct (filter (\<lambda>x. 0 < x) (indices t ek))"
proof -
  let ?ns = "node t"
  have hash: "\<not> arr_key t (i_key (?ns ! j))" if "j < length ?ns" for j using assms(1) that by (simp add: tab_ok_def)
  have inj: "i = j" if "i < length ?ns" "j < length ?ns" "0 < arrayindex (i_key (?ns ! i))"
      "arrayindex (i_key (?ns ! i)) = arrayindex (i_key (?ns ! j))" for i j
  proof -
    have "proper (i_key (?ns ! i))" using that(3) by (auto simp: proper_def arrayindex_def)
    then show ?thesis using keys_okD(5) [of "mainposition sh t" ?ns i j] assms(1) that arrayindex_unique
      by (simp add: tab_ok_def)
  qed
  have dh: "distinct (filter (\<lambda>x. 0 < x) (hash_indices ?ns i))" if "i \<le> length ?ns" for i
    using that
  proof (induction i)
    case (Suc i)
    have "arrayindex (i_key (?ns ! i)) \<notin> set (hash_indices ?ns i)" if "0 < arrayindex (i_key (?ns ! i))"
    proof
      assume "arrayindex (i_key (?ns ! i)) \<in> set (hash_indices ?ns i)"
      then obtain j where "j < i" "arrayindex (i_key (?ns ! i)) = arrayindex (i_key (?ns ! j))" by (auto simp: hash_indices_def)
      then show False using inj [of i j] that Suc.prems by simp
    qed
    then show ?case using Suc by (auto simp: hash_indices_Suc)
  qed (simp add: hash_indices_def)
  have da: "distinct (array_indices (tarray t) (sizearray t))"
    by (simp add: array_indices_def distinct_map inj_on_def)
  have "x \<noteq> y" if "x \<in> set (array_indices (tarray t) (sizearray t))" "0 < y"
      "y \<in> set (hash_indices ?ns (length ?ns)) \<or> y = arrayindex ek" for x y
  proof
    assume xy: "x = y"
    then have r: "0 < y" "y \<le> int (sizearray t)" using that(1) by (auto simp: array_indices_def)
    then have "y \<noteq> arrayindex ek" using assms(3) by (auto simp: arr_key_def)
    then have "y \<in> set (hash_indices ?ns (length ?ns))" using that(3) by simp
    then obtain j where "j < length ?ns" "y = arrayindex (i_key (?ns ! j))" by (auto simp: hash_indices_def)
    then show False using r hash [of j] by (simp add: arr_key_def)
  qed
  moreover have "arrayindex ek \<notin> set (hash_indices ?ns (length ?ns))" if "0 < arrayindex ek"
  proof
    assume "arrayindex ek \<in> set (hash_indices ?ns (length ?ns))"
    then obtain j where "j < length ?ns" "arrayindex ek = arrayindex (i_key (?ns ! j))" by (auto simp: hash_indices_def)
    then show False using good_key_sym [OF assms(2)] arrayindex_unique [OF that] by blast
  qed
  ultimately show ?thesis using da dh [of "length ?ns"] by (auto simp: indices_def)
qed

lemma indices_outside:
  "length (filter (outside n) (indices t ek)) =
    array_count (tarray t) n (sizearray t - n) + hash_count n (node t) (length (node t)) +
    (if outside n (arrayindex ek) then 1 else 0)"
proof -
  have "{j. j < sizearray t \<and> tarray t ! j \<noteq> Vnil \<and> outside n (int j + 1)} =
      {x. n \<le> x \<and> x < n + (sizearray t - n) \<and> tarray t ! x \<noteq> Vnil}"
    by (auto simp: outside_def)
  then have "length (filter (outside n) (array_indices (tarray t) (sizearray t))) = array_count (tarray t) n (sizearray t - n)"
    unfolding array_indices_filter array_count_def filter_upt_card by simp
  moreover have "length (filter (outside n) (hash_indices (node t) (length (node t)))) = hash_count n (node t) (length (node t))"
    by (simp add: hash_indices_def hash_count_def filter_map comp_def)
  ultimately show ?thesis by (simp add: indices_def)
qed

lemma rehash_sizes:
  assumes "tab_ok sh t" "good_key (node t) ek" "\<not> arr_key t ek"
  obtains n nh where "rehash_with sh nk t ek = resize_with sh nk t n nh" "n \<le> MAXASIZE"
    "nh = length (filter (outside n) (indices t ek))" "nh < 2 ^ 32"
proof -
  let ?A = "array_indices (tarray t) (sizearray t)" and ?H = "hash_indices (node t) (length (node t))" and ?L = "indices t ek"
  obtain n1 a1 where n1: "numusearray t (replicate (MAXBITS + 1) 0) = (n1, a1)" by (rule prod.exhaust)
  have "numusearray_loop (tarray t) (sizearray t) (MAXBITS + 1) 0 (2 ^ 0) (min (slice_start 0) (sizearray t) + 1)
      (replicate (MAXBITS + 1) 0) 0 = (n1, a1)" using n1 by (simp add: numusearray_def slice_start_def)
  note s1 = numusearray_loop_spec [OF this, simplified]
  have up: "upto_count MAXASIZE ?A = length ?A"
    using assms(1) by (auto simp: upto_count_def array_indices_def outside_def filter_map comp_def tab_ok_def
        intro!: arg_cong [where f = length] filter_cong)
  have a1: "a1 = length ?A"
    using s1 sum_counts [of ?A MAXBITS] up by (simp add: atMost_atLeast0 MAXASIZE_def)
  obtain n2 u2 a2 where n2: "numusehash_loop (node t) (sizenode t) n1 0 0 = (n2, u2, a2)" by (rule prod_cases3)
  have sz: "sizenode t = length (node t)" using assms(1) by (simp add: tab_ok_def)
  note s2 = numusehash_loop_spec [OF n2 [unfolded sz]]
  obtain n3 c where n3: "countint ek n2 = (n3, c)" by (rule prod.exhaust)
  note s3 = countint_spec [OF _ n3]
  have len: "length n3 = MAXBITS + 1" using s1 s2 s3 by auto
  have nth: "n3 ! b = counts ?L b" if "b \<le> MAXBITS" for b
    using that s1 s2 s3 by (simp add: indices_def nth_Cons')
  have sums: "sum_list (take (Suc b) n3) = upto_count (2 ^ b) ?L" if "b \<le> MAXBITS" for b
  proof -
    have "sum_list (take (Suc b) n3) = (\<Sum>b'<Suc b. n3 ! b')"
      using that len by (simp add: sum_list_sum_nth min_def atLeast0LessThan)
    also have "\<dots> = (\<Sum>b'\<le>b. counts ?L b')" using that nth by (intro sum.cong) auto
    finally show ?thesis by (simp add: sum_counts)
  qed
  have tot: "sum_list n3 = a1 + a2 + c"
    using sums [of MAXBITS] len a1 up s1 s2 s3 by (simp add: indices_def MAXASIZE_def)
  note d = distinct_indices [OF assms]
  obtain na n where cs: "computesizes n3 (a1 + a2 + c) = Inr (na, n)"
    "(na, n) = (0, 0) \<or> (\<exists>b \<le> MAXBITS. n = 2 ^ b \<and> na = sum_list (take (Suc b) n3))"
    using computesizes_spec [OF tot len] sums upto_count_le [OF d] len by (force simp: less_Suc_eq_le)
  have na: "na = upto_count n ?L" "n \<le> MAXASIZE"
    using cs(2) sums by (auto simp: MAXASIZE_def intro: power_increasing)
  have tl: "a1 + u2 + 1 = length ?L" using a1 s1 s2 by (simp add: indices_def)
  have split: "length ?L - upto_count n ?L = length (filter (outside n) ?L)"
    using sum_length_filter_compl [of "outside n" ?L] by (simp add: upto_count_def)
  have "length ?A \<le> sizearray t" "length ?H \<le> length (node t)"
    using length_filter_le [of _ "[0..<_]"] by (simp_all add: array_indices_def hash_indices_def)
  moreover have "length (node t) \<le> 2 ^ MAXBITS"
    using assms(1) by (simp add: tab_ok_def sizenode_def twoto_def power_increasing)
  ultimately have "length ?L < 2 ^ 32" using assms(1) by (simp add: indices_def tab_ok_def MAXASIZE_def MAXBITS_def)
  then have lt: "length (filter (outside n) ?L) < 2 ^ 32" using length_filter_le [of "outside n" ?L] by linarith
  have "rehash_with sh nk t ek = resize_with sh nk t n (length (filter (outside n) ?L))"
    using n1 n2 n3 cs(1) na tl split by (simp add: rehash_with_def numusehash_def Let_def)
  then show ?thesis using that na(2) lt by blast
qed

lemma rehash_spec:
  assumes "tab_ok sh t" "good_key (node t) ek" "\<not> arr_key t ek"
  shows "rehash_with sh (newkey_with sh nk) t ek = Inl (RunError ''table overflow'') \<or>
    (\<exists>t'. rehash_with sh (newkey_with sh nk) t ek = Inr t' \<and> tab_ok sh t' \<and>
      (\<forall>k. proper k \<longrightarrow> tget sh t' k = tget sh t k) \<and> (\<not> arr_key t' ek \<longrightarrow> 0 < nfree t'))"
proof -
  obtain n nh where r: "rehash_with sh (newkey_with sh nk) t ek = resize_with sh (newkey_with sh nk) t n nh"
    "n \<le> MAXASIZE" "nh = length (filter (outside n) (indices t ek))" "nh < 2 ^ 32"
    using rehash_sizes [OF assms] by blast
  note o = indices_outside [of n t ek]
  show ?thesis
  proof (cases "nh \<le> 2 ^ MAXBITS")
    case False
    then show ?thesis using r(1,4) setnodevector_overflow by (simp add: resize_with_def Let_def)
  next
    case True
    obtain t' where "resize_with sh (newkey_with sh nk) t n nh = Inr t'" "tab_ok sh t'" "sizearray t' = n"
      "\<forall>k. proper k \<longrightarrow> tget sh t' k = tget sh t k"
      "nh \<le> nfree t' + array_count (tarray t) n (sizearray t - n) + hash_count n (node t) (length (node t))"
      using resize_spec [OF assms(1) r(2) True, of nk] r(3) o by auto
    then show ?thesis using r(1,3) o by (auto simp: arr_key_outside)
  qed
qed

end
