(* ===== verification/Ltable_ops.thy ===== *)
theory Ltable_ops
  imports Ltable_rehash
begin

text \<open>
  The contract of tables. \<open>luaH_set\<close> and its variants return (after at most one rehash) unless the
  node vector would exceed its maximal size, and together with the write through the slot they
  return they are the update of a map whose keys are compared by \<open>luaO_rawequalObj\<close>. The locale
  \<open>int_array\<close> is what the library functions that work on integer keys rely on.
\<close>

section \<open>Assignment always returns\<close>

abbreviation overflow :: lua_error where
  "overflow \<equiv> RunError ''table overflow''"

lemma newkey_total:
  assumes "tab_ok sh t" "good_key (node t) k" "\<not> arr_key t k"
  shows "newkey_with sh (newkey_with sh nk) t k = Inl overflow \<or>
    (\<exists>t' s. newkey_with sh (newkey_with sh nk) t k = Inr (t', s) \<and> set_post sh t k t' s)"
proof -
  consider (main) "\<not> isdummy t" "i_val (node t ! mainposition sh t k) = Vnil"
    | (room) "0 < nfree t" | (full) "nfree t = 0" "i_val (node t ! mainposition sh t k) \<noteq> Vnil \<or> isdummy t" by auto
  then show ?thesis
  proof cases
    case main
    then show ?thesis using newkey_free_main [OF assms] placed_post [OF assms] by blast
  next
    case room
    then show ?thesis using newkey_room [OF assms] placed_post [OF assms] by blast
  next
    case full
    obtain t1 fr where g: "getfreepos t = (t1, fr)" by (rule prod.exhaust)
    have "fr = None"
    proof (rule ccontr)
      assume "fr \<noteq> None"
      then obtain n where "getfreepos t = (t1, Some n)" using g by blast
      note f = getfreepos_Some [OF assms(1) this]
      have "filter (\<lambda>n. i_key n = Vnil) (node t) \<noteq> []" using f(3,4) by (auto simp: filter_empty_conv)
      then show False using full(1) f(2) by (simp add: nfree_def)
    qed
    with g have g: "getfreepos t = (t1, None)" by simp
    note f = getfreepos_None [OF assms(1) g]
    obtain lf where t1: "t1 = t\<lparr>lastfree := lf\<rparr>" using f(1) by blast
    have gk: "good_key (node t1) k" "\<not> arr_key t1 k" using assms t1 by (simp_all add: arr_key_def)
    have k: "proper k" "no_nan k" using assms(2) by (auto simp: good_key_def no_nan_def split: TValue.split)
    have same: "tget sh t1 k' = tget sh t k'" if "proper k'" for k'
      using that t1 by (intro tget_cong [OF assms(1) f(2)]) simp_all
    have n: "newkey_with sh (newkey_with sh nk) t k =
        rbind (rehash_with sh (newkey_with sh nk) t1 k) (\<lambda>t2. luaH_set_with sh (newkey_with sh nk) t2 k)"
      using full(2) g by (auto simp: newkey_with_def [of sh "newkey_with sh nk"] Let_def ttisnil_def)
    from rehash_spec [OF f(2) gk, of nk] show ?thesis
    proof
      assume "rehash_with sh (newkey_with sh nk) t1 k = Inl overflow"
      then show ?thesis using n by simp
    next
      assume "\<exists>t'. rehash_with sh (newkey_with sh nk) t1 k = Inr t' \<and> tab_ok sh t' \<and>
        (\<forall>k. proper k \<longrightarrow> tget sh t' k = tget sh t1 k) \<and> (\<not> arr_key t' k \<longrightarrow> 0 < nfree t')"
      then obtain t2 where t2: "rehash_with sh (newkey_with sh nk) t1 k = Inr t2" "tab_ok sh t2"
        "\<And>k'. proper k' \<Longrightarrow> tget sh t2 k' = tget sh t1 k'" "\<not> arr_key t2 k \<Longrightarrow> 0 < nfree t2" by blast
      have "0 < nfree t2" if "luaH_get sh t2 k = NilObject"
        using good_key_iff(2) [OF t2(2) k that] t2(4) by blast
      then obtain t' s where "luaH_set_with sh (newkey_with sh nk) t2 k = Inr (t', s)" "set_post sh t2 k t' s"
        using set_room [OF t2(2) k, of nk] by blast
      then show ?thesis using n t2(1,3) same by (auto simp: set_post_def)
    qed
  qed
qed

lemma newkey_2: "newkey sh 2 = newkey_with sh (newkey_with sh (newkey sh 0))"
  by (simp add: numeral_2_eq_2 fun_eq_iff)

lemma set_total:
  assumes "tab_ok sh t" "proper k" "no_nan k"
  shows "luaH_set sh t k = Inl overflow \<or> (\<exists>t' s. luaH_set sh t k = Inr (t', s) \<and> set_post sh t k t' s)"
proof (cases "luaH_get sh t k = NilObject")
  case False
  then show ?thesis using assms(1) by (simp add: luaH_set_def luaH_set_with_def Let_def set_post_def)
next
  case True
  note g = good_key_iff [OF assms True]
  have "luaH_set sh t k = newkey sh 2 (t\<lparr>flags := 0\<rparr>) k"
    using True assms(2,3)
    by (auto simp: luaH_set_def luaH_set_with_def Let_def ttisnil_def proper_def no_nan_def split: TValue.splits)
  then show ?thesis using newkey_total [of sh "t\<lparr>flags := 0\<rparr>" k "newkey sh 0"] assms(1) g
    unfolding newkey_2 by (simp add: set_post_def)
qed

lemma luaH_get_nan:
  assumes "tab_ok sh t" "num_isnan n"
  shows "luaH_get sh t (Vnumber n) = NilObject"
proof -
  have "proper (Vnumber n)" by (simp add: proper_def)
  with assms(1) show ?thesis
  proof (cases rule: luaH_get_cases)
    case (array i)
    then have "0 < arrayindex (Vnumber n)" by (simp add: arr_key_def)
    then show ?thesis using assms(2) by (elim arrayindex_pos) (simp add: luai_numeq_def)
  qed (use assms(2) in \<open>auto simp: rawequalObj_cases luai_numeq_def\<close>)
qed

text \<open>The key of an assignment that returns is neither nil nor NaN.\<close>

lemma luaH_set_key:
  assumes "tab_ok sh t" "luaH_set sh t k = Inr (t', s)"
  shows "k \<noteq> Vnil \<and> no_nan k"
proof (intro conjI notI)
  assume "k = Vnil"
  then show False using assms(2) by (simp add: luaH_set_def luaH_set_with_def luaH_get_def ttisnil_def)
next
  show "no_nan k"
  proof (rule ccontr)
    assume "\<not> no_nan k"
    then obtain n where n: "k = Vnumber n" "num_isnan n" by (cases k) (auto simp: no_nan_def)
    then have "luaH_get sh t k = NilObject" using luaH_get_nan [OF assms(1)] by simp
    then show False using assms(2) n by (simp add: luaH_set_def luaH_set_with_def Let_def ttisnil_def)
  qed
qed

text \<open>
  C6. For every well-formed table and every value that can be a key (not nil, not NaN),
  \<open>luaH_set\<close> returns the slot of that key in a well-formed table in which every lookup is
  unchanged, or it raises "table overflow". It never needs more than two nested insertions and
  never reaches a NULL chain or a reallocated array.
\<close>

theorem luaH_set_total:
  assumes "tab_ok sh t" "k \<noteq> Vnil" "\<And>p. k \<noteq> Vdeadkey p" "\<And>n. k = Vnumber n \<Longrightarrow> \<not> luai_numisnan n"
  shows "luaH_set sh t k = Inl (RunError ''table overflow'') \<or>
    (\<exists>t' s. luaH_set sh t k = Inr (t', s) \<and> tab_ok sh t' \<and> luaH_get sh t' k = s \<and> s \<noteq> NilObject \<and>
      (\<forall>k'. proper k' \<longrightarrow> tget sh t' k' = tget sh t k'))"
proof -
  have "proper k" "no_nan k" using assms(2-4) by (auto simp: proper_def no_nan_def split: TValue.split)
  then show ?thesis using set_total [OF assms(1)] unfolding set_post_def by blast
qed

text \<open>
  C3. Assignment through \<open>luaH_set\<close> is map update: afterwards a lookup of a key raw-equal to the
  assigned one gives the new value and every other lookup gives what it gave before, whether the
  key was in the array part, in the hash part or had to be inserted, with or without rehashing.
\<close>

definition table_put :: "(ptr \<Rightarrow> uint32) \<Rightarrow> Table \<Rightarrow> tval \<Rightarrow> tval \<Rightarrow> Table res" where
  "table_put sh t k v = rbind (luaH_set sh t k) (\<lambda>(t', s). Inr (store t' s v))"

theorem table_put_get:
  assumes "tab_ok sh t" "table_put sh t k v = Inr t'" "proper k"
  shows "tab_ok sh t' \<and> (\<forall>k'. proper k' \<longrightarrow>
    tget sh t' k' = (if luaO_rawequalObj k' k then v else tget sh t k'))"
proof -
  obtain t1 s where s: "luaH_set sh t k = Inr (t1, s)" "t' = store t1 s v"
    using assms(2) by (auto simp: table_put_def)
  have "no_nan k" using luaH_set_key [OF assms(1) s(1)] by simp
  then have p: "tab_ok sh t1" "luaH_get sh t1 k = s" "s \<noteq> NilObject" "\<And>k'. proper k' \<Longrightarrow> tget sh t1 k' = tget sh t k'"
    using set_total [OF assms(1,3)] s(1) by (auto simp: set_post_def)
  then show ?thesis using tab_ok_store(1) [OF p(1) assms(3) p(2,3)] tget_store [OF p(1) assms(3) p(2,3)] s(2) by simp
qed

text \<open>A nil or NaN index is refused, for every table.\<close>

theorem luaH_set_bad_key:
  assumes "tab_ok sh t" "k = Vnil \<or> (\<exists>n. k = Vnumber n \<and> luai_numisnan n)"
  shows "luaH_set sh t k =
    Inl (RunError (if k = Vnil then ''table index is nil'' else ''table index is NaN''))"
  using assms(2)
proof
  assume "k = Vnil"
  then show ?thesis by (simp add: luaH_set_def luaH_set_with_def luaH_get_def ttisnil_def)
next
  assume "\<exists>n. k = Vnumber n \<and> luai_numisnan n"
  then obtain n where n: "k = Vnumber n" "num_isnan n" by auto
  then have "luaH_get sh t k = NilObject" using luaH_get_nan [OF assms(1)] by simp
  then show ?thesis using n by (simp add: luaH_set_def luaH_set_with_def Let_def ttisnil_def)
qed

section \<open>Creation and growth\<close>

lemma new_spec:
  assumes "narray \<le> MAXASIZE" "nhash \<le> 2 ^ MAXBITS"
  shows "\<exists>t. luaH_new narray nhash = Inr t \<and> tab_ok sh t \<and> sizearray t = narray \<and> nhash \<le> nfree t \<and>
    (\<forall>k. proper k \<longrightarrow> tget sh t k = Vnil)"
proof -
  define t0 where "t0 = setarrayvector \<lparr>flags = 255, lsizenode = 0, metatable = None, tarray = [], node = [nilnode],
      isdummy = True, lastfree = 0, sizearray = 0\<rparr> narray"
  have t0: "sizearray t0 = narray" "tarray t0 = replicate narray Vnil" by (simp_all add: t0_def setarrayvector_def)
  obtain t where t: "setnodevector t0 nhash = Inr t" "tab_ok sh t" "live_entries (node t) = {}"
      "tarray t = tarray t0" "sizearray t = sizearray t0" "nhash \<le> nfree t"
    using setnodevector_fresh [of t0 nhash] assms t0 by auto
  have "tget sh t k = Vnil" if "proper k" for k
  proof (cases "arr_key t k")
    case True
    then show ?thesis using tget_array [OF t(2) True] t(4,5) t0 by (auto simp: arr_key_def)
  qed (use tget_empty t that in blast)
  then show ?thesis using t t0(1) by (simp add: luaH_new_def t0_def)
qed

text \<open>
  \<open>luaH_new\<close> makes a well-formed table in which every lookup gives nil, with the requested
  array size and room for the requested number of other keys.
\<close>

theorem luaH_new_empty:
  assumes "narray \<le> MAXASIZE" "nhash \<le> 2 ^ MAXBITS"
  shows "\<exists>t. luaH_new narray nhash = Inr t \<and> tab_ok sh t \<and> sizearray t = narray \<and> nhash \<le> nfree t \<and>
    (\<forall>k. proper k \<longrightarrow> tget sh t k = Vnil)"
  using assms by (rule new_spec)

lemma resizearray_spec:
  assumes "tab_ok sh t" "sizearray t \<le> n" "n \<le> MAXASIZE"
  shows "\<exists>t'. luaH_resizearray sh t n = Inr t' \<and> tab_ok sh t' \<and> sizearray t' = n \<and>
    (\<forall>k. proper k \<longrightarrow> tget sh t' k = tget sh t k)"
proof -
  let ?nh = "if isdummy t then 0 else sizenode t"
  have nd: "node t = [nilnode]" if "isdummy t" using assms(1) that by (simp add: tab_ok_def)
  have "array_count (tarray t) n (sizearray t - n) = 0" using assms(2) by (simp add: array_count_def)
  moreover have "hash_count n (node t) (length (node t)) \<le> length (node t)"
    unfolding hash_count_def by (rule order_trans [OF length_filter_le]) simp
  moreover have "hash_count n (node t) (length (node t)) = 0" if "isdummy t"
    using nd [OF that] by (simp add: hash_count_def nilnode_def)
  ultimately have "array_count (tarray t) n (sizearray t - n) + hash_count n (node t) (length (node t)) \<le> ?nh"
    using assms(1) by (cases "isdummy t") (simp_all add: tab_ok_def)
  moreover have "?nh \<le> 2 ^ MAXBITS" using assms(1) by (auto simp: tab_ok_def sizenode_def twoto_def intro: power_increasing)
  ultimately show ?thesis
    using resize_spec [OF assms(1,3), of ?nh "newkey sh 1"] unfolding luaH_resizearray_def newkey_2 by auto
qed

text \<open>
  C19. \<open>luaH_resizearray\<close>, which the interpreter calls only to grow the array part, keeps every
  lookup and the invariant.
\<close>

theorem luaH_resizearray_keeps:
  assumes "tab_ok sh t" "sizearray t \<le> n" "n \<le> MAXASIZE"
  shows "\<exists>t'. luaH_resizearray sh t n = Inr t' \<and> tab_ok sh t' \<and> sizearray t' = n \<and>
    (\<forall>k. proper k \<longrightarrow> tget sh t' k = tget sh t k)"
  using assms by (rule resizearray_spec)

section \<open>Examples\<close>

definition empty_table :: Table where
  "empty_table = \<lparr>flags = 255, lsizenode = 0, metatable = None, tarray = [], node = [nilnode],
     isdummy = True, lastfree = 0, sizearray = 0\<rparr>"

lemma empty_table_ok: "tab_ok sh empty_table"
proof -
  have "setnodevector empty_table 0 = Inr empty_table" by (simp add: setnodevector_def empty_table_def)
  then show ?thesis using setnodevector_fresh [of empty_table 0 sh] by (auto simp: empty_table_def MAXASIZE_def)
qed

theorem luaH_set_total_witness:
  "\<exists>t' s. luaH_set (\<lambda>_. 0) empty_table (Vboolean True) = Inr (t', s) \<and> luaH_get (\<lambda>_. 0) t' (Vboolean True) = s"
proof -
  have "\<not> (case luaH_set (\<lambda>_. 0) empty_table (Vboolean True) of Inl e \<Rightarrow> True | Inr _ \<Rightarrow> False)" by code_simp
  then show ?thesis using luaH_set_total [OF empty_table_ok, of "Vboolean True" "\<lambda>_. 0"] by auto
qed

theorem table_put_get_witness:
  "\<exists>t'. table_put (\<lambda>_. 0) empty_table (Vstring 3) (Vboolean False) = Inr t' \<and>
    tget (\<lambda>_. 0) t' (Vstring 3) = Vboolean False"
proof -
  have "\<not> (case table_put (\<lambda>_. 0) empty_table (Vstring 3) (Vboolean False) of Inl e \<Rightarrow> True | Inr _ \<Rightarrow> False)" by code_simp
  then obtain t' where "table_put (\<lambda>_. 0) empty_table (Vstring 3) (Vboolean False) = Inr t'" by (auto split: sum.splits)
  from table_put_get [OF empty_table_ok this] this show ?thesis by (auto simp: proper_def rawequalObj_cases)
qed

theorem luaH_set_bad_key_witness:
  "luaH_set (\<lambda>_. 0) empty_table Vnil = Inl (RunError ''table index is nil'')"
  using luaH_set_bad_key [OF empty_table_ok, of Vnil] by simp

theorem luaH_new_empty_witness: "\<exists>t. luaH_new 3 5 = Inr t \<and> sizearray t = 3 \<and> 5 \<le> nfree t"
  using luaH_new_empty [of 3 5] by (auto simp: MAXASIZE_def MAXBITS_def)

theorem luaH_resizearray_keeps_witness:
  "\<exists>t'. luaH_resizearray (\<lambda>_. 0) empty_table 7 = Inr t' \<and> sizearray t' = 7"
  using luaH_resizearray_keeps [OF empty_table_ok, of 7] by (auto simp: empty_table_def MAXASIZE_def MAXBITS_def)

end
