(* ===== verification/Ltable_iter.thy ===== *)
theory Ltable_iter
  imports Ltable_ops
begin

text \<open>
  Traversal with \<open>luaH_next\<close> and the boundaries \<open>luaH_getn\<close> finds.
\<close>

section \<open>Traversal\<close>

text \<open>Positions: the array slots first, then the nodes.\<close>

definition pos_live :: "Table \<Rightarrow> nat \<Rightarrow> bool" where
  "pos_live t p = (if p < sizearray t then tarray t ! p \<noteq> Vnil else i_val (node t ! (p - sizearray t)) \<noteq> Vnil)"

definition pos_pair :: "Table \<Rightarrow> nat \<Rightarrow> tval \<times> tval" where
  "pos_pair t p = (if p < sizearray t then (Vnumber (cast_num (int p + 1)), tarray t ! p)
     else (i_key (node t ! (p - sizearray t)), i_val (node t ! (p - sizearray t))))"

definition positions :: "Table \<Rightarrow> nat \<Rightarrow> nat list" where
  "positions t i = filter (pos_live t) [i..<sizearray t + sizenode t]"

lemma filter_upt_Cons:
  assumes "filter P [i..<n] = p # ps"
  shows "i \<le> p" "p < n" "P p" "ps = filter P [Suc p..<n]"
proof -
  have "i \<le> p \<and> p < n \<and> P p \<and> ps = filter P [Suc p..<n]"
    using assms
  proof (induction "n - i" arbitrary: i)
    case (Suc m)
    have "[i..<n] = i # [Suc i..<n]" using Suc.hyps(2) by (simp add: upt_conv_Cons)
    then show ?case using Suc.prems Suc.hyps(1) [of "Suc i"] Suc.hyps(2) by (force split: if_splits)
  qed simp
  then show "i \<le> p" "p < n" "P p" "ps = filter P [Suc p..<n]" by auto
qed

lemma map_shift_upt: "map (\<lambda>j. j + n) [a..<b] = [a + n..<b + n]"
  by (rule nth_equalityI) simp_all

lemma next_array_spec:
  "next_array arr i r = (case filter (\<lambda>j. arr ! j \<noteq> Vnil) [i..<i + r] of [] \<Rightarrow> None
     | j # _ \<Rightarrow> Some (Vnumber (cast_num (int j + 1)), arr ! j))"
proof (induction r arbitrary: i)
  case (Suc r)
  have "[i..<i + Suc r] = i # [Suc i..<Suc i + r]" by (simp add: upt_conv_Cons)
  then show ?case using Suc by (simp add: ttisnil_def)
qed simp

lemma next_hash_spec:
  "next_hash ns i r = (case filter (\<lambda>j. i_val (ns ! j) \<noteq> Vnil) [i..<i + r] of [] \<Rightarrow> None
     | j # _ \<Rightarrow> Some (i_key (ns ! j), i_val (ns ! j)))"
proof (induction r arbitrary: i)
  case (Suc r)
  have "[i..<i + Suc r] = i # [Suc i..<Suc i + r]" by (simp add: upt_conv_Cons)
  then show ?case using Suc by (simp add: ttisnil_def)
qed simp

lemma luaH_next_spec:
  assumes "findindex sh t key = Inr i" "i \<le> sizearray t + sizenode t"
  shows "luaH_next sh t key = Inr (case positions t i of [] \<Rightarrow> None | p # _ \<Rightarrow> Some (pos_pair t p))"
proof -
  define m where "m = max i (sizearray t)"
  have sp: "[i..<sizearray t + sizenode t] = [i..<sizearray t] @ [m..<sizearray t + sizenode t]"
    using assms(2) upt_add_eq_append [of i "sizearray t" "sizenode t"] by (cases "i \<le> sizearray t") (auto simp: m_def max_def)
  have "[i..<i + (sizearray t - i)] = [i..<sizearray t]" by (cases "i \<le> sizearray t") auto
  then have fa: "filter (\<lambda>j. tarray t ! j \<noteq> Vnil) [i..<i + (sizearray t - i)] = filter (pos_live t) [i..<sizearray t]"
    by (auto simp: pos_live_def intro!: filter_cong)
  have a: "next_array (tarray t) i (sizearray t - i) =
      (case filter (pos_live t) [i..<sizearray t] of [] \<Rightarrow> None | p # _ \<Rightarrow> Some (pos_pair t p))"
    unfolding next_array_spec fa using filter_upt_Cons(2) [of "pos_live t" i "sizearray t"]
    by (cases "filter (pos_live t) [i..<sizearray t]") (simp_all add: pos_pair_def)
  have "[m..<sizearray t + sizenode t] = map (\<lambda>j. j + sizearray t) [m - sizearray t..<sizenode t]"
    unfolding map_shift_upt by (simp add: m_def add.commute)
  then have fh: "filter (pos_live t) [m..<sizearray t + sizenode t] =
      map (\<lambda>j. j + sizearray t) (filter (\<lambda>j. i_val (node t ! j) \<noteq> Vnil) [m - sizearray t..<sizenode t])"
    by (simp add: filter_map comp_def pos_live_def)
  have le: "m - sizearray t \<le> sizenode t" using assms(2) by (simp add: m_def)
  have h: "next_hash (node t) (m - sizearray t) (sizenode t - (m - sizearray t)) =
      (case filter (pos_live t) [m..<sizearray t + sizenode t] of [] \<Rightarrow> None | p # _ \<Rightarrow> Some (pos_pair t p))"
    unfolding fh next_hash_spec using le by (simp add: pos_pair_def split: list.split)
  show ?thesis
    unfolding luaH_next_def positions_def sp assms(1) rbind.simps a m_def [symmetric] Let_def h
    by (cases "filter (pos_live t) [i..<sizearray t]") (simp_all split: list.split)
qed

text \<open>No dead key has the address of a live one.\<close>

definition dead_distinct :: "Table \<Rightarrow> bool" where
  "dead_distinct t \<longleftrightarrow> (\<forall>m \<in> set (node t). \<forall>n \<in> set (node t). \<forall>p.
     i_key m = Vdeadkey p \<and> i_val n \<noteq> Vnil \<longrightarrow> gcvalue (i_key n) \<noteq> Some p)"

lemma findindex_pos:
  assumes "tab_ok sh t" "dead_distinct t" "p < sizearray t + sizenode t" "pos_live t p"
  shows "findindex sh t (fst (pos_pair t p)) = Inr (Suc p)"
proof (cases "p < sizearray t")
  case True
  then have "int p + 1 < 2 ^ 31" using assms(1) by (simp add: tab_ok_def MAXASIZE_def MAXBITS_def)
  then show ?thesis using True arrayindex_cast [of "int p + 1"]
    by (simp add: findindex_def pos_pair_def ttisnil_def nat_add_distrib)
next
  case False
  define n where "n = p - sizearray t"
  let ?k = "i_key (node t ! n)"
  have n: "n < length (node t)" "i_val (node t ! n) \<noteq> Vnil"
    using False assms by (auto simp: n_def tab_ok_def pos_live_def)
  note e = tab_ok_entry [OF assms(1) n]
  have "search (next_matches ?k) (node t) f i = search (\<lambda>x. luaO_rawequalObj (i_key x) ?k) (node t) f i"
    if "i < length (node t)" for f i
    using that
  proof (induction f arbitrary: i)
    case (Suc f)
    have "ttype x = 11 \<Longrightarrow> \<exists>q. x = Vdeadkey q" for x :: tval by (cases x) auto
    moreover have "gcvalue ?k \<noteq> Some q" if "i_key (node t ! i) = Vdeadkey q" for q
      using assms(2) n(2) nth_mem [OF n(1)] nth_mem [OF Suc.prems] that unfolding dead_distinct_def by blast
    ultimately have "next_matches ?k (node t ! i) = luaO_rawequalObj (i_key (node t ! i)) ?k"
      by (fastforce simp: next_matches_def gcvalue_def)
    moreover have "j < length (node t)" if "i_next (node t ! i) = Some j" for j
      using that assms(1) Suc.prems links_okD(2) [of "node t" i j] by (auto simp: tab_ok_def edges_def)
    ultimately show ?case using Suc.IH by (auto split: option.split)
  qed simp
  then have "search (next_matches ?k) (node t) (length (node t)) (mainposition sh t ?k) = Some n"
    using tab_ok_mp [OF assms(1)] get_generic_iff(1) [OF assms(1) e(1), of n] n e(3)
    by (auto simp: get_generic_def node_slot_def rawequalObj_refl split: option.splits)
  then show ?thesis using False e(1,2)
    by (auto simp: findindex_def pos_pair_def ttisnil_def proper_def arr_key_def Let_def n_def)
qed

text \<open>The loop of \<open>pairs\<close>: \<open>next\<close> until there is no further element.\<close>

fun traverse :: "(ptr \<Rightarrow> uint32) \<Rightarrow> Table \<Rightarrow> nat \<Rightarrow> tval \<Rightarrow> (tval \<times> tval) list res" where
  "traverse sh t 0 key = Inl (Undefined ''fuel'')"
| "traverse sh t (Suc fuel) key =
     rbind (luaH_next sh t key) (\<lambda>r. case r of None \<Rightarrow> Inr []
       | Some (k, v) \<Rightarrow> rbind (traverse sh t fuel k) (\<lambda>es. Inr ((k, v) # es)))"

lemma traverse_from:
  assumes "tab_ok sh t" "dead_distinct t" "findindex sh t key = Inr i" "i \<le> sizearray t + sizenode t"
    "length (positions t i) < fuel"
  shows "traverse sh t fuel key = Inr (map (pos_pair t) (positions t i))"
  using assms(3-5)
proof (induction fuel arbitrary: key i)
  case (Suc fuel)
  show ?case
  proof (cases "positions t i")
    case Nil
    then show ?thesis using luaH_next_spec [OF Suc.prems(1,2)] by simp
  next
    case (Cons p ps)
    note c = filter_upt_Cons [OF Cons [unfolded positions_def]]
    have f: "findindex sh t (fst (pos_pair t p)) = Inr (Suc p)" using findindex_pos [OF assms(1,2) c(2,3)] .
    have "traverse sh t fuel (fst (pos_pair t p)) = Inr (map (pos_pair t) (positions t (Suc p)))"
      using Suc.IH [OF f] c(2,4) Suc.prems(3) Cons by (simp add: positions_def)
    then show ?thesis using luaH_next_spec [OF Suc.prems(1,2)] Cons c(4) by (cases "pos_pair t p") (simp add: positions_def)
  qed
qed simp

lemma pos_pair_get:
  assumes "tab_ok sh t" "p < sizearray t + sizenode t" "pos_live t p"
  shows "proper (fst (pos_pair t p))" "tget sh t (fst (pos_pair t p)) = snd (pos_pair t p)" "snd (pos_pair t p) \<noteq> Vnil"
proof -
  have "proper (fst (pos_pair t p)) \<and> tget sh t (fst (pos_pair t p)) = snd (pos_pair t p) \<and> snd (pos_pair t p) \<noteq> Vnil"
  proof (cases "p < sizearray t")
    case True
    have "arrayindex (Vnumber (cast_num (int p + 1)) :: tval) = int p + 1"
      using True assms(1) by (intro arrayindex_cast) (auto simp: tab_ok_def MAXASIZE_def MAXBITS_def)
    then show ?thesis using True assms tget_array [OF assms(1), of "Vnumber (cast_num (int p + 1))"]
      by (simp add: pos_pair_def pos_live_def arr_key_def proper_def)
  next
    case False
    then have n: "p - sizearray t < length (node t)" "i_val (node t ! (p - sizearray t)) \<noteq> Vnil"
      using assms by (auto simp: tab_ok_def pos_live_def)
    then show ?thesis using False tab_ok_entry [OF assms(1) n] by (simp add: pos_pair_def)
  qed
  then show "proper (fst (pos_pair t p))" "tget sh t (fst (pos_pair t p)) = snd (pos_pair t p)" "snd (pos_pair t p) \<noteq> Vnil"
    by auto
qed

lemma pos_unique:
  assumes "tab_ok sh t" "p < sizearray t + sizenode t" "pos_live t p" "q < sizearray t + sizenode t" "pos_live t q"
    "luaO_rawequalObj (fst (pos_pair t p)) (fst (pos_pair t q))"
  shows "p = q"
proof -
  have slot: "luaH_get sh t (fst (pos_pair t p)) =
      (if p < sizearray t then ArraySlot p else NodeSlot (p - sizearray t))"
    if "p < sizearray t + sizenode t" "pos_live t p" for p
  proof (cases "p < sizearray t")
    case True
    have "arrayindex (Vnumber (cast_num (int p + 1)) :: tval) = int p + 1"
      using True assms(1) by (intro arrayindex_cast) (auto simp: tab_ok_def MAXASIZE_def MAXBITS_def)
    then show ?thesis using True assms(1) luaH_get_eq [of t "Vnumber (cast_num (int p + 1))" sh]
      by (simp add: pos_pair_def arr_key_def tab_ok_def)
  next
    case False
    then have n: "p - sizearray t < length (node t)" "i_val (node t ! (p - sizearray t)) \<noteq> Vnil"
      using assms(1) that by (auto simp: tab_ok_def pos_live_def)
    note e = tab_ok_entry [OF assms(1) n]
    show ?thesis using False e get_generic_iff(1) [OF assms(1) e(1), of "p - sizearray t"] n(1) assms(1)
      luaH_get_eq [of t "i_key (node t ! (p - sizearray t))" sh]
      by (auto simp: pos_pair_def proper_def tab_ok_def rawequalObj_refl)
  qed
  have "luaH_get sh t (fst (pos_pair t p)) = luaH_get sh t (fst (pos_pair t q))"
    using luaH_get_rawequal [OF assms(1) pos_pair_get(1) [OF assms(1,4,5)] assms(6)] .
  then show ?thesis using slot [OF assms(2,3)] slot [OF assms(4,5)] by (auto split: if_splits)
qed

lemma pos_complete:
  assumes "tab_ok sh t" "proper k" "tget sh t k \<noteq> Vnil"
  obtains p where "p < sizearray t + sizenode t" "pos_live t p" "luaO_rawequalObj (fst (pos_pair t p)) k"
proof (cases "arr_key t k")
  case True
  define p where "p = nat (arrayindex k - 1)"
  have p: "p < sizearray t" "int p + 1 = arrayindex k" using True by (auto simp: arr_key_def p_def)
  have "arrayindex (Vnumber (cast_num (int p + 1)) :: tval) = int p + 1"
    using p assms(1) by (intro arrayindex_cast) (auto simp: tab_ok_def MAXASIZE_def MAXBITS_def)
  then have "luaO_rawequalObj (Vnumber (cast_num (int p + 1))) k" using p(2) by (intro arrayindex_unique) auto
  then show ?thesis using p(1) assms(3) tget_array [OF assms(1) True] that [of p]
    by (simp add: pos_pair_def pos_live_def p_def)
next
  case False
  obtain k' where "(k', tget sh t k) \<in> live_entries (node t)" "luaO_rawequalObj k' k"
    using tget_node [OF assms(1,2) False assms(3)] by blast
  then obtain i where "i < length (node t)" "luaO_rawequalObj (i_key (node t ! i)) k" "i_val (node t ! i) \<noteq> Vnil"
    by (auto elim!: live_entriesE)
  then show ?thesis using that [of "sizearray t + i"] assms(1) by (simp add: pos_pair_def pos_live_def tab_ok_def)
qed



section \<open>Boundaries\<close>

definition intkey :: "nat \<Rightarrow> tval" where
  "intkey i = Vnumber (cast_num (int i))"

text \<open>A boundary: the last of a run of non-nil elements (0 if the first is nil).\<close>

definition is_border :: "(nat \<Rightarrow> bool) \<Rightarrow> nat \<Rightarrow> bool" where
  "is_border ab n \<longleftrightarrow> (n = 0 \<or> \<not> ab n) \<and> ab (n + 1)"

lemma border_array_spec:
  assumes "i < j" "i = 0 \<or> \<not> ab i" "ab j"
  shows "i \<le> border_array ab i j \<and> border_array ab i j < j \<and> is_border ab (border_array ab i j)"
  using assms
proof (induction ab i j rule: border_array.induct)
  case (1 ab i j)
  show ?case
  proof (cases "j - i > 1")
    case False
    then have "j = i + 1" using 1(3) by simp
    then show ?thesis using 1(4,5) False by (simp add: border_array.simps is_border_def)
  next
    case True
    define m where "m = (i + j) div 2"
    have m: "i < m" "m < j" using True by (auto simp: m_def)
    have IH1: "i \<le> border_array ab i m \<and> border_array ab i m < m \<and> is_border ab (border_array ab i m)" if "ab m"
      using 1(1) [OF True m_def] that m(1) 1(4) by simp
    have IH2: "m \<le> border_array ab m j \<and> border_array ab m j < j \<and> is_border ab (border_array ab m j)" if "\<not> ab m"
      using 1(2) [OF True m_def] that m(2) 1(5) by simp
    show ?thesis
    proof (cases "ab m")
      case True
      then have "border_array ab i j = border_array ab i m"
        using \<open>j - i > 1\<close> by (subst border_array.simps) (simp add: Let_def flip: m_def)
      then show ?thesis using IH1 [OF True] m by simp
    next
      case False
      then have "border_array ab i j = border_array ab m j"
        using \<open>j - i > 1\<close> by (subst border_array.simps) (simp add: Let_def flip: m_def)
      then show ?thesis using IH2 [OF False] m by simp
    qed
  qed
qed

lemma linear_search_spec:
  assumes "1 \<le> i" "i = 1 \<or> \<not> absent t (i - 1)" "absent t m" "i \<le> m" "m < i + fuel"
  shows "\<exists>n. linear_search t fuel i = Some n \<and> is_border (absent t) n"
  using assms
proof (induction fuel arbitrary: i)
  case (Suc fuel)
  show ?case
  proof (cases "absent t i")
    case True
    then show ?thesis using Suc.prems by (simp add: is_border_def)
  next
    case False
    then have "i \<noteq> m" using Suc.prems(3) by auto
    then show ?thesis using Suc.IH [of "i + 1"] Suc.prems False by simp
  qed
qed simp

lemma absent_tget:
  assumes "i < 2 ^ 31"
  shows "absent t i \<longleftrightarrow> tget sh t (intkey i) = Vnil"
  using luaH_getnum_eq [of "int i" t sh] assms
  by (simp add: absent_def tget_def ttisnil_def intkey_def)

lemma arrayindex_intkey: "i < 2 ^ 31 \<Longrightarrow> arrayindex (intkey i) = int i"
  unfolding intkey_def by (intro arrayindex_cast) simp_all

text \<open>A table has fewer elements than slots, so some index just above that number is absent.\<close>

lemma exists_absent:
  assumes "tab_ok sh t"
  shows "\<exists>m. 1 \<le> m \<and> m \<le> sizearray t + sizenode t + 1 \<and> absent t m"
proof (rule ccontr)
  assume no: "\<not> ?thesis"
  define N where "N = sizearray t + sizenode t + 1"
  have "sizenode t \<le> 2 ^ MAXBITS" using assms by (auto simp: tab_ok_def sizenode_def twoto_def intro: power_increasing)
  then have N: "N < 2 ^ 31" using assms by (simp add: N_def tab_ok_def MAXASIZE_def MAXBITS_def)
  have ex: "\<exists>p. p < sizearray t + sizenode t \<and> pos_live t p \<and> luaO_rawequalObj (fst (pos_pair t p)) (intkey i)"
    if "1 \<le> i" "i \<le> N" for i
  proof -
    have "\<not> absent t i" using no that by (auto simp: N_def)
    then have "tget sh t (intkey i) \<noteq> Vnil" using absent_tget [of i t sh] that N by simp
    moreover have "proper (intkey i)" by (simp add: intkey_def proper_def)
    ultimately show ?thesis using pos_complete [OF assms] by blast
  qed
  define f where "f i = (SOME p. p < sizearray t + sizenode t \<and> pos_live t p \<and> luaO_rawequalObj (fst (pos_pair t p)) (intkey i))" for i
  have f: "f i < sizearray t + sizenode t" "luaO_rawequalObj (fst (pos_pair t (f i))) (intkey i)" if "1 \<le> i" "i \<le> N" for i
    using someI_ex [OF ex [OF that]] unfolding f_def by auto
  have "inj_on f {1..N}"
  proof (rule inj_onI)
    fix i j assume ij: "i \<in> {1..N}" "j \<in> {1..N}" "f i = f j"
    then have "arrayindex (intkey i) = arrayindex (intkey j)"
      using f(2) [of i] f(2) [of j] arrayindex_rawequal by (metis atLeastAtMost_iff)
    then show "i = j" using arrayindex_intkey ij N by auto
  qed
  then have "card {1..N} \<le> card {..<sizearray t + sizenode t}"
    using f(1) by (intro card_inj_on_le) auto
  then show False by (simp add: N_def)
qed

lemma unbound_loop_spec:
  assumes "tab_ok sh t" "i < j" "i = 0 \<or> \<not> absent t i"
  shows "\<exists>n. unbound_loop t i j = Some n \<and> is_border (absent t) n"
  using assms
proof (induction t i j rule: unbound_loop.induct)
  case (1 t i j)
  consider "absent t j" | "\<not> absent t j" "2 * j > 2 ^ 31 - 3" | "\<not> absent t j" "\<not> 2 * j > 2 ^ 31 - 3" by blast
  then show ?case
  proof cases
    case 1
    then show ?thesis using border_array_spec [of i j "absent t"] \<open>i < j\<close> \<open>i = 0 \<or> \<not> absent t i\<close>
      by (simp add: unbound_loop.simps)
  next
    case 2
    obtain m where "1 \<le> m" "m \<le> sizearray t + sizenode t + 1" "absent t m"
      using exists_absent [OF \<open>tab_ok sh t\<close>] by blast
    then show ?thesis using linear_search_spec [of 1 t m "sizearray t + sizenode t + 1"] 2
      by (subst unbound_loop.simps) simp
  next
    case 3
    have "\<not> (j = 0 \<or> 2 * j > 2 ^ 31 - 3)" using 3 \<open>i < j\<close> by simp
    then have "\<exists>n. unbound_loop t j (2 * j) = Some n \<and> is_border (absent t) n"
      using 1(1) 3 1(2,3) by auto
    then show ?thesis using 3 \<open>i < j\<close> by (subst unbound_loop.simps) simp
  qed
qed

lemma getn_spec:
  assumes "tab_ok sh t"
  shows "\<exists>n. luaH_getn t = Some n \<and> is_border (absent t) n"
proof -
  let ?j = "sizearray t"
  have arr: "absent t m \<longleftrightarrow> tarray t ! (m - 1) = Vnil" if "1 \<le> m" "m \<le> ?j" for m
  proof -
    have "m < 2 ^ 31" using that assms by (simp add: tab_ok_def MAXASIZE_def MAXBITS_def)
    then show ?thesis
      using absent_tget [of m t sh] arrayindex_intkey [of m] tget_array [OF assms, of "intkey m"] that
      by (simp add: arr_key_def nat_diff_distrib)
  qed
  consider (inner) "0 < ?j" "tarray t ! (?j - 1) = Vnil"
    | (dummy) "isdummy t" "?j = 0 \<or> tarray t ! (?j - 1) \<noteq> Vnil" | (hash) "\<not> isdummy t" "?j = 0 \<or> tarray t ! (?j - 1) \<noteq> Vnil" by auto
  then show ?thesis
  proof cases
    case inner
    define r where "r = border_array (\<lambda>m. ttisnil (tarray t ! (m - 1))) 0 ?j"
    have r: "r < ?j" "is_border (\<lambda>m. ttisnil (tarray t ! (m - 1))) r"
      using border_array_spec [of 0 ?j "\<lambda>m. ttisnil (tarray t ! (m - 1))"] inner by (auto simp: r_def ttisnil_def)
    then have "is_border (absent t) r" using arr [of r] arr [of "r + 1"] by (auto simp: is_border_def ttisnil_def)
    then show ?thesis using inner by (simp add: luaH_getn_def Let_def ttisnil_def r_def)
  next
    case dummy
    have "?j + 1 < 2 ^ 31" using assms by (simp add: tab_ok_def MAXASIZE_def MAXBITS_def)
    moreover have "\<not> arr_key t (intkey (?j + 1))"
      using calculation arrayindex_intkey [of "?j + 1"] by (simp add: arr_key_def)
    moreover have "live_entries (node t) = {}" using dummy(1) assms by (simp add: tab_ok_def live_entries_def nilnode_def)
    ultimately have "absent t (?j + 1)"
      using tget_empty [OF assms, of "intkey (?j + 1)"] absent_tget [of "?j + 1" t sh] by (simp add: intkey_def proper_def)
    then show ?thesis using dummy arr [of ?j] by (cases "?j = 0") (auto simp: luaH_getn_def Let_def is_border_def ttisnil_def)
  next
    case hash
    then have "?j = 0 \<or> \<not> absent t ?j" using arr [of ?j] by (cases "?j = 0") auto
    then have "\<exists>n. unbound_loop t ?j (?j + 1) = Some n \<and> is_border (absent t) n"
      using unbound_loop_spec [OF assms, of ?j "?j + 1"] by simp
    then show ?thesis using hash by (auto simp: luaH_getn_def Let_def unbound_search_def ttisnil_def)
  qed
qed

text \<open>
  C17. \<open>luaH_getn\<close> always returns, and what it returns is a boundary: the element at that index is
  not nil (or the index is 0) and the next element is nil. Its unsigned arithmetic does not wrap.
\<close>

theorem luaH_getn_border:
  assumes "tab_ok sh t"
  shows "\<exists>n. luaH_getn t = Some n \<and> is_border (absent t) n"
  using assms by (rule getn_spec)

theorem luaH_getn_border_witness: "\<exists>n. luaH_getn empty_table = Some n \<and> n = 0"
  using luaH_getn_border [OF empty_table_ok] by (auto simp: luaH_getn_def empty_table_def)

end
