(* ===== verification/Lproto.thy ===== *)
theory Lproto
  imports Lobject Lopcodes
begin

text \<open>
  lobject.h, lfunc.c: function prototypes. A C vector with its size field is a list. A string is
  its contents (interned strings are equal as pointers exactly when their contents are equal, see
  Lstring), \<open>None\<close> where the pointer is NULL.
\<close>

type_synonym lstr = "bytes option"
type_synonym kval = "lstr TValue"

record LocVar =
  varname :: lstr
  startpc :: int
  endpc :: int

datatype Proto = Proto
  (pk: "kval list")
  (pcode: "Instruction list")
  (pp: "Proto list")
  (lineinfo: "int list")
  (locvars: "LocVar list")
  (upvalues: "lstr list")
  (source: lstr)
  (linedefined: int)
  (lastlinedefined: int)
  (nups: "8 word")
  (numparams: "8 word")
  (is_vararg: "8 word")
  (maxstacksize: "8 word")

definition VARARG_HASARG :: "8 word" where "VARARG_HASARG = 1"
definition VARARG_ISVARARG :: "8 word" where "VARARG_ISVARARG = 2"
definition VARARG_NEEDSARG :: "8 word" where "VARARG_NEEDSARG = 4"

definition luaF_newproto :: Proto where
  "luaF_newproto = Proto [] [] [] [] [] [] None 0 0 0 0 0 0"

fun getlocalname_loop :: "LocVar list \<Rightarrow> int \<Rightarrow> int \<Rightarrow> lstr option" where
  "getlocalname_loop [] n pc = None"
| "getlocalname_loop (v # vs) n pc =
     (if \<not> startpc v \<le> pc then None
      else if pc < endpc v
      then (if n - 1 = 0 then Some (varname v) else getlocalname_loop vs (n - 1) pc)
      else getlocalname_loop vs n pc)"

definition luaF_getlocalname :: "Proto \<Rightarrow> int \<Rightarrow> int \<Rightarrow> lstr option" where
  "luaF_getlocalname f local_number pc = getlocalname_loop (locvars f) local_number pc"

text \<open>
  With variables listed by their first instruction, the search finds the \<open>n\<close>-th variable that is
  active at \<open>pc\<close>.
\<close>

lemma getlocalname_active:
  assumes "sorted (map startpc vs)" "0 < n"
  shows "getlocalname_loop vs n pc =
    (let act = filter (\<lambda>v. startpc v \<le> pc \<and> pc < endpc v) vs
     in if n \<le> int (length act) then Some (varname (act ! nat (n - 1))) else None)"
  using assms
proof (induction vs n pc rule: getlocalname_loop.induct)
  case (2 v vs n pc)
  show ?case
  proof (cases "startpc v \<le> pc")
    case False
    have "startpc w > pc" if "w \<in> set vs" for w using 2(3) False that by fastforce
    then have "filter (\<lambda>v. startpc v \<le> pc \<and> pc < endpc v) vs = []" by (force simp: filter_empty_conv)
    then show ?thesis using False 2(4) by simp
  next
    case True
    consider "pc < endpc v" "n = 1" | "pc < endpc v" "n > 1" | "\<not> pc < endpc v" using 2(4) by linarith
    then show ?thesis
    proof cases
      case 1
      then show ?thesis using True by (simp add: Let_def)
    next
      case 2
      then have "nat (n - 1) = Suc (nat (n - 1 - 1))" by linarith
      then show ?thesis using 2 True "2.IH"(1) "2.prems" by (simp add: Let_def)
    next
      case 3
      then show ?thesis using True "2.IH"(2) "2.prems" by (simp add: Let_def)
    qed
  qed
qed simp

end
