(* ===== verification/Ldebug.thy ===== *)
theory Ldebug
  imports Lproto
begin

text \<open>
  ldebug.c: the checker of precompiled code. \<open>symbexec\<close> is the symbolic execution with its checks
  in the order of the code. A failed check is \<open>Inr None\<close>; a read outside \<open>code\<close>, \<open>k\<close> or \<open>p\<close> is
  \<open>Inl (Undefined ...)\<close>, so that the memory safety of the checker itself can be stated.
\<close>

section \<open>Reads and checks\<close>

type_synonym 'a chk = "'a option res"

definition read_at :: "'a list \<Rightarrow> int \<Rightarrow> 'a res" where
  "read_at xs j = (if 0 \<le> j \<and> j < int (length xs) then Inr (xs ! nat j) else Inl (Undefined ''read''))"

definition check :: "bool \<Rightarrow> 'a chk \<Rightarrow> 'a chk" where
  "check c m = (if c then m else Inr None)"

declare check_def [code_unfold]

abbreviation sizecode :: "Proto \<Rightarrow> int" where
  "sizecode pt \<equiv> int (length (pcode pt))"

abbreviation maxstack :: "Proto \<Rightarrow> int" where
  "maxstack pt \<equiv> uint (maxstacksize pt)"

definition MAXSTACK :: int where "MAXSTACK = 250"
definition LUA_MULTRET :: int where "LUA_MULTRET = - 1"

definition op_at :: "Proto \<Rightarrow> int \<Rightarrow> OpCode option res" where
  "op_at pt j = rbind (read_at (pcode pt) j) (\<lambda>i. Inr (cast_OpCode (GET_OPCODE i)))"

definition precheck :: "Proto \<Rightarrow> bool res" where
  "precheck pt =
     (if \<not> maxstack pt \<le> MAXSTACK then Inr False
      else if \<not> uint (numparams pt) + uint (is_vararg pt AND VARARG_HASARG) \<le> maxstack pt then Inr False
      else if \<not> (is_vararg pt AND VARARG_NEEDSARG = 0 \<or> is_vararg pt AND VARARG_HASARG \<noteq> 0) then Inr False
      else if \<not> int (length (upvalues pt)) \<le> uint (nups pt) then Inr False
      else if \<not> (length (lineinfo pt) = length (pcode pt) \<or> length (lineinfo pt) = 0) then Inr False
      else if \<not> 0 < sizecode pt then Inr False
      else rbind (op_at pt (sizecode pt - 1)) (\<lambda>op. Inr (op = Some OP_RETURN)))"

definition luaG_checkopenop :: "Instruction \<Rightarrow> bool" where
  "luaG_checkopenop i =
     (case cast_OpCode (GET_OPCODE i) of
        Some OP_CALL \<Rightarrow> GETARG_B i = 0
      | Some OP_TAILCALL \<Rightarrow> GETARG_B i = 0
      | Some OP_RETURN \<Rightarrow> GETARG_B i = 0
      | Some OP_SETLIST \<Rightarrow> GETARG_B i = 0
      | _ \<Rightarrow> False)"

definition checkArgMode :: "Proto \<Rightarrow> int \<Rightarrow> OpArgMask \<Rightarrow> bool" where
  "checkArgMode pt r mode =
     (case mode of
        OpArgN \<Rightarrow> r = 0
      | OpArgU \<Rightarrow> True
      | OpArgR \<Rightarrow> r < maxstack pt
      | OpArgK \<Rightarrow> if ISK r then INDEXK r < int (length (pk pt)) else r < maxstack pt)"

section \<open>Symbolic execution\<close>

text \<open>How many instructions just before \<open>dest\<close> look like a setlist with its count in the next word.\<close>

fun setlist_run :: "Instruction list \<Rightarrow> nat \<Rightarrow> nat" where
  "setlist_run code 0 = 0"
| "setlist_run code (Suc d) =
     (if cast_OpCode (GET_OPCODE (code ! d)) = Some OP_SETLIST \<and> GETARG_C (code ! d) = 0
      then Suc (setlist_run code d) else 0)"

text \<open>The operand checks by instruction format; the result is the pair of \<open>b\<close> and \<open>c\<close>.\<close>

definition check_mode :: "Proto \<Rightarrow> int \<Rightarrow> Instruction \<Rightarrow> (int \<times> int) chk" where
  "check_mode pt pc i =
     (let op = GET_OPCODE i
      in case getOpMode op of
           iABC \<Rightarrow>
             (let b = GETARG_B i; c = GETARG_C i
              in check (checkArgMode pt b (getBMode op)) (check (checkArgMode pt c (getCMode op)) (Inr (Some (b, c)))))
         | iABx \<Rightarrow>
             (let b = GETARG_Bx i
              in check (getBMode op = OpArgK \<longrightarrow> b < int (length (pk pt))) (Inr (Some (b, 0))))
         | iAsBx \<Rightarrow>
             (let b = GETARG_sBx i
              in if getBMode op = OpArgR
                 then let dest = pc + 1 + b
                      in check (0 \<le> dest \<and> dest < sizecode pt)
                           (check (dest > 0 \<longrightarrow> even (setlist_run (pcode pt) (nat dest))) (Inr (Some (b, 0))))
                 else Inr (Some (b, 0))))"

definition check_test :: "Proto \<Rightarrow> int \<Rightarrow> int \<Rightarrow> unit chk" where
  "check_test pt pc op =
     (if testTMode op
      then check (pc + 2 < sizecode pt)
             (rbind (op_at pt (pc + 1)) (\<lambda>op1. check (op1 = Some OP_JMP) (Inr (Some ()))))
      else Inr (Some ()))"

definition check_open :: "Proto \<Rightarrow> int \<Rightarrow> 'a chk \<Rightarrow> 'a chk" where
  "check_open pt pc m = rbind (read_at (pcode pt) (pc + 1)) (\<lambda>i. check (luaG_checkopenop i) m)"

fun check_upvals :: "Proto \<Rightarrow> int \<Rightarrow> nat \<Rightarrow> bool res" where
  "check_upvals pt j 0 = Inr True"
| "check_upvals pt j (Suc n) =
     rbind (op_at pt j) (\<lambda>op1. if op1 = Some OP_GETUPVAL \<or> op1 = Some OP_MOVE then check_upvals pt (j + 1) n else Inr False)"

text \<open>The checks by opcode; the result is the new \<open>pc\<close> (before the increment of the loop) and \<open>last\<close>.\<close>

definition check_op :: "Proto \<Rightarrow> int \<Rightarrow> int \<Rightarrow> OpCode \<Rightarrow> int \<Rightarrow> int \<Rightarrow> int \<Rightarrow> int \<Rightarrow> int \<Rightarrow> (int \<times> int) chk" where
  "check_op pt lastpc reg op a b c pc lst =
     (let checkreg = (\<lambda>r. check (r < maxstack pt)); ok = Inr (Some (pc, lst));
          jump = (let dest = pc + 1 + b
                  in Inr (Some (if reg \<noteq> NO_REG \<and> pc < dest \<and> dest \<le> lastpc then pc + b else pc, lst)))
      in case op of
        OP_LOADBOOL \<Rightarrow>
          if c = 1
          then check (pc + 2 < sizecode pt) (rbind (read_at (pcode pt) (pc + 1)) (\<lambda>i1.
                 check (cast_OpCode (GET_OPCODE i1) \<noteq> Some OP_SETLIST \<or> GETARG_C i1 \<noteq> 0) ok))
          else ok
      | OP_LOADNIL \<Rightarrow> Inr (Some (pc, if a \<le> reg \<and> reg \<le> b then pc else lst))
      | OP_GETUPVAL \<Rightarrow> check (b < uint (nups pt)) ok
      | OP_SETUPVAL \<Rightarrow> check (b < uint (nups pt)) ok
      | OP_GETGLOBAL \<Rightarrow> rbind (read_at (pk pt) b) (\<lambda>kb. check (ttype kb = 4) ok)
      | OP_SETGLOBAL \<Rightarrow> rbind (read_at (pk pt) b) (\<lambda>kb. check (ttype kb = 4) ok)
      | OP_SELF \<Rightarrow> checkreg (a + 1) (Inr (Some (pc, if reg = a + 1 then pc else lst)))
      | OP_CONCAT \<Rightarrow> check (b < c) ok
      | OP_TFORLOOP \<Rightarrow> check (c \<ge> 1) (checkreg (a + 2 + c) (Inr (Some (pc, if reg \<ge> a + 2 then pc else lst))))
      | OP_FORLOOP \<Rightarrow> checkreg (a + 3) jump
      | OP_FORPREP \<Rightarrow> checkreg (a + 3) jump
      | OP_JMP \<Rightarrow> jump
      | OP_CALL \<Rightarrow> check (b \<noteq> 0 \<longrightarrow> a + b - 1 < maxstack pt)
          (let r = Inr (Some (pc, if reg \<ge> a then pc else lst)); c = c - 1
           in if c = LUA_MULTRET then check_open pt pc r else check (c \<noteq> 0 \<longrightarrow> a + c - 1 < maxstack pt) r)
      | OP_TAILCALL \<Rightarrow> check (b \<noteq> 0 \<longrightarrow> a + b - 1 < maxstack pt)
          (let r = Inr (Some (pc, if reg \<ge> a then pc else lst)); c = c - 1
           in if c = LUA_MULTRET then check_open pt pc r else check (c \<noteq> 0 \<longrightarrow> a + c - 1 < maxstack pt) r)
      | OP_RETURN \<Rightarrow> check (b - 1 > 0 \<longrightarrow> a + (b - 1) - 1 < maxstack pt) ok
      | OP_SETLIST \<Rightarrow> check (b > 0 \<longrightarrow> a + b < maxstack pt)
          (if c = 0 then check (pc + 1 < sizecode pt - 1) (Inr (Some (pc + 1, lst))) else ok)
      | OP_CLOSURE \<Rightarrow> check (b < int (length (pp pt)))
          (rbind (read_at (pp pt) b) (\<lambda>f.
             let nup = uint (nups f)
             in check (pc + nup < sizecode pt) (rbind (check_upvals pt (pc + 1) (nat nup)) (\<lambda>u.
                  check u (Inr (Some (if reg \<noteq> NO_REG then pc + nup else pc, lst)))))))
      | OP_VARARG \<Rightarrow>
          check (is_vararg pt AND VARARG_ISVARARG \<noteq> 0 \<and> is_vararg pt AND VARARG_NEEDSARG = 0)
            (let r = checkreg (a + (b - 1) - 1) ok
             in if b - 1 = LUA_MULTRET then check_open pt pc r else r)
      | _ \<Rightarrow> ok)"

definition symb_step :: "Proto \<Rightarrow> int \<Rightarrow> int \<Rightarrow> int \<Rightarrow> int \<Rightarrow> (int \<times> int) chk" where
  "symb_step pt lastpc reg pc lst =
     rbind (read_at (pcode pt) pc) (\<lambda>i.
       let op = GET_OPCODE i; a = GETARG_A i
       in check (op < NUM_OPCODES) (check (a < maxstack pt)
            (rbind (check_mode pt pc i) (\<lambda>bc. case bc of None \<Rightarrow> Inr None | Some (b, c) \<Rightarrow>
               (let lst1 = (if testAMode op \<and> a = reg then pc else lst)
                in rbind (check_test pt pc op) (\<lambda>u. case u of None \<Rightarrow> Inr None | Some _ \<Rightarrow>
                     check_op pt lastpc reg (opcodes ! nat op) a b c pc lst1))))))"

text \<open>\<open>pc\<close> grows in every round: the fuel is the number of instructions left.\<close>

fun symb_loop :: "Proto \<Rightarrow> int \<Rightarrow> int \<Rightarrow> nat \<Rightarrow> int \<Rightarrow> int \<Rightarrow> int chk" where
  "symb_loop pt lastpc reg fuel pc lst =
     (if \<not> pc < lastpc then Inr (Some lst)
      else case fuel of
        0 \<Rightarrow> Inl (Undefined ''fuel'')
      | Suc fuel' \<Rightarrow>
          rbind (symb_step pt lastpc reg pc lst) (\<lambda>r. case r of None \<Rightarrow> Inr None
            | Some (pc', lst') \<Rightarrow> symb_loop pt lastpc reg fuel' (pc' + 1) lst'))"

declare symb_loop.simps [simp del]

text \<open>The instruction returned, 0 when a check failed.\<close>

definition symbexec :: "Proto \<Rightarrow> int \<Rightarrow> int \<Rightarrow> Instruction res" where
  "symbexec pt lastpc reg =
     rbind (precheck pt) (\<lambda>ok.
       if \<not> ok then Inr 0
       else rbind (symb_loop pt lastpc reg (nat lastpc) 0 (sizecode pt - 1)) (\<lambda>r.
         case r of None \<Rightarrow> Inr 0 | Some lst \<Rightarrow> read_at (pcode pt) lst))"

definition luaG_checkcode :: "Proto \<Rightarrow> bool res" where
  "luaG_checkcode pt = rbind (symbexec pt (sizecode pt) NO_REG) (\<lambda>i. Inr (i \<noteq> 0))"

section \<open>The checker is memory safe\<close>

lemma read_at_ok: "0 \<le> j \<Longrightarrow> j < int (length xs) \<Longrightarrow> read_at xs j = Inr (xs ! nat j)"
  by (simp add: read_at_def)

lemma check_cases: "check c m = Inr (Some x) \<longleftrightarrow> c \<and> m = Inr (Some x)" "check c m \<noteq> Inl e \<longleftrightarrow> \<not> c \<or> m \<noteq> Inl e"
  by (auto simp: check_def)

lemma GETARG_nonneg [simp]: "0 \<le> GETARG_A i" "0 \<le> GETARG_B i" "0 \<le> GETARG_C i" "0 \<le> GETARG_Bx i" "0 \<le> GET_OPCODE i"
  by (simp_all add: GETARG_A_def GETARG_B_def GETARG_C_def GETARG_Bx_def GET_OPCODE_def)

lemma opcodes_op_num: "0 \<le> n \<Longrightarrow> n < NUM_OPCODES \<Longrightarrow> opcodes ! nat n = op \<Longrightarrow> n = op_num op"
proof -
  assume n: "0 \<le> n" "n < NUM_OPCODES" and op: "opcodes ! nat n = op"
  have "\<forall>m \<in> set [0..<38]. op_num (opcodes ! m) = int m" by code_simp
  moreover have "nat n \<in> set [0..<38]" using n by (auto simp: NUM_OPCODES_def)
  ultimately have "op_num (opcodes ! nat n) = int (nat n)" by blast
  then show ?thesis using n op by simp
qed

lemma length_opcodes: "length opcodes = 38"
  by code_simp

lemma mode_table:
  "getOpMode 5 = iABx" "getBMode 5 = OpArgK" "getOpMode 7 = iABx" "getBMode 7 = OpArgK" "getOpMode 36 = iABx"
  "getOpMode 22 = iAsBx" "getBMode 22 = OpArgR" "getOpMode 31 = iAsBx" "getBMode 31 = OpArgR"
  "getOpMode 32 = iAsBx" "getBMode 32 = OpArgR" "getOpMode 34 = iABC"
  by code_simp+

lemma precheck_total: "\<exists>b. precheck pt = Inr b"
  by (auto simp: precheck_def op_at_def read_at_def)

lemma precheck_return:
  assumes "precheck pt = Inr True"
  shows "0 < sizecode pt" "cast_OpCode (GET_OPCODE (pcode pt ! (length (pcode pt) - 1))) = Some OP_RETURN" "maxstack pt \<le> MAXSTACK"
proof -
  show s: "0 < sizecode pt" and "maxstack pt \<le> MAXSTACK" using assms by (auto simp: precheck_def split: if_splits)
  have "op_at pt (sizecode pt - 1) = Inr (Some OP_RETURN)" using assms s by (auto simp: precheck_def split: if_splits)
  moreover have "nat (sizecode pt - 1) = length (pcode pt) - 1" by simp
  ultimately show "cast_OpCode (GET_OPCODE (pcode pt ! (length (pcode pt) - 1))) = Some OP_RETURN"
    using s by (auto simp: op_at_def read_at_ok)
qed

lemma check_mode_b:
  assumes "check_mode pt pc i = Inr (Some (b, c))"
  shows "getOpMode (GET_OPCODE i) = iABC \<Longrightarrow> b = GETARG_B i \<and> c = GETARG_C i \<and>
      checkArgMode pt b (getBMode (GET_OPCODE i)) \<and> checkArgMode pt c (getCMode (GET_OPCODE i))"
    and "getOpMode (GET_OPCODE i) = iABx \<Longrightarrow> b = GETARG_Bx i \<and> (getBMode (GET_OPCODE i) = OpArgK \<longrightarrow> b < int (length (pk pt)))"
    and "getOpMode (GET_OPCODE i) = iAsBx \<Longrightarrow> getBMode (GET_OPCODE i) = OpArgR \<Longrightarrow>
      b = GETARG_sBx i \<and> 0 \<le> pc + 1 + b \<and> pc + 1 + b < sizecode pt"
  using assms by (auto simp: check_mode_def check_cases Let_def)

lemma check_mode_safe: "check_mode pt pc i \<noteq> Inl e"
  by (auto simp: check_mode_def check_cases Let_def split: OpMode.split)

lemma check_test_safe: "0 \<le> pc \<Longrightarrow> check_test pt pc op \<noteq> Inl e"
  by (auto simp: check_test_def check_cases op_at_def read_at_def)

lemma check_upvals_safe:
  "0 \<le> j \<Longrightarrow> j + int n \<le> sizecode pt \<Longrightarrow> \<exists>b. check_upvals pt j n = Inr b"
proof (induction n arbitrary: j)
  case (Suc n)
  have "\<exists>b. check_upvals pt (j + 1) n = Inr b" using Suc by (intro Suc.IH) auto
  then show ?case using Suc.prems by (auto simp: op_at_def read_at_ok)
qed auto

lemma check_open_safe:
  "0 \<le> pc \<Longrightarrow> pc + 1 < sizecode pt \<Longrightarrow> m \<noteq> Inl e \<Longrightarrow> check_open pt pc m \<noteq> Inl e"
  by (auto simp: check_open_def read_at_ok check_cases)

lemma check_op_safe:
  assumes "0 \<le> pc" "op \<noteq> OP_RETURN \<Longrightarrow> pc + 1 < sizecode pt" "0 \<le> b"
    "op = OP_GETGLOBAL \<or> op = OP_SETGLOBAL \<Longrightarrow> b < int (length (pk pt))"
  shows "check_op pt lastpc reg op a b c pc lst \<noteq> Inl e"
proof (cases op)
  case OP_CLOSURE
  define f where "f = pp pt ! nat b"
  have u: "\<exists>u. check_upvals pt (pc + 1) (nat (uint (nups f))) = Inr u" if "pc + uint (nups f) < sizecode pt"
    using assms(1) that by (intro check_upvals_safe) auto
  have "read_at (pp pt) b = Inr f" if "b < int (length (pp pt))" using assms(3) that by (simp add: read_at_ok f_def)
  then show ?thesis using OP_CLOSURE u by (auto simp: check_op_def check_def Let_def split: if_splits)
qed (use assms in \<open>auto simp: check_op_def check_cases check_open_def Let_def read_at_def rbind_eq_Inl check_def\<close>)

lemma check_op_jump_safe:
  "op \<in> {OP_JMP, OP_FORLOOP, OP_FORPREP} \<Longrightarrow> check_op pt lastpc reg op a b c pc lst \<noteq> Inl e"
  by (elim insertE) (simp_all add: check_op_def check_def Let_def)

lemma symb_step_safe:
  assumes "precheck pt = Inr True" "0 \<le> pc" "pc < sizecode pt"
  shows "symb_step pt lastpc reg pc lst \<noteq> Inl e"
proof -
  define i where "i = pcode pt ! nat pc"
  define op where "op = opcodes ! nat (GET_OPCODE i)"
  have rd: "read_at (pcode pt) pc = Inr i" using assms by (simp add: read_at_ok i_def)
  have "check_op pt lastpc reg op (GETARG_A i) b c pc l \<noteq> Inl e"
    if lt: "GET_OPCODE i < NUM_OPCODES" and m: "check_mode pt pc i = Inr (Some (b, c))" for b c l
  proof (cases "getOpMode (GET_OPCODE i) = iAsBx")
    case True
    have on: "GET_OPCODE i = op_num op" using opcodes_op_num [OF _ lt] by (simp add: op_def)
    have "op \<in> {OP_JMP, OP_FORLOOP, OP_FORPREP}"
    proof -
      have "list_all (\<lambda>x. getOpMode (op_num x) = iAsBx \<longrightarrow> x = OP_JMP \<or> x = OP_FORLOOP \<or> x = OP_FORPREP) opcodes" by code_simp
      moreover have "op \<in> set opcodes" using lt length_opcodes by (auto simp: op_def NUM_OPCODES_def intro!: nth_mem)
      ultimately show ?thesis using True on unfolding list_all_iff by (metis insertCI)
    qed
    then show ?thesis by (rule check_op_jump_safe)
  next
    case False
    have on: "GET_OPCODE i = op_num op" using opcodes_op_num [OF _ lt] by (simp add: op_def)
    have "0 \<le> b" using check_mode_b(1,2) [OF m] False by (cases "getOpMode (GET_OPCODE i)") auto
    moreover have "pc + 1 < sizecode pt" if "op \<noteq> OP_RETURN"
    proof (rule ccontr)
      assume "\<not> pc + 1 < sizecode pt"
      then have "nat pc = length (pcode pt) - 1" using assms(2,3) by linarith
      then have "cast_OpCode (GET_OPCODE i) = Some OP_RETURN" using precheck_return(2) [OF assms(1)] by (simp add: i_def)
      then show False using that by (simp add: cast_OpCode_def op_def split: if_splits)
    qed
    moreover have "b < int (length (pk pt))" if "op = OP_GETGLOBAL \<or> op = OP_SETGLOBAL"
      using that on check_mode_b(2) [OF m] by (auto simp: mode_table)
    ultimately show ?thesis using assms(2) by (intro check_op_safe) auto
  qed
  then show ?thesis
    using rd check_mode_safe [of pt pc i] check_test_safe [OF assms(2)]
    by (auto simp: symb_step_def check_cases Let_def rbind_eq_Inl op_def split: option.splits)
qed

text \<open>What a round changes: the next instruction scanned and the instruction remembered.\<close>

definition skips :: "Proto \<Rightarrow> int \<Rightarrow> int" where
  "skips pt pc = (let i = pcode pt ! nat pc
     in if cast_OpCode (GET_OPCODE i) = Some OP_SETLIST \<and> GETARG_C i = 0 then 2 else 1)"

lemma symb_step_next:
  assumes "symb_step pt lastpc NO_REG pc lst = Inr (Some (pc', lst'))" "0 \<le> pc" "pc < sizecode pt" "maxstack pt \<le> MAXSTACK"
  shows "pc' + 1 = pc + skips pt pc" "lst' = lst \<or> lst' = pc" "lst' \<noteq> lst \<Longrightarrow> GET_OPCODE (pcode pt ! nat pc) \<noteq> 0"
proof -
  define i where "i = pcode pt ! nat pc"
  define op where "op = opcodes ! nat (GET_OPCODE i)"
  have rd: "read_at (pcode pt) pc = Inr i" using assms by (simp add: read_at_ok i_def)
  obtain b c where lt: "GET_OPCODE i < NUM_OPCODES" "GETARG_A i < maxstack pt" and m: "check_mode pt pc i = Inr (Some (b, c))"
    and op': "check_op pt lastpc NO_REG op (GETARG_A i) b c pc (if testAMode (GET_OPCODE i) \<and> GETARG_A i = NO_REG then pc else lst)
      = Inr (Some (pc', lst'))"
    using assms(1) rd by (auto simp: symb_step_def check_cases Let_def op_def split: option.splits)
  have on: "GET_OPCODE i = op_num op" using opcodes_op_num [OF _ lt(1)] by (simp add: op_def)
  have cast: "cast_OpCode (GET_OPCODE i) = Some op" using lt(1) by (simp add: cast_OpCode_def op_def)
  have c: "c = GETARG_C i" if "op = OP_SETLIST" using that on check_mode_b(1) [OF m] by (simp add: mode_table)
  show "pc' + 1 = pc + skips pt pc"
    using op' c unfolding skips_def Let_def i_def [symmetric] cast
    by (cases op) (auto simp: check_op_def check_cases Let_def check_open_def split: if_splits)
  have "GETARG_A i \<noteq> NO_REG"
    using lt(2) assms(4) by (simp add: NO_REG_def MAXARG_A_def SIZE_A_def MAXSTACK_def)
  then have op': "check_op pt lastpc NO_REG op (GETARG_A i) b c pc lst = Inr (Some (pc', lst'))" using op' by simp
  then show "lst' = lst \<or> lst' = pc"
    by (cases op) (auto simp: check_op_def check_cases Let_def check_open_def split: if_splits)
  show "GET_OPCODE (pcode pt ! nat pc) \<noteq> 0" if "lst' \<noteq> lst"
    using op' that on unfolding i_def [symmetric]
    by (cases op) (auto simp: check_op_def check_cases Let_def check_open_def split: if_splits)
qed

lemma skips_pos: "1 \<le> skips pt pc"
  by (simp add: skips_def Let_def)

text \<open>The loop of the full check: it ends, without a bad read, and remembers a non-zero instruction.\<close>

lemma symb_loop_safe:
  assumes "precheck pt = Inr True" "0 \<le> pc" "0 \<le> lst" "lst < sizecode pt" "GET_OPCODE (pcode pt ! nat lst) \<noteq> 0"
    "sizecode pt \<le> pc + int fuel"
  shows "\<exists>r. symb_loop pt (sizecode pt) NO_REG fuel pc lst = Inr r \<and>
    (\<forall>l. r = Some l \<longrightarrow> 0 \<le> l \<and> l < sizecode pt \<and> GET_OPCODE (pcode pt ! nat l) \<noteq> 0)"
  using assms(2-)
proof (induction fuel arbitrary: pc lst)
  case 0
  then show ?case by (simp add: symb_loop.simps)
next
  case (Suc fuel)
  show ?case
  proof (cases "pc < sizecode pt")
    case False
    then show ?thesis using Suc.prems by (simp add: symb_loop.simps)
  next
    case True
    obtain r where r: "symb_step pt (sizecode pt) NO_REG pc lst = Inr r"
      using symb_step_safe [OF assms(1) Suc.prems(1) True] by (metis sum.exhaust)
    show ?thesis
    proof (cases r)
      case None
      then show ?thesis using r True by (subst symb_loop.simps) simp
    next
      case (Some x)
      obtain pc' lst' where x: "x = (pc', lst')" by fastforce
      note n = symb_step_next [OF r [unfolded Some x] Suc.prems(1) True precheck_return(3) [OF assms(1)]]
      have "\<exists>r. symb_loop pt (sizecode pt) NO_REG fuel (pc' + 1) lst' = Inr r \<and>
          (\<forall>l. r = Some l \<longrightarrow> 0 \<le> l \<and> l < sizecode pt \<and> GET_OPCODE (pcode pt ! nat l) \<noteq> 0)"
        using n skips_pos [of pt pc] Suc.prems True by (intro Suc.IH) auto
      then show ?thesis using r True Some x by (subst symb_loop.simps) simp
    qed
  qed
qed

lemma instr_nonzero: "GET_OPCODE i \<noteq> 0 \<Longrightarrow> i \<noteq> 0"
  by (auto simp: GET_OPCODE_def)

lemma precheck_last:
  assumes "precheck pt = Inr True"
  shows "GET_OPCODE (pcode pt ! nat (sizecode pt - 1)) \<noteq> 0"
proof -
  have n: "nat (sizecode pt - 1) = length (pcode pt) - 1" by simp
  have "cast_OpCode (GET_OPCODE (pcode pt ! nat (sizecode pt - 1))) = Some OP_RETURN"
    using precheck_return(2) [OF assms] unfolding n .
  moreover have "cast_OpCode 0 = Some OP_MOVE" by code_simp
  ultimately show ?thesis by (intro notI) simp
qed

lemma checkcode_total: "\<exists>b. luaG_checkcode pt = Inr b"
proof -
  obtain ok where ok: "precheck pt = Inr ok" using precheck_total by blast
  show ?thesis
  proof (cases ok)
    case False
    then show ?thesis using ok by (auto simp: luaG_checkcode_def symbexec_def)
  next
    case True
    then have pre: "precheck pt = Inr True" using ok by simp
    obtain r where "symb_loop pt (sizecode pt) NO_REG (nat (sizecode pt)) 0 (sizecode pt - 1) = Inr r"
      "\<forall>l. r = Some l \<longrightarrow> 0 \<le> l \<and> l < sizecode pt \<and> GET_OPCODE (pcode pt ! nat l) \<noteq> 0"
      using symb_loop_safe [OF pre, of 0 "sizecode pt - 1"] precheck_return(1) [OF pre] precheck_last [OF pre] by auto
    then show ?thesis using pre by (auto simp: luaG_checkcode_def symbexec_def read_at_ok split: option.split)
  qed
qed


end
