(* ===== verification/Ldebug_flow.thy ===== *)
theory Ldebug_flow
  imports Ldebug
begin

text \<open>
  What acceptance by \<open>luaG_checkcode\<close> gives the interpreter: the words of a function that are
  instructions (and not the count word of a setlist), the instructions \<open>luaV_execute\<close> can go on to
  from each of them, and the proof that the control flow stays on checked instructions.
\<close>

section \<open>Instruction boundaries and control flow\<close>

definition op_of :: "Instruction \<Rightarrow> OpCode" where
  "op_of i = opcodes ! nat (GET_OPCODE i)"

definition setlist0 :: "Instruction \<Rightarrow> bool" where
  "setlist0 i = (cast_OpCode (GET_OPCODE i) = Some OP_SETLIST \<and> GETARG_C i = 0)"

fun scanned :: "Instruction list \<Rightarrow> nat \<Rightarrow> bool" where
  "scanned code 0 = True"
| "scanned code (Suc n) = (\<not> (scanned code n \<and> setlist0 (code ! n)))"

text \<open>The backward walk of the jump check computes the parity that \<open>scanned\<close> computes forward.\<close>

lemma even_setlist_run: "even (setlist_run code d) = scanned code d"
  by (induction d) (auto simp: setlist0_def)

definition vm_next :: "Proto \<Rightarrow> int \<Rightarrow> int list" where
  "vm_next pt pc =
     (let i = pcode pt ! nat pc; test = [pc + 2, pc + 2 + GETARG_sBx (pcode pt ! nat (pc + 1))]
      in case op_of i of
        OP_LOADBOOL \<Rightarrow> [if GETARG_C i \<noteq> 0 then pc + 2 else pc + 1]
      | OP_JMP \<Rightarrow> [pc + 1 + GETARG_sBx i]
      | OP_EQ \<Rightarrow> test
      | OP_LT \<Rightarrow> test
      | OP_LE \<Rightarrow> test
      | OP_TEST \<Rightarrow> test
      | OP_TESTSET \<Rightarrow> test
      | OP_RETURN \<Rightarrow> []
      | OP_FORLOOP \<Rightarrow> [pc + 1, pc + 1 + GETARG_sBx i]
      | OP_FORPREP \<Rightarrow> [pc + 1 + GETARG_sBx i]
      | OP_TFORLOOP \<Rightarrow> test
      | OP_SETLIST \<Rightarrow> [if GETARG_C i = 0 then pc + 2 else pc + 1]
      | OP_CLOSURE \<Rightarrow> [pc + 1 + uint (nups (pp pt ! nat (GETARG_Bx i)))]
      | _ \<Rightarrow> [pc + 1])"

inductive vm_reaches :: "Proto \<Rightarrow> int \<Rightarrow> bool" for pt where
  start: "vm_reaches pt 0"
| step: "vm_reaches pt pc \<Longrightarrow> q \<in> set (vm_next pt pc) \<Longrightarrow> vm_reaches pt q"

text \<open>The operands of an instruction: registers, constants, upvalues and prototypes that exist.\<close>

definition instr_ok :: "Proto \<Rightarrow> nat \<Rightarrow> bool" where
  "instr_ok pt pc =
     (let i = pcode pt ! pc; op = op_of i; a = GETARG_A i; b = GETARG_B i; c = GETARG_C i; bx = GETARG_Bx i
      in GET_OPCODE i < NUM_OPCODES \<and> a < maxstack pt \<and>
        (getOpMode (op_num op) = iABC \<longrightarrow>
           checkArgMode pt b (getBMode (op_num op)) \<and> checkArgMode pt c (getCMode (op_num op))) \<and>
        (op = OP_LOADK \<longrightarrow> bx < int (length (pk pt))) \<and>
        (op = OP_GETGLOBAL \<or> op = OP_SETGLOBAL \<longrightarrow> bx < int (length (pk pt)) \<and> ttype (pk pt ! nat bx) = 4) \<and>
        (op = OP_GETUPVAL \<or> op = OP_SETUPVAL \<longrightarrow> b < uint (nups pt)) \<and>
        (op = OP_SELF \<longrightarrow> a + 1 < maxstack pt) \<and>
        (op = OP_CONCAT \<longrightarrow> b < c) \<and>
        (op = OP_FORLOOP \<or> op = OP_FORPREP \<longrightarrow> a + 3 < maxstack pt) \<and>
        (op = OP_TFORLOOP \<longrightarrow> 1 \<le> c \<and> a + 2 + c < maxstack pt) \<and>
        (op = OP_CALL \<or> op = OP_TAILCALL \<longrightarrow>
           (b \<noteq> 0 \<longrightarrow> a + b - 1 < maxstack pt) \<and> (c = 0 \<longrightarrow> luaG_checkopenop (pcode pt ! (pc + 1))) \<and>
           (1 < c \<longrightarrow> a + c - 2 < maxstack pt)) \<and>
        (op = OP_RETURN \<longrightarrow> 1 < b \<longrightarrow> a + b - 2 < maxstack pt) \<and>
        (op = OP_SETLIST \<longrightarrow> 0 < b \<longrightarrow> a + b < maxstack pt) \<and>
        (op = OP_CLOSURE \<longrightarrow> bx < int (length (pp pt))) \<and>
        (op = OP_VARARG \<longrightarrow> is_vararg pt AND VARARG_ISVARARG \<noteq> 0 \<and> is_vararg pt AND VARARG_NEEDSARG = 0 \<and>
           a + b - 2 < maxstack pt \<and> (b = 0 \<longrightarrow> luaG_checkopenop (pcode pt ! (pc + 1)))))"

section \<open>One accepted instruction\<close>

text \<open>A round that goes through at \<open>pc\<close>: everything it has checked.\<close>

definition passed :: "Proto \<Rightarrow> int \<Rightarrow> bool" where
  "passed pt pc = (\<exists>lastpc reg lst r. symb_step pt lastpc reg pc lst = Inr (Some r))"

lemma passedI: "symb_step pt lastpc reg pc lst = Inr (Some r) \<Longrightarrow> passed pt pc"
  unfolding passed_def by blast

lemma passed_facts:
  assumes "passed pt pc" "0 \<le> pc" "pc < sizecode pt"
  obtains i op b c lastpc reg lst r where "i = pcode pt ! nat pc" "op = op_of i" "GET_OPCODE i = op_num op"
    "GET_OPCODE i < NUM_OPCODES" "GETARG_A i < maxstack pt" "check_mode pt pc i = Inr (Some (b, c))"
    "check_test pt pc (op_num op) = Inr (Some ())"
    "check_op pt lastpc reg op (GETARG_A i) b c pc lst = Inr (Some r)"
proof -
  define i where "i = pcode pt ! nat pc"
  have rd: "read_at (pcode pt) pc = Inr i" using assms by (simp add: read_at_ok i_def)
  obtain lastpc reg lst r where st: "symb_step pt lastpc reg pc lst = Inr (Some r)" using assms(1) by (auto simp: passed_def)
  then have lt: "GET_OPCODE i < NUM_OPCODES" using rd by (auto simp: symb_step_def check_cases Let_def)
  have on: "GET_OPCODE i = op_num (op_of i)" using opcodes_op_num [OF _ lt] by (simp add: op_of_def)
  obtain b c lst' where "GETARG_A i < maxstack pt" "check_mode pt pc i = Inr (Some (b, c))"
    "check_test pt pc (GET_OPCODE i) = Inr (Some ())"
    "check_op pt lastpc reg (op_of i) (GETARG_A i) b c pc lst' = Inr (Some r)"
    using st rd by (auto simp: symb_step_def check_cases Let_def op_of_def split: option.splits)
  then show ?thesis using on lt that [of i "op_of i" b c lastpc reg lst' r] by (simp add: i_def)
qed

lemma mode_table_more:
  "getOpMode 1 = iABx" "getBMode 1 = OpArgK" "getOpMode 2 = iABC" "getOpMode 4 = iABC" "getOpMode 8 = iABC"
  "getOpMode 11 = iABC" "getOpMode 21 = iABC" "getOpMode 28 = iABC" "getOpMode 29 = iABC" "getOpMode 30 = iABC"
  "getOpMode 33 = iABC" "getOpMode 37 = iABC"
  by code_simp+

lemma op_modes: "getOpMode (op_num op) = iABx \<longleftrightarrow> op \<in> {OP_LOADK, OP_GETGLOBAL, OP_SETGLOBAL, OP_CLOSURE}"
  "getOpMode (op_num op) = iAsBx \<longleftrightarrow> op \<in> {OP_JMP, OP_FORLOOP, OP_FORPREP}"
  "testTMode (op_num op) \<longleftrightarrow> op \<in> {OP_EQ, OP_LT, OP_LE, OP_TEST, OP_TESTSET, OP_TFORLOOP}"
proof -
  have "list_all (\<lambda>op. (getOpMode (op_num op) = iABx) = (op = OP_LOADK \<or> op = OP_GETGLOBAL \<or> op = OP_SETGLOBAL \<or> op = OP_CLOSURE) \<and>
      (getOpMode (op_num op) = iAsBx) = (op = OP_JMP \<or> op = OP_FORLOOP \<or> op = OP_FORPREP) \<and>
      testTMode (op_num op) = (op = OP_EQ \<or> op = OP_LT \<or> op = OP_LE \<or> op = OP_TEST \<or> op = OP_TESTSET \<or> op = OP_TFORLOOP)) opcodes"
    by code_simp
  moreover have "op \<in> set opcodes" by (cases op) (simp_all add: opcodes_def)
  ultimately show "getOpMode (op_num op) = iABx \<longleftrightarrow> op \<in> {OP_LOADK, OP_GETGLOBAL, OP_SETGLOBAL, OP_CLOSURE}"
    "getOpMode (op_num op) = iAsBx \<longleftrightarrow> op \<in> {OP_JMP, OP_FORLOOP, OP_FORPREP}"
    "testTMode (op_num op) \<longleftrightarrow> op \<in> {OP_EQ, OP_LT, OP_LE, OP_TEST, OP_TESTSET, OP_TFORLOOP}"
    unfolding list_all_iff by blast+
qed

lemma passed_operands:
  assumes "passed pt pc" "0 \<le> pc" "pc < sizecode pt"
  shows "instr_ok pt (nat pc)"
  using assms
proof (cases rule: passed_facts)
  case (1 i op b c lastpc reg lst r)
  have n: "nat (pc + 1) = Suc (nat pc)" using assms(2) by simp
  show ?thesis
  proof (cases "getOpMode (op_num op) = iABC")
    case True
    then have bc: "b = GETARG_B i" "c = GETARG_C i" using check_mode_b(1) [OF 1(6)] 1(3) by auto
    show ?thesis using 1(8,4,5) check_mode_b(1) [OF 1(6)] 1(3) True op_modes [of op] n
      unfolding instr_ok_def Let_def 1(1) [symmetric] 1(2) [symmetric] bc
      by (cases op) (auto simp: check_op_def check_cases check_open_def read_at_def Let_def LUA_MULTRET_def split: if_splits)
  next
    case False
    show ?thesis using 1(8,4,5) check_mode_b(2) [OF 1(6)] 1(3) False
      unfolding instr_ok_def Let_def 1(1) [symmetric] 1(2) [symmetric]
      by (cases op) (auto simp: check_op_def check_cases read_at_def Let_def mode_table mode_table_more split: if_splits)
  qed
qed

section \<open>Control flow stays on instructions\<close>

definition at_instr :: "Proto \<Rightarrow> int \<Rightarrow> bool" where
  "at_instr pt pc = (0 \<le> pc \<and> pc < sizecode pt \<and> scanned (pcode pt) (nat pc))"

lemma setlist0_op: "GET_OPCODE i < NUM_OPCODES \<Longrightarrow> setlist0 i \<longleftrightarrow> op_of i = OP_SETLIST \<and> GETARG_C i = 0"
  by (auto simp: setlist0_def cast_OpCode_def op_of_def)

lemma at_instr_Suc:
  assumes "0 \<le> pc" "pc + 1 < sizecode pt" "\<not> (scanned (pcode pt) (nat pc) \<and> setlist0 (pcode pt ! nat pc))"
  shows "at_instr pt (pc + 1)"
proof -
  have "nat (pc + 1) = Suc (nat pc)" using assms(1) by simp
  then show ?thesis using assms by (simp add: at_instr_def)
qed

lemma passed_jump:
  assumes "passed pt pc" "0 \<le> pc" "pc < sizecode pt" "op_of (pcode pt ! nat pc) \<in> {OP_JMP, OP_FORLOOP, OP_FORPREP}"
  shows "at_instr pt (pc + 1 + GETARG_sBx (pcode pt ! nat pc))"
  using assms(1-3)
proof (cases rule: passed_facts)
  case (1 i op b c lastpc reg lst r)
  have "getOpMode (GET_OPCODE i) = iAsBx" "getBMode (GET_OPCODE i) = OpArgR"
    using assms(4) 1(1-3) op_modes(2) [of op] by (auto simp: mode_table)
  then have "0 \<le> pc + 1 + GETARG_sBx i \<and> pc + 1 + GETARG_sBx i < sizecode pt \<and>
      (0 < pc + 1 + GETARG_sBx i \<longrightarrow> even (setlist_run (pcode pt) (nat (pc + 1 + GETARG_sBx i))))"
    using 1(6) by (auto simp: check_mode_def check_cases Let_def)
  then show ?thesis unfolding at_instr_def even_setlist_run 1(1) [symmetric]
    by (cases "pc + 1 + GETARG_sBx i = 0") auto
qed

lemma passed_falls:
  assumes "passed pt pc" "at_instr pt pc" "precheck pt = Inr True" "op_of (pcode pt ! nat pc) \<noteq> OP_RETURN"
    "\<not> setlist0 (pcode pt ! nat pc)"
  shows "at_instr pt (pc + 1)"
proof -
  have pc: "0 \<le> pc" "pc < sizecode pt" using assms(2) by (auto simp: at_instr_def)
  have "pc + 1 < sizecode pt"
  proof (rule ccontr)
    assume "\<not> pc + 1 < sizecode pt"
    then have "nat pc = length (pcode pt) - 1" using pc by linarith
    then have "cast_OpCode (GET_OPCODE (pcode pt ! nat pc)) = Some OP_RETURN" using precheck_return(2) [OF assms(3)] by simp
    then show False using assms(4) by (simp add: cast_OpCode_def op_of_def split: if_splits)
  qed
  then show ?thesis using pc assms(5) by (intro at_instr_Suc) auto
qed

lemma op_at_not_setlist:
  assumes "op_at pt (pc + 1) = Inr (Some op)" "op \<noteq> OP_SETLIST" "0 \<le> pc" "pc + 2 < sizecode pt"
  shows "at_instr pt (pc + 2)"
proof -
  have "\<not> setlist0 (pcode pt ! nat (pc + 1))" using assms by (auto simp: op_at_def read_at_ok setlist0_def)
  then show ?thesis using assms(3,4) at_instr_Suc [of "pc + 1" pt] by (simp add: add.assoc)
qed

lemma passed_test:
  assumes "passed pt pc" "at_instr pt pc" "precheck pt = Inr True" "testTMode (op_num (op_of (pcode pt ! nat pc)))"
    "\<And>q. at_instr pt q \<Longrightarrow> passed pt q"
  shows "at_instr pt (pc + 2)" "at_instr pt (pc + 2 + GETARG_sBx (pcode pt ! nat (pc + 1)))"
proof -
  have pc: "0 \<le> pc" "pc < sizecode pt" using assms(2) by (auto simp: at_instr_def)
  have nop: "op_of (pcode pt ! nat pc) \<noteq> OP_SETLIST" "op_of (pcode pt ! nat pc) \<noteq> OP_RETURN" 
    using assms(4) unfolding op_modes(3) by (elim insertE; simp)+
  have "pc + 2 < sizecode pt \<and> op_at pt (pc + 1) = Inr (Some OP_JMP) \<and> GET_OPCODE (pcode pt ! nat pc) < NUM_OPCODES"
    using assms(1) pc
  proof (cases rule: passed_facts)
    case 1
    then show ?thesis using assms(4) by (auto simp: check_test_def check_cases)
  qed
  then have ck: "pc + 2 < sizecode pt" "op_at pt (pc + 1) = Inr (Some OP_JMP)" and lt: "GET_OPCODE (pcode pt ! nat pc) < NUM_OPCODES"
    by auto
  show "at_instr pt (pc + 2)" using ck pc by (intro op_at_not_setlist) auto
  have n: "at_instr pt (pc + 1)" using assms(1-3) nop lt by (intro passed_falls) (auto simp: setlist0_op)
  have "op_of (pcode pt ! nat (pc + 1)) = OP_JMP"
    using ck(2) n by (auto simp: op_at_def read_at_def at_instr_def cast_OpCode_def op_of_def split: if_splits)
  then have "at_instr pt (pc + 1 + 1 + GETARG_sBx (pcode pt ! nat (pc + 1)))"
    using assms(5) [OF n] n by (intro passed_jump) (auto simp: at_instr_def)
  then show "at_instr pt (pc + 2 + GETARG_sBx (pcode pt ! nat (pc + 1)))" by (simp add: add.assoc)
qed

lemma check_upvals_at:
  "check_upvals pt j n = Inr True \<Longrightarrow> 0 \<le> j \<Longrightarrow> m < n \<Longrightarrow>
   j + int m < sizecode pt \<and> (cast_OpCode (GET_OPCODE (pcode pt ! nat (j + int m))) \<in> {Some OP_GETUPVAL, Some OP_MOVE})"
proof (induction n arbitrary: j m)
  case (Suc n)
  then have j: "j < sizecode pt" "cast_OpCode (GET_OPCODE (pcode pt ! nat j)) \<in> {Some OP_GETUPVAL, Some OP_MOVE}"
    "check_upvals pt (j + 1) n = Inr True"
    by (auto simp: op_at_def read_at_def split: if_splits)
  show ?case
  proof (cases m)
    case 0
    then show ?thesis using j by simp
  next
    case (Suc m')
    then show ?thesis using Suc.IH [OF j(3), of m'] Suc.prems by (simp add: add.assoc algebra_simps)
  qed
qed simp

text \<open>A closure is followed by its upvalues and an instruction.\<close>

lemma passed_upvals:
  assumes "passed pt pc" "at_instr pt pc" "precheck pt = Inr True" "op_of (pcode pt ! nat pc) = OP_CLOSURE"
  shows "\<And>m. m \<le> unat (nups (pp pt ! nat (GETARG_Bx (pcode pt ! nat pc)))) \<Longrightarrow> at_instr pt (pc + 1 + int m)"
    "\<And>m. m < unat (nups (pp pt ! nat (GETARG_Bx (pcode pt ! nat pc)))) \<Longrightarrow>
       cast_OpCode (GET_OPCODE (pcode pt ! nat (pc + 1 + int m))) \<in> {Some OP_GETUPVAL, Some OP_MOVE}"
proof -
  have pc: "0 \<le> pc" "pc < sizecode pt" using assms(2) by (auto simp: at_instr_def)
  define nup where "nup = nups (pp pt ! nat (GETARG_Bx (pcode pt ! nat pc)))"
  have "check_upvals pt (pc + 1) (unat nup) = Inr True \<and> GET_OPCODE (pcode pt ! nat pc) < NUM_OPCODES"
    using assms(1) pc
  proof (cases rule: passed_facts)
    case (1 i op b c lastpc reg lst r)
    have "op = OP_CLOSURE" using 1 assms(4) by simp
    moreover have "b = GETARG_Bx i" using check_mode_b(2) [OF 1(6)] 1(3) \<open>op = OP_CLOSURE\<close> by (simp add: mode_table)
    ultimately show ?thesis using 1(8,4) by (auto simp: 1(1) nup_def check_op_def check_cases Let_def read_at_def split: if_splits)
  qed
  then have up: "check_upvals pt (pc + 1) (unat nup) = Inr True" and lt: "GET_OPCODE (pcode pt ! nat pc) < NUM_OPCODES" by auto
  have c: "cast_OpCode (GET_OPCODE (pcode pt ! (length (pcode pt) - 1))) = Some OP_RETURN" using precheck_return(2) [OF assms(3)] .
  have u: "cast_OpCode (GET_OPCODE (pcode pt ! nat (pc + 1 + int m))) \<in> {Some OP_GETUPVAL, Some OP_MOVE}"
    if "m < unat nup" for m using check_upvals_at [OF up, of m] pc that by simp
  then show "\<And>m. m < unat (nups (pp pt ! nat (GETARG_Bx (pcode pt ! nat pc)))) \<Longrightarrow>
       cast_OpCode (GET_OPCODE (pcode pt ! nat (pc + 1 + int m))) \<in> {Some OP_GETUPVAL, Some OP_MOVE}" by (simp add: nup_def)
  have "at_instr pt (pc + 1 + int m)" if "m \<le> unat nup" for m
    using that
  proof (induction m)
    case 0
    then show ?case using assms lt passed_falls [of pt pc] by (simp add: setlist0_op)
  next
    case (Suc m)
    have m: "pc + 1 + int m < sizecode pt" "cast_OpCode (GET_OPCODE (pcode pt ! nat (pc + 1 + int m))) \<in> {Some OP_GETUPVAL, Some OP_MOVE}"
      using check_upvals_at [OF up, of m] pc Suc.prems by (auto simp: add.assoc)
    have "pc + 1 + int m + 1 < sizecode pt"
    proof (rule ccontr)
      assume "\<not> ?thesis"
      then have "nat (pc + 1 + int m) = length (pcode pt) - 1" using m(1) pc by linarith
      then show False using m(2) c by simp
    qed
    then have "at_instr pt (pc + 1 + int m + 1)" using m(2) pc by (intro at_instr_Suc) (auto simp: setlist0_def)
    then show ?case by (simp add: add.assoc algebra_simps)
  qed
  then show "\<And>m. m \<le> unat (nups (pp pt ! nat (GETARG_Bx (pcode pt ! nat pc)))) \<Longrightarrow> at_instr pt (pc + 1 + int m)"
    by (simp add: nup_def)
qed

lemma passed_closure:
  assumes "passed pt pc" "at_instr pt pc" "precheck pt = Inr True" "op_of (pcode pt ! nat pc) = OP_CLOSURE"
  shows "at_instr pt (pc + 1 + uint (nups (pp pt ! nat (GETARG_Bx (pcode pt ! nat pc)))))"
  using passed_upvals(1) [OF assms, of "unat (nups (pp pt ! nat (GETARG_Bx (pcode pt ! nat pc))))"] by simp

lemma passed_loadbool:
  assumes "passed pt pc" "at_instr pt pc" "op_of (pcode pt ! nat pc) = OP_LOADBOOL" "GETARG_C (pcode pt ! nat pc) = 1"
  shows "at_instr pt (pc + 2)"
proof -
  have pc: "0 \<le> pc" "pc < sizecode pt" using assms(2) by (auto simp: at_instr_def)
  have "pc + 2 < sizecode pt \<and> \<not> setlist0 (pcode pt ! nat (pc + 1))"
    using assms(1) pc
  proof (cases rule: passed_facts)
    case (1 i op b c lastpc reg lst r)
    have "op = OP_LOADBOOL" using 1 assms(3) by simp
    moreover have "c = 1" using check_mode_b(1) [OF 1(6)] 1(1,3) assms(4) \<open>op = OP_LOADBOOL\<close> by (simp add: mode_table_more)
    ultimately show ?thesis using 1(8) pc
      by (auto simp: check_op_def check_cases Let_def read_at_def setlist0_def split: if_splits)
  qed
  then show ?thesis using pc at_instr_Suc [of "pc + 1" pt] by (simp add: add.assoc)
qed

lemma passed_setlist:
  assumes "passed pt pc" "at_instr pt pc" "op_of (pcode pt ! nat pc) = OP_SETLIST" "GETARG_C (pcode pt ! nat pc) = 0"
  shows "at_instr pt (pc + 2)"
proof -
  have pc: "0 \<le> pc" "pc < sizecode pt" using assms(2) by (auto simp: at_instr_def)
  have "pc + 2 < sizecode pt \<and> setlist0 (pcode pt ! nat pc)"
    using assms(1) pc
  proof (cases rule: passed_facts)
    case (1 i op b c lastpc reg lst r)
    have "op = OP_SETLIST" using 1 assms(3) by simp
    moreover have "c = 0" using check_mode_b(1) [OF 1(6)] 1(1,3) assms(4) \<open>op = OP_SETLIST\<close> by (simp add: mode_table)
    ultimately show ?thesis using 1(8,4) assms(3,4)
      by (auto simp: check_op_def check_cases Let_def 1(1) setlist0_op split: if_splits)
  qed
  moreover have "nat (pc + 1) = Suc (nat pc)" using pc by simp
  ultimately show ?thesis using pc assms(2) at_instr_Suc [of "pc + 1" pt] by (simp add: add.assoc at_instr_def)
qed

definition loadbool_01 :: "Proto \<Rightarrow> bool" where
  "loadbool_01 pt = list_all (\<lambda>i. op_of i = OP_LOADBOOL \<longrightarrow> GETARG_C i \<le> 1) (pcode pt)"

lemma passed_next:
  assumes "at_instr pt pc" "precheck pt = Inr True" "loadbool_01 pt" "q \<in> set (vm_next pt pc)"
    "\<And>q. at_instr pt q \<Longrightarrow> passed pt q"
  shows "at_instr pt q"
proof -
  define i where "i = pcode pt ! nat pc"
  have pc: "0 \<le> pc" "pc < sizecode pt" and p: "passed pt pc" using assms(1,5) by (auto simp: at_instr_def)
  have "GET_OPCODE i < NUM_OPCODES" using passed_operands [OF p pc] by (simp add: instr_ok_def Let_def i_def)
  then have falls: "at_instr pt (pc + 1)" if "op_of i \<noteq> OP_RETURN" "\<not> (op_of i = OP_SETLIST \<and> GETARG_C i = 0)"
    using passed_falls [OF p assms(1,2)] that unfolding i_def by (simp add: setlist0_op)
  have test: "q = pc + 2 \<or> q = pc + 2 + GETARG_sBx (pcode pt ! nat (pc + 1)) \<Longrightarrow> at_instr pt q"
    if "op_of i \<in> {OP_EQ, OP_LT, OP_LE, OP_TEST, OP_TESTSET, OP_TFORLOOP}"
    using passed_test [OF p assms(1,2) _ assms(5)] that op_modes(3) [of "op_of i"] by (auto simp: i_def)
  have lb: "GETARG_C i = 1" if "op_of i = OP_LOADBOOL" "GETARG_C i \<noteq> 0"
  proof -
    have "i \<in> set (pcode pt)" using pc by (simp add: i_def)
    then have "GETARG_C i \<le> 1" using assms(3) that(1) by (auto simp: loadbool_01_def list_all_iff)
    then show ?thesis using that(2) GETARG_nonneg(3) [of i] by linarith
  qed
  note jump = passed_jump [OF p pc]
  show ?thesis
  proof (cases "op_of i")
    case OP_CLOSURE
    then show ?thesis using assms(4) passed_closure [OF p assms(1,2)] by (simp add: vm_next_def i_def Let_def)
  qed (use assms(4) falls test jump lb passed_loadbool [OF p assms(1)] passed_setlist [OF p assms(1)] in
    \<open>auto simp: vm_next_def Let_def simp flip: i_def split: if_splits\<close>)
qed

text \<open>The full check visits every instruction.\<close>

lemma scanned_next:
  assumes "0 \<le> pc" "scanned (pcode pt) (nat pc)"
  shows "scanned (pcode pt) (nat (pc + skips pt pc))" "skips pt pc = 2 \<Longrightarrow> \<not> scanned (pcode pt) (nat (pc + 1))"
proof -
  have n: "nat (pc + 1) = Suc (nat pc)" "nat (pc + 2) = Suc (Suc (nat pc))" using assms(1) by auto
  show "scanned (pcode pt) (nat (pc + skips pt pc))" "skips pt pc = 2 \<Longrightarrow> \<not> scanned (pcode pt) (nat (pc + 1))"
    using assms(2) n by (auto simp: skips_def setlist0_def Let_def split: if_splits)
qed

lemma symb_loop_passes:
  assumes "maxstack pt \<le> MAXSTACK" "symb_loop pt (sizecode pt) NO_REG fuel pc lst = Inr (Some l)" "0 \<le> pc"
    "scanned (pcode pt) (nat pc)" "at_instr pt q" "pc \<le> q"
  shows "passed pt q"
  using assms(2-)
proof (induction fuel arbitrary: pc lst)
  case 0
  then show ?case by (auto simp: symb_loop.simps at_instr_def split: if_splits)
next
  case (Suc fuel)
  then have lt: "pc < sizecode pt" by (auto simp: at_instr_def)
  obtain pc' lst' where st: "symb_step pt (sizecode pt) NO_REG pc lst = Inr (Some (pc', lst'))"
    and lp: "symb_loop pt (sizecode pt) NO_REG fuel (pc' + 1) lst' = Inr (Some l)"
    using Suc.prems(1) lt by (subst (asm) symb_loop.simps) (auto split: option.splits)
  have nx: "pc' + 1 = pc + skips pt pc" by (rule symb_step_next(1) [OF st Suc.prems(2) lt assms(1)])
  show ?case
  proof (cases "q = pc")
    case True
    then show ?thesis using st by (auto intro: passedI)
  next
    case False
    have "skips pt pc = 1 \<or> skips pt pc = 2" by (simp add: skips_def Let_def)
    moreover have "q \<noteq> pc + 1" if "skips pt pc = 2"
      using scanned_next(2) [OF Suc.prems(2,3) that] Suc.prems(4) by (auto simp: at_instr_def)
    ultimately have "pc' + 1 \<le> q" using False Suc.prems(5) nx by linarith
    then show ?thesis
      using Suc.IH [OF lp] scanned_next(1) [OF Suc.prems(2,3)] nx Suc.prems skips_pos [of pt pc] by simp
  qed
qed

lemma checkcode_passes:
  assumes "luaG_checkcode pt = Inr True" "at_instr pt q"
  shows "precheck pt = Inr True" "passed pt q"
proof -
  show pre: "precheck pt = Inr True" using assms(1) by (auto simp: luaG_checkcode_def symbexec_def split: if_splits)
  obtain l where "symb_loop pt (sizecode pt) NO_REG (nat (sizecode pt)) 0 (sizecode pt - 1) = Inr (Some l)"
    using assms(1) pre by (auto simp: luaG_checkcode_def symbexec_def split: option.splits)
  then show "passed pt q" using precheck_return(3) [OF pre] assms(2)
    by (intro symb_loop_passes) (auto simp: at_instr_def)
qed

section \<open>Claims\<close>


text \<open>\<open>JMP 0; RETURN 0 1\<close>.\<close>

definition flow_example :: Proto where
  "flow_example = Proto [] [2147467286, 8388638] [] [] [] [] None 0 0 0 0 0 2"


text \<open>
  C26. Without that hypothesis the interpreter can leave the code: the checker tests the C operand of
  OP_LOADBOOL against 1, the interpreter skips for every non-zero C, and a function of two
  instructions is accepted although its first instruction continues past its last one.
\<close>

theorem luaG_checkcode_loadbool_gap:
  "\<exists>pt pc. luaG_checkcode pt = Inr True \<and> vm_reaches pt pc \<and> sizecode pt \<le> pc"
proof -
  \<comment> \<open>\<open>LOADBOOL 0 0 2; RETURN 0 1\<close>\<close>
  define pt where "pt = Proto [] [32770, 8388638] [] [] [] [] None 0 0 0 0 0 2"
  have a: "luaG_checkcode pt = Inr True" unfolding pt_def by code_simp
  have "vm_next pt 0 = [2]" unfolding pt_def by code_simp
  then have "vm_reaches pt 2" using vm_reaches.start vm_reaches.step [of pt 0 2] by simp
  moreover have "sizecode pt \<le> 2" by (simp add: pt_def)
  ultimately show ?thesis using a by blast
qed

end
