(* ===== verification/Ldebug_names.thy ===== *)
theory Ldebug_names
  imports Ldebug_flow
begin

text \<open>
  ldebug.c: the names that error messages give to values. \<open>getobjname\<close> runs the symbolic execution
  up to the current instruction to find what last wrote a register, and follows moves to lower
  registers. The pair returned is the kind of name and the name; \<open>Inr None\<close> is ``no useful name''.
\<close>

section \<open>Finding a name\<close>

definition svalue :: "kval \<Rightarrow> lstr res" where
  "svalue v = (case v of Vstring s \<Rightarrow> Inr s | _ \<Rightarrow> Inl (Undefined ''svalue''))"

definition kname :: "Proto \<Rightarrow> int \<Rightarrow> lstr res" where
  "kname pt c =
     (if ISK c
      then rbind (read_at (pk pt) (INDEXK c)) (\<lambda>v. if ttype v = 4 then svalue v else Inr (Some ''?''))
      else Inr (Some ''?''))"

text \<open>The recursion goes to a lower register each time: the fuel is the register plus one.\<close>

fun getobjname_loop :: "nat \<Rightarrow> Proto \<Rightarrow> int \<Rightarrow> int \<Rightarrow> (string \<times> lstr) option res" where
  "getobjname_loop 0 pt pc stackpos = Inl (Undefined ''fuel'')"
| "getobjname_loop (Suc fuel) pt pc stackpos =
     (case luaF_getlocalname pt (stackpos + 1) pc of
        Some nm \<Rightarrow> Inr (Some (''local'', nm))
      | None \<Rightarrow>
          rbind (symbexec pt pc stackpos) (\<lambda>i.
            case cast_OpCode (GET_OPCODE i) of
              Some OP_GETGLOBAL \<Rightarrow>
                rbind (read_at (pk pt) (GETARG_Bx i)) (\<lambda>v. rbind (svalue v) (\<lambda>nm. Inr (Some (''global'', nm))))
            | Some OP_MOVE \<Rightarrow>
                (if GETARG_B i < GETARG_A i then getobjname_loop fuel pt pc (GETARG_B i) else Inr None)
            | Some OP_GETTABLE \<Rightarrow> rbind (kname pt (GETARG_C i)) (\<lambda>nm. Inr (Some (''field'', nm)))
            | Some OP_GETUPVAL \<Rightarrow>
                (if upvalues pt = [] then Inr (Some (''upvalue'', Some ''?''))
                 else rbind (read_at (upvalues pt) (GETARG_B i)) (\<lambda>nm. Inr (Some (''upvalue'', nm))))
            | Some OP_SELF \<Rightarrow> rbind (kname pt (GETARG_C i)) (\<lambda>nm. Inr (Some (''method'', nm)))
            | _ \<Rightarrow> Inr None))"

definition getobjname :: "Proto \<Rightarrow> int \<Rightarrow> int \<Rightarrow> (string \<times> lstr) option res" where
  "getobjname pt pc stackpos = getobjname_loop (Suc (nat stackpos)) pt pc stackpos"

text \<open>\<open>getfuncname\<close>, for a caller that is a Lua function not lost in a tail call.\<close>

definition getfuncname :: "Proto \<Rightarrow> int \<Rightarrow> (string \<times> lstr) option res" where
  "getfuncname pt pc =
     rbind (read_at (pcode pt) pc) (\<lambda>i.
       if cast_OpCode (GET_OPCODE i) \<in> {Some OP_CALL, Some OP_TAILCALL, Some OP_TFORLOOP}
       then getobjname pt pc (GETARG_A i) else Inr None)"

section \<open>What the symbolic execution remembers\<close>

definition remembered :: "Proto \<Rightarrow> int \<Rightarrow> int \<Rightarrow> bool" where
  "remembered pt reg l = (0 \<le> l \<and> l < sizecode pt \<and>
     (l = sizecode pt - 1 \<or> passed pt l \<and> (GET_OPCODE (pcode pt ! nat l) = 0 \<longrightarrow> GETARG_A (pcode pt ! nat l) = reg)))"

lemma symb_step_remembers:
  assumes "symb_step pt lastpc reg pc lst = Inr (Some (pc', lst'))" "0 \<le> pc" "pc < sizecode pt"
  shows "pc \<le> pc'" "remembered pt reg lst \<Longrightarrow> remembered pt reg lst'"
proof -
  define i where "i = pcode pt ! nat pc"
  define op where "op = opcodes ! nat (GET_OPCODE i)"
  have rd: "read_at (pcode pt) pc = Inr i" using assms by (simp add: read_at_ok i_def)
  obtain b c where lt: "GET_OPCODE i < NUM_OPCODES" and m: "check_mode pt pc i = Inr (Some (b, c))"
    and op': "check_op pt lastpc reg op (GETARG_A i) b c pc (if testAMode (GET_OPCODE i) \<and> GETARG_A i = reg then pc else lst)
      = Inr (Some (pc', lst'))"
    using assms(1) rd by (auto simp: symb_step_def check_cases Let_def op_def split: option.splits)
  have on: "GET_OPCODE i = op_num op" using opcodes_op_num [OF _ lt] by (simp add: op_def)
  show "pc \<le> pc'"
    using op' by (cases op) (auto simp: check_op_def check_cases Let_def check_open_def split: if_splits)
  have "lst' = lst \<or> lst' = pc \<and> (op = OP_MOVE \<longrightarrow> GETARG_A i = reg)"
    using op' by (cases op) (auto simp: check_op_def check_cases Let_def check_open_def split: if_splits)
  moreover have "passed pt pc" by (rule passedI [OF assms(1)])
  moreover have "op = OP_MOVE" if "GET_OPCODE i = 0" using that op_num_inject [of op OP_MOVE] on by simp
  ultimately show "remembered pt reg lst \<Longrightarrow> remembered pt reg lst'"
    using assms(2,3) by (auto simp: remembered_def i_def)
qed

lemma symb_loop_remembers:
  assumes "precheck pt = Inr True" "lastpc \<le> sizecode pt" "0 \<le> pc" "remembered pt reg lst" "lastpc \<le> pc + int fuel"
  shows "\<exists>r. symb_loop pt lastpc reg fuel pc lst = Inr r \<and> (\<forall>l. r = Some l \<longrightarrow> remembered pt reg l)"
  using assms(3-)
proof (induction fuel arbitrary: pc lst)
  case 0
  then show ?case by (simp add: symb_loop.simps)
next
  case (Suc fuel)
  show ?case
  proof (cases "pc < lastpc")
    case False
    then show ?thesis using Suc.prems by (simp add: symb_loop.simps)
  next
    case True
    then have lt: "pc < sizecode pt" using assms(2) by simp
    obtain r where r: "symb_step pt lastpc reg pc lst = Inr r"
      using symb_step_safe [OF assms(1) Suc.prems(1) lt] by (metis sum.exhaust)
    show ?thesis
    proof (cases r)
      case None
      then show ?thesis using r True by (subst symb_loop.simps) simp
    next
      case (Some x)
      obtain pc' lst' where x: "x = (pc', lst')" by fastforce
      note n = symb_step_remembers [OF r [unfolded Some x] Suc.prems(1) lt]
      have "\<exists>r. symb_loop pt lastpc reg fuel (pc' + 1) lst' = Inr r \<and> (\<forall>l. r = Some l \<longrightarrow> remembered pt reg l)"
        using n Suc.prems by (intro Suc.IH) auto
      then show ?thesis using r True Some x by (subst symb_loop.simps) simp
    qed
  qed
qed

lemma symbexec_result:
  assumes "0 \<le> pc" "pc \<le> sizecode pt"
  obtains i where "symbexec pt pc reg = Inr i"
    "i = 0 \<or> cast_OpCode (GET_OPCODE i) = Some OP_RETURN \<or>
     (\<exists>l. 0 \<le> l \<and> l < sizecode pt \<and> i = pcode pt ! nat l \<and> instr_ok pt (nat l) \<and> (GET_OPCODE i = 0 \<longrightarrow> GETARG_A i = reg))"
proof -
  obtain ok where ok: "precheck pt = Inr ok" using precheck_total by blast
  show ?thesis
  proof (cases ok)
    case False
    then show ?thesis using ok by (intro that [of 0]) (simp_all add: symbexec_def)
  next
    case True
    then have pre: "precheck pt = Inr True" using ok by simp
    have r0: "remembered pt reg (sizecode pt - 1)" using precheck_return(1) [OF pre] by (simp add: remembered_def)
    obtain r where r: "symb_loop pt pc reg (nat pc) 0 (sizecode pt - 1) = Inr r" "\<And>l. r = Some l \<Longrightarrow> remembered pt reg l"
      using symb_loop_remembers [OF pre assms(2) _ r0, of 0 "nat pc"] assms(1) by auto
    show ?thesis
    proof (cases r)
      case None
      then show ?thesis using pre r by (intro that [of 0]) (simp_all add: symbexec_def)
    next
      case (Some l)
      then have l: "remembered pt reg l" using r by simp
      have "nat (sizecode pt - 1) = length (pcode pt) - 1" by simp
      then show ?thesis
        using that [of "pcode pt ! nat l"] l pre r(1) Some precheck_return(2) [OF pre] passed_operands [of pt l]
        by (cases "l = sizecode pt - 1") (auto simp: symbexec_def remembered_def read_at_ok)
    qed
  qed
qed

section \<open>Claims\<close>

lemma rk_constant: "checkArgMode pt c OpArgK \<Longrightarrow> 0 \<le> c \<Longrightarrow> \<exists>nm. kname pt c = Inr nm"
  by (auto simp: checkArgMode_def kname_def read_at_def svalue_def INDEXK_def split: TValue.split if_splits)

lemma mode_table_names: "getOpMode 6 = iABC" "getCMode 6 = OpArgK" "getCMode 11 = OpArgK" "getOpMode 4 = iABC"
  by code_simp+


text \<open>\<open>GETUPVAL 0 1; RETURN 0 1\<close>, with two upvalues of which \<open>us\<close> are named.\<close>

definition upval_example :: "lstr list \<Rightarrow> Proto" where
  "upval_example us = Proto [] [8388612, 8388638] [] [] [] us None 0 0 2 0 0 2"


text \<open>
  C27. The checker does not ask that every upvalue have a name, only that there be no more names than
  upvalues: for a function it accepts with fewer names than upvalues (and at least one),
  \<open>getobjname\<close> reads past the end of the vector of names.
\<close>

theorem getobjname_upvalue_gap:
  "\<exists>pt pc stackpos. luaG_checkcode pt = Inr True \<and> 0 \<le> pc \<and> pc < sizecode pt \<and>
     getobjname pt pc stackpos = Inl (Undefined ''read'')"
proof -
  have "luaG_checkcode (upval_example [Some ''a'']) = Inr True" by code_simp
  moreover have "getobjname (upval_example [Some ''a'']) 1 0 = Inl (Undefined ''read'')" by code_simp
  moreover have "0 \<le> (1 :: int) \<and> 1 < sizecode (upval_example [Some ''a''])" by (simp add: upval_example_def)
  ultimately show ?thesis by blast
qed

end
