(* ===== verification/Ldump.thy ===== *)
theory Ldump
  imports Lproto
begin

text \<open>
  ldump.c: writing precompiled chunks. The writer is a C callback: a parameter \<open>w\<close> that maps a block and
  its data to new data and a status. The lemmas show that dumping is feeding a fixed sequence of
  blocks to the writer until it fails, so that the bytes of a chunk are a function of the prototype.
\<close>

section \<open>Machine representation\<close>

text \<open>The bytes of a little-endian object of \<open>n\<close> bytes.\<close>

primrec le_bytes :: "nat \<Rightarrow> nat \<Rightarrow> bytes" where
  "le_bytes 0 x = []"
| "le_bytes (Suc n) x = char_of (x mod 256) # le_bytes n (x div 256)"

primrec le_value :: "bytes \<Rightarrow> nat" where
  "le_value [] = 0"
| "le_value (c # cs) = of_char c + 256 * le_value cs"

lemma length_le_bytes [simp]: "length (le_bytes n x) = n"
  by (induction n arbitrary: x) auto

lemma le_value_bytes: "x < 256 ^ n \<Longrightarrow> le_value (le_bytes n x) = x"
  by (induction n arbitrary: x) (auto simp: less_mult_imp_div_less mult.commute)

definition int_bytes :: "int \<Rightarrow> bytes" where
  "int_bytes x = le_bytes 4 (unat (word_of_int x :: uint32))"

definition size_bytes :: "size_t \<Rightarrow> bytes" where
  "size_bytes x = le_bytes 8 (unat x)"

definition number_bytes :: "lua_Number \<Rightarrow> bytes" where
  "number_bytes x = le_bytes 8 (unat (dbits x))"

definition instr_bytes :: "Instruction \<Rightarrow> bytes" where
  "instr_bytes i = le_bytes 4 (unat i)"

section \<open>Dumping\<close>

type_synonym 'd writer = "bytes \<Rightarrow> 'd \<Rightarrow> 'd \<times> int"

record 'd DumpState =
  ddata :: 'd
  strip :: bool
  status :: int

definition DumpBlock :: "'d writer \<Rightarrow> bytes \<Rightarrow> 'd DumpState \<Rightarrow> 'd DumpState" where
  "DumpBlock w b D = (if status D = 0 then let (d, s) = w b (ddata D) in D\<lparr>ddata := d, status := s\<rparr> else D)"

definition DumpChar :: "'d writer \<Rightarrow> int \<Rightarrow> 'd DumpState \<Rightarrow> 'd DumpState" where
  "DumpChar w y = DumpBlock w [char_of (nat (y mod 256))]"

definition DumpInt :: "'d writer \<Rightarrow> int \<Rightarrow> 'd DumpState \<Rightarrow> 'd DumpState" where
  "DumpInt w x = DumpBlock w (int_bytes x)"

definition DumpNumber :: "'d writer \<Rightarrow> lua_Number \<Rightarrow> 'd DumpState \<Rightarrow> 'd DumpState" where
  "DumpNumber w x = DumpBlock w (number_bytes x)"

definition DumpVector :: "'d writer \<Rightarrow> bytes list \<Rightarrow> 'd DumpState \<Rightarrow> 'd DumpState" where
  "DumpVector w xs D = DumpBlock w (concat xs) (DumpInt w (int (length xs)) D)"

definition DumpString :: "'d writer \<Rightarrow> lstr \<Rightarrow> 'd DumpState \<Rightarrow> 'd DumpState" where
  "DumpString w s D =
     (case s of
        None \<Rightarrow> DumpBlock w (size_bytes 0) D
      | Some str \<Rightarrow> DumpBlock w (str @ [CHR 0x00]) (DumpBlock w (size_bytes (of_nat (length str) + 1)) D))"

definition DumpCode :: "'d writer \<Rightarrow> Proto \<Rightarrow> 'd DumpState \<Rightarrow> 'd DumpState" where
  "DumpCode w f = DumpVector w (map instr_bytes (pcode f))"

definition DumpConstant :: "'d writer \<Rightarrow> kval \<Rightarrow> 'd DumpState \<Rightarrow> 'd DumpState" where
  "DumpConstant w v D =
     (let D = DumpChar w (ttype v) D
      in case v of
           Vboolean b \<Rightarrow> DumpChar w (if b then 1 else 0) D
         | Vnumber x \<Rightarrow> DumpNumber w x D
         | Vstring s \<Rightarrow> DumpString w s D
         | _ \<Rightarrow> D)"

definition DumpLocVar :: "'d writer \<Rightarrow> LocVar \<Rightarrow> 'd DumpState \<Rightarrow> 'd DumpState" where
  "DumpLocVar w v D = DumpInt w (endpc v) (DumpInt w (startpc v) (DumpString w (varname v) D))"

definition DumpDebug :: "'d writer \<Rightarrow> Proto \<Rightarrow> 'd DumpState \<Rightarrow> 'd DumpState" where
  "DumpDebug w f D =
     (let lines = (if strip D then [] else lineinfo f);
          vars = (if strip D then [] else locvars f);
          ups = (if strip D then [] else upvalues f);
          D = DumpVector w (map int_bytes lines) D;
          D = fold (DumpLocVar w) vars (DumpInt w (int (length vars)) D)
      in fold (DumpString w) ups (DumpInt w (int (length ups)) D))"

lemma size_pp: "g \<in> set (pp f) \<Longrightarrow> size g < size f"
  by (cases f) (auto dest!: split_list simp: less_Suc_eq_le trans_le_add1)

text \<open>The first half of \<open>DumpConstants\<close>; the loop over the nested functions is part of \<open>DumpFunction\<close>.\<close>

definition DumpConstants :: "'d writer \<Rightarrow> Proto \<Rightarrow> 'd DumpState \<Rightarrow> 'd DumpState" where
  "DumpConstants w f D = fold (DumpConstant w) (pk f) (DumpInt w (int (length (pk f))) D)"

function DumpFunction :: "'d writer \<Rightarrow> Proto \<Rightarrow> lstr \<Rightarrow> 'd DumpState \<Rightarrow> 'd DumpState" where
  "DumpFunction w f p D =
     (let D = DumpString w (if source f = p \<or> strip D then None else source f) D;
          D = DumpInt w (linedefined f) D;
          D = DumpInt w (lastlinedefined f) D;
          D = DumpChar w (uint (nups f)) D;
          D = DumpChar w (uint (numparams f)) D;
          D = DumpChar w (uint (is_vararg f)) D;
          D = DumpChar w (uint (maxstacksize f)) D;
          D = DumpConstants w f (DumpCode w f D);
          D = fold (\<lambda>g. DumpFunction w g (source f)) (pp f) (DumpInt w (int (length (pp f))) D)
      in DumpDebug w f D)"
  by pat_completeness auto
termination
  by (relation "measure (\<lambda>(w, f, p, D). size f)") (auto simp: size_pp)

declare DumpFunction.simps [simp del]

definition LUA_SIGNATURE :: bytes where "LUA_SIGNATURE = CHR 0x1B # ''Lua''"

text \<open>The header of this build: version 0x51, official format, little endian, the sizes, IEEE numbers.\<close>

definition luaU_header :: bytes where
  "luaU_header = LUA_SIGNATURE @ map char_of [0x51, 0, 1, 4, 8, 4, 8, 0 :: nat]"

definition DumpHeader :: "'d writer \<Rightarrow> 'd DumpState \<Rightarrow> 'd DumpState" where
  "DumpHeader w = DumpBlock w luaU_header"

definition luaU_dump :: "Proto \<Rightarrow> 'd writer \<Rightarrow> 'd \<Rightarrow> bool \<Rightarrow> int \<times> 'd" where
  "luaU_dump f w data str =
     (let D = DumpFunction w f None (DumpHeader w \<lparr>ddata = data, strip = str, status = 0\<rparr>)
      in (status D, ddata D))"

section \<open>The blocks of a chunk\<close>

definition str_blocks :: "lstr \<Rightarrow> bytes list" where
  "str_blocks s = (case s of None \<Rightarrow> [size_bytes 0] | Some str \<Rightarrow> [size_bytes (of_nat (length str) + 1), str @ [CHR 0x00]])"

definition vec_blocks :: "bytes list \<Rightarrow> bytes list" where
  "vec_blocks xs = [int_bytes (int (length xs)), concat xs]"

definition byte_block :: "int \<Rightarrow> bytes" where
  "byte_block y = [char_of (nat (y mod 256))]"

definition const_blocks :: "kval \<Rightarrow> bytes list" where
  "const_blocks v = byte_block (ttype v) #
     (case v of Vboolean b \<Rightarrow> [byte_block (if b then 1 else 0)] | Vnumber x \<Rightarrow> [number_bytes x]
      | Vstring s \<Rightarrow> str_blocks s | _ \<Rightarrow> [])"

definition locvar_blocks :: "LocVar \<Rightarrow> bytes list" where
  "locvar_blocks v = str_blocks (varname v) @ [int_bytes (startpc v), int_bytes (endpc v)]"

definition seq_blocks :: "('a \<Rightarrow> bytes list) \<Rightarrow> 'a list \<Rightarrow> bytes list" where
  "seq_blocks b xs = int_bytes (int (length xs)) # concat (map b xs)"

definition debug_blocks :: "bool \<Rightarrow> Proto \<Rightarrow> bytes list" where
  "debug_blocks st f =
     vec_blocks (map int_bytes (if st then [] else lineinfo f)) @
     seq_blocks locvar_blocks (if st then [] else locvars f) @
     seq_blocks str_blocks (if st then [] else upvalues f)"

function func_blocks :: "bool \<Rightarrow> Proto \<Rightarrow> lstr \<Rightarrow> bytes list" where
  "func_blocks st f p =
     str_blocks (if source f = p \<or> st then None else source f) @
     [int_bytes (linedefined f), int_bytes (lastlinedefined f), byte_block (uint (nups f)),
      byte_block (uint (numparams f)), byte_block (uint (is_vararg f)), byte_block (uint (maxstacksize f))] @
     vec_blocks (map instr_bytes (pcode f)) @ seq_blocks const_blocks (pk f) @
     int_bytes (int (length (pp f))) # concat (map (\<lambda>g. func_blocks st g (source f)) (pp f)) @ debug_blocks st f"
  by pat_completeness auto
termination
  by (relation "measure (\<lambda>(st, f, p). size f)") (auto simp: size_pp)

declare func_blocks.simps [simp del]

definition chunk_blocks :: "bool \<Rightarrow> Proto \<Rightarrow> bytes list" where
  "chunk_blocks st f = luaU_header # func_blocks st f None"

text \<open>What a caller expects of a writer loop: blocks in order, up to the first failure.\<close>

fun feed :: "'d writer \<Rightarrow> bytes list \<Rightarrow> 'd \<Rightarrow> int \<times> 'd" where
  "feed w [] d = (0, d)"
| "feed w (b # bs) d = (let (d', s) = w b d in if s = 0 then feed w bs d' else (s, d'))"

named_theorems dump_simps \<open>dumping as a fold over blocks\<close>

lemma DumpBlock_strip [simp]: "strip (DumpBlock w b D) = strip D"
  by (simp add: DumpBlock_def split: prod.split)

lemma fold_DumpBlock_strip [simp]: "strip (fold (DumpBlock w) bs D) = strip D"
  by (induction bs arbitrary: D) auto

lemma fold_DumpBlock_concat:
  "(\<And>x D. x \<in> set xs \<Longrightarrow> strip D = st \<Longrightarrow> g x D = fold (DumpBlock w) (b x) D) \<Longrightarrow> strip D = st \<Longrightarrow>
   fold g xs D = fold (DumpBlock w) (concat (map b xs)) D"
  by (induction xs arbitrary: D) auto

lemma DumpString_blocks [dump_simps]: "DumpString w s D = fold (DumpBlock w) (str_blocks s) D"
  by (simp add: DumpString_def str_blocks_def split: option.split)

lemma DumpVector_blocks [dump_simps]: "DumpVector w xs D = fold (DumpBlock w) (vec_blocks xs) D"
  by (simp add: DumpVector_def vec_blocks_def DumpInt_def)

lemma DumpConstant_blocks [dump_simps]: "DumpConstant w v D = fold (DumpBlock w) (const_blocks v) D"
  by (simp add: DumpConstant_def const_blocks_def DumpChar_def DumpNumber_def byte_block_def dump_simps split: TValue.split)

lemma DumpLocVar_blocks [dump_simps]: "DumpLocVar w v D = fold (DumpBlock w) (locvar_blocks v) D"
  by (simp add: DumpLocVar_def locvar_blocks_def DumpInt_def dump_simps)

lemma DumpConstants_blocks [dump_simps]: "DumpConstants w f D = fold (DumpBlock w) (seq_blocks const_blocks (pk f)) D"
  using fold_DumpBlock_concat [of "pk f" "strip D" "DumpConstant w" w const_blocks "DumpInt w (int (length (pk f))) D"]
  by (simp add: DumpConstants_def seq_blocks_def DumpInt_def DumpConstant_blocks)

lemma DumpDebug_blocks [dump_simps]: "DumpDebug w f D = fold (DumpBlock w) (debug_blocks (strip D) f) D"
proof -
  have v: "fold (DumpLocVar w) vs E = fold (DumpBlock w) (concat (map locvar_blocks vs)) E" for vs E
    by (rule fold_DumpBlock_concat [OF _ refl]) (simp add: DumpLocVar_blocks)
  have u: "fold (DumpString w) us E = fold (DumpBlock w) (concat (map str_blocks us)) E" for us E
    by (rule fold_DumpBlock_concat [OF _ refl]) (simp add: DumpString_blocks)
  show ?thesis by (simp add: DumpDebug_def debug_blocks_def seq_blocks_def v u DumpVector_blocks DumpInt_def Let_def)
qed

lemma DumpFunction_blocks: "DumpFunction w f p D = fold (DumpBlock w) (func_blocks (strip D) f p) D"
proof (induction f arbitrary: p D rule: measure_induct_rule [of size])
  case (less f)
  have "fold (\<lambda>g. DumpFunction w g (source f)) (pp f) E = fold (DumpBlock w) (concat (map (\<lambda>g. func_blocks (strip D) g (source f)) (pp f))) E"
    if "strip E = strip D" for E
    using that less size_pp by (intro fold_DumpBlock_concat) auto
  then show ?case
    by (subst DumpFunction.simps, subst func_blocks.simps)
      (simp add: DumpCode_def DumpInt_def DumpChar_def byte_block_def dump_simps Let_def)
qed

lemma fold_DumpBlock_stopped: "status D \<noteq> 0 \<Longrightarrow> fold (DumpBlock w) bs D = D"
  by (induction bs) (simp_all add: DumpBlock_def)

lemma fold_DumpBlock_feed:
  "status D = 0 \<Longrightarrow> (status (fold (DumpBlock w) bs D), ddata (fold (DumpBlock w) bs D)) = feed w bs (ddata D)"
proof (induction bs arbitrary: D)
  case (Cons b bs)
  obtain d s where ws: "w b (ddata D) = (d, s)" by fastforce
  have D1: "DumpBlock w b D = D\<lparr>ddata := d, status := s\<rparr>" using Cons.prems ws by (simp add: DumpBlock_def)
  show ?case
  proof (cases "s = 0")
    case True
    then show ?thesis using D1 ws Cons.IH [of "D\<lparr>ddata := d, status := s\<rparr>"] by simp
  next
    case False
    then show ?thesis using D1 ws by (simp add: fold_DumpBlock_stopped)
  qed
qed simp

lemma dump_feed: "luaU_dump f w d st = feed w (chunk_blocks st f) d"
  using fold_DumpBlock_feed [of "\<lparr>ddata = d, strip = st, status = 0\<rparr>" w "chunk_blocks st f"]
  by (simp add: luaU_dump_def DumpHeader_def DumpFunction_blocks chunk_blocks_def Let_def)

text \<open>A writer that appends to a buffer and never fails (that of \<open>string.dump\<close>).\<close>

definition append_writer :: "bytes writer" where
  "append_writer b d = (d @ b, 0)"

lemma feed_append: "feed append_writer bs d = (0, d @ concat bs)"
  by (induction bs arbitrary: d) (simp_all add: append_writer_def)

section \<open>Claims\<close>

text \<open>
  \<open>luaU_dump\<close> hands the writer the blocks of the chunk in order and stops at the first block for
  which the writer returns a non-zero status, which it returns; no block is written after that.
  The blocks depend only on the function and on \<open>strip\<close>, not on the writer.
\<close>

theorem luaU_dump_feeds: "luaU_dump f w data st = feed w (luaU_header # func_blocks st f None) data"
  by (simp add: dump_feed chunk_blocks_def)

end
