(* ===== verification/Lzio.thy ===== *)
theory Lzio
  imports Prelude
begin

text \<open>
  lzio.c, lzio.h: buffered streams. The reader is a C callback: a parameter \<open>rd\<close> that maps its data to
  new data and the next piece, where an empty piece stands for NULL or size 0. \<open>zp\<close> is the rest
  of the current piece and \<open>zn\<close> the counter of unread bytes; they can disagree, since \<open>zgetc\<close> at the end
  of the input leaves the counter wrapped around. EOZ is \<open>None\<close>.
\<close>

section \<open>Streams\<close>

type_synonym 'r reader = "'r \<Rightarrow> 'r \<times> bytes"

record 'r Zio =
  zn :: size_t
  zp :: bytes
  zdata :: 'r

definition luaZ_init :: "'r \<Rightarrow> 'r Zio" where
  "luaZ_init d = \<lparr>zn = 0, zp = [], zdata = d\<rparr>"

definition luaZ_fill :: "'r reader \<Rightarrow> 'r Zio \<Rightarrow> 'r Zio \<times> char option" where
  "luaZ_fill rd z =
     (let (d, buff) = rd (zdata z); size = (of_nat (length buff) :: size_t)
      in if size = 0 then (z\<lparr>zdata := d\<rparr>, None)
         else (z\<lparr>zdata := d, zn := size - 1, zp := tl buff\<rparr>, Some (hd buff)))"

text \<open>Reading \<open>*z->p\<close> when nothing is left of the piece is undefined.\<close>

definition peek :: "'r Zio \<Rightarrow> ('r Zio \<times> char option) res" where
  "peek z = (case zp z of [] \<Rightarrow> Inl (Undefined ''z->p'') | c # _ \<Rightarrow> Inr (z, Some c))"

definition luaZ_lookahead :: "'r reader \<Rightarrow> 'r Zio \<Rightarrow> ('r Zio \<times> char option) res" where
  "luaZ_lookahead rd z =
     (if zn z = 0
      then (case luaZ_fill rd z of
              (z', None) \<Rightarrow> Inr (z', None)
            | (z', Some c) \<Rightarrow> peek (z'\<lparr>zn := zn z' + 1, zp := c # zp z'\<rparr>))
      else peek z)"

definition zgetc :: "'r reader \<Rightarrow> 'r Zio \<Rightarrow> ('r Zio \<times> char option) res" where
  "zgetc rd z =
     (let z' = z\<lparr>zn := zn z - 1\<rparr>
      in if zn z > 0
         then (case zp z of [] \<Rightarrow> Inl (Undefined ''z->p'') | c # cs \<Rightarrow> Inr (z'\<lparr>zp := cs\<rparr>, Some c))
         else Inr (luaZ_fill rd z'))"

lemma lookahead_zn: "luaZ_lookahead rd z = Inr (z', Some c) \<Longrightarrow> zn z' \<noteq> 0"
  by (auto simp: luaZ_lookahead_def luaZ_fill_def peek_def Let_def split: if_splits option.splits list.splits prod.splits)

text \<open>The bytes copied and the number of missing bytes.\<close>

function luaZ_read :: "'r reader \<Rightarrow> 'r Zio \<Rightarrow> size_t \<Rightarrow> ('r Zio \<times> bytes \<times> size_t) res" where
  "luaZ_read rd z n =
     (if n = 0 then Inr (z, [], 0)
      else rbind (luaZ_lookahead rd z) (\<lambda>(z', c).
        case c of
          None \<Rightarrow> Inr (z', [], n)
        | Some _ \<Rightarrow>
            (let m = (if n \<le> zn z' then n else zn z')
             in if length (zp z') < unat m then Inl (Undefined ''memcpy'')
                else rbind (luaZ_read rd (z'\<lparr>zn := zn z' - m, zp := drop (unat m) (zp z')\<rparr>) (n - m)) (\<lambda>(z'', b, r).
                       Inr (z'', take (unat m) (zp z') @ b, r)))))"
  by pat_completeness auto
termination
proof (relation "measure (\<lambda>(rd, z, n). unat n)", goal_cases)
  case (2 rd z n x z' c y m)
  have z: "zn z' \<noteq> 0" using 2 lookahead_zn [of rd z z'] by auto
  have m: "m \<noteq> 0" "m \<le> n" using z 2 by (auto split: if_splits)
  have "unat (n - m) = unat n - unat m" using m(2) by (rule unat_sub)
  moreover have "0 < unat m" "unat m \<le> unat n" using m by (simp_all add: unat_gt_0 word_le_nat_alt)
  ultimately show ?case by simp
qed simp

declare luaZ_read.simps [simp del]

section \<open>Growing buffers\<close>

definition LUA_MINBUFFER :: size_t where "LUA_MINBUFFER = 32"

text \<open>The size of the buffer after the call; \<open>mem n\<close> says whether \<open>n\<close> bytes can be allocated.\<close>

definition luaZ_openspace :: "(size_t \<Rightarrow> bool) \<Rightarrow> size_t \<Rightarrow> size_t \<Rightarrow> size_t res" where
  "luaZ_openspace mem buffsize n =
     (if n > buffsize
      then let n = (if n < LUA_MINBUFFER then LUA_MINBUFFER else n)
           in if mem n then Inr n else Inl (MemError ''not enough memory'')
      else Inr buffsize)"

lemma openspace_enough: "luaZ_openspace mem s n = Inr s' \<Longrightarrow> n \<le> s' \<and> s \<le> s'"
  by (auto simp: luaZ_openspace_def Let_def LUA_MINBUFFER_def split: if_splits)

section \<open>The bytes a stream holds\<close>

inductive delivers :: "'r reader \<Rightarrow> 'r \<Rightarrow> bytes \<Rightarrow> bool" for rd where
  stop: "rd d = (d, []) \<Longrightarrow> delivers rd d []"
| more: "rd d = (d', b) \<Longrightarrow> b \<noteq> [] \<Longrightarrow> length b < 2 ^ 64 \<Longrightarrow> delivers rd d' bs \<Longrightarrow> delivers rd d (b @ bs)"

inductive_cases delivers_cases: "delivers rd d bs"

definition zio_holds :: "'r reader \<Rightarrow> 'r Zio \<Rightarrow> bytes \<Rightarrow> bool" where
  "zio_holds rd z bs = (length (zp z) < 2 ^ 64 \<and> zn z = of_nat (length (zp z)) \<and>
     (\<exists>rest. delivers rd (zdata z) rest \<and> bs = zp z @ rest))"

lemma holds_init: "delivers rd d bs \<Longrightarrow> zio_holds rd (luaZ_init d) bs"
  by (simp add: zio_holds_def luaZ_init_def)

lemma unat_of_nat64 [simp]: "n < 2 ^ 64 \<Longrightarrow> unat (of_nat n :: size_t) = n"
  by (simp add: unat_of_nat take_bit_nat_eq_self)

lemma of_nat_size: "n < 2 ^ 64 \<Longrightarrow> (of_nat n :: size_t) = 0 \<longleftrightarrow> n = 0"
  by (simp only: unat_of_nat64 flip: unat_eq_0)

lemma lookahead_holds:
  assumes "zio_holds rd z bs"
  shows "bs = [] \<Longrightarrow> \<exists>z'. luaZ_lookahead rd z = Inr (z', None) \<and> zio_holds rd z' []"
    and "bs = c # cs \<Longrightarrow> \<exists>z'. luaZ_lookahead rd z = Inr (z', Some c) \<and> zio_holds rd z' bs \<and> zp z' \<noteq> []"
proof -
  obtain rest where h: "length (zp z) < 2 ^ 64" "zn z = of_nat (length (zp z))" "delivers rd (zdata z) rest" "bs = zp z @ rest"
    using assms by (auto simp: zio_holds_def)
  show "\<exists>z'. luaZ_lookahead rd z = Inr (z', None) \<and> zio_holds rd z' []" if "bs = []"
  proof -
    have z: "zp z = []" "zn z = 0" "rest = []" using h that by auto
    have "rd (zdata z) = (zdata z, [])" using h(3) z(3) by (auto elim: delivers_cases)
    then show ?thesis using h z by (simp add: luaZ_lookahead_def luaZ_fill_def zio_holds_def)
  qed
  show "\<exists>z'. luaZ_lookahead rd z = Inr (z', Some c) \<and> zio_holds rd z' bs \<and> zp z' \<noteq> []" if b: "bs = c # cs"
  proof (cases "zp z")
    case Nil
    then obtain d' b rs where r: "rd (zdata z) = (d', b)" "b \<noteq> []" "length b < 2 ^ 64" "delivers rd d' rs" "rest = b @ rs"
      using h b by (auto elim: delivers_cases)
    have "hd b = c" "hd b # tl b = b" using r h b Nil by (cases b; simp)+
    then show ?thesis using r h Nil of_nat_size [OF r(3)]
      by (auto simp: luaZ_lookahead_def luaZ_fill_def zio_holds_def peek_def Let_def)
  next
    case (Cons x xs)
    then show ?thesis using h b of_nat_size [OF h(1)] assms by (simp add: luaZ_lookahead_def peek_def)
  qed
qed

lemma read_holds:
  assumes "zio_holds rd z bs"
  shows "\<exists>z'. luaZ_read rd z n = Inr (z', take (unat n) bs, n - of_nat (min (unat n) (length bs))) \<and>
    zio_holds rd z' (drop (unat n) bs)"
  using assms
proof (induction "unat n" arbitrary: n z bs rule: less_induct)
  case less
  show ?case
  proof (cases "n = 0")
    case True
    then show ?thesis using less.prems by (simp add: luaZ_read.simps)
  next
    case n: False
    show ?thesis
    proof (cases bs)
      case Nil
      then obtain z' where "luaZ_lookahead rd z = Inr (z', None)" "zio_holds rd z' []"
        using lookahead_holds(1) [OF less.prems] by auto
      then show ?thesis using n Nil by (subst luaZ_read.simps) simp
    next
      case (Cons c cs)
      then obtain z' where z': "luaZ_lookahead rd z = Inr (z', Some c)" "zio_holds rd z' bs" "zp z' \<noteq> []"
        using lookahead_holds(2) [OF less.prems] by auto
      obtain rest where h: "length (zp z') < 2 ^ 64" "zn z' = of_nat (length (zp z'))" "delivers rd (zdata z') rest" "bs = zp z' @ rest"
        using z'(2) by (auto simp: zio_holds_def)
      define m where "m = (if n \<le> zn z' then n else zn z')"
      have um: "unat m = min (unat n) (length (zp z'))" using h(1,2) by (auto simp: m_def word_le_nat_alt)
      have mn: "m \<le> n" by (auto simp: m_def)
      have m0: "0 < unat m" using um n z'(3) by (simp add: unat_gt_0)
      have un: "unat (n - m) = unat n - unat m" using mn by (rule unat_sub)
      have umn: "unat m \<le> unat n" using mn by (simp add: word_le_nat_alt)
      define z1 where "z1 = z'\<lparr>zn := zn z' - m, zp := drop (unat m) (zp z')\<rparr>"
      have "zn z1 = of_nat (length (zp z1))"
      proof -
        have "unat m \<le> length (zp z')" using um by simp
        then show ?thesis using h(2) by (simp add: z1_def of_nat_diff)
      qed
      then have h1: "zio_holds rd z1 (drop (unat m) bs)" using h um by (auto simp: zio_holds_def z1_def)
      have "unat (n - m) < unat n" using un m0 umn by linarith
      then obtain z2 where z2: "luaZ_read rd z1 (n - m) = Inr (z2, take (unat (n - m)) (drop (unat m) bs),
          n - m - of_nat (min (unat (n - m)) (length (drop (unat m) bs))))"
        "zio_holds rd z2 (drop (unat (n - m)) (drop (unat m) bs))"
        using less.hyps [of "n - m" z1] h1 by blast
      have t: "take (unat m) (zp z') @ take (unat n - unat m) (drop (unat m) bs) = take (unat n) bs"
      proof -
        have "take (unat m) (zp z') = take (unat m) bs" using h(4) um by simp
        moreover have "take (unat n) bs = take (unat m) bs @ take (unat n - unat m) (drop (unat m) bs)"
          using umn by (metis le_add_diff_inverse take_add)
        ultimately show ?thesis by simp
      qed
      have r: "n - m - of_nat (min (unat n - unat m) (length bs - unat m)) = n - of_nat (min (unat n) (length bs))"
      proof -
        have "unat m \<le> length bs" using um h(4) by simp
        then have "min (unat n) (length bs) = unat m + min (unat n - unat m) (length bs - unat m)" using umn by simp
        then have "(of_nat (min (unat n) (length bs)) :: size_t) = of_nat (unat m) + of_nat (min (unat n - unat m) (length bs - unat m))"
          by (metis of_nat_add)
        then show ?thesis by simp
      qed
      have "\<not> length (zp z') < unat m" using um by simp
      then have "luaZ_read rd z n = Inr (z2, take (unat n) bs, n - of_nat (min (unat n) (length bs)))"
        using n z'(1) z2(1) t r un unfolding z1_def m_def
        by (subst luaZ_read.simps) (simp only: rbind.simps prod.case option.case Let_def if_False length_drop)
      moreover have "zio_holds rd z2 (drop (unat n) bs)" using z2(2) un umn by simp
      ultimately show ?thesis by blast
    qed
  qed
qed

lemma zgetc_holds:
  assumes "zio_holds rd z bs"
  shows "bs = c # cs \<Longrightarrow> \<exists>z'. zgetc rd z = Inr (z', Some c) \<and> zio_holds rd z' cs"
    and "bs = [] \<Longrightarrow> \<exists>z'. zgetc rd z = Inr (z', None) \<and> zn z' = 2 ^ 64 - 1 \<and> zp z' = []"
proof -
  obtain rest where h: "length (zp z) < 2 ^ 64" "zn z = of_nat (length (zp z))" "delivers rd (zdata z) rest" "bs = zp z @ rest"
    using assms by (auto simp: zio_holds_def)
  show "\<exists>z'. zgetc rd z = Inr (z', Some c) \<and> zio_holds rd z' cs" if b: "bs = c # cs"
  proof (cases "zp z")
    case Nil
    then obtain d' b rs where r: "rd (zdata z) = (d', b)" "b \<noteq> []" "length b < 2 ^ 64" "delivers rd d' rs" "rest = b @ rs"
      using h b by (auto elim: delivers_cases)
    have "b = c # tl b" "cs = tl b @ rs" using r h b Nil by (cases b; simp)+
    then show ?thesis using r h Nil of_nat_size [OF r(3)]
      by (cases b) (auto simp: zgetc_def luaZ_fill_def zio_holds_def Let_def)
  next
    case (Cons x xs)
    have "zn z > 0" using h(1,2) Cons of_nat_size [OF h(1)] by (simp add: word_neq_0_conv)
    then show ?thesis using h b Cons by (simp add: zgetc_def zio_holds_def)
  qed
  show "\<exists>z'. zgetc rd z = Inr (z', None) \<and> zn z' = 2 ^ 64 - 1 \<and> zp z' = []" if "bs = []"
  proof -
    have z: "zp z = []" "zn z = 0" "rest = []" using h that by auto
    have "rd (zdata z) = (zdata z, [])" using h(3) z(3) by (auto elim: delivers_cases)
    then show ?thesis using z by (simp add: zgetc_def luaZ_fill_def Let_def)
  qed
qed

section \<open>The contract of a byte source\<close>

text \<open>
  What a client that reads blocks relies on: \<open>holds z bs\<close> says that the bytes still to come are
  \<open>bs\<close>; a read takes them in order, and reports how many were missing.
\<close>

locale byte_source =
  fixes holds :: "'z \<Rightarrow> bytes \<Rightarrow> bool"
    and get :: "'z \<Rightarrow> size_t \<Rightarrow> ('z \<times> bytes \<times> size_t) res"
  assumes get_bytes: "holds z bs \<Longrightarrow>
    \<exists>z'. get z n = Inr (z', take (unat n) bs, n - of_nat (min (unat n) (length bs))) \<and> holds z' (drop (unat n) bs)"
begin

lemma get_all:
  assumes "holds z (b @ bs)" "length b < 2 ^ 64"
  shows "\<exists>z'. get z (of_nat (length b)) = Inr (z', b, 0) \<and> holds z' bs"
  using get_bytes [OF assms(1), of "of_nat (length b)"] assms(2) by simp

lemma get_short:
  assumes "holds z bs" "length bs < unat n"
  shows "\<exists>z'. get z n = Inr (z', bs, n - of_nat (length bs)) \<and> n - of_nat (length bs) \<noteq> 0 \<and> holds z' []"
proof -
  have "unat n < 2 ^ LENGTH(64)" by (rule unsigned_less)
  then have "length bs < 2 ^ 64" using assms(2) by simp
  then have "n \<noteq> of_nat (length bs)" using assms(2) by auto
  then show ?thesis using get_bytes [OF assms(1), of n] assms(2) by (simp add: min_def)
qed

text \<open>Two reads in a row are one read of the sum.\<close>

lemma get_get:
  assumes "holds z bs" "unat m + unat n \<le> length bs" "unat m + unat n < 2 ^ 64"
  shows "\<exists>z1 z2 z3 b1 b2. get z m = Inr (z1, b1, 0) \<and> get z1 n = Inr (z2, b2, 0) \<and>
    get z (m + n) = Inr (z3, b1 @ b2, 0) \<and> holds z2 (drop (unat m + unat n) bs) \<and> holds z3 (drop (unat m + unat n) bs)"
proof -
  obtain z1 where 1: "get z m = Inr (z1, take (unat m) bs, 0)" "holds z1 (drop (unat m) bs)"
    using get_bytes [OF assms(1), of m] assms(2) by auto
  obtain z2 where 2: "get z1 n = Inr (z2, take (unat n) (drop (unat m) bs), 0)" "holds z2 (drop (unat m + unat n) bs)"
    using get_bytes [OF 1(2), of n] assms(2) by (auto simp: add.commute)
  have u: "unat (m + n) = unat m + unat n" using assms(3) by (intro unat_add_lem [THEN iffD1]) simp
  obtain z3 where "get z (m + n) = Inr (z3, take (unat (m + n)) bs, 0)" "holds z3 (drop (unat m + unat n) bs)"
    using get_bytes [OF assms(1), of "m + n"] assms(2) unfolding u by auto
  then show ?thesis using 1 2 unfolding u take_add by blast
qed

end

interpretation zio: byte_source "zio_holds rd" "luaZ_read rd"
  by unfold_locales (rule read_holds)

section \<open>Claims\<close>


definition pieces_reader :: "bytes list reader" where
  "pieces_reader ps = (case ps of [] \<Rightarrow> ([], []) | b # bs \<Rightarrow> (bs, b))"

lemma delivers_pieces: "\<forall>b \<in> set ps. b \<noteq> [] \<and> length b < 2 ^ 64 \<Longrightarrow> delivers pieces_reader ps (concat ps)"
  by (induction ps) (auto simp: pieces_reader_def intro: delivers.intros)


end
