(* ===== verification/Lundump.thy ===== *)
theory Lundump
  imports Ldump Ldebug Lzio
begin

text \<open>
  lundump.c: reading precompiled chunks, over a stream of Lzio. \<open>mem n\<close> says whether an allocation of
  \<open>n\<close> bytes succeeds. The counter \<open>nCcalls\<close> that bounds the nesting is the recursion argument: what is
  left of LUAI_MAXCCALLS.
\<close>

section \<open>Loading\<close>

record 'r LoadState =
  LZ :: "'r Zio"
  LB :: size_t
  Lname :: string

type_synonym mem = "size_t \<Rightarrow> bool"
type_synonym ('a, 'r) loader = "'r LoadState \<Rightarrow> ('a \<times> 'r LoadState) res"

definition lerror :: "'r LoadState \<Rightarrow> string \<Rightarrow> lua_error" where
  "lerror S why = SyntaxError (Lname S @ '': '' @ why @ '' in precompiled chunk'')"

definition LoadBlock :: "'r reader \<Rightarrow> size_t \<Rightarrow> (bytes, 'r) loader" where
  "LoadBlock rd n S =
     rbind (luaZ_read rd (LZ S) n) (\<lambda>(z, b, r).
       if r \<noteq> 0 then Inl (lerror S ''unexpected end'') else Inr (b, S\<lparr>LZ := z\<rparr>))"

text \<open>\<open>char\<close> is signed in this build.\<close>

definition LoadChar :: "'r reader \<Rightarrow> (int, 'r) loader" where
  "LoadChar rd S = rbind (LoadBlock rd 1 S) (\<lambda>(b, S). Inr (let x = int (le_value b) in if x < 128 then x else x - 256, S))"

definition LoadByte :: "'r reader \<Rightarrow> (8 word, 'r) loader" where
  "LoadByte rd S = rbind (LoadChar rd S) (\<lambda>(x, S). Inr (word_of_int x, S))"

definition LoadInt :: "'r reader \<Rightarrow> (int, 'r) loader" where
  "LoadInt rd S =
     rbind (LoadBlock rd 4 S) (\<lambda>(b, S).
       let x = sint (of_nat (le_value b) :: uint32)
       in if x < 0 then Inl (lerror S ''bad integer'') else Inr (x, S))"

definition LoadNumber :: "'r reader \<Rightarrow> (lua_Number, 'r) loader" where
  "LoadNumber rd S = rbind (LoadBlock rd 8 S) (\<lambda>(b, S). Inr (Dbl (of_nat (le_value b)), S))"

definition LoadString :: "'r reader \<Rightarrow> mem \<Rightarrow> (lstr, 'r) loader" where
  "LoadString rd mem S =
     rbind (LoadBlock rd 8 S) (\<lambda>(b, S).
       let n = (of_nat (le_value b) :: size_t)
       in if n = 0 then Inr (None, S)
          else rbind (luaZ_openspace mem (LB S) n) (\<lambda>bs.
                 rbind (LoadBlock rd n (S\<lparr>LB := bs\<rparr>)) (\<lambda>(s, S).
                   Inr (Some (take (unat (n - 1)) s), S))))"

text \<open>
  \<open>luaM_newvector\<close> computes \<open>n + 1\<close> in \<open>int\<close> before it compares with the largest size: for the largest \<open>int\<close>
  that is undefined.
\<close>

definition luaM_newvector :: "mem \<Rightarrow> int \<Rightarrow> int \<Rightarrow> unit res" where
  "luaM_newvector mem n e =
     (if n = 2 ^ 31 - 1 then Inl (Undefined ''luaM_newvector: n + 1'')
      else if mem (word_of_int (n * e)) then Inr () else Inl (MemError ''not enough memory''))"

primrec load_n :: "nat \<Rightarrow> ('a, 'r) loader \<Rightarrow> ('a list, 'r) loader" where
  "load_n 0 ld S = Inr ([], S)"
| "load_n (Suc n) ld S = rbind (ld S) (\<lambda>(x, S). rbind (load_n n ld S) (\<lambda>(xs, S). Inr (x # xs, S)))"

text \<open>The elements of four bytes of a vector read as one block.\<close>

fun words4 :: "bytes \<Rightarrow> uint32 list" where
  "words4 (a # b # c # d # r) = of_nat (le_value [a, b, c, d]) # words4 r"
| "words4 _ = []"

definition LoadVector :: "'r reader \<Rightarrow> mem \<Rightarrow> (uint32 list, 'r) loader" where
  "LoadVector rd mem S =
     rbind (LoadInt rd S) (\<lambda>(n, S). rbind (luaM_newvector mem n 4) (\<lambda>_.
       rbind (LoadBlock rd (word_of_int (n * 4)) S) (\<lambda>(b, S). Inr (words4 b, S))))"

definition LoadCode :: "'r reader \<Rightarrow> mem \<Rightarrow> (Instruction list, 'r) loader" where
  "LoadCode rd mem = LoadVector rd mem"

definition LoadConstant :: "'r reader \<Rightarrow> mem \<Rightarrow> (kval, 'r) loader" where
  "LoadConstant rd mem S =
     rbind (LoadChar rd S) (\<lambda>(t, S).
       if t = 0 then Inr (Vnil, S)
       else if t = 1 then rbind (LoadChar rd S) (\<lambda>(x, S). Inr (Vboolean (x \<noteq> 0), S))
       else if t = 3 then rbind (LoadNumber rd S) (\<lambda>(x, S). Inr (Vnumber x, S))
       else if t = 4 then rbind (LoadString rd mem S) (\<lambda>(s, S). Inr (Vstring s, S))
       else Inl (lerror S ''bad constant''))"

text \<open>A count, a vector of \<open>e\<close>-byte elements, and the loop that fills it.\<close>

definition LoadSeq :: "'r reader \<Rightarrow> mem \<Rightarrow> int \<Rightarrow> ('a, 'r) loader \<Rightarrow> ('a list, 'r) loader" where
  "LoadSeq rd mem e ld S =
     rbind (LoadInt rd S) (\<lambda>(n, S). rbind (luaM_newvector mem n e) (\<lambda>_. load_n (nat n) ld S))"

definition LoadConstants :: "'r reader \<Rightarrow> mem \<Rightarrow> (kval list, 'r) loader" where
  "LoadConstants rd mem = LoadSeq rd mem 16 (LoadConstant rd mem)"

definition LoadLocVar :: "'r reader \<Rightarrow> mem \<Rightarrow> (LocVar, 'r) loader" where
  "LoadLocVar rd mem S =
     rbind (LoadString rd mem S) (\<lambda>(s, S). rbind (LoadInt rd S) (\<lambda>(a, S). rbind (LoadInt rd S) (\<lambda>(b, S).
       Inr (\<lparr>varname = s, startpc = a, endpc = b\<rparr>, S))))"

definition LoadDebug :: "'r reader \<Rightarrow> mem \<Rightarrow> (int list \<times> LocVar list \<times> lstr list, 'r) loader" where
  "LoadDebug rd mem S =
     rbind (LoadVector rd mem S) (\<lambda>(lines, S).
       rbind (LoadSeq rd mem 16 (LoadLocVar rd mem) S) (\<lambda>(vars, S).
         rbind (LoadSeq rd mem 8 (LoadString rd mem) S) (\<lambda>(ups, S). Inr ((map sint lines, vars, ups), S))))"

primrec LoadFunction_at :: "'r reader \<Rightarrow> mem \<Rightarrow> nat \<Rightarrow> lstr \<Rightarrow> (Proto, 'r) loader" where
  "LoadFunction_at rd mem 0 p S = Inl (lerror S ''code too deep'')"
| "LoadFunction_at rd mem (Suc d) p S =
     rbind (LoadString rd mem S) (\<lambda>(s, S).
     let src = (if s = None then p else s) in
     rbind (LoadInt rd S) (\<lambda>(line, S).
     rbind (LoadInt rd S) (\<lambda>(lastline, S).
     rbind (LoadByte rd S) (\<lambda>(nu, S).
     rbind (LoadByte rd S) (\<lambda>(np, S).
     rbind (LoadByte rd S) (\<lambda>(va, S).
     rbind (LoadByte rd S) (\<lambda>(ms, S).
     rbind (LoadCode rd mem S) (\<lambda>(code, S).
     rbind (LoadConstants rd mem S) (\<lambda>(ks, S).
     rbind (LoadSeq rd mem 8 (LoadFunction_at rd mem d src) S) (\<lambda>(ps, S).
     rbind (LoadDebug rd mem S) (\<lambda>((lines, vars, ups), S).
     let f = Proto ks code ps lines vars ups src line lastline nu np va ms
     in rbind (luaG_checkcode f) (\<lambda>ok. if \<not> ok then Inl (lerror S ''bad code'') else Inr (f, S)))))))))))))"


definition LoadFunction :: "'r reader \<Rightarrow> mem \<Rightarrow> int \<Rightarrow> lstr \<Rightarrow> (Proto, 'r) loader" where
  "LoadFunction rd mem nCcalls = LoadFunction_at rd mem (nat (LUAI_MAXCCALLS - nCcalls))"

definition LUAC_HEADERSIZE :: size_t where "LUAC_HEADERSIZE = 12"

definition LoadHeader :: "'r reader \<Rightarrow> (unit, 'r) loader" where
  "LoadHeader rd S =
     rbind (LoadBlock rd LUAC_HEADERSIZE S) (\<lambda>(s, S).
       if s \<noteq> luaU_header then Inl (lerror S ''bad header'') else Inr ((), S))"

definition chunk_name :: "string \<Rightarrow> string" where
  "chunk_name name =
     (case name of
        [] \<Rightarrow> name
      | c # cs \<Rightarrow> if c = CHR ''@'' \<or> c = CHR ''='' then cs
                 else if c = hd LUA_SIGNATURE then ''binary string'' else name)"

definition luaU_undump :: "'r reader \<Rightarrow> mem \<Rightarrow> int \<Rightarrow> 'r Zio \<Rightarrow> size_t \<Rightarrow> string \<Rightarrow> (Proto \<times> 'r LoadState) res" where
  "luaU_undump rd mem nCcalls z buffsize name =
     rbind (LoadHeader rd \<lparr>LZ = z, LB = buffsize, Lname = chunk_name name\<rparr>) (\<lambda>(_, S).
       LoadFunction rd mem nCcalls (Some ''=?'') S)"

section \<open>Loaders that decode\<close>

text \<open>
  \<open>ld\<close> turns the bytes \<open>bs\<close>, whatever follows them, into \<open>x\<close> and consumes them exactly; on a proper
  prefix of them it stops with the error for a truncated chunk.
\<close>

definition decodes :: "'r reader \<Rightarrow> ('a, 'r) loader \<Rightarrow> 'a \<Rightarrow> bytes \<Rightarrow> bool" where
  "decodes rd ld x bs = ((\<forall>S rest. zio_holds rd (LZ S) (bs @ rest) \<longrightarrow>
     (\<exists>S'. ld S = Inr (x, S') \<and> zio_holds rd (LZ S') rest \<and> Lname S' = Lname S)) \<and>
     (\<forall>S bs' r. bs = bs' @ r \<and> r \<noteq> [] \<and> zio_holds rd (LZ S) bs' \<longrightarrow> ld S = Inl (lerror S ''unexpected end'')))"

lemma decodesD:
  assumes "decodes rd ld x bs"
  shows "zio_holds rd (LZ S) (bs @ rest) \<Longrightarrow> \<exists>S'. ld S = Inr (x, S') \<and> zio_holds rd (LZ S') rest \<and> Lname S' = Lname S"
    and "bs = bs' @ r \<Longrightarrow> r \<noteq> [] \<Longrightarrow> zio_holds rd (LZ S) bs' \<Longrightarrow> ld S = Inl (lerror S ''unexpected end'')"
  using assms unfolding decodes_def by blast+

lemma lerror_cong: "Lname S = Lname S' \<Longrightarrow> lerror S = lerror S'"
  by (simp add: lerror_def fun_eq_iff)

lemma decodes_return: "decodes rd (\<lambda>S. Inr (x, S)) x []"
  by (simp add: decodes_def)

lemma decodes_bind:
  fixes rd :: "'r reader"
  assumes "decodes rd ld x bs" "decodes rd (g x) y cs"
  shows "decodes rd (\<lambda>S. rbind (ld S) (\<lambda>(x, S). g x S)) y (bs @ cs)"
  unfolding decodes_def
proof (intro conjI allI impI)
  fix S :: "'r LoadState" and rest
  assume "zio_holds rd (LZ S) ((bs @ cs) @ rest)"
  then obtain S1 where 1: "ld S = Inr (x, S1)" "zio_holds rd (LZ S1) (cs @ rest)" "Lname S1 = Lname S"
    using decodesD(1) [OF assms(1), of S "cs @ rest"] by auto
  then show "\<exists>S'. rbind (ld S) (\<lambda>(x, S). g x S) = Inr (y, S') \<and> zio_holds rd (LZ S') rest \<and> Lname S' = Lname S"
    using decodesD(1) [OF assms(2) 1(2)] by auto
next
  fix S :: "'r LoadState" and bs' r
  assume a: "bs @ cs = bs' @ r \<and> r \<noteq> [] \<and> zio_holds rd (LZ S) bs'"
  then consider us where "bs = bs' @ us" "us \<noteq> []" | us where "bs' = bs @ us" "cs = us @ r"
    unfolding append_eq_append_conv2 by (metis append_Nil append_Nil2)
  then show "rbind (ld S) (\<lambda>(x, S). g x S) = Inl (lerror S ''unexpected end'')"
  proof cases
    case 1
    then show ?thesis using decodesD(2) [OF assms(1)] a by simp
  next
    case 2
    then obtain S1 where "ld S = Inr (x, S1)" "zio_holds rd (LZ S1) us" "Lname S1 = Lname S"
      using decodesD(1) [OF assms(1), of S us] a by auto
    then show ?thesis using decodesD(2) [OF assms(2) 2(2), of S1] a lerror_cong [of S1 S] by simp
  qed
qed

lemma decodes_map: "decodes rd ld x bs \<Longrightarrow> decodes rd (\<lambda>S. rbind (ld S) (\<lambda>(x, S). Inr (h x, S))) (h x) bs"
  using decodes_bind [of rd ld x bs "\<lambda>x S. Inr (h x, S)" "h x" "[]", OF _ decodes_return] by simp

lemma decodes_block: "length b < 2 ^ 64 \<Longrightarrow> n = of_nat (length b) \<Longrightarrow> decodes rd (LoadBlock rd n) b b"
proof -
  assume b: "length b < 2 ^ 64" and n: "n = of_nat (length b)"
  have "\<exists>S'. LoadBlock rd n S = Inr (b, S') \<and> zio_holds rd (LZ S') rest \<and> Lname S' = Lname S" if "zio_holds rd (LZ S) (b @ rest)" for S rest
    using zio.get_all [OF that b] n by (auto simp: LoadBlock_def)
  moreover have "LoadBlock rd n S = Inl (lerror S ''unexpected end'')" if "b = b' @ r" "r \<noteq> []" "zio_holds rd (LZ S) b'" for S b' r
  proof -
    have "length b' < length b" using that by simp
    then have "length b' < unat n" unfolding n unat_of_nat64 [OF b] .
    from zio.get_short [OF that(3) this] show ?thesis by (auto simp: LoadBlock_def)
  qed
  ultimately show ?thesis unfolding decodes_def by blast
qed

lemma decodes_le:
  "x < 256 ^ k \<Longrightarrow> k < 2 ^ 64 \<Longrightarrow> n = of_nat k \<Longrightarrow> decodes rd (\<lambda>S. rbind (LoadBlock rd n S) (\<lambda>(b, S). Inr (le_value b, S))) x (le_bytes k x)"
  using decodes_map [OF decodes_block [of "le_bytes k x" n rd], of le_value] by (simp add: le_value_bytes)

lemma rbind_Inr_pair: "rbind (rbind m (\<lambda>(b, S). Inr (h b, S))) (\<lambda>(x, S). g x S) = rbind m (\<lambda>(b, S). g (h b) S)"
  by (cases m) auto

text \<open>A loader that reads a fixed object and continues with its value.\<close>

lemma decodes_le_bind:
  assumes "x < 256 ^ k" "k < 2 ^ 64" "n = of_nat k" "decodes rd (g x) y cs"
  shows "decodes rd (\<lambda>S. rbind (LoadBlock rd n S) (\<lambda>(b, S). g (le_value b) S)) y (le_bytes k x @ cs)"
  using decodes_bind [where g = g, OF decodes_le [OF assms(1-3)] assms(4)] by (simp only: rbind_Inr_pair)

lemma decodes_int: "0 \<le> x \<Longrightarrow> x < 2 ^ 31 \<Longrightarrow> decodes rd (LoadInt rd) x (int_bytes x)"
proof -
  assume x: "0 \<le> x" "x < 2 ^ 31"
  have u: "unat (word_of_int x :: uint32) = nat x" using x by (simp add: unat_word_of_int)
  have s: "sint (of_nat (nat x) :: uint32) = x" using x by (simp add: signed_of_int signed_take_bit_int_eq_self)
  have "decodes rd (\<lambda>S. rbind (LoadBlock rd 4 S) (\<lambda>(b, S). (\<lambda>v S. let x = sint (of_nat v :: uint32)
      in if x < 0 then Inl (lerror S ''bad integer'') else Inr (x, S)) (le_value b) S)) x (le_bytes 4 (nat x) @ [])"
    using x s by (intro decodes_le_bind) (auto simp: decodes_def)
  then show ?thesis unfolding LoadInt_def [abs_def] int_bytes_def u by simp
qed

lemma decodes_char: "0 \<le> x \<Longrightarrow> x < 128 \<Longrightarrow> decodes rd (LoadChar rd) x (byte_block x)"
proof -
  assume x: "0 \<le> x" "x < 128"
  have b: "byte_block x = le_bytes 1 (nat x)" using x by (simp add: byte_block_def)
  have "decodes rd (\<lambda>S. rbind (LoadBlock rd 1 S) (\<lambda>(b, S). (\<lambda>v S. Inr (let x = int v in if x < 128 then x else x - 256, S)) (le_value b) S)) x (le_bytes 1 (nat x) @ [])"
    using x by (intro decodes_le_bind) (auto simp: decodes_def)
  then show ?thesis unfolding LoadChar_def [abs_def] b by simp
qed

lemma decodes_byte: "decodes rd (LoadByte rd) w (byte_block (uint w))"
proof -
  have "unat w < 2 ^ LENGTH(8)" by (rule unsigned_less)
  then have lt: "unat w < 256" by simp
  have "nat (int m mod 256) = m mod 256" for m :: nat by (simp add: nat_mod_distrib)
  from this [of "unat w"] have b: "byte_block (uint w) = le_bytes 1 (unat w)" by (simp add: byte_block_def)
  define v where "v = (let x = int (unat w) in if x < 128 then x else x - 256)"
  have v: "word_of_int v = w"
  proof -
    have "(word_of_int (uint w - 256) :: 8 word) = word_of_int (uint w)" by (simp add: word_of_int_eq_iff take_bit_eq_mod)
    then show ?thesis by (simp add: v_def Let_def)
  qed
  have "decodes rd (LoadChar rd) v (le_bytes 1 (unat w) @ [])"
    unfolding LoadChar_def [abs_def]
    using lt by (intro decodes_le_bind [where g = "\<lambda>u S. Inr (let x = int u in if x < 128 then x else x - 256, S)"])
      (auto simp: decodes_def v_def)
  then have "decodes rd (LoadByte rd) (word_of_int v) (le_bytes 1 (unat w))"
    unfolding LoadByte_def [abs_def] by (intro decodes_map) simp
  then show ?thesis by (simp add: b v)
qed

section \<open>Decoding the parts of a function\<close>

lemma decodes_number: "decodes rd (LoadNumber rd) x (number_bytes x)"
proof -
  have "unat (dbits x) < 2 ^ LENGTH(64)" by (rule unsigned_less)
  then have "decodes rd (LoadNumber rd) x (le_bytes 8 (unat (dbits x)) @ [])"
    unfolding LoadNumber_def [abs_def]
    by (intro decodes_le_bind [where g = "\<lambda>u S. Inr (Dbl (of_nat u), S)"]) (auto simp: decodes_def)
  then show ?thesis by (simp add: number_bytes_def)
qed

definition str_ok :: "lstr \<Rightarrow> bool" where
  "str_ok s = (case s of None \<Rightarrow> True | Some str \<Rightarrow> length str + 1 < 2 ^ 64)"

lemma decodes_update: "decodes rd ld x bs \<Longrightarrow> decodes rd (\<lambda>S. ld (S\<lparr>LB := h S\<rparr>)) x bs"
proof -
  assume d: "decodes rd ld x bs"
  show ?thesis unfolding decodes_def
    using decodesD(1) [OF d, of "S\<lparr>LB := h S\<rparr>" for S] decodesD(2) [OF d, of _ _ "S\<lparr>LB := h S\<rparr>" for S] by (simp add: lerror_def)
qed

lemma decodes_string:
  assumes "str_ok s" "\<And>n. mem n"
  shows "decodes rd (LoadString rd mem) s (concat (str_blocks s))"
proof -
  define k where "k = (\<lambda>v S. let n = (of_nat v :: size_t) in if n = 0 then Inr (None, S)
      else rbind (luaZ_openspace mem (LB S) n) (\<lambda>bs. rbind (LoadBlock rd n (S\<lparr>LB := bs\<rparr>)) (\<lambda>(s, S).
                   Inr (Some (take (unat (n - 1)) s), S))))"
  have ls: "LoadString rd mem = (\<lambda>S. rbind (LoadBlock rd 8 S) (\<lambda>(b, S). k (le_value b) S))"
    by (simp add: LoadString_def [abs_def] k_def)
  show ?thesis
  proof (cases s)
    case None
    have "decodes rd (k 0) None []" by (simp add: k_def decodes_def)
    then have "decodes rd (LoadString rd mem) None (le_bytes 8 0 @ [])" unfolding ls by (intro decodes_le_bind) auto
    then show ?thesis using None by (simp add: str_blocks_def size_bytes_def)
  next
    case (Some str)
    define n where "n = (of_nat (length str + 1) :: size_t)"
    have lt: "length str + 1 < 2 ^ 64" using assms(1) Some by (simp add: str_ok_def)
    have un: "unat n = length str + 1" using lt unfolding n_def by (rule unat_of_nat64)
    have n0: "n \<noteq> 0" using un by auto
    have un1: "unat (n - 1) = length str" using un n0 by (simp add: unat_minus_one)
    have "\<exists>bs. luaZ_openspace mem b n = Inr bs" for b using assms(2) by (simp add: luaZ_openspace_def Let_def)
    then obtain h where h: "\<And>b. luaZ_openspace mem b n = Inr (h b)" by metis
    have "decodes rd (\<lambda>S. rbind (LoadBlock rd n S) (\<lambda>(s, S). Inr (Some (take (unat (n - 1)) s), S)))
        (Some (take (unat (n - 1)) (str @ [CHR 0x00]))) (str @ [CHR 0x00])"
      using lt by (intro decodes_map decodes_block) (simp_all add: n_def)
    from decodes_update [OF this, of "\<lambda>S. h (LB S)"]
    have "decodes rd (k (unat n)) (Some str) (str @ [CHR 0x00])" using n0 h un1 by (simp add: k_def)
    moreover have "unat n < 256 ^ 8" using un lt by simp
    ultimately have "decodes rd (LoadString rd mem) (Some str) (le_bytes 8 (unat n) @ str @ [CHR 0x00])"
      unfolding ls by (intro decodes_le_bind) auto
    then show ?thesis using Some by (simp add: str_blocks_def size_bytes_def n_def add.commute)
  qed
qed

lemma decodes_skip: "m = Inr () \<Longrightarrow> decodes rd ld x bs \<Longrightarrow> decodes rd (\<lambda>S. rbind m (\<lambda>_. ld S)) x bs"
  by simp

lemma newvector_ok: "n < 2 ^ 31 - 1 \<Longrightarrow> mem (word_of_int (n * e)) \<Longrightarrow> luaM_newvector mem n e = Inr ()"
  by (simp add: luaM_newvector_def)

lemma words4_bytes: "words4 (concat (map instr_bytes ws)) = ws"
proof (induction ws)
  case (Cons i ws)
  have "unat i < 2 ^ LENGTH(32)" by (rule unsigned_less)
  then have "le_value (le_bytes 4 (unat i)) = unat i" by (intro le_value_bytes) simp
  moreover have "\<exists>a b c d. xs = [a, b, c, d]" if "length xs = 4" for xs :: bytes
    using that by (auto simp: length_Suc_conv numeral_eq_Suc)
  from this [of "le_bytes 4 (unat i)"] obtain a b c d where "le_bytes 4 (unat i) = [a, b, c, d]" by auto
  ultimately show ?case using Cons by (auto simp: instr_bytes_def)
qed simp

lemma length_instr_bytes: "length (concat (map instr_bytes ws)) = 4 * length ws"
  by (induction ws) (simp_all add: instr_bytes_def)

lemma decodes_vector:
  assumes "int (length ws) < 2 ^ 31 - 1" "\<And>n. mem n"
  shows "decodes rd (LoadVector rd mem) ws (concat (vec_blocks (map instr_bytes ws)))"
proof -
  have "decodes rd (\<lambda>S. rbind (LoadBlock rd (word_of_int (int (length ws) * 4)) S) (\<lambda>(b, S). Inr (words4 b, S)))
      (words4 (concat (map instr_bytes ws))) (concat (map instr_bytes ws))"
    using assms(1) by (intro decodes_map decodes_block) (simp_all add: length_instr_bytes mult.commute)
  then have "decodes rd (LoadVector rd mem) ws (int_bytes (int (length ws)) @ concat (map instr_bytes ws))"
    unfolding LoadVector_def [abs_def] words4_bytes
    using assms by (intro decodes_bind [where x = "int (length ws)"] decodes_skip newvector_ok decodes_int) auto
  then show ?thesis by (simp add: vec_blocks_def)
qed

lemma decodes_n:
  assumes "\<And>y. y \<in> set ys \<Longrightarrow> decodes rd ld (h y) (b y)"
  shows "decodes rd (load_n (length ys) ld) (map h ys) (concat (map b ys))"
  using assms
proof (induction ys)
  case Nil
  then show ?case by (simp add: decodes_def)
next
  case (Cons y ys)
  have "decodes rd (\<lambda>S. rbind (load_n (length ys) ld S) (\<lambda>(zs, S). Inr (h y # zs, S))) (h y # map h ys) (concat (map b ys))"
    using Cons by (intro decodes_map) auto
  then have "decodes rd (\<lambda>S. rbind (ld S) (\<lambda>(x, S). rbind (load_n (length ys) ld S) (\<lambda>(zs, S). Inr (x # zs, S)))) (h y # map h ys) (b y @ concat (map b ys))"
    using Cons.prems by (intro decodes_bind [where x = "h y"]) auto
  then show ?case by simp
qed

lemma decodes_seq_map:
  assumes "int (length ys) < 2 ^ 31 - 1" "\<And>n. mem n" "\<And>y. y \<in> set ys \<Longrightarrow> decodes rd ld (h y) (b y)"
  shows "decodes rd (LoadSeq rd mem e ld) (map h ys) (int_bytes (int (length ys)) @ concat (map b ys))"
  unfolding LoadSeq_def [abs_def]
  using assms decodes_n [of ys rd ld h b]
  by (intro decodes_bind [where x = "int (length ys)"] decodes_skip newvector_ok decodes_int) auto

lemmas decodes_seq = decodes_seq_map [where h = "\<lambda>x. x", simplified]

definition const_ok :: "kval \<Rightarrow> bool" where
  "const_ok v = (case v of Vnil \<Rightarrow> True | Vboolean _ \<Rightarrow> True | Vnumber _ \<Rightarrow> True | Vstring s \<Rightarrow> str_ok s | _ \<Rightarrow> False)"

lemma decodes_constant:
  assumes "const_ok v" "\<And>n. mem n"
  shows "decodes rd (LoadConstant rd mem) v (concat (const_blocks v))"
proof -
  define k where "k = (\<lambda>(t :: int) S. if t = 0 then Inr (Vnil, S)
       else if t = 1 then rbind (LoadChar rd S) (\<lambda>(x, S). Inr (Vboolean (x \<noteq> 0), S))
       else if t = 3 then rbind (LoadNumber rd S) (\<lambda>(x, S). Inr (Vnumber x, S))
       else if t = 4 then rbind (LoadString rd mem S) (\<lambda>(s, S). Inr (Vstring s, S))
       else Inl (lerror S ''bad constant'') :: (kval \<times> _) res)"
  have lc: "LoadConstant rd mem = (\<lambda>S. rbind (LoadChar rd S) (\<lambda>(t, S). k t S))"
    by (simp add: LoadConstant_def [abs_def] k_def)
  have c: "decodes rd (LoadConstant rd mem) v (byte_block (ttype v) @ bs)" if "decodes rd (k (ttype v)) v bs" for bs
    unfolding lc using that assms(1) by (intro decodes_bind [where x = "ttype v"] decodes_char) (cases v; simp add: const_ok_def)+
  show ?thesis
  proof (cases v)
    case (Vboolean bv)
    have "decodes rd (k 1) (Vboolean bv) (byte_block (if bv then 1 else 0))"
      using decodes_map [OF decodes_char [of 1 rd], of "\<lambda>x. Vboolean (x \<noteq> 0) :: kval"]
        decodes_map [OF decodes_char [of 0 rd], of "\<lambda>x. Vboolean (x \<noteq> 0) :: kval"] by (simp add: k_def)
    then show ?thesis using c Vboolean by (simp add: const_blocks_def)
  next
    case (Vnumber x)
    have "decodes rd (k 3) (Vnumber x) (number_bytes x)" unfolding k_def by (simp, intro decodes_map decodes_number)
    then show ?thesis using c Vnumber by (simp add: const_blocks_def)
  next
    case (Vstring s)
    have "decodes rd (k 4) (Vstring s) (concat (str_blocks s))"
      unfolding k_def using assms Vstring by (simp add: const_ok_def, intro decodes_map decodes_string) auto
    then show ?thesis using c Vstring by (simp add: const_blocks_def)
  qed (use assms c [of "[]"] in \<open>auto simp: const_ok_def const_blocks_def k_def decodes_def\<close>)
qed

section \<open>What a chunk decodes to\<close>

lemma concat_map_concat: "concat (map (\<lambda>x. concat (b x)) xs) = concat (concat (map b xs))"
  by (induction xs) auto

text \<open>
  The function a chunk gives back: \<open>p\<close> is the name the dump took as inherited, \<open>q\<close> the one the load
  inherits. A stripped chunk has no debug information and every name is inherited.
\<close>

function reload :: "bool \<Rightarrow> Proto \<Rightarrow> lstr \<Rightarrow> lstr \<Rightarrow> Proto" where
  "reload st f p q =
     (let src = (if source f = p \<or> st \<or> source f = None then q else source f)
      in Proto (pk f) (pcode f) (map (\<lambda>g. reload st g (source f) src) (pp f)) (if st then [] else lineinfo f)
           (if st then [] else locvars f) (if st then [] else upvalues f) src (linedefined f) (lastlinedefined f)
           (nups f) (numparams f) (is_vararg f) (maxstacksize f))"
  by pat_completeness auto
termination
  by (relation "measure (\<lambda>(st, f, p, q). size f)") (auto simp: size_pp)

declare reload.simps [simp del]

text \<open>
  Functions that fit the format and the loader: counts and lines that fit an \<open>int\<close>, constants of the
  four kinds, nesting less than \<open>d\<close> deep.
\<close>

definition locvar_ok :: "LocVar \<Rightarrow> bool" where
  "locvar_ok v = (str_ok (varname v) \<and> 0 \<le> startpc v \<and> startpc v < 2 ^ 31 \<and> 0 \<le> endpc v \<and> endpc v < 2 ^ 31)"

primrec storable :: "nat \<Rightarrow> Proto \<Rightarrow> bool" where
  "storable 0 f = False"
| "storable (Suc d) f = (str_ok (source f) \<and> 0 \<le> linedefined f \<and> linedefined f < 2 ^ 31 \<and>
     0 \<le> lastlinedefined f \<and> lastlinedefined f < 2 ^ 31 \<and> sizecode f < 2 ^ 31 - 1 \<and> int (length (pk f)) < 2 ^ 31 - 1 \<and>
     int (length (pp f)) < 2 ^ 31 - 1 \<and> int (length (lineinfo f)) < 2 ^ 31 - 1 \<and> int (length (locvars f)) < 2 ^ 31 - 1 \<and>
     int (length (upvalues f)) < 2 ^ 31 - 1 \<and> list_all const_ok (pk f) \<and> list_all locvar_ok (locvars f) \<and>
     list_all str_ok (upvalues f) \<and> list_all (\<lambda>l. - (2 ^ 31) \<le> l \<and> l < 2 ^ 31) (lineinfo f) \<and> list_all (storable d) (pp f))"

primrec accepted :: "nat \<Rightarrow> Proto \<Rightarrow> bool" where
  "accepted 0 f = False"
| "accepted (Suc d) f = (luaG_checkcode f = Inr True \<and> list_all (accepted d) (pp f))"

lemma decodes_locvar:
  assumes "locvar_ok v" "\<And>n. mem n"
  shows "decodes rd (LoadLocVar rd mem) v (concat (locvar_blocks v))"
proof -
  have "decodes rd (LoadLocVar rd mem) \<lparr>varname = varname v, startpc = startpc v, endpc = endpc v\<rparr>
      (concat (str_blocks (varname v)) @ int_bytes (startpc v) @ int_bytes (endpc v))"
    unfolding LoadLocVar_def [abs_def]
    using assms by (intro decodes_bind [where x = "varname v"] decodes_bind [where x = "startpc v"]
        decodes_map [where h = "\<lambda>b. \<lparr>varname = varname v, startpc = startpc v, endpc = b\<rparr>"]
        decodes_string decodes_int) (auto simp: locvar_ok_def)
  then show ?thesis by (cases v) (simp add: locvar_blocks_def)
qed

lemma int_bytes_word: "int_bytes x = instr_bytes (word_of_int x)"
  by (simp add: int_bytes_def instr_bytes_def)

lemma sint_of_int32: "- (2 ^ 31) \<le> x \<Longrightarrow> x < 2 ^ 31 \<Longrightarrow> sint (word_of_int x :: uint32) = x"
  by (simp add: signed_of_int signed_take_bit_int_eq_self)

lemma decodes_debug:
  assumes "storable (Suc d) f" "\<And>n. mem n"
  shows "decodes rd (LoadDebug rd mem) (if st then [] else lineinfo f, if st then [] else locvars f, if st then [] else upvalues f)
    (concat (debug_blocks st f))"
proof -
  define ls vs us where "ls = (if st then [] else lineinfo f)" and "vs = (if st then [] else locvars f)"
    and "us = (if st then [] else upvalues f)"
  have ok: "int (length ls) < 2 ^ 31 - 1" "int (length vs) < 2 ^ 31 - 1" "int (length us) < 2 ^ 31 - 1"
    "\<And>v. v \<in> set vs \<Longrightarrow> locvar_ok v" "\<And>u. u \<in> set us \<Longrightarrow> str_ok u" "\<And>l. l \<in> set ls \<Longrightarrow> - (2 ^ 31) \<le> l \<and> l < 2 ^ 31"
    using assms(1) by (auto simp: ls_def vs_def us_def list_all_iff split: if_splits)
  have sl: "map (\<lambda>x. sint (word_of_int x :: uint32)) ls = ls"
    using ok(6) by (intro map_idI sint_of_int32) auto
  have b: "concat (debug_blocks st f) = concat (vec_blocks (map instr_bytes (map word_of_int ls))) @
      (int_bytes (int (length vs)) @ concat (map (\<lambda>v. concat (locvar_blocks v)) vs)) @
      (int_bytes (int (length us)) @ concat (map (\<lambda>u. concat (str_blocks u)) us))"
    by (simp add: debug_blocks_def seq_blocks_def ls_def vs_def us_def int_bytes_word [abs_def] comp_def concat_map_concat)
  have "decodes rd (LoadDebug rd mem) (map sint (map word_of_int ls :: uint32 list), vs, us) (concat (debug_blocks st f))"
    unfolding LoadDebug_def [abs_def] b
    using assms(2) ok by (intro decodes_bind [where x = "map word_of_int ls"] decodes_bind [where x = vs]
        decodes_map [where h = "\<lambda>u. (map sint (map word_of_int ls :: uint32 list), vs, u)"]
        decodes_vector decodes_seq decodes_locvar decodes_string) auto
  then show ?thesis using sl by (simp add: ls_def vs_def us_def comp_def)
qed

lemma decodes_src:
  assumes "str_ok s" "\<And>n. mem n" "decodes rd (g (if s = None then q else s)) y cs"
  shows "decodes rd (\<lambda>S. rbind (LoadString rd mem S) (\<lambda>(s, S). let src = if s = None then q else s in g src S)) y (concat (str_blocks s) @ cs)"
  using decodes_bind [OF decodes_string [OF assms(1,2)], where g = "\<lambda>s S. let src = if s = None then q else s in g src S"]
    assms(3) by simp

lemma decodes_function:
  assumes "storable d f" "accepted d (reload st f p q)" "\<And>n. mem n"
  shows "decodes rd (LoadFunction_at rd mem d q) (reload st f p q) (concat (func_blocks st f p))"
  using assms(1,2)
proof (induction d arbitrary: f p q)
  case (Suc d)
  define s where "s = (if source f = p \<or> st then None else source f)"
  define src where "src = (if s = None then q else s)"
  define ps where "ps = map (\<lambda>g. reload st g (source f) src) (pp f)"
  have rl: "reload st f p q = Proto (pk f) (pcode f) ps (if st then [] else lineinfo f)
           (if st then [] else locvars f) (if st then [] else upvalues f) src (linedefined f) (lastlinedefined f)
           (nups f) (numparams f) (is_vararg f) (maxstacksize f)"
    by (subst reload.simps) (simp add: src_def s_def ps_def Let_def)
  have nest: "decodes rd (LoadFunction_at rd mem d src) (reload st g (source f) src) (concat (func_blocks st g (source f)))"
    if "g \<in> set (pp f)" for g
    using that Suc.prems rl by (intro Suc.IH) (auto simp: list_all_iff ps_def)
  have fb: "concat (func_blocks st f p) = concat (str_blocks s) @ int_bytes (linedefined f) @ int_bytes (lastlinedefined f) @
      byte_block (uint (nups f)) @ byte_block (uint (numparams f)) @ byte_block (uint (is_vararg f)) @ byte_block (uint (maxstacksize f)) @
      concat (vec_blocks (map instr_bytes (pcode f))) @
      (int_bytes (int (length (pk f))) @ concat (map (\<lambda>v. concat (const_blocks v)) (pk f))) @
      (int_bytes (int (length (pp f))) @ concat (map (\<lambda>g. concat (func_blocks st g (source f))) (pp f))) @
      concat (debug_blocks st f)"
    by (subst func_blocks.simps) (simp add: s_def seq_blocks_def concat_map_concat comp_def)
  have ok: "luaG_checkcode (reload st f p q) = Inr True" using Suc.prems(2) by simp
  have chk: "decodes rd (\<lambda>S. rbind (luaG_checkcode (reload st f p q)) (\<lambda>ok. if \<not> ok then Inl (lerror S ''bad code'')
      else Inr (reload st f p q, S))) (reload st f p q) []"
    by (simp add: ok decodes_def)
  have dbg: "decodes rd (LoadDebug rd mem) (if st then [] else lineinfo f, if st then [] else locvars f, if st then [] else upvalues f)
      (concat (debug_blocks st f))"
    using Suc.prems(1) assms(3) by (rule decodes_debug)
  have nst: "decodes rd (LoadSeq rd mem 8 (LoadFunction_at rd mem d src)) ps
      (int_bytes (int (length (pp f))) @ concat (map (\<lambda>g. concat (func_blocks st g (source f))) (pp f)))"
    unfolding ps_def using Suc.prems(1) assms(3) nest by (intro decodes_seq_map) auto
  have ks: "decodes rd (LoadSeq rd mem 16 (LoadConstant rd mem)) (pk f)
      (int_bytes (int (length (pk f))) @ concat (map (\<lambda>v. concat (const_blocks v)) (pk f)))"
    using Suc.prems(1) assms(3) by (intro decodes_seq decodes_constant) (auto simp: list_all_iff)
  have ok_s: "str_ok s" using Suc.prems(1) by (simp add: s_def str_ok_def)
  note bounds = Suc.prems(1)
  have last: "decodes rd (\<lambda>S. rbind (LoadDebug rd mem S) (\<lambda>((lines, vars, ups), S).
     let f = Proto (pk f) (pcode f) ps lines vars ups src (linedefined f) (lastlinedefined f) (nups f) (numparams f) (is_vararg f) (maxstacksize f)
     in rbind (luaG_checkcode f) (\<lambda>ok. if \<not> ok then Inl (lerror S ''bad code'') else Inr (f, S)))) (reload st f p q)
     (concat (debug_blocks st f) @ [])"
    by (rule decodes_bind [OF dbg]) (simp only: prod.case Let_def chk flip: rl)
  show ?case
    unfolding fb LoadFunction_at.simps LoadCode_def LoadConstants_def
    apply (rule decodes_src [OF ok_s assms(3)])
    apply (unfold src_def [symmetric])
    apply (rule decodes_bind [OF decodes_int])
    using bounds apply simp
    using bounds apply simp
    apply (rule decodes_bind [OF decodes_int])
    using bounds apply simp
    using bounds apply simp
    apply (rule decodes_bind [OF decodes_byte])+
    apply (rule decodes_bind [OF decodes_vector])
    using bounds apply simp
     apply (rule assms(3))
    apply (rule decodes_bind [OF ks])
    apply (rule decodes_bind [OF nst])
    using last by simp
qed simp

section \<open>Round trips\<close>

lemma decodes_header: "decodes rd (LoadHeader rd) () luaU_header"
proof -
  have "decodes rd (\<lambda>S. if luaU_header \<noteq> luaU_header then Inl (lerror S ''bad header'') else Inr ((), S)) () []"
    by (simp add: decodes_def)
  then have "decodes rd (LoadHeader rd) () (luaU_header @ [])"
    unfolding LoadHeader_def [abs_def]
    by (intro decodes_bind [where x = luaU_header] decodes_block) (auto simp: luaU_header_def LUA_SIGNATURE_def LUAC_HEADERSIZE_def)
  then show ?thesis by simp
qed

lemma undump_chunk:
  assumes "delivers rd d (concat (chunk_blocks st f))" "storable (nat (LUAI_MAXCCALLS - nc)) f"
    "accepted (nat (LUAI_MAXCCALLS - nc)) (reload st f None (Some ''=?''))" "\<And>n. mem n"
  shows "\<exists>S. luaU_undump rd mem nc (luaZ_init d) bsz name = Inr (reload st f None (Some ''=?''), S) \<and> zio_holds rd (LZ S) []"
proof -
  have "decodes rd (\<lambda>S. rbind (LoadHeader rd S) (\<lambda>(_, S). LoadFunction rd mem nc (Some ''=?'') S))
      (reload st f None (Some ''=?'')) (luaU_header @ concat (func_blocks st f None))"
    unfolding LoadFunction_def using assms(2-) by (intro decodes_bind [where x = "()"] decodes_header decodes_function)
  moreover have "zio_holds rd (LZ \<lparr>LZ = luaZ_init d, LB = bsz, Lname = chunk_name name\<rparr>) ((luaU_header @ concat (func_blocks st f None)) @ [])"
    using holds_init [OF assms(1)] by (simp add: chunk_blocks_def)
  ultimately show ?thesis unfolding luaU_undump_def by (blast dest: decodesD(1))
qed

primrec named :: "nat \<Rightarrow> Proto \<Rightarrow> bool" where
  "named 0 f = True"
| "named (Suc d) f = (source f \<noteq> None \<and> list_all (named d) (pp f))"

lemma reload_named: "storable d f \<Longrightarrow> named d f \<Longrightarrow> (source f = p \<Longrightarrow> q = p) \<Longrightarrow> reload False f p q = f"
proof (induction d arbitrary: f p q)
  case (Suc d)
  have "map (\<lambda>g. reload False g (source f) (source f)) (pp f) = pp f"
    using Suc by (intro map_idI Suc.IH) (auto simp: list_all_iff)
  then show ?case using Suc.prems by (subst reload.simps) (cases f; auto simp: Let_def)
qed simp

function strip_debug :: "Proto \<Rightarrow> Proto" where
  "strip_debug f = Proto (pk f) (pcode f) (map strip_debug (pp f)) [] [] [] (Some ''=?'') (linedefined f) (lastlinedefined f)
     (nups f) (numparams f) (is_vararg f) (maxstacksize f)"
  by pat_completeness auto
termination
  by (relation "measure size") (auto simp: size_pp)

declare strip_debug.simps [simp del]

lemma strip_debug_sel [simp]:
  "pk (strip_debug f) = pk f" "pcode (strip_debug f) = pcode f" "pp (strip_debug f) = map strip_debug (pp f)"
  "lineinfo (strip_debug f) = []" "upvalues (strip_debug f) = []" "nups (strip_debug f) = nups f"
  "numparams (strip_debug f) = numparams f" "is_vararg (strip_debug f) = is_vararg f" "maxstacksize (strip_debug f) = maxstacksize f"
  by (simp_all add: strip_debug.simps)

lemma reload_strip: "reload True f p (Some ''=?'') = strip_debug f"
proof (induction f arbitrary: p rule: measure_induct_rule [of size])
  case (less f)
  then show ?case using size_pp by (subst reload.simps, subst strip_debug.simps) (simp add: Let_def cong: map_cong)
qed

text \<open>The checker does not look at debug information beyond its sizes.\<close>

lemma read_at_map: "read_at (map h xs) j = rbind (read_at xs j) (\<lambda>x. Inr (h x))"
  by (auto simp: read_at_def)

lemma symb_step_strip: "symb_step (strip_debug f) = symb_step f"
proof (intro ext)
  fix lastpc reg pc lst
  have oa: "op_at (strip_debug f) = op_at f" by (simp add: op_at_def [abs_def])
  have u: "check_upvals (strip_debug f) j n = check_upvals f j n" for j n
  proof (induction n arbitrary: j)
    case (Suc n)
    then show ?case by (simp add: oa cong: if_cong)
  qed simp
  have m: "checkArgMode (strip_debug f) = checkArgMode f" by (intro ext) (simp add: checkArgMode_def split: OpArgMask.split)
  have "check_op (strip_debug f) l r op a b c q k = check_op f l r op a b c q k" for l r op a b c q k
    by (cases op) (simp_all add: check_op_def Let_def check_open_def u read_at_map rbind_assoc cong: if_cong)
  moreover have "check_mode (strip_debug f) q i = check_mode f q i" for q i unfolding check_mode_def m strip_debug_sel ..
  moreover have "check_test (strip_debug f) q i = check_test f q i" for q i unfolding check_test_def oa strip_debug_sel ..
  ultimately show "symb_step (strip_debug f) lastpc reg pc lst = symb_step f lastpc reg pc lst"
    by (simp add: symb_step_def)
qed

lemma symb_loop_strip: "symb_loop (strip_debug f) lastpc reg fuel pc lst = symb_loop f lastpc reg fuel pc lst"
proof (induction fuel arbitrary: pc lst)
  case 0
  show ?case by (simp add: symb_loop.simps)
next
  case (Suc fuel)
  show ?case
    unfolding symb_loop.simps [of "strip_debug f" _ _ "Suc fuel"] symb_loop.simps [of f _ _ "Suc fuel"] symb_step_strip
    by (cases "symb_step f lastpc reg pc lst") (auto simp: Suc split: option.split)
qed

lemma checkcode_strip: "luaG_checkcode f = Inr True \<Longrightarrow> luaG_checkcode (strip_debug f) = Inr True"
  by (auto simp: luaG_checkcode_def symbexec_def symb_loop_strip precheck_def op_at_def split: if_splits option.splits)

lemma accepted_strip: "accepted d f \<Longrightarrow> accepted d (strip_debug f)"
  by (induction d arbitrary: f) (auto simp: list_all_iff checkcode_strip)

section \<open>Every outcome\<close>

text \<open>The errors a load can end with, and loaders that end with no other.\<close>

definition load_error :: "lua_error \<Rightarrow> bool" where
  "load_error e = ((\<exists>msg. e = SyntaxError msg) \<or> e = MemError ''not enough memory'' \<or> e = Undefined ''luaM_newvector: n + 1'')"

definition tame :: "'r reader \<Rightarrow> ('a, 'r) loader \<Rightarrow> bool" where
  "tame rd ld = (\<forall>S bs. zio_holds rd (LZ S) bs \<longrightarrow>
     (case ld S of Inl e \<Rightarrow> load_error e | Inr (x, S') \<Rightarrow> \<exists>bs'. zio_holds rd (LZ S') bs'))"

lemma tame_bind: "tame rd ld \<Longrightarrow> (\<And>x. tame rd (g x)) \<Longrightarrow> tame rd (\<lambda>S. rbind (ld S) (\<lambda>(x, S). g x S))"
  unfolding tame_def by (fastforce split: sum.splits simp: rbind_case)

lemma tame_pure:
  "tame rd (\<lambda>S. Inr (x, S))" "tame rd (\<lambda>S. Inl (lerror S msg))"
  "tame rd ld \<Longrightarrow> tame rd ld' \<Longrightarrow> tame rd (\<lambda>S. if c then ld S else ld' S)"
  by (auto simp: tame_def load_error_def lerror_def split: sum.splits)

lemma tame_res: "(\<And>e. m = Inl e \<Longrightarrow> load_error e) \<Longrightarrow> (\<And>x. tame rd (h x)) \<Longrightarrow> tame rd (\<lambda>S. rbind m (\<lambda>x. h x S))"
  by (cases m) (auto simp: tame_def)

lemma tame_block: "tame rd (LoadBlock rd n)"
  unfolding tame_def LoadBlock_def using read_holds [of rd _ _ n]
  by (fastforce simp: load_error_def lerror_def split: sum.splits)

lemma tame_base:
  "tame rd (LoadChar rd)" "tame rd (LoadInt rd)" "tame rd (LoadNumber rd)" "tame rd (LoadHeader rd)"
  unfolding LoadChar_def [abs_def] LoadInt_def [abs_def] LoadNumber_def [abs_def] LoadHeader_def [abs_def] Let_def
  by (intro tame_bind tame_block tame_pure)+

lemma tame_byte: "tame rd (LoadByte rd)"
  unfolding LoadByte_def [abs_def] by (intro tame_bind tame_base tame_pure)

lemma tame_openspace: "tame rd ld \<Longrightarrow> tame rd (\<lambda>S. rbind (luaZ_openspace mem (LB S) n) (\<lambda>b. ld (S\<lparr>LB := b\<rparr>)))"
  by (auto simp: tame_def luaZ_openspace_def Let_def load_error_def)

lemma tame_string: "tame rd (LoadString rd mem)"
  unfolding LoadString_def [abs_def] Let_def
  by (intro tame_bind tame_block tame_pure tame_openspace [of rd "\<lambda>S. rbind (LoadBlock rd _ S) (\<lambda>(s, S). Inr (Some (take _ s), S))"])

lemma newvector_error: "luaM_newvector mem n e = Inl err \<Longrightarrow> load_error err"
  by (auto simp: luaM_newvector_def load_error_def split: if_splits)

lemma tame_vector: "tame rd (LoadVector rd mem)"
  unfolding LoadVector_def [abs_def]
  by (intro tame_bind tame_base tame_block tame_pure tame_res [of "luaM_newvector mem _ _", OF newvector_error])

lemma tame_n: "tame rd ld \<Longrightarrow> tame rd (load_n n ld)"
proof (induction n)
  case 0
  then show ?case using tame_pure(1) [of rd "[]"] by (simp add: tame_def)
next
  case (Suc n)
  then have "tame rd (\<lambda>S. rbind (ld S) (\<lambda>(x, S). rbind (load_n n ld S) (\<lambda>(xs, S). Inr (x # xs, S))))"
    by (intro tame_bind tame_pure)
  then show ?case by (simp add: tame_def)
qed

lemma tame_seq: "tame rd ld \<Longrightarrow> tame rd (LoadSeq rd mem e ld)"
  unfolding LoadSeq_def [abs_def]
  by (intro tame_bind tame_base tame_n tame_res [of "luaM_newvector mem _ _", OF newvector_error])

lemma tame_constant: "tame rd (LoadConstant rd mem)"
  unfolding LoadConstant_def [abs_def] by (intro tame_bind tame_base tame_string tame_pure)

lemma tame_locvar: "tame rd (LoadLocVar rd mem)"
  unfolding LoadLocVar_def [abs_def] by (intro tame_bind tame_base tame_string tame_pure)

lemma tame_debug: "tame rd (LoadDebug rd mem)"
  unfolding LoadDebug_def [abs_def] by (intro tame_bind tame_vector tame_seq tame_locvar tame_string tame_pure)

lemma tame_function: "tame rd (LoadFunction_at rd mem d p)"
proof (induction d arbitrary: p)
  case 0
  then show ?case using tame_pure(2) [of rd "''code too deep''"] by (simp add: tame_def)
next
  case (Suc d)
  have ck: "tame rd (\<lambda>S. rbind (luaG_checkcode f) (\<lambda>ok. if \<not> ok then Inl (lerror S ''bad code'') else Inr (f, S)))" for f
    using checkcode_total [of f] by (intro tame_res tame_pure) auto
  have "tame rd (\<lambda>S. LoadFunction_at rd mem (Suc d) p S)"
    unfolding LoadFunction_at.simps Let_def LoadCode_def LoadConstants_def case_prod_beta
    by (intro tame_bind [unfolded case_prod_beta] tame_base tame_byte tame_string tame_vector tame_seq tame_constant tame_debug Suc ck)
  then show ?case .
qed

lemma tame_undump:
  assumes "zio_holds rd z bs" "luaU_undump rd mem nc z bsz name = Inl e"
  shows "load_error e"
proof -
  have "tame rd (\<lambda>S. rbind (LoadHeader rd S) (\<lambda>(_, S). LoadFunction rd mem nc (Some ''=?'') S))"
    unfolding LoadFunction_def by (intro tame_bind tame_base tame_function)
  then show ?thesis using assms unfolding tame_def luaU_undump_def by (metis LoadState.select_convs(1) sum.simps(5))
qed

section \<open>Claims\<close>

text \<open>
  C4. Dumping a function and loading the chunk gives the function back, with its nested functions,
  constants, code and debug information, whatever pieces the reader cuts the chunk into and
  whatever the name it is loaded under: for every function that fits the format (counts and lines
  in the range of \<open>int\<close>, constants of the four kinds, nesting within the limit), that names its
  source and whose code the checker accepts. The stream is consumed exactly.
\<close>

theorem luaU_undump_dump:
  assumes "luaU_dump f append_writer [] False = (0, chunk)" "delivers rd d chunk"
    "storable (nat (LUAI_MAXCCALLS - nc)) f" "accepted (nat (LUAI_MAXCCALLS - nc)) f" "named (nat (LUAI_MAXCCALLS - nc)) f"
    "\<forall>n. mem n"
  shows "\<exists>S. luaU_undump rd mem nc (luaZ_init d) bsz name = Inr (f, S) \<and> zio_holds rd (LZ S) []"
proof -
  have c: "chunk = concat (chunk_blocks False f)" using assms(1) by (simp add: dump_feed feed_append)
  have "source f \<noteq> None" using assms(3,5) by (cases "nat (LUAI_MAXCCALLS - nc)") auto
  then have r: "reload False f None (Some ''=?'') = f" by (intro reload_named [OF assms(3,5)]) simp
  show ?thesis using undump_chunk [of rd d False f nc mem] assms(2,3,4,6) unfolding r c by simp
qed

text \<open>\<open>JMP 0; RETURN 0 1\<close>, with one constant.\<close>

definition dump_example :: Proto where
  "dump_example = Proto [Vboolean True] [2147467286, 8388638] [] [] [] [] (Some ''=x'') 0 0 0 0 0 2"

lemma dump_example_ok: "storable 200 dump_example" "accepted 200 dump_example" "named 200 dump_example"
proof -
  have d: "(200 :: nat) = Suc 199" by simp
  have "luaG_checkcode dump_example = Inr True" by code_simp
  then show "accepted 200 dump_example" unfolding d accepted.simps by (simp add: dump_example_def)
  show "storable 200 dump_example" "named 200 dump_example"
    unfolding d storable.simps named.simps by (simp_all add: dump_example_def str_ok_def const_ok_def)
qed

theorem luaU_undump_dump_witness:
  "\<exists>S. luaU_undump pieces_reader (\<lambda>_. True) 0 (luaZ_init (map (\<lambda>c. [c]) (snd (luaU_dump dump_example append_writer [] False)))) 0 ''=in''
     = Inr (dump_example, S)"
proof -
  define chunk where "chunk = concat (chunk_blocks False dump_example)"
  have c: "luaU_dump dump_example append_writer [] False = (0, chunk)" by (simp add: dump_feed feed_append chunk_def)
  have "delivers pieces_reader (map (\<lambda>c. [c]) chunk) chunk"
    using delivers_pieces [of "map (\<lambda>c. [c]) chunk"] by (simp add: concat_map_singleton)
  then show ?thesis
    using luaU_undump_dump [OF c, of pieces_reader "map (\<lambda>c. [c]) chunk" 0 "\<lambda>_. True" 0 "''=in''"] dump_example_ok
    by (auto simp: LUAI_MAXCCALLS_def c)
qed

text \<open>
  C23. Loading a stripped chunk gives the function without debug information, every source name
  replaced by \<open>=?\<close>; the checker accepts the stripped code whenever it accepted the original.
\<close>

theorem luaU_undump_stripped:
  assumes "luaU_dump f append_writer [] True = (0, chunk)" "delivers rd d chunk"
    "storable (nat (LUAI_MAXCCALLS - nc)) f" "accepted (nat (LUAI_MAXCCALLS - nc)) f" "\<forall>n. mem n"
  shows "\<exists>S. luaU_undump rd mem nc (luaZ_init d) bsz name = Inr (strip_debug f, S) \<and> zio_holds rd (LZ S) []"
proof -
  have c: "chunk = concat (chunk_blocks True f)" using assms(1) by (simp add: dump_feed feed_append)
  show ?thesis using undump_chunk [of rd d True f nc mem] assms(2,3,5) accepted_strip [OF assms(4)]
    unfolding reload_strip c by simp
qed

theorem luaU_undump_stripped_witness:
  "\<exists>S. luaU_undump pieces_reader (\<lambda>_. True) 0 (luaZ_init (map (\<lambda>c. [c]) (snd (luaU_dump dump_example append_writer [] True)))) 0 ''=in''
     = Inr (strip_debug dump_example, S)"
proof -
  define chunk where "chunk = concat (chunk_blocks True dump_example)"
  have c: "luaU_dump dump_example append_writer [] True = (0, chunk)" by (simp add: dump_feed feed_append chunk_def)
  have "delivers pieces_reader (map (\<lambda>c. [c]) chunk) chunk"
    using delivers_pieces [of "map (\<lambda>c. [c]) chunk"] by (simp add: concat_map_singleton)
  then show ?thesis
    using luaU_undump_stripped [OF c, of pieces_reader "map (\<lambda>c. [c]) chunk" 0 "\<lambda>_. True" 0 "''=in''"] dump_example_ok
    by (auto simp: LUAI_MAXCCALLS_def c)
qed

text \<open>
  C13. A truncated chunk is never accepted: cutting any number of bytes off the end of a dumped chunk
  makes the load stop with the error for an unexpected end, prefixed by the chunk's name.
\<close>

theorem luaU_undump_truncated:
  assumes "luaU_dump f append_writer [] st = (0, chunk @ lost)" "lost \<noteq> []" "delivers rd d chunk"
    "storable (nat (LUAI_MAXCCALLS - nc)) f" "accepted (nat (LUAI_MAXCCALLS - nc)) (reload st f None (Some ''=?''))" "\<forall>n. mem n"
  shows "luaU_undump rd mem nc (luaZ_init d) bsz name =
    Inl (SyntaxError (chunk_name name @ '': unexpected end in precompiled chunk''))"
proof -
  have c: "chunk @ lost = luaU_header @ concat (func_blocks st f None)"
    using assms(1) unfolding dump_feed feed_append by (simp add: chunk_blocks_def)
  have "decodes rd (\<lambda>S. rbind (LoadHeader rd S) (\<lambda>(_, S). LoadFunction rd mem nc (Some ''=?'') S))
      (reload st f None (Some ''=?'')) (chunk @ lost)"
    unfolding c LoadFunction_def using assms(4-) by (intro decodes_bind [where x = "()"] decodes_header decodes_function) auto
  from decodesD(2) [OF this refl assms(2)] show ?thesis
    using holds_init [OF assms(3)] by (simp add: luaU_undump_def lerror_def)
qed

theorem luaU_undump_truncated_witness:
  "luaU_undump pieces_reader (\<lambda>_. True) 0 (luaZ_init (map (\<lambda>c. [c]) (butlast (snd (luaU_dump dump_example append_writer [] False))))) 0 ''=in''
     = Inl (SyntaxError ''in: unexpected end in precompiled chunk'')"
proof -
  define chunk where "chunk = concat (chunk_blocks False dump_example)"
  have ne: "chunk \<noteq> []" by (simp add: chunk_def chunk_blocks_def luaU_header_def LUA_SIGNATURE_def)
  have c: "luaU_dump dump_example append_writer [] False = (0, chunk)" by (simp add: dump_feed feed_append chunk_def)
  have c': "luaU_dump dump_example append_writer [] False = (0, butlast chunk @ [List.last chunk])" using ne c by simp
  have "delivers pieces_reader (map (\<lambda>c. [c]) (butlast chunk)) (butlast chunk)"
    using delivers_pieces [of "map (\<lambda>c. [c]) (butlast chunk)"] by (simp add: concat_map_singleton)
  moreover have "reload False dump_example None (Some ''=?'') = dump_example"
    by (rule reload_named [OF dump_example_ok(1,3)]) (simp add: dump_example_def)
  ultimately show ?thesis
    using luaU_undump_truncated [OF c', of pieces_reader "map (\<lambda>c. [c]) (butlast chunk)" 0 "\<lambda>_. True" 0 "''=in''"] dump_example_ok
    by (simp add: LUAI_MAXCCALLS_def c chunk_name_def)
qed



text \<open>
  C28. The undefined path exists: a chunk whose code count is the largest \<open>int\<close> reaches it, before
  anything of the code is read.
\<close>

theorem luaU_undump_count_overflow:
  "\<exists>chunk. luaU_undump pieces_reader (\<lambda>_. True) 0 (luaZ_init [chunk]) 0 ''=in'' = Inl (Undefined ''luaM_newvector: n + 1'')"
proof
  show "luaU_undump pieces_reader (\<lambda>_. True) 0
      (luaZ_init [luaU_header @ size_bytes 0 @ int_bytes 0 @ int_bytes 0 @ ''abcd'' @ int_bytes 2147483647]) 0 ''=in'' =
      Inl (Undefined ''luaM_newvector: n + 1'')"
    by code_simp
qed

end
