(* ===== verification/Lformat.thy ===== *)
theory Lformat
  imports Lobject
begin

text \<open>
  lobject.c: \<open>luaO_pushvfstring\<close>, the formatter behind error messages, and the character classes of
  \<open>ctype.h\<close> in the C locale. A C string argument is its bytes up to the terminator.
\<close>

section \<open>Character classes\<close>

abbreviation code :: "char \<Rightarrow> nat" where "code c \<equiv> of_char c"

definition isdigit :: "char \<Rightarrow> bool" where "isdigit c = (48 \<le> code c \<and> code c \<le> 57)"
definition isupper :: "char \<Rightarrow> bool" where "isupper c = (65 \<le> code c \<and> code c \<le> 90)"
definition islower :: "char \<Rightarrow> bool" where "islower c = (97 \<le> code c \<and> code c \<le> 122)"
definition isalpha :: "char \<Rightarrow> bool" where "isalpha c = (isupper c \<or> islower c)"
definition isalnum :: "char \<Rightarrow> bool" where "isalnum c = (isalpha c \<or> isdigit c)"
definition isspace :: "char \<Rightarrow> bool" where "isspace c = (code c = 32 \<or> 9 \<le> code c \<and> code c \<le> 13)"
definition iscntrl :: "char \<Rightarrow> bool" where "iscntrl c = (code c < 32 \<or> code c = 127)"
definition ispunct :: "char \<Rightarrow> bool" where "ispunct c = (33 \<le> code c \<and> code c \<le> 126 \<and> \<not> isalnum c)"
definition isxdigit :: "char \<Rightarrow> bool" where
  "isxdigit c = (isdigit c \<or> 65 \<le> code c \<and> code c \<le> 70 \<or> 97 \<le> code c \<and> code c \<le> 102)"
definition tolower :: "char \<Rightarrow> char" where "tolower c = (if isupper c then char_of (code c + 32) else c)"
definition toupper :: "char \<Rightarrow> char" where "toupper c = (if islower c then char_of (code c - 32) else c)"

section \<open>Formatting\<close>

fun dec_nat :: "nat \<Rightarrow> string" where
  "dec_nat n = (if n < 10 then [char_of (48 + n)] else dec_nat (n div 10) @ [char_of (48 + n mod 10)])"

declare dec_nat.simps [simp del]

definition dec_int :: "int \<Rightarrow> string" where
  "dec_int n = (if n < 0 then CHR ''-'' # dec_nat (nat (- n)) else dec_nat (nat n))"

text \<open>A C string: what comes before the first zero byte.\<close>

definition cstr :: "bytes \<Rightarrow> bytes" where
  "cstr s = takeWhile (\<lambda>c. c \<noteq> CHR 0x00) s"

datatype fmt_arg = ArgS "bytes option" | ArgC char | ArgD int | ArgF lua_Number | ArgP ptr

text \<open>
  The conversions of a double and of a pointer by \<open>sprintf\<close> are parameters; an \<open>int\<close>, converted to a
  double and back to text, prints as its digits. A format that ends in a single percent sign or
  that asks for an argument of another type is undefined.
\<close>

fun luaO_pushvfstring :: "(lua_Number \<Rightarrow> string) \<Rightarrow> (ptr \<Rightarrow> string) \<Rightarrow> string \<Rightarrow> fmt_arg list \<Rightarrow> string res" where
  "luaO_pushvfstring nstr pstr [] args = Inr []"
| "luaO_pushvfstring nstr pstr [c] args = (if c = CHR ''%'' then Inl (Undefined ''format'') else Inr [c])"
| "luaO_pushvfstring nstr pstr (c # d # fmt) args =
     (if c \<noteq> CHR ''%''
      then rbind (luaO_pushvfstring nstr pstr (d # fmt) args) (\<lambda>r. Inr (c # r))
      else if d = CHR ''s''
      then (case args of
              ArgS s # as \<Rightarrow> rbind (luaO_pushvfstring nstr pstr fmt as) (\<lambda>r.
                Inr ((case s of None \<Rightarrow> ''(null)'' | Some s \<Rightarrow> cstr s) @ r))
            | _ \<Rightarrow> Inl (Undefined ''va_arg''))
      else if d = CHR ''c''
      then (case args of
              ArgC x # as \<Rightarrow> rbind (luaO_pushvfstring nstr pstr fmt as) (\<lambda>r. Inr (cstr [x] @ r))
            | _ \<Rightarrow> Inl (Undefined ''va_arg''))
      else if d = CHR ''d''
      then (case args of
              ArgD n # as \<Rightarrow> rbind (luaO_pushvfstring nstr pstr fmt as) (\<lambda>r. Inr (dec_int n @ r))
            | _ \<Rightarrow> Inl (Undefined ''va_arg''))
      else if d = CHR ''f''
      then (case args of
              ArgF x # as \<Rightarrow> rbind (luaO_pushvfstring nstr pstr fmt as) (\<lambda>r. Inr (nstr x @ r))
            | _ \<Rightarrow> Inl (Undefined ''va_arg''))
      else if d = CHR ''p''
      then (case args of
              ArgP p # as \<Rightarrow> rbind (luaO_pushvfstring nstr pstr fmt as) (\<lambda>r. Inr (pstr p @ r))
            | _ \<Rightarrow> Inl (Undefined ''va_arg''))
      else if d = CHR ''%''
      then rbind (luaO_pushvfstring nstr pstr fmt args) (\<lambda>r. Inr (CHR ''%'' # r))
      else rbind (luaO_pushvfstring nstr pstr fmt args) (\<lambda>r. Inr (CHR ''%'' # d # r)))"

end
