(* ===== verification/Lauxlib.thy ===== *)
theory Lauxlib
  imports Lformat Lobject
begin

text \<open>
  lauxlib.c and the access functions of lapi.c that library functions read their arguments with. The
  arguments of a C function are a list of values whose strings are their contents; results are values.
  An error carries its message without the position \<open>luaL_where\<close> puts in front of it. The string buffer
  is modelled with its pieces on the Lua stack, and refines concatenation.
\<close>

section \<open>Arguments\<close>

type_synonym lval = "bytes TValue"
type_synonym args = "lval list"

text \<open>
  What a library function finds outside its arguments: the name \<open>lua_getinfo\<close> gives it (\<open>namewhat\<close> and
  \<open>name\<close>; \<open>None\<close> without a frame), the C library's \<open>strtod\<close> and \<open>strtoul\<close> of base 16 (value and number of
  bytes read), and \<open>sprintf\<close> with \<open>"%.14g"\<close>.
\<close>

record libenv =
  ar :: "(string \<times> string option) option"
  strtod :: "bytes \<Rightarrow> lua_Number \<times> nat"
  strtoul16 :: "bytes \<Rightarrow> nat \<times> nat"
  fmt14g :: "lua_Number \<Rightarrow> bytes"

definition luaL_error :: "string \<Rightarrow> 'a res" where
  "luaL_error msg = Inl (RunError msg)"

definition luaL_argerror :: "libenv \<Rightarrow> nat \<Rightarrow> string \<Rightarrow> 'a res" where
  "luaL_argerror E narg extramsg =
     (case ar E of
        None \<Rightarrow> luaL_error (''bad argument #'' @ dec_nat narg @ '' ('' @ extramsg @ '')'')
      | Some (namewhat, name) \<Rightarrow>
          let nm = (case name of None \<Rightarrow> ''?'' | Some s \<Rightarrow> s);
              m = (namewhat = ''method'');
              k = (if m then int narg - 1 else int narg)
          in if m \<and> k = 0
             then luaL_error (''calling '' @ [CHR 0x27] @ (case name of None \<Rightarrow> ''(null)'' | Some s \<Rightarrow> s) @ [CHR 0x27] @ '' on bad self ('' @ extramsg @ '')'')
             else luaL_error (''bad argument #'' @ dec_int k @ '' to '' @ [CHR 0x27] @ nm @ [CHR 0x27] @ '' ('' @ extramsg @ '')''))"

text \<open>A missing argument is \<open>None\<close>, as \<open>index2adr\<close> gives \<open>luaO_nilobject\<close> for it.\<close>

definition index2adr :: "args \<Rightarrow> nat \<Rightarrow> lval option" where
  "index2adr L idx = (if 1 \<le> idx \<and> idx \<le> length L then Some (L ! (idx - 1)) else None)"

definition lua_type :: "args \<Rightarrow> nat \<Rightarrow> int" where
  "lua_type L idx = (case index2adr L idx of None \<Rightarrow> - 1 | Some v \<Rightarrow> ttype v)"

definition luaT_typenames :: "string list" where
  "luaT_typenames = [''nil'', ''boolean'', ''userdata'', ''number'', ''string'', ''table'', ''function'', ''userdata'',
     ''thread'', ''proto'', ''upval'']"

definition lua_typename :: "int \<Rightarrow> string" where
  "lua_typename t = (if t = - 1 then ''no value'' else luaT_typenames ! nat t)"

definition luaL_typename :: "args \<Rightarrow> nat \<Rightarrow> string" where
  "luaL_typename L i = lua_typename (lua_type L i)"

definition luaL_typerror :: "libenv \<Rightarrow> args \<Rightarrow> nat \<Rightarrow> string \<Rightarrow> 'a res" where
  "luaL_typerror E L narg tname = luaL_argerror E narg (tname @ '' expected, got '' @ luaL_typename L narg)"

definition tag_error :: "libenv \<Rightarrow> args \<Rightarrow> nat \<Rightarrow> int \<Rightarrow> 'a res" where
  "tag_error E L narg tag = luaL_typerror E L narg (lua_typename tag)"

definition luaL_checktype :: "libenv \<Rightarrow> args \<Rightarrow> nat \<Rightarrow> int \<Rightarrow> unit res" where
  "luaL_checktype E L narg t = (if lua_type L narg \<noteq> t then tag_error E L narg t else Inr ())"

definition luaL_checkany :: "libenv \<Rightarrow> args \<Rightarrow> nat \<Rightarrow> unit res" where
  "luaL_checkany E L narg = (if lua_type L narg = - 1 then luaL_argerror E narg ''value expected'' else Inr ())"

definition luaL_argcheck :: "libenv \<Rightarrow> bool \<Rightarrow> nat \<Rightarrow> string \<Rightarrow> unit res" where
  "luaL_argcheck E c numarg extramsg = (if c then Inr () else luaL_argerror E numarg extramsg)"

definition lua_isnoneornil :: "args \<Rightarrow> nat \<Rightarrow> bool" where
  "lua_isnoneornil L n = (lua_type L n \<le> 0)"

section \<open>Conversions\<close>

text \<open>C strings end at their first zero; \<open>at s i\<close> is the byte \<open>i\<close> of the C string \<open>s\<close>.\<close>

definition at :: "bytes \<Rightarrow> nat \<Rightarrow> char" where
  "at s i = (if i < length (cstr s) then s ! i else CHR 0x00)"

definition luaO_str2d :: "libenv \<Rightarrow> bytes \<Rightarrow> lua_Number option" where
  "luaO_str2d E s =
     (let (result, endptr) = strtod E (cstr s)
      in if endptr = 0 then None
         else let (result, endptr) =
                    (if at s endptr = CHR ''x'' \<or> at s endptr = CHR ''X''
                     then (let (n, e) = strtoul16 E (cstr s) in (cast_num (int n), e)) else (result, endptr))
              in if at s endptr = CHR 0x00 then Some result
                 else if dropWhile isspace (drop endptr (cstr s)) \<noteq> [] then None else Some result)"

definition luaV_tonumber :: "libenv \<Rightarrow> lval \<Rightarrow> lua_Number option" where
  "luaV_tonumber E obj = (case obj of Vnumber n \<Rightarrow> Some n | Vstring s \<Rightarrow> luaO_str2d E s | _ \<Rightarrow> None)"

definition luaV_tostring :: "libenv \<Rightarrow> lval \<Rightarrow> bytes option" where
  "luaV_tostring E obj = (case obj of Vnumber n \<Rightarrow> Some (fmt14g E n) | _ \<Rightarrow> None)"

definition lua_isnumber :: "libenv \<Rightarrow> args \<Rightarrow> nat \<Rightarrow> bool" where
  "lua_isnumber E L idx = (case index2adr L idx of None \<Rightarrow> False | Some v \<Rightarrow> luaV_tonumber E v \<noteq> None)"

definition lua_isstring :: "args \<Rightarrow> nat \<Rightarrow> bool" where
  "lua_isstring L idx = (let t = lua_type L idx in t = 4 \<or> t = 3)"

definition lua_tonumber :: "libenv \<Rightarrow> args \<Rightarrow> nat \<Rightarrow> lua_Number" where
  "lua_tonumber E L idx =
     (case index2adr L idx of None \<Rightarrow> num_zero | Some v \<Rightarrow> (case luaV_tonumber E v of None \<Rightarrow> num_zero | Some n \<Rightarrow> n))"

definition lua_tointeger :: "libenv \<Rightarrow> args \<Rightarrow> nat \<Rightarrow> int" where
  "lua_tointeger E L idx =
     (case index2adr L idx of None \<Rightarrow> 0 | Some v \<Rightarrow> (case luaV_tonumber E v of None \<Rightarrow> 0 | Some n \<Rightarrow> lua_number2integer n))"

definition lua_toboolean :: "args \<Rightarrow> nat \<Rightarrow> bool" where
  "lua_toboolean L idx = (case index2adr L idx of None \<Rightarrow> False | Some v \<Rightarrow> \<not> l_isfalse v)"

definition lua_tolstring :: "libenv \<Rightarrow> args \<Rightarrow> nat \<Rightarrow> bytes option" where
  "lua_tolstring E L idx =
     (case index2adr L idx of None \<Rightarrow> None | Some (Vstring s) \<Rightarrow> Some s | Some v \<Rightarrow> luaV_tostring E v)"

definition luaL_checklstring :: "libenv \<Rightarrow> args \<Rightarrow> nat \<Rightarrow> bytes res" where
  "luaL_checklstring E L narg = (case lua_tolstring E L narg of None \<Rightarrow> tag_error E L narg 4 | Some s \<Rightarrow> Inr s)"

definition luaL_optlstring :: "libenv \<Rightarrow> args \<Rightarrow> nat \<Rightarrow> bytes \<Rightarrow> bytes res" where
  "luaL_optlstring E L narg d = (if lua_isnoneornil L narg then Inr d else luaL_checklstring E L narg)"

definition luaL_checknumber :: "libenv \<Rightarrow> args \<Rightarrow> nat \<Rightarrow> lua_Number res" where
  "luaL_checknumber E L narg =
     (let d = lua_tonumber E L narg
      in if luai_numeq d num_zero \<and> \<not> lua_isnumber E L narg then tag_error E L narg 3 else Inr d)"

definition luaL_optnumber :: "libenv \<Rightarrow> args \<Rightarrow> nat \<Rightarrow> lua_Number \<Rightarrow> lua_Number res" where
  "luaL_optnumber E L narg d = (if lua_isnoneornil L narg then Inr d else luaL_checknumber E L narg)"

definition luaL_checkinteger :: "libenv \<Rightarrow> args \<Rightarrow> nat \<Rightarrow> int res" where
  "luaL_checkinteger E L narg =
     (let d = lua_tointeger E L narg
      in if d = 0 \<and> \<not> lua_isnumber E L narg then tag_error E L narg 3 else Inr d)"

definition luaL_optinteger :: "libenv \<Rightarrow> args \<Rightarrow> nat \<Rightarrow> int \<Rightarrow> int res" where
  "luaL_optinteger E L narg d = (if lua_isnoneornil L narg then Inr d else luaL_checkinteger E L narg)"

text \<open>\<open>(int)\<close> of a 64-bit integer keeps its low 32 bits.\<close>

definition to_int :: "int \<Rightarrow> int" where
  "to_int n = (n + 2 ^ 31) mod 2 ^ 32 - 2 ^ 31"

definition luaL_checkint :: "libenv \<Rightarrow> args \<Rightarrow> nat \<Rightarrow> int res" where
  "luaL_checkint E L n = rbind (luaL_checkinteger E L n) (\<lambda>i. Inr (to_int i))"

definition luaL_optint :: "libenv \<Rightarrow> args \<Rightarrow> nat \<Rightarrow> int \<Rightarrow> int res" where
  "luaL_optint E L n d = rbind (luaL_optinteger E L n d) (\<lambda>i. Inr (to_int i))"

fun option_index :: "string \<Rightarrow> string list \<Rightarrow> nat option" where
  "option_index name [] = None"
| "option_index name (x # xs) = (if x = name then Some 0 else map_option Suc (option_index name xs))"

definition luaL_checkoption :: "libenv \<Rightarrow> args \<Rightarrow> nat \<Rightarrow> string option \<Rightarrow> string list \<Rightarrow> nat res" where
  "luaL_checkoption E L narg d lst =
     rbind (case d of Some s \<Rightarrow> luaL_optlstring E L narg s | None \<Rightarrow> luaL_checklstring E L narg) (\<lambda>s.
       case option_index (cstr s) lst of
         Some i \<Rightarrow> Inr i
       | None \<Rightarrow> luaL_argerror E narg (''invalid option '' @ [CHR 0x27] @ cstr s @ [CHR 0x27]))"

definition LUAI_MAXCSTACK :: int where "LUAI_MAXCSTACK = 8000"

text \<open>\<open>lua_checkstack\<close> for \<open>n\<close> more slots above the arguments.\<close>

definition luaL_checkstack :: "args \<Rightarrow> int \<Rightarrow> string \<Rightarrow> unit res" where
  "luaL_checkstack L n mes =
     (if n > LUAI_MAXCSTACK \<or> int (length L) + n > LUAI_MAXCSTACK then luaL_error (''stack overflow ('' @ mes @ '')'')
      else Inr ())"

section \<open>String buffers\<close>

text \<open>
  \<open>buffer\<close> is the part of the C array before \<open>p\<close>; \<open>levels\<close> are the \<open>lvl\<close> strings of the buffer on the Lua
  stack, the top first. The size of the array (\<open>BUFSIZ\<close> of the C library) is an argument.
\<close>

record luaL_Buffer =
  buffer :: bytes
  levels :: "bytes list"

definition LIMIT :: nat where "LIMIT = 20 div 2"

definition luaL_buffinit :: luaL_Buffer where
  "luaL_buffinit = \<lparr>buffer = [], levels = []\<rparr>"

definition lua_concat :: "nat \<Rightarrow> bytes list \<Rightarrow> bytes list" where
  "lua_concat n st = concat (rev (take n st)) # drop n st"

definition emptybuffer :: "luaL_Buffer \<Rightarrow> bool \<times> luaL_Buffer" where
  "emptybuffer B = (if buffer B = [] then (False, B) else (True, B\<lparr>levels := buffer B # levels B, buffer := []\<rparr>))"

text \<open>The number of levels to join; the list holds the levels below the first \<open>toget\<close>.\<close>

primrec toget_loop :: "nat \<Rightarrow> nat \<Rightarrow> nat \<Rightarrow> bytes list \<Rightarrow> nat" where
  "toget_loop lvl toget toplen [] = toget"
| "toget_loop lvl toget toplen (x # xs) =
     (if lvl - toget + 1 \<ge> LIMIT \<or> toplen > length x then toget_loop lvl (toget + 1) (toplen + length x) xs else toget)"

definition adjuststack :: "luaL_Buffer \<Rightarrow> luaL_Buffer" where
  "adjuststack B =
     (case levels B of
        t # x # xs \<Rightarrow> B\<lparr>levels := lua_concat (toget_loop (length (levels B)) 1 (length t) (x # xs)) (levels B)\<rparr>
      | _ \<Rightarrow> B)"

definition luaL_prepbuffer :: "luaL_Buffer \<Rightarrow> luaL_Buffer" where
  "luaL_prepbuffer B = (let (full, B) = emptybuffer B in if full then adjuststack B else B)"

definition luaL_addchar :: "nat \<Rightarrow> luaL_Buffer \<Rightarrow> char \<Rightarrow> luaL_Buffer" where
  "luaL_addchar bufsiz B c =
     (let B = (if length (buffer B) < bufsiz then B else luaL_prepbuffer B) in B\<lparr>buffer := buffer B @ [c]\<rparr>)"

primrec luaL_addlstring :: "nat \<Rightarrow> luaL_Buffer \<Rightarrow> bytes \<Rightarrow> luaL_Buffer" where
  "luaL_addlstring bufsiz B [] = B"
| "luaL_addlstring bufsiz B (c # cs) = luaL_addlstring bufsiz (luaL_addchar bufsiz B c) cs"

text \<open>\<open>s\<close> is the string on the top of the stack.\<close>

definition luaL_addvalue :: "nat \<Rightarrow> luaL_Buffer \<Rightarrow> bytes \<Rightarrow> luaL_Buffer" where
  "luaL_addvalue bufsiz B s =
     (if length s \<le> bufsiz - length (buffer B) then B\<lparr>buffer := buffer B @ s\<rparr>
      else let (_, B) = emptybuffer B in adjuststack (B\<lparr>levels := s # levels B\<rparr>))"

definition luaL_pushresult :: "luaL_Buffer \<Rightarrow> luaL_Buffer" where
  "luaL_pushresult B = (let (_, B) = emptybuffer B in B\<lparr>levels := lua_concat (length (levels B)) (levels B)\<rparr>)"

section \<open>The buffer is a concatenation\<close>

definition buffer_abs :: "luaL_Buffer \<Rightarrow> bytes" where
  "buffer_abs B = concat (rev (levels B)) @ buffer B"

definition buffer_ok :: "nat \<Rightarrow> luaL_Buffer \<Rightarrow> bool" where
  "buffer_ok bufsiz B = (length (buffer B) \<le> bufsiz \<and> length (levels B) < LIMIT)"

lemma concat_lua_concat: "concat (rev (lua_concat n st)) = concat (rev st)"
proof -
  have "concat (rev st) = concat (rev (take n st @ drop n st))" by simp
  also have "\<dots> = concat (rev (drop n st)) @ concat (rev (take n st))" by (simp only: rev_append concat_append)
  finally show ?thesis by (simp add: lua_concat_def)
qed

lemma abs_emptybuffer: "emptybuffer B = (b, B') \<Longrightarrow> buffer_abs B' = buffer_abs B \<and> buffer B' = [] \<and> length (levels B') \<le> Suc (length (levels B))"
  by (auto simp: emptybuffer_def buffer_abs_def split: if_splits)

lemma abs_adjuststack: "buffer_abs (adjuststack B) = buffer_abs B" "buffer (adjuststack B) = buffer B"
  by (auto simp: adjuststack_def buffer_abs_def concat_lua_concat split: list.splits)

lemma toget_loop_range:
  "length xs + toget = lvl \<Longrightarrow> toget \<le> toget_loop lvl toget n xs \<and> toget_loop lvl toget n xs \<le> lvl
     \<and> (lvl - toget_loop lvl toget n xs + 1 < LIMIT \<or> toget_loop lvl toget n xs = lvl)"
proof (induction xs arbitrary: toget n)
  case (Cons x xs)
  have "length xs + (toget + 1) = lvl" using Cons.prems by simp
  from Cons.IH [OF this, of "n + length x"] show ?case using Cons.prems by auto
qed auto

lemma adjuststack_levels: "length (levels (adjuststack B)) < LIMIT"
proof (cases "levels B")
  case (Cons t ys)
  show ?thesis
  proof (cases ys)
    case (Cons x xs)
    let ?t = "toget_loop (length (levels B)) 1 (length t) (x # xs)"
    have "length (x # xs) + 1 = length (levels B)" using \<open>levels B = t # ys\<close> Cons by simp
    then have t: "1 \<le> ?t \<and> ?t \<le> length (levels B) \<and> (length (levels B) - ?t + 1 < LIMIT \<or> ?t = length (levels B))"
      by (rule toget_loop_range)
    have "levels (adjuststack B) = lua_concat ?t (levels B)" using \<open>levels B = t # ys\<close> Cons by (simp add: adjuststack_def)
    then have "length (levels (adjuststack B)) = length (levels B) - ?t + 1" by (simp add: lua_concat_def)
    then show ?thesis using t by (auto simp: LIMIT_def)
  qed (simp add: adjuststack_def \<open>levels B = t # ys\<close> LIMIT_def)
qed (simp add: adjuststack_def LIMIT_def)

lemma prepbuffer_ok:
  assumes "buffer_ok n B" "buffer B \<noteq> []"
  shows "buffer_abs (luaL_prepbuffer B) = buffer_abs B" "buffer (luaL_prepbuffer B) = []" "buffer_ok n (luaL_prepbuffer B)"
  using assms adjuststack_levels
  by (auto simp: luaL_prepbuffer_def emptybuffer_def abs_adjuststack buffer_ok_def) (simp add: buffer_abs_def)

lemma addchar_ok: "0 < n \<Longrightarrow> buffer_ok n B \<Longrightarrow> buffer_abs (luaL_addchar n B c) = buffer_abs B @ [c] \<and> buffer_ok n (luaL_addchar n B c)"
proof -
  assume n: "0 < n" and ok: "buffer_ok n B"
  show ?thesis
  proof (cases "length (buffer B) < n")
    case True
    then show ?thesis using ok by (simp add: luaL_addchar_def buffer_abs_def buffer_ok_def)
  next
    case False
    then have "buffer B \<noteq> []" using n by auto
    note p = prepbuffer_ok [OF ok this]
    have "buffer_abs (B'\<lparr>buffer := [c]\<rparr>) = buffer_abs B' @ [c]" if "buffer B' = []" for B'
      using that by (simp add: buffer_abs_def)
    then show ?thesis using p n False by (simp add: luaL_addchar_def buffer_ok_def)
  qed
qed

lemma addlstring_ok:
  "0 < n \<Longrightarrow> buffer_ok n B \<Longrightarrow> buffer_abs (luaL_addlstring n B s) = buffer_abs B @ s \<and> buffer_ok n (luaL_addlstring n B s)"
  by (induction s arbitrary: B) (simp_all add: addchar_ok)

lemma addvalue_ok:
  "buffer_ok n B \<Longrightarrow> buffer_abs (luaL_addvalue n B s) = buffer_abs B @ s \<and> buffer_ok n (luaL_addvalue n B s)"
proof (cases "length s \<le> n - length (buffer B)")
  case False
  obtain b B' where e: "emptybuffer B = (b, B')" by fastforce
  have "buffer_abs (adjuststack (B'\<lparr>levels := s # levels B'\<rparr>)) = buffer_abs B @ s"
    using abs_emptybuffer [OF e] by (simp add: abs_adjuststack) (auto simp: buffer_abs_def)
  then show ?thesis using abs_emptybuffer [OF e] adjuststack_levels False
    by (simp add: luaL_addvalue_def e abs_adjuststack buffer_ok_def)
qed (auto simp: luaL_addvalue_def buffer_abs_def buffer_ok_def)

datatype bufop = AddChar char | AddString bytes | AddValue bytes

fun buf_step :: "nat \<Rightarrow> luaL_Buffer \<Rightarrow> bufop \<Rightarrow> luaL_Buffer" where
  "buf_step n B (AddChar c) = luaL_addchar n B c"
| "buf_step n B (AddString s) = luaL_addlstring n B s"
| "buf_step n B (AddValue s) = luaL_addvalue n B s"

fun op_bytes :: "bufop \<Rightarrow> bytes" where
  "op_bytes (AddChar c) = [c]"
| "op_bytes (AddString s) = s"
| "op_bytes (AddValue s) = s"

lemma buf_steps_ok:
  "0 < n \<Longrightarrow> buffer_ok n B \<Longrightarrow>
   buffer_abs (foldl (buf_step n) B ops) = buffer_abs B @ concat (map op_bytes ops) \<and> buffer_ok n (foldl (buf_step n) B ops)"
proof (induction ops arbitrary: B)
  case (Cons p ops)
  have "buffer_abs (buf_step n B p) = buffer_abs B @ op_bytes p \<and> buffer_ok n (buf_step n B p)"
    using Cons.prems addchar_ok addlstring_ok addvalue_ok by (cases p) simp_all
  then show ?case using Cons by simp
qed simp

text \<open>
  C32. whatever characters, strings and stack values are added to a buffer, in any order and for any size of
  its C array, the result is their concatenation, left as one string; on the way the buffer never holds as
  many as half of LUA_MINSTACK stack slots, and never writes past its array.
\<close>

theorem luaL_Buffer_concat:
  assumes "0 < bufsiz"
  shows "buffer_ok bufsiz (foldl (buf_step bufsiz) luaL_buffinit ops)
    \<and> luaL_pushresult (foldl (buf_step bufsiz) luaL_buffinit ops) = \<lparr>buffer = [], levels = [concat (map op_bytes ops)]\<rparr>"
proof -
  have "buffer_ok bufsiz luaL_buffinit" "buffer_abs luaL_buffinit = []"
    by (simp_all add: buffer_ok_def luaL_buffinit_def LIMIT_def buffer_abs_def)
  then have s: "buffer_abs (foldl (buf_step bufsiz) luaL_buffinit ops) = concat (map op_bytes ops) \<and>
      buffer_ok bufsiz (foldl (buf_step bufsiz) luaL_buffinit ops)"
    using buf_steps_ok [OF assms, of luaL_buffinit ops] by simp
  have "luaL_pushresult B = \<lparr>buffer = [], levels = [buffer_abs B]\<rparr>" for B
    by (cases B) (simp add: luaL_pushresult_def emptybuffer_def lua_concat_def buffer_abs_def)
  then show ?thesis using s by simp
qed

theorem luaL_Buffer_concat_witness:
  "luaL_pushresult (foldl (buf_step 2) luaL_buffinit [AddString ''abcde'', AddValue ''xyz'', AddChar CHR ''!'', AddValue ''''])
     = \<lparr>buffer = [], levels = [''abcdexyz!'']\<rparr>"
  using luaL_Buffer_concat [of 2 "[AddString ''abcde'', AddValue ''xyz'', AddChar CHR ''!'', AddValue '''']"] by simp

end
