(* ===== verification/Lstr_match.thy ===== *)
theory Lstr_match
  imports Lauxlib
begin

text \<open>
  lstrlib.c: pattern matching. Subject and pattern are byte strings read through \<open>rd\<close>, which gives the
  terminating zero at the end and is undefined past it. Positions are indices; a failed match is
  \<open>None\<close>. The matcher threads its captures through the backtracking, as the code does. The pattern
  position grows with every nested call, so the fuel is the pattern's length.
\<close>

section \<open>Reading and single characters\<close>

definition rd :: "bytes \<Rightarrow> nat \<Rightarrow> char res" where
  "rd s i = (if i < length s then Inr (s ! i) else if i = length s then Inr (CHR 0x00) else Inl (Undefined ''read''))"

definition L_ESC :: char where "L_ESC = CHR ''%''"
definition CAP_UNFINISHED :: int where "CAP_UNFINISHED = - 1"
definition CAP_POSITION :: int where "CAP_POSITION = - 2"
definition LUA_MAXCAPTURES :: nat where "LUA_MAXCAPTURES = 32"

text \<open>The captures up to \<open>level\<close>, as pairs of start and length; \<open>level\<close> is their number.\<close>

record MatchState =
  src :: bytes
  capture :: "(nat \<times> int) list"

definition check_capture :: "MatchState \<Rightarrow> char \<Rightarrow> nat res" where
  "check_capture ms l =
     (let l = int (code l) - int (code (CHR ''1''))
      in if l < 0 \<or> l \<ge> int (length (capture ms)) then luaL_error ''invalid capture index''
         else if snd (capture ms ! nat l) = CAP_UNFINISHED then luaL_error ''invalid capture index''
         else Inr (nat l))"

primrec close_loop :: "(nat \<times> int) list \<Rightarrow> nat \<Rightarrow> nat res" where
  "close_loop cs 0 = luaL_error ''invalid pattern capture''"
| "close_loop cs (Suc l) = (if snd (cs ! l) = CAP_UNFINISHED then Inr l else close_loop cs l)"

definition capture_to_close :: "MatchState \<Rightarrow> nat res" where
  "capture_to_close ms = close_loop (capture ms) (length (capture ms))"

lemma rd_nonzero: "rd p i = Inr c \<Longrightarrow> c \<noteq> CHR 0x00 \<Longrightarrow> i < length p"
  by (auto simp: rd_def split: if_splits)

function class_loop :: "bytes \<Rightarrow> nat \<Rightarrow> nat res" where
  "class_loop p i =
     rbind (rd p i) (\<lambda>c.
       if c = CHR 0x00 then luaL_error ''malformed pattern (missing ])''
       else rbind (rd p (i + 1)) (\<lambda>d.
         let j = (if c = L_ESC \<and> d \<noteq> CHR 0x00 then i + 2 else i + 1)
         in rbind (rd p j) (\<lambda>e. if e \<noteq> CHR '']'' then class_loop p j else Inr (j + 1))))"
  by pat_completeness auto
termination
  by (relation "measure (\<lambda>(p, i). length p - i)") (auto dest!: rd_nonzero split: if_splits)

declare class_loop.simps [simp del]

definition classend :: "bytes \<Rightarrow> nat \<Rightarrow> nat res" where
  "classend p i =
     rbind (rd p i) (\<lambda>c.
       if c = L_ESC
       then rbind (rd p (i + 1)) (\<lambda>d. if d = CHR 0x00 then luaL_error ''malformed pattern (ends with %)'' else Inr (i + 2))
       else if c = CHR ''[''
       then rbind (rd p (i + 1)) (\<lambda>d. class_loop p (if d = CHR ''^'' then i + 2 else i + 1))
       else Inr (i + 1))"

definition match_class :: "char \<Rightarrow> char \<Rightarrow> bool" where
  "match_class c cl =
     (let t = tolower cl;
          res = (if t = CHR ''a'' then Some (isalpha c) else if t = CHR ''c'' then Some (iscntrl c)
            else if t = CHR ''d'' then Some (isdigit c) else if t = CHR ''l'' then Some (islower c)
            else if t = CHR ''p'' then Some (ispunct c) else if t = CHR ''s'' then Some (isspace c)
            else if t = CHR ''u'' then Some (isupper c) else if t = CHR ''w'' then Some (isalnum c)
            else if t = CHR ''x'' then Some (isxdigit c) else if t = CHR ''z'' then Some (c = CHR 0x00) else None)
      in case res of None \<Rightarrow> cl = c | Some r \<Rightarrow> if islower cl then r else \<not> r)"

text \<open>The loop of \<open>matchbracketclass\<close>; \<open>i\<close> is the position before the increment of its test.\<close>

function bracket_loop :: "char \<Rightarrow> bytes \<Rightarrow> nat \<Rightarrow> nat \<Rightarrow> bool \<Rightarrow> bool res" where
  "bracket_loop c p i ec sig =
     (let i = i + 1
      in if i < ec
         then rbind (rd p i) (\<lambda>x.
           if x = L_ESC
           then rbind (rd p (i + 1)) (\<lambda>y. if match_class c y then Inr sig else bracket_loop c p (i + 1) ec sig)
           else rbind (rd p (i + 1)) (\<lambda>y.
             if y = CHR ''-'' \<and> i + 2 < ec
             then rbind (rd p (i + 2)) (\<lambda>z.
                    if code x \<le> code c \<and> code c \<le> code z then Inr sig else bracket_loop c p (i + 2) ec sig)
             else if x = c then Inr sig else bracket_loop c p i ec sig))
         else Inr (\<not> sig))"
  by pat_completeness auto
termination
  by (relation "measure (\<lambda>(c, p, i, ec, sig). ec - i)") auto

declare bracket_loop.simps [simp del]

definition matchbracketclass :: "char \<Rightarrow> bytes \<Rightarrow> nat \<Rightarrow> nat \<Rightarrow> bool res" where
  "matchbracketclass c p i ec =
     rbind (rd p (i + 1)) (\<lambda>d. if d = CHR ''^'' then bracket_loop c p (i + 1) ec False else bracket_loop c p i ec True)"

definition singlematch :: "char \<Rightarrow> bytes \<Rightarrow> nat \<Rightarrow> nat \<Rightarrow> bool res" where
  "singlematch c p i ep =
     rbind (rd p i) (\<lambda>x.
       if x = CHR ''.'' then Inr True
       else if x = L_ESC then rbind (rd p (i + 1)) (\<lambda>y. Inr (match_class c y))
       else if x = CHR ''['' then matchbracketclass c p i (ep - 1)
       else Inr (x = c))"

section \<open>Matching\<close>

type_synonym mres = "(nat option \<times> MatchState) res"
type_synonym mcont = "nat \<Rightarrow> MatchState \<Rightarrow> mres"

function balance_loop :: "bytes \<Rightarrow> nat \<Rightarrow> char \<Rightarrow> char \<Rightarrow> nat \<Rightarrow> nat option res" where
  "balance_loop s i b e cont =
     (let i = i + 1
      in if i < length s
         then rbind (rd s i) (\<lambda>c.
           if c = e then (if cont = 1 then Inr (Some (i + 1)) else balance_loop s i b e (cont - 1))
           else if c = b then balance_loop s i b e (cont + 1)
           else balance_loop s i b e cont)
         else Inr None)"
  by pat_completeness auto
termination
  by (relation "measure (\<lambda>(s, i, b, e, cont). length s - i)") auto

declare balance_loop.simps [simp del]

definition matchbalance :: "MatchState \<Rightarrow> nat \<Rightarrow> bytes \<Rightarrow> nat \<Rightarrow> nat option res" where
  "matchbalance ms s p i =
     rbind (rd p i) (\<lambda>b.
       if b = CHR 0x00 then luaL_error ''unbalanced pattern''
       else rbind (rd p (i + 1)) (\<lambda>e.
         if e = CHR 0x00 then luaL_error ''unbalanced pattern''
         else rbind (rd (src ms) s) (\<lambda>c. if c \<noteq> b then Inr None else balance_loop (src ms) s b e 1)))"

text \<open>\<open>s<ms->src_end && singlematch(uchar(*s), p, ep)\<close>\<close>

definition single_at :: "MatchState \<Rightarrow> nat \<Rightarrow> bytes \<Rightarrow> nat \<Rightarrow> nat \<Rightarrow> bool res" where
  "single_at ms s p i ep =
     (if s < length (src ms) then rbind (rd (src ms) s) (\<lambda>c. singlematch c p i ep) else Inr False)"

function count_single :: "MatchState \<Rightarrow> nat \<Rightarrow> bytes \<Rightarrow> nat \<Rightarrow> nat \<Rightarrow> nat res" where
  "count_single ms s p i ep =
     rbind (single_at ms s p i ep) (\<lambda>m. if m then rbind (count_single ms (s + 1) p i ep) (\<lambda>n. Inr (n + 1)) else Inr 0)"
  by pat_completeness auto
termination
  by (relation "measure (\<lambda>(ms, s, p, i, ep). length (src ms) - s)") (auto simp: single_at_def split: if_splits)

declare count_single.simps [simp del]

text \<open>Backtracking from \<open>i\<close> repetitions down to none; \<open>k\<close> matches the rest of the pattern.\<close>

primrec try_down :: "mcont \<Rightarrow> nat \<Rightarrow> nat \<Rightarrow> MatchState \<Rightarrow> mres" where
  "try_down k s 0 ms = k s ms"
| "try_down k s (Suc i) ms =
     rbind (k (s + Suc i) ms) (\<lambda>(r, ms). case r of Some e \<Rightarrow> Inr (Some e, ms) | None \<Rightarrow> try_down k s i ms)"

definition max_expand :: "mcont \<Rightarrow> nat \<Rightarrow> bytes \<Rightarrow> nat \<Rightarrow> nat \<Rightarrow> MatchState \<Rightarrow> mres" where
  "max_expand k s p i ep ms = rbind (count_single ms s p i ep) (\<lambda>n. try_down k s n ms)"

text \<open>At most one round for each byte of the subject left.\<close>

primrec min_loop :: "nat \<Rightarrow> mcont \<Rightarrow> nat \<Rightarrow> bytes \<Rightarrow> nat \<Rightarrow> nat \<Rightarrow> MatchState \<Rightarrow> mres" where
  "min_loop 0 k s p i ep ms = Inl (Undefined ''fuel'')"
| "min_loop (Suc n) k s p i ep ms =
     rbind (k s ms) (\<lambda>(r, ms). case r of
       Some e \<Rightarrow> Inr (Some e, ms)
     | None \<Rightarrow> rbind (single_at ms s p i ep) (\<lambda>m. if m then min_loop n k (s + 1) p i ep ms else Inr (None, ms)))"

definition min_expand :: "mcont \<Rightarrow> nat \<Rightarrow> bytes \<Rightarrow> nat \<Rightarrow> nat \<Rightarrow> MatchState \<Rightarrow> mres" where
  "min_expand k s p i ep ms = min_loop (Suc (length (src ms) - s)) k s p i ep ms"

definition start_capture :: "mcont \<Rightarrow> nat \<Rightarrow> int \<Rightarrow> MatchState \<Rightarrow> mres" where
  "start_capture k s what ms =
     (if length (capture ms) \<ge> LUA_MAXCAPTURES then luaL_error ''too many captures''
      else rbind (k s (ms\<lparr>capture := capture ms @ [(s, what)]\<rparr>)) (\<lambda>(r, ms).
             case r of Some e \<Rightarrow> Inr (Some e, ms) | None \<Rightarrow> Inr (None, ms\<lparr>capture := butlast (capture ms)\<rparr>)))"

definition end_capture :: "mcont \<Rightarrow> nat \<Rightarrow> MatchState \<Rightarrow> mres" where
  "end_capture k s ms =
     rbind (capture_to_close ms) (\<lambda>l.
       let ini = fst (capture ms ! l)
       in rbind (k s (ms\<lparr>capture := (capture ms)[l := (ini, int s - int ini)]\<rparr>)) (\<lambda>(r, ms).
            case r of Some e \<Rightarrow> Inr (Some e, ms)
            | None \<Rightarrow> Inr (None, ms\<lparr>capture := (capture ms)[l := (fst (capture ms ! l), CAP_UNFINISHED)]\<rparr>)))"

text \<open>The length is compared as a \<open>size_t\<close>: the mark of a position capture is larger than any rest.\<close>

definition match_capture :: "MatchState \<Rightarrow> nat \<Rightarrow> char \<Rightarrow> nat option res" where
  "match_capture ms s l =
     rbind (check_capture ms l) (\<lambda>l.
       let (ini, len) = capture ms ! l
       in if 0 \<le> len \<and> nat len \<le> length (src ms) - s
          then if length (src ms) < ini + nat len then Inl (Undefined ''memcmp'')
               else Inr (if take (nat len) (drop ini (src ms)) = take (nat len) (drop s (src ms)) then Some (s + nat len) else None)
          else Inr None)"

text \<open>The default case: a single character class and its repetition mark.\<close>

definition match_default :: "(nat \<Rightarrow> mcont) \<Rightarrow> nat \<Rightarrow> bytes \<Rightarrow> nat \<Rightarrow> MatchState \<Rightarrow> mres" where
  "match_default k s p i ms =
     rbind (classend p i) (\<lambda>ep.
     rbind (single_at ms s p i ep) (\<lambda>m.
     rbind (rd p ep) (\<lambda>q.
       if q = CHR ''?''
       then (if m
             then rbind (k (ep + 1) (s + 1) ms) (\<lambda>(r, ms). case r of Some e \<Rightarrow> Inr (Some e, ms) | None \<Rightarrow> k (ep + 1) s ms)
             else k (ep + 1) s ms)
       else if q = CHR ''*'' then max_expand (k (ep + 1)) s p i ep ms
       else if q = CHR ''+'' then (if m then max_expand (k (ep + 1)) (s + 1) p i ep ms else Inr (None, ms))
       else if q = CHR ''-'' then min_expand (k (ep + 1)) s p i ep ms
       else if \<not> m then Inr (None, ms)
       else k ep (s + 1) ms)))"

definition match_frontier :: "(nat \<Rightarrow> mcont) \<Rightarrow> nat \<Rightarrow> bytes \<Rightarrow> nat \<Rightarrow> MatchState \<Rightarrow> mres" where
  "match_frontier k s p i ms =
     rbind (rd p i) (\<lambda>c.
       if c \<noteq> CHR ''['' then luaL_error ''missing [ after %f in pattern''
       else rbind (classend p i) (\<lambda>ep.
         rbind (if s = 0 then Inr (CHR 0x00) else rd (src ms) (s - 1)) (\<lambda>prev.
         rbind (matchbracketclass prev p i (ep - 1)) (\<lambda>m1.
           if m1 then Inr (None, ms)
           else rbind (rd (src ms) s) (\<lambda>cur. rbind (matchbracketclass cur p i (ep - 1)) (\<lambda>m2.
                  if \<not> m2 then Inr (None, ms) else k ep s ms))))))"

primrec match :: "nat \<Rightarrow> bytes \<Rightarrow> nat \<Rightarrow> nat \<Rightarrow> MatchState \<Rightarrow> mres" where
  "match 0 p i s ms = Inl (Undefined ''fuel'')"
| "match (Suc n) p i s ms =
     (let k = match n p
      in rbind (rd p i) (\<lambda>c.
        if c = CHR ''(''
        then rbind (rd p (i + 1)) (\<lambda>d.
               if d = CHR '')'' then start_capture (k (i + 2)) s CAP_POSITION ms
               else start_capture (k (i + 1)) s CAP_UNFINISHED ms)
        else if c = CHR '')'' then end_capture (k (i + 1)) s ms
        else if c = L_ESC
        then rbind (rd p (i + 1)) (\<lambda>d.
               if d = CHR ''b''
               then rbind (matchbalance ms s p (i + 2)) (\<lambda>r. case r of None \<Rightarrow> Inr (None, ms) | Some s \<Rightarrow> k (i + 4) s ms)
               else if d = CHR ''f'' then match_frontier k s p (i + 2) ms
               else if isdigit d
               then rbind (match_capture ms s d) (\<lambda>r. case r of None \<Rightarrow> Inr (None, ms) | Some s \<Rightarrow> k (i + 2) s ms)
               else match_default k s p i ms)
        else if c = CHR 0x00 then Inr (Some s, ms)
        else if c = CHR ''$''
        then rbind (rd p (i + 1)) (\<lambda>d.
               if d = CHR 0x00 then Inr (if s = length (src ms) then Some s else None, ms)
               else match_default k s p i ms)
        else match_default k s p i ms))"

definition do_match :: "bytes \<Rightarrow> nat \<Rightarrow> nat \<Rightarrow> MatchState \<Rightarrow> mres" where
  "do_match p i s ms = match (Suc (length p)) p i s ms"

section \<open>Classes stay inside the pattern\<close>

definition is_run :: "lua_error \<Rightarrow> bool" where
  "is_run e = (\<exists>m. e = RunError m)"

lemma luaL_error_yields [simp]: "yields is_run (luaL_error m) Q"
  by (simp add: luaL_error_def is_run_def)

lemma rd_ok: "i \<le> length s \<Longrightarrow> \<exists>c. rd s i = Inr c \<and> (c \<noteq> CHR 0x00 \<longrightarrow> i < length s)"
  by (auto simp: rd_def)

lemma rd_yields: "i \<le> length s \<Longrightarrow> yields E (rd s i) (\<lambda>c. c \<noteq> CHR 0x00 \<longrightarrow> i < length s)"
  using rd_ok [of i s] by auto

lemma class_loop_yields: "i \<le> length p \<Longrightarrow> yields is_run (class_loop p i) (\<lambda>ep. i + 1 < ep \<and> ep \<le> length p)"
proof (induction "length p - i" arbitrary: i rule: less_induct)
  case less
  obtain c where c: "rd p i = Inr c" "c \<noteq> CHR 0x00 \<longrightarrow> i < length p" using rd_ok less.prems by blast
  show ?case
  proof (cases "c = CHR 0x00")
    case True
    then show ?thesis using c by (subst class_loop.simps) simp
  next
    case False
    then have lt: "i < length p" using c by simp
    obtain d where d: "rd p (i + 1) = Inr d" "d \<noteq> CHR 0x00 \<longrightarrow> i + 1 < length p" using rd_ok [of "i + 1" p] lt by auto
    define j where "j = (if c = L_ESC \<and> d \<noteq> CHR 0x00 then i + 2 else i + 1)"
    have j: "i < j" "j \<le> length p" using lt d by (auto simp: j_def)
    obtain e where e: "rd p j = Inr e" "e \<noteq> CHR 0x00 \<longrightarrow> j < length p" using rd_ok j by blast
    have "yields is_run (class_loop p j) (\<lambda>ep. j + 1 < ep \<and> ep \<le> length p)" using j lt by (intro less.hyps) auto
    then have rec: "yields is_run (class_loop p j) (\<lambda>ep. i + 1 < ep \<and> ep \<le> length p)"
      by (rule yields_mono) (use j in auto)
    have "class_loop p i = (if e \<noteq> CHR '']'' then class_loop p j else Inr (j + 1))"
      using c False d e by (subst class_loop.simps) (simp flip: j_def)
    then show ?thesis using rec e j by (cases "e = CHR '']''") auto
  qed
qed

lemma classend_yields:
  assumes "i < length p"
  shows "yields is_run (classend p i) (\<lambda>ep. i < ep \<and> ep \<le> length p \<and> (p ! i = L_ESC \<longrightarrow> ep = i + 2))"
proof -
  have c: "rd p i = Inr (p ! i)" using assms by (simp add: rd_def)
  obtain d where d: "rd p (i + 1) = Inr d" "d \<noteq> CHR 0x00 \<longrightarrow> i + 1 < length p" using rd_ok [of "i + 1" p] assms by auto
  have "yields is_run (class_loop p j) (\<lambda>ep. i < ep \<and> ep \<le> length p)" if "i < j" "j \<le> length p" for j
    by (rule yields_mono [OF class_loop_yields]) (use that in auto)
  from this [of "i + 1"] this [of "i + 2"] show ?thesis
    using c d assms by (auto simp: classend_def L_ESC_def)
qed

lemma bracket_loop_total: "ec \<le> length p \<Longrightarrow> \<exists>b. bracket_loop c p i ec sig = Inr b"
proof (induction "ec - i" arbitrary: i rule: less_induct)
  case less
  show ?case
  proof (cases "i + 1 < ec")
    case True
    obtain x y where x: "rd p (i + 1) = Inr x" and y: "rd p (i + 2) = Inr y"
      using rd_ok [of "i + 1" p] rd_ok [of "i + 2" p] True less.prems by auto
    have z: "\<exists>z. rd p (i + 3) = Inr z" if "i + 3 < ec" using rd_ok [of "i + 3" p] that less.prems by auto
    have r: "\<exists>b. bracket_loop c p j ec sig = Inr b" if "i < j" for j
      using less.hyps [of j] that True less.prems by simp
    show ?thesis using True x y z r [of "i + 1"] r [of "i + 2"] r [of "i + 3"]
      by (subst bracket_loop.simps) (auto simp: Let_def add.commute numeral_eq_Suc)
  next
    case False
    then show ?thesis by (subst bracket_loop.simps) (simp add: Let_def)
  qed
qed

lemma matchbracket_total: "i < length p \<Longrightarrow> ec \<le> length p \<Longrightarrow> \<exists>b. matchbracketclass c p i ec = Inr b"
  using rd_ok [of "i + 1" p] bracket_loop_total by (fastforce simp: matchbracketclass_def)

lemma singlematch_total: "i < length p \<Longrightarrow> ep \<le> length p \<Longrightarrow> \<exists>b. singlematch c p i ep = Inr b"
proof -
  assume i: "i < length p" "ep \<le> length p"
  obtain x where x: "rd p i = Inr x" using rd_ok [of i p] i by auto
  obtain y where y: "rd p (i + 1) = Inr y" using rd_ok [of "i + 1" p] i by auto
  obtain b where b: "matchbracketclass c p i (ep - 1) = Inr b" using matchbracket_total [OF i(1), of "ep - 1" c] i(2) by (meson diff_le_self le_trans)
  show ?thesis by (auto simp: singlematch_def x y [simplified] b [simplified])
qed

lemma single_at_total: "i < length p \<Longrightarrow> ep \<le> length p \<Longrightarrow> \<exists>b. single_at ms s p i ep = Inr b \<and> (b \<longrightarrow> s < length (src ms))"
proof -
  assume i: "i < length p" "ep \<le> length p"
  show ?thesis
  proof (cases "s < length (src ms)")
    case True
    obtain b where "singlematch (src ms ! s) p i ep = Inr b" using singlematch_total [OF i] by blast
    then show ?thesis using True by (simp add: single_at_def rd_def)
  qed (auto simp: single_at_def)
qed

lemma count_single_total:
  "i < length p \<Longrightarrow> ep \<le> length p \<Longrightarrow> s \<le> length (src ms) \<Longrightarrow> \<exists>n. count_single ms s p i ep = Inr n \<and> s + n \<le> length (src ms)"
proof (induction "length (src ms) - s" arbitrary: s rule: less_induct)
  case less
  obtain b where b: "single_at ms s p i ep = Inr b" "b \<longrightarrow> s < length (src ms)"
    using single_at_total [OF less.prems(1,2)] by blast
  show ?case
  proof (cases b)
    case True
    have lt: "length (src ms) - (s + 1) < length (src ms) - s" "s + 1 \<le> length (src ms)" using b True by auto
    obtain n where n: "count_single ms (s + 1) p i ep = Inr n" "s + 1 + n \<le> length (src ms)"
      using less.hyps [OF lt(1) less.prems(1,2) lt(2)] by blast
    have "count_single ms s p i ep = Inr (n + 1)" using b True n(1) by (subst count_single.simps) simp
    then show ?thesis using n(2) by simp
  next
    case False
    then show ?thesis using b less.prems by (subst count_single.simps) simp
  qed
qed

section \<open>The matcher keeps its captures\<close>

text \<open>Every capture starts before the current position; a closed one ends before it.\<close>

definition cap_ok :: "nat \<Rightarrow> nat \<times> int \<Rightarrow> bool" where
  "cap_ok s c = (fst c \<le> s \<and> (snd c = CAP_UNFINISHED \<or> snd c = CAP_POSITION \<or> 0 \<le> snd c \<and> int (fst c) + snd c \<le> int s))"

definition ms_ok :: "MatchState \<Rightarrow> nat \<Rightarrow> bool" where
  "ms_ok ms s = (s \<le> length (src ms) \<and> length (capture ms) \<le> LUA_MAXCAPTURES \<and> list_all (cap_ok s) (capture ms))"

definition match_post :: "MatchState \<Rightarrow> nat \<Rightarrow> nat option \<times> MatchState \<Rightarrow> bool" where
  "match_post ms s r = (case r of (None, ms') \<Rightarrow> ms' = ms | (Some e, ms') \<Rightarrow> src ms' = src ms \<and> s \<le> e \<and> ms_ok ms' e)"

definition cont_ok :: "mcont \<Rightarrow> bool" where
  "cont_ok k = (\<forall>s ms. ms_ok ms s \<longrightarrow> yields is_run (k s ms) (match_post ms s))"

lemma cont_okD: "cont_ok k \<Longrightarrow> ms_ok ms s \<Longrightarrow> yields is_run (k s ms) (match_post ms s)"
  by (simp add: cont_ok_def)

lemma ms_ok_mono: "ms_ok ms s \<Longrightarrow> s \<le> s' \<Longrightarrow> s' \<le> length (src ms) \<Longrightarrow> ms_ok ms s'"
  by (auto simp: ms_ok_def list_all_iff cap_ok_def)

lemma match_post_mono: "match_post ms s' r \<Longrightarrow> s \<le> s' \<Longrightarrow> match_post ms s r"
  by (auto simp: match_post_def split: prod.splits option.splits)

lemma fail_post: "match_post ms s (None, ms)"
  by (simp add: match_post_def)

lemma cont_at: "cont_ok k \<Longrightarrow> ms_ok ms s \<Longrightarrow> s \<le> s' \<Longrightarrow> s' \<le> length (src ms) \<Longrightarrow> yields is_run (k s' ms) (match_post ms s)"
  by (rule yields_mono [OF cont_okD]) (auto intro: ms_ok_mono match_post_mono)

lemma try_down_yields:
  "cont_ok k \<Longrightarrow> ms_ok ms s \<Longrightarrow> s + i \<le> length (src ms) \<Longrightarrow> yields is_run (try_down k s i ms) (match_post ms s)"
proof (induction i)
  case 0
  then show ?case by (simp add: cont_okD)
next
  case (Suc i)
  have rest: "yields is_run (try_down k s i ms) (match_post ms s)" using Suc by simp
  show ?case unfolding try_down.simps
  proof (rule yields_bind [OF cont_at [OF Suc.prems(1,2)]])
    fix x assume x: "match_post ms s x"
    obtain r m where rm: "x = (r, m)" by fastforce
    show "yields is_run (case x of (r, ms) \<Rightarrow> (case r of Some e \<Rightarrow> Inr (Some e, ms) | None \<Rightarrow> try_down k s i ms)) (match_post ms s)"
      using x rest by (cases r) (auto simp: rm match_post_def)
  qed (use Suc.prems in auto)
qed

lemma max_expand_yields:
  assumes "cont_ok k" "ms_ok ms s" "i < length p" "ep \<le> length p"
  shows "yields is_run (max_expand k s p i ep ms) (match_post ms s)"
  using count_single_total [OF assms(3,4), of s ms] assms(2) try_down_yields [OF assms(1,2)]
  by (auto simp: max_expand_def ms_ok_def)

lemma min_loop_yields:
  assumes "cont_ok k" "i < length p" "ep \<le> length p"
  shows "ms_ok ms s \<Longrightarrow> length (src ms) - s < n \<Longrightarrow> yields is_run (min_loop n k s p i ep ms) (match_post ms s)"
proof (induction n arbitrary: s)
  case (Suc n)
  obtain b where b: "single_at ms s p i ep = Inr b" "b \<longrightarrow> s < length (src ms)"
    using single_at_total [OF assms(2,3)] by blast
  have rec: "yields is_run (min_loop n k (s + 1) p i ep ms) (match_post ms s)" if b
  proof -
    have "yields is_run (min_loop n k (s + 1) p i ep ms) (match_post ms (s + 1))"
      using that b Suc.prems by (intro Suc.IH) (auto intro: ms_ok_mono)
    then show ?thesis by (rule yields_mono) (simp add: match_post_mono)
  qed
  show ?case unfolding min_loop.simps
  proof (rule yields_bind [OF cont_okD [OF assms(1) Suc.prems(1)]])
    fix x assume x: "match_post ms s x"
    obtain r m where rm: "x = (r, m)" by fastforce
    show "yields is_run (case x of (r, ms) \<Rightarrow> (case r of Some e \<Rightarrow> Inr (Some e, ms)
      | None \<Rightarrow> rbind (single_at ms s p i ep) (\<lambda>m. if m then min_loop n k (s + 1) p i ep ms else Inr (None, ms)))) (match_post ms s)"
      using x b rec by (cases r) (auto simp: rm match_post_def)
  qed
qed simp

lemma start_capture_yields:
  assumes "cont_ok k" "ms_ok ms s" "what = CAP_POSITION \<or> what = CAP_UNFINISHED"
  shows "yields is_run (start_capture k s what ms) (match_post ms s)"
proof (cases "length (capture ms) \<ge> LUA_MAXCAPTURES")
  case False
  then have "ms_ok (ms\<lparr>capture := capture ms @ [(s, what)]\<rparr>) s" using assms by (auto simp: ms_ok_def cap_ok_def)
  from cont_okD [OF assms(1) this]
  have "yields is_run (rbind (k s (ms\<lparr>capture := capture ms @ [(s, what)]\<rparr>)) (\<lambda>(r, ms).
     case r of Some e \<Rightarrow> Inr (Some e, ms) | None \<Rightarrow> Inr (None, ms\<lparr>capture := butlast (capture ms)\<rparr>))) (match_post ms s)"
    by (rule yields_bind) (auto simp: match_post_def split: prod.splits option.splits)
  then show ?thesis using False by (simp add: start_capture_def)
qed (simp add: start_capture_def)

lemma close_loop_yields: "yields is_run (close_loop cs l) (\<lambda>j. j < l \<and> snd (cs ! j) = CAP_UNFINISHED)"
  by (induction l) (auto intro: yields_mono)

lemma end_capture_yields:
  assumes "cont_ok k" "ms_ok ms s"
  shows "yields is_run (end_capture k s ms) (match_post ms s)"
  unfolding end_capture_def capture_to_close_def
proof (rule yields_bind [OF close_loop_yields])
  fix l assume l: "l < length (capture ms) \<and> snd (capture ms ! l) = CAP_UNFINISHED"
  define ini where "ini = fst (capture ms ! l)"
  define m1 where "m1 = ms\<lparr>capture := (capture ms)[l := (ini, int s - int ini)]\<rparr>"
  have "cap_ok s (capture ms ! l)" using assms(2) l by (auto simp: ms_ok_def list_all_length)
  then have "ini \<le> s" by (simp add: cap_ok_def ini_def)
  then have "ms_ok m1 s" using assms(2) l by (auto simp: ms_ok_def m1_def list_all_length nth_list_update cap_ok_def)
  from cont_okD [OF assms(1) this]
  have "yields is_run (rbind (k s m1) (\<lambda>(r, ms). case r of Some e \<Rightarrow> Inr (Some e, ms)
     | None \<Rightarrow> Inr (None, ms\<lparr>capture := (capture ms)[l := (fst (capture ms ! l), CAP_UNFINISHED)]\<rparr>))) (match_post ms s)"
  proof (rule yields_bind)
    fix x assume x: "match_post m1 s x"
    have undo: "m1\<lparr>capture := (capture m1)[l := (fst (capture m1 ! l), CAP_UNFINISHED)]\<rparr> = ms"
    proof -
      have "(ini, CAP_UNFINISHED) = capture ms ! l" using l by (metis ini_def prod.collapse)
      then show ?thesis using l by (simp add: m1_def)
    qed
    show "yields is_run (case x of (r, ms) \<Rightarrow> (case r of Some e \<Rightarrow> Inr (Some e, ms)
     | None \<Rightarrow> Inr (None, ms\<lparr>capture := (capture ms)[l := (fst (capture ms ! l), CAP_UNFINISHED)]\<rparr>))) (match_post ms s)"
      using x undo by (auto simp: match_post_def m1_def split: prod.splits option.splits)
  qed
  then show "yields is_run (let ini = fst (capture ms ! l) in rbind (k s (ms\<lparr>capture := (capture ms)[l := (ini, int s - int ini)]\<rparr>))
     (\<lambda>(r, ms). case r of Some e \<Rightarrow> Inr (Some e, ms)
     | None \<Rightarrow> Inr (None, ms\<lparr>capture := (capture ms)[l := (fst (capture ms ! l), CAP_UNFINISHED)]\<rparr>))) (match_post ms s)"
    by (simp add: m1_def ini_def Let_def)
qed

lemma check_capture_yields:
  "yields is_run (check_capture ms l) (\<lambda>j. j < length (capture ms) \<and> snd (capture ms ! j) \<noteq> CAP_UNFINISHED)"
  by (auto simp: check_capture_def Let_def)

lemma match_capture_yields:
  assumes "ms_ok ms s"
  shows "yields is_run (match_capture ms s c) (\<lambda>r. \<forall>e. r = Some e \<longrightarrow> s \<le> e \<and> e \<le> length (src ms))"
  unfolding match_capture_def
proof (rule yields_bind [OF check_capture_yields])
  fix j assume j: "j < length (capture ms) \<and> snd (capture ms ! j) \<noteq> CAP_UNFINISHED"
  obtain a b where ab: "capture ms ! j = (a, b)" by fastforce
  have "cap_ok s (a, b)" using assms j by (auto simp: ms_ok_def list_all_length simp flip: ab)
  then have "0 \<le> b \<Longrightarrow> a + nat b \<le> length (src ms)" using assms j ab by (auto simp: cap_ok_def ms_ok_def CAP_POSITION_def)
  then show "yields is_run (let (ini, len) = capture ms ! j in
      if 0 \<le> len \<and> nat len \<le> length (src ms) - s
      then if length (src ms) < ini + nat len then Inl (Undefined ''memcmp'')
           else Inr (if take (nat len) (drop ini (src ms)) = take (nat len) (drop s (src ms)) then Some (s + nat len) else None)
      else Inr None) (\<lambda>r. \<forall>e. r = Some e \<longrightarrow> s \<le> e \<and> e \<le> length (src ms))"
    using assms by (auto simp: ab ms_ok_def)
qed

lemma balance_loop_yields:
  "yields is_run (balance_loop s i b e n) (\<lambda>r. \<forall>x. r = Some x \<longrightarrow> i < x \<and> x \<le> length s)"
proof (induction s i b e n rule: balance_loop.induct)
  case (1 s i b e n)
  show ?case
  proof (cases "i + 1 < length s")
    case True
    have c: "rd s (i + 1) = Inr (s ! (i + 1))" using True by (simp add: rd_def)
    have rec: "yields is_run (balance_loop s (i + 1) b e m) (\<lambda>r. \<forall>x. r = Some x \<longrightarrow> i < x \<and> x \<le> length s)"
      if "yields is_run (balance_loop s (i + 1) b e m) (\<lambda>r. \<forall>x. r = Some x \<longrightarrow> i + 1 < x \<and> x \<le> length s)" for m
      using that by (rule yields_mono) auto
    note ih = 1(1) [OF refl True _ ] 1(2) [OF refl True] 1(3) [OF refl True]
    show ?thesis
      by (subst balance_loop.simps) (use True c ih rec in \<open>auto simp: Let_def\<close>)
  next
    case False
    then show ?thesis by (subst balance_loop.simps) (simp add: Let_def)
  qed
qed

lemma matchbalance_yields:
  assumes "i \<le> length p" "s \<le> length (src ms)"
  shows "yields is_run (matchbalance ms s p i) (\<lambda>r. i + 2 \<le> length p \<and> (\<forall>x. r = Some x \<longrightarrow> s \<le> x \<and> x \<le> length (src ms)))"
proof -
  obtain b where b: "rd p i = Inr b" "b \<noteq> CHR 0x00 \<longrightarrow> i < length p" using rd_ok assms(1) by blast
  obtain c where c: "rd (src ms) s = Inr c" using rd_ok assms(2) by blast
  show ?thesis
  proof (cases "b = CHR 0x00")
    case False
    then have "i + 1 \<le> length p" using b by simp
    then obtain e where e: "rd p (i + 1) = Inr e" "e \<noteq> CHR 0x00 \<longrightarrow> i + 1 < length p" using rd_ok by blast
    have bal: "yields is_run (balance_loop (src ms) s b e 1)
       (\<lambda>r. i + 1 < length p \<longrightarrow> i + 2 \<le> length p \<and> (\<forall>x. r = Some x \<longrightarrow> s \<le> x \<and> x \<le> length (src ms)))"
      by (rule yields_mono [OF balance_loop_yields]) auto
    show ?thesis
    proof (cases "e = CHR 0x00")
      case True
      then show ?thesis using False b e by (simp add: matchbalance_def)
    next
      case e0: False
      then have "i + 1 < length p" using e by simp
      then show ?thesis using False b c e e0 bal by (simp add: matchbalance_def)
    qed
  qed (use b in \<open>simp add: matchbalance_def\<close>)
qed

text \<open>What the cases of \<open>match\<close> ask of the matcher of the rest of the pattern.\<close>

definition rest_ok :: "(nat \<Rightarrow> mcont) \<Rightarrow> bytes \<Rightarrow> nat \<Rightarrow> bool" where
  "rest_ok k p i = (\<forall>j. i < j \<longrightarrow> j \<le> length p \<longrightarrow> cont_ok (k j))"

lemma rest_okD: "rest_ok k p i \<Longrightarrow> i < j \<Longrightarrow> j \<le> length p \<Longrightarrow> cont_ok (k j)"
  by (simp add: rest_ok_def)

lemma rest_at:
  "rest_ok k p i \<Longrightarrow> i < j \<Longrightarrow> j \<le> length p \<Longrightarrow> ms_ok ms s \<Longrightarrow> s \<le> s' \<Longrightarrow> s' \<le> length (src ms)
   \<Longrightarrow> yields is_run (k j s' ms) (match_post ms s)"
  by (rule cont_at [OF rest_okD])

lemma match_default_yields:
  assumes k: "rest_ok k p i" and i: "i < length p" and ms: "ms_ok ms s"
  shows "yields is_run (match_default k s p i ms) (match_post ms s)"
  unfolding match_default_def
proof (rule yields_bind [OF classend_yields [OF i]])
  fix ep assume ep: "i < ep \<and> ep \<le> length p \<and> (p ! i = L_ESC \<longrightarrow> ep = i + 2)"
  obtain m where m: "single_at ms s p i ep = Inr m" "m \<longrightarrow> s < length (src ms)"
    using single_at_total [OF i, of ep ms s] ep by blast
  obtain q where q: "rd p ep = Inr q" "q \<noteq> CHR 0x00 \<longrightarrow> ep < length p" using rd_ok ep by blast
  have s: "s \<le> length (src ms)" using ms by (simp add: ms_ok_def)
  have next_cont: "cont_ok (k (ep + 1))" if "q \<noteq> CHR 0x00" using rest_okD [OF k] that q ep by simp
  have up: "yields is_run (max_expand (k (ep + 1)) (s + 1) p i ep ms) (match_post ms s)" if "m" "q \<noteq> CHR 0x00"
  proof -
    have "ms_ok ms (s + 1)" using ms that m by (auto intro: ms_ok_mono)
    then show ?thesis
      by (intro yields_mono [OF max_expand_yields [OF next_cont [OF that(2)]]]) (use i ep in \<open>auto intro: match_post_mono\<close>)
  qed
  have opt: "yields is_run (rbind (k (ep + 1) (s + 1) ms) (\<lambda>(r, ms). case r of Some e \<Rightarrow> Inr (Some e, ms) | None \<Rightarrow> k (ep + 1) s ms))
     (match_post ms s)" if "m" "q \<noteq> CHR 0x00"
  proof (rule yields_bind [OF cont_at [OF next_cont [OF that(2)] ms]])
    fix x assume x: "match_post ms s x"
    obtain r m' where rm: "x = (r, m')" by fastforce
    show "yields is_run (case x of (r, ms) \<Rightarrow> (case r of Some e \<Rightarrow> Inr (Some e, ms) | None \<Rightarrow> k (ep + 1) s ms)) (match_post ms s)"
      using x cont_okD [OF next_cont [OF that(2)] ms] by (cases r) (auto simp: rm match_post_def)
  qed (use that m in auto)
  have one: "yields is_run (k ep (s + 1) ms) (match_post ms s)" if m
    by (rule rest_at [OF k _ _ ms]) (use that m ep in auto)
  have zero: "yields is_run (k (ep + 1) s ms) (match_post ms s)" if "q \<noteq> CHR 0x00"
    by (rule cont_okD [OF next_cont [OF that] ms])
  have many: "yields is_run (max_expand (k (ep + 1)) s p i ep ms) (match_post ms s)" if "q \<noteq> CHR 0x00"
    by (rule max_expand_yields [OF next_cont [OF that] ms i]) (use ep in simp)
  have few: "yields is_run (min_expand (k (ep + 1)) s p i ep ms) (match_post ms s)" if "q \<noteq> CHR 0x00"
    unfolding min_expand_def by (rule min_loop_yields [OF next_cont [OF that] i _ ms]) (use ep in auto)
  show "yields is_run (rbind (single_at ms s p i ep) (\<lambda>m. rbind (rd p ep) (\<lambda>q.
       if q = CHR ''?''
       then (if m
             then rbind (k (ep + 1) (s + 1) ms) (\<lambda>(r, ms). case r of Some e \<Rightarrow> Inr (Some e, ms) | None \<Rightarrow> k (ep + 1) s ms)
             else k (ep + 1) s ms)
       else if q = CHR ''*'' then max_expand (k (ep + 1)) s p i ep ms
       else if q = CHR ''+'' then (if m then max_expand (k (ep + 1)) (s + 1) p i ep ms else Inr (None, ms))
       else if q = CHR ''-'' then min_expand (k (ep + 1)) s p i ep ms
       else if \<not> m then Inr (None, ms)
       else k ep (s + 1) ms))) (match_post ms s)"
    unfolding m(1) q(1) rbind.simps
    by (intro yields_if) (simp_all add: opt [simplified] zero [simplified] many [simplified] few [simplified] up [simplified] one [simplified] fail_post)
qed

lemma match_frontier_yields:
  assumes k: "rest_ok k p i" and i: "i \<le> length p" and ms: "ms_ok ms s"
  shows "yields is_run (match_frontier k s p i ms) (match_post ms s)"
proof -
  obtain c where c: "rd p i = Inr c" "c \<noteq> CHR 0x00 \<longrightarrow> i < length p" using rd_ok i by blast
  show ?thesis
  proof (cases "c = CHR ''[''")
    case True
    then have lt: "i < length p" using c by simp
    have s: "s \<le> length (src ms)" using ms by (simp add: ms_ok_def)
    obtain prev where prev: "(if s = 0 then Inr (CHR 0x00) else rd (src ms) (s - 1)) = Inr prev"
      using rd_ok [of "s - 1" "src ms"] s by (cases "s = 0") (auto, (meson diff_le_self le_trans)+)
    obtain cur where cur: "rd (src ms) s = Inr cur" using rd_ok s by blast
    show ?thesis unfolding match_frontier_def c(1) rbind.simps
    proof (intro yields_if)
      show "yields is_run (rbind (classend p i) (\<lambda>ep.
         rbind (if s = 0 then Inr (CHR 0x00) else rd (src ms) (s - 1)) (\<lambda>prev.
         rbind (matchbracketclass prev p i (ep - 1)) (\<lambda>m1.
           if m1 then Inr (None, ms)
           else rbind (rd (src ms) s) (\<lambda>cur. rbind (matchbracketclass cur p i (ep - 1)) (\<lambda>m2.
                  if \<not> m2 then Inr (None, ms) else k ep s ms)))))) (match_post ms s)"
      proof (rule yields_bind [OF classend_yields [OF lt]])
        fix ep assume ep: "i < ep \<and> ep \<le> length p \<and> (p ! i = L_ESC \<longrightarrow> ep = i + 2)"
        then have e1: "ep - 1 \<le> length p" by linarith
        obtain m1 where m1: "matchbracketclass prev p i (ep - 1) = Inr m1" using matchbracket_total [OF lt e1] by blast
        obtain m2 where m2: "matchbracketclass cur p i (ep - 1) = Inr m2" using matchbracket_total [OF lt e1] by blast
        have "yields is_run (k ep s ms) (match_post ms s)" by (rule cont_okD [OF rest_okD [OF k] ms]) (use ep in auto)
        then show "yields is_run (rbind (if s = 0 then Inr (CHR 0x00) else rd (src ms) (s - 1)) (\<lambda>prev.
         rbind (matchbracketclass prev p i (ep - 1)) (\<lambda>m1.
           if m1 then Inr (None, ms)
           else rbind (rd (src ms) s) (\<lambda>cur. rbind (matchbracketclass cur p i (ep - 1)) (\<lambda>m2.
                  if \<not> m2 then Inr (None, ms) else k ep s ms))))) (match_post ms s)"
          unfolding prev cur rbind.simps m1 m2 by (simp add: fail_post)
      qed
    qed simp
  qed (use c in \<open>simp add: match_frontier_def\<close>)
qed

lemma jump_yields:
  assumes "cont_ok k" "ms_ok ms s" "\<forall>x. r = Some x \<longrightarrow> s \<le> x \<and> x \<le> length (src ms)"
  shows "yields is_run (case r of None \<Rightarrow> Inr (None, ms) | Some s \<Rightarrow> k s ms) (match_post ms s)"
  using assms cont_at [OF assms(1,2)] by (cases r) (auto simp: fail_post)

lemma match_cont_ok: "i \<le> length p \<Longrightarrow> length p - i < n \<Longrightarrow> cont_ok (match n p i)"
proof (induction n arbitrary: i)
  case (Suc n)
  have rest: "rest_ok (match n p) p i" unfolding rest_ok_def using Suc by auto
  have rest1: "rest_ok (match n p) p j" if "i < j" for j unfolding rest_ok_def using Suc that by auto
  note to = rest_okD [OF rest]
  obtain c where c: "rd p i = Inr c" "c \<noteq> CHR 0x00 \<longrightarrow> i < length p" using rd_ok Suc.prems by blast
  show ?case unfolding cont_ok_def
  proof (intro allI impI)
    fix s ms assume ms: "ms_ok ms s"
    show "yields is_run (match (Suc n) p i s ms) (match_post ms s)"
    proof (cases "c = CHR 0x00")
      case True
      then show ?thesis using ms c by (simp add: match_post_def L_ESC_def Let_def)
    next
      case False
      then have lt: "i < length p" using c by simp
      then obtain d where d: "rd p (i + 1) = Inr d" "d \<noteq> CHR 0x00 \<longrightarrow> i + 1 < length p"
        using rd_ok [of "i + 1" p] by auto
      note dflt = match_default_yields [OF rest lt ms]
      have bal: "yields is_run (rbind (matchbalance ms s p (i + 2)) (\<lambda>r. case r of None \<Rightarrow> Inr (None, ms) | Some s \<Rightarrow> match n p (i + 4) s ms))
         (match_post ms s)" if "d = CHR ''b''"
      proof (rule yields_bind [OF matchbalance_yields])
        fix r assume "i + 2 + 2 \<le> length p \<and> (\<forall>x. r = Some x \<longrightarrow> s \<le> x \<and> x \<le> length (src ms))"
        then show "yields is_run (case r of None \<Rightarrow> Inr (None, ms) | Some s \<Rightarrow> match n p (i + 4) s ms) (match_post ms s)"
          by (intro jump_yields [OF to ms]) auto
      qed (use that d ms in \<open>auto simp: ms_ok_def\<close>)
      have cap: "yields is_run (rbind (match_capture ms s d) (\<lambda>r. case r of None \<Rightarrow> Inr (None, ms) | Some s \<Rightarrow> match n p (i + 2) s ms))
         (match_post ms s)" if "i + 2 \<le> length p"
        by (rule yields_bind [OF match_capture_yields [OF ms]]) (intro jump_yields [OF to ms], use that in auto)
      have fro: "yields is_run (match_frontier (match n p) s p (i + 2) ms) (match_post ms s)" if "i + 2 \<le> length p"
        by (rule match_frontier_yields [OF rest1 that ms]) simp
      have st: "yields is_run (start_capture (match n p j) s w ms) (match_post ms s)"
        if "i < j" "j \<le> length p" "w = CAP_POSITION \<or> w = CAP_UNFINISHED" for j w
        by (rule start_capture_yields [OF to [OF that(1,2)] ms that(3)])
      have en: "yields is_run (end_capture (match n p (i + 1)) s ms) (match_post ms s)"
        by (rule end_capture_yields [OF to ms]) (use lt in auto)
      have dig: "i + 2 \<le> length p" if "isdigit d \<or> d = CHR ''f'' \<or> d = CHR '')''"
        using that d by (auto simp: isdigit_def)
      have eos: "yields is_run (Inr (if s = length (src ms) then Some s else None, ms)) (match_post ms s)"
        using ms by (auto simp: match_post_def)
      show ?thesis unfolding match.simps Let_def c(1) d(1) rbind.simps
        by (intro yields_if) (use False lt dig in \<open>simp_all only: bal cap fro st en dflt eos simp_thms\<close>)
    qed
  qed
qed simp

text \<open>
  C33. \<open>match\<close> never reads outside the subject or the pattern and always returns: from a well-formed match
  state it raises an error of the pattern, or fails leaving every capture as it was, or gives an end not
  before its start with captures that lie inside the subject (at most 32 of them).
\<close>

theorem do_match_ok:
  assumes "i \<le> length p" "ms_ok ms s"
  shows "yields is_run (do_match p i s ms) (match_post ms s)"
  unfolding do_match_def by (rule cont_okD [OF match_cont_ok assms(2)]) (use assms in auto)

theorem do_match_ok_witness:
  "yields is_run (do_match ''(%a+)%d-$'' 0 1 \<lparr>src = ''-abc12'', capture = []\<rparr>) (match_post \<lparr>src = ''-abc12'', capture = []\<rparr> 1)"
  by (rule do_match_ok) (simp_all add: ms_ok_def LUA_MAXCAPTURES_def)

end
