(* ===== verification/Lstrlib.thy ===== *)
theory Lstrlib
  imports Lstr_match
begin

text \<open>
  lstrlib.c: the functions of the string library but for \<open>format\<close> and \<open>dump\<close>: substrings, case and
  repetition, plain search, captures, \<open>find\<close>, \<open>match\<close>, \<open>gmatch\<close> and \<open>gsub\<close>. Strings under construction
  are lists; the buffer they are built in is that of Lauxlib.
\<close>

section \<open>Simple functions\<close>

definition pushint :: "int \<Rightarrow> lval" where
  "pushint n = Vnumber (cast_num n)"

definition str_len :: "libenv \<Rightarrow> args \<Rightarrow> lval list res" where
  "str_len E L = rbind (luaL_checklstring E L 1) (\<lambda>s. Inr [pushint (int (length s))])"

definition posrelat :: "int \<Rightarrow> nat \<Rightarrow> int" where
  "posrelat pos len = (let pos = (if pos < 0 then pos + (int len + 1) else pos) in if pos \<ge> 0 then pos else 0)"

definition str_sub :: "libenv \<Rightarrow> args \<Rightarrow> lval list res" where
  "str_sub E L =
     rbind (luaL_checklstring E L 1) (\<lambda>s.
     rbind (luaL_checkinteger E L 2) (\<lambda>a.
     rbind (luaL_optinteger E L 3 (- 1)) (\<lambda>b.
       let start = posrelat a (length s); fin = posrelat b (length s);
           start = (if start < 1 then 1 else start);
           fin = (if fin > int (length s) then int (length s) else fin)
       in if start \<le> fin then Inr [Vstring (take (nat (fin - start + 1)) (drop (nat (start - 1)) s))]
          else Inr [Vstring []])))"

primrec reverse_loop :: "bytes \<Rightarrow> nat \<Rightarrow> bytes" where
  "reverse_loop s 0 = []"
| "reverse_loop s (Suc l) = s ! l # reverse_loop s l"

definition str_reverse :: "libenv \<Rightarrow> args \<Rightarrow> lval list res" where
  "str_reverse E L = rbind (luaL_checklstring E L 1) (\<lambda>s. Inr [Vstring (reverse_loop s (length s))])"

definition str_lower :: "libenv \<Rightarrow> args \<Rightarrow> lval list res" where
  "str_lower E L = rbind (luaL_checklstring E L 1) (\<lambda>s. Inr [Vstring (map tolower s)])"

definition str_upper :: "libenv \<Rightarrow> args \<Rightarrow> lval list res" where
  "str_upper E L = rbind (luaL_checklstring E L 1) (\<lambda>s. Inr [Vstring (map toupper s)])"

definition str_rep :: "libenv \<Rightarrow> args \<Rightarrow> lval list res" where
  "str_rep E L =
     rbind (luaL_checklstring E L 1) (\<lambda>s.
     rbind (luaL_checkint E L 2) (\<lambda>n. Inr [Vstring (concat (replicate (nat n) s))]))"

text \<open>The bytes \<open>i\<close> to \<open>i + n - 1\<close>, each read checked.\<close>

primrec read_bytes :: "bytes \<Rightarrow> nat \<Rightarrow> nat \<Rightarrow> lval list res" where
  "read_bytes s i 0 = Inr []"
| "read_bytes s i (Suc n) =
     rbind (rd s i) (\<lambda>c. rbind (read_bytes s (i + 1) n) (\<lambda>cs. Inr (pushint (int (code c)) # cs)))"

definition str_byte :: "libenv \<Rightarrow> args \<Rightarrow> lval list res" where
  "str_byte E L =
     rbind (luaL_checklstring E L 1) (\<lambda>s.
     rbind (luaL_optinteger E L 2 1) (\<lambda>a.
       let posi = posrelat a (length s)
       in rbind (luaL_optinteger E L 3 posi) (\<lambda>b.
       let pose = posrelat b (length s);
           posi = (if posi \<le> 0 then 1 else posi);
           pose = (if pose > int (length s) then int (length s) else pose)
       in if posi > pose then Inr []
          else let n = to_int (pose - posi + 1)
               in if posi + n \<le> pose then luaL_error ''string slice too long''
                  else rbind (luaL_checkstack L n ''string slice too long'') (\<lambda>_. read_bytes s (nat (posi - 1)) (nat n)))))"

primrec char_loop :: "libenv \<Rightarrow> args \<Rightarrow> nat \<Rightarrow> nat \<Rightarrow> bytes res" where
  "char_loop E L i 0 = Inr []"
| "char_loop E L i (Suc n) =
     rbind (luaL_checkint E L i) (\<lambda>c.
     rbind (luaL_argcheck E (c mod 256 = c) i ''invalid value'') (\<lambda>_.
     rbind (char_loop E L (i + 1) n) (\<lambda>cs. Inr (char_of (nat (c mod 256)) # cs))))"

definition str_char :: "libenv \<Rightarrow> args \<Rightarrow> lval list res" where
  "str_char E L = rbind (char_loop E L 1 (length L)) (\<lambda>s. Inr [Vstring s])"

section \<open>Plain search\<close>

fun memchr :: "bytes \<Rightarrow> char \<Rightarrow> nat option" where
  "memchr [] c = None"
| "memchr (x # xs) c = (if x = c then Some 0 else map_option Suc (memchr xs c))"

text \<open>Positions \<open>s1\<close> in the string \<open>t\<close>; \<open>l1\<close> bytes from there may start an occurrence of \<open>s2\<close>.\<close>

function find_loop :: "bytes \<Rightarrow> nat \<Rightarrow> nat \<Rightarrow> bytes \<Rightarrow> nat option res" where
  "find_loop t s1 l1 s2 =
     (if l1 = 0 then Inr None
      else case memchr (take l1 (drop s1 t)) (hd s2) of
        None \<Rightarrow> Inr None
      | Some k \<Rightarrow>
          let ini = s1 + k + 1
          in if length t < ini + (length s2 - 1) then Inl (Undefined ''memcmp'')
             else if take (length s2 - 1) (drop ini t) = tl s2 then Inr (Some (ini - 1))
             else find_loop t ini (l1 - (ini - s1)) s2)"
  by pat_completeness auto
termination
  by (relation "measure (\<lambda>(t, s1, l1, s2). l1)") auto

declare find_loop.simps [simp del]

definition lmemfind :: "bytes \<Rightarrow> nat \<Rightarrow> bytes \<Rightarrow> nat option res" where
  "lmemfind t s1 s2 =
     (let l1 = length t - s1
      in if length s2 = 0 then Inr (Some s1)
         else if length s2 > l1 then Inr None
         else find_loop t s1 (l1 - (length s2 - 1)) s2)"

section \<open>Captures\<close>

text \<open>\<open>r\<close> is the whole match, start and end; it is absent where the code passes NULL.\<close>

definition push_onecapture :: "MatchState \<Rightarrow> nat \<Rightarrow> (nat \<times> nat) option \<Rightarrow> lval res" where
  "push_onecapture ms i r =
     (if i \<ge> length (capture ms)
      then if i = 0
           then (case r of Some (s, e) \<Rightarrow> Inr (Vstring (take (e - s) (drop s (src ms)))) | None \<Rightarrow> Inl (Undefined ''NULL''))
           else luaL_error ''invalid capture index''
      else let (ini, l) = capture ms ! i
           in if l = CAP_UNFINISHED then luaL_error ''unfinished capture''
              else if l = CAP_POSITION then Inr (pushint (int ini + 1))
              else if l < 0 \<or> length (src ms) < ini + nat l then Inl (Undefined ''capture'')
              else Inr (Vstring (take (nat l) (drop ini (src ms)))))"

primrec push_loop :: "MatchState \<Rightarrow> nat \<Rightarrow> nat \<Rightarrow> (nat \<times> nat) option \<Rightarrow> lval list res" where
  "push_loop ms i 0 r = Inr []"
| "push_loop ms i (Suc n) r =
     rbind (push_onecapture ms i r) (\<lambda>v. rbind (push_loop ms (i + 1) n r) (\<lambda>vs. Inr (v # vs)))"

definition push_captures :: "args \<Rightarrow> MatchState \<Rightarrow> (nat \<times> nat) option \<Rightarrow> lval list res" where
  "push_captures L ms r =
     (let nlevels = (if capture ms = [] \<and> r \<noteq> None then 1 else length (capture ms))
      in rbind (luaL_checkstack L (int nlevels) ''too many captures'') (\<lambda>_. push_loop ms 0 nlevels r))"

section \<open>\<open>find\<close> and \<open>match\<close>\<close>

definition SPECIALS :: bytes where "SPECIALS = ''^$*+?.([%-''"

definition no_specials :: "bytes \<Rightarrow> bool" where
  "no_specials p = list_all (\<lambda>c. c \<notin> set SPECIALS) (cstr p)"

definition start_match :: "bytes \<Rightarrow> MatchState" where
  "start_match s = \<lparr>src = s, capture = []\<rparr>"

function find_scan :: "(MatchState \<Rightarrow> nat \<Rightarrow> nat \<Rightarrow> lval list res) \<Rightarrow> bytes \<Rightarrow> nat \<Rightarrow> bool \<Rightarrow> bytes \<Rightarrow> nat \<Rightarrow> lval list res" where
  "find_scan found p i anchor s s1 =
     rbind (do_match p i s1 (start_match s)) (\<lambda>(r, ms).
       case r of
         Some e \<Rightarrow> found ms s1 e
       | None \<Rightarrow> if s1 < length s \<and> \<not> anchor then find_scan found p i anchor s (s1 + 1) else Inr [Vnil])"
  by pat_completeness auto
termination
  by (relation "measure (\<lambda>(f, p, i, anchor, s, s1). length s - s1)") auto

declare find_scan.simps [simp del]

definition str_find_aux :: "libenv \<Rightarrow> args \<Rightarrow> bool \<Rightarrow> lval list res" where
  "str_find_aux E L fnd =
     rbind (luaL_checklstring E L 1) (\<lambda>s.
     rbind (luaL_checklstring E L 2) (\<lambda>p.
     rbind (luaL_optinteger E L 3 1) (\<lambda>i.
       let start = posrelat i (length s) - 1;
           start = (if start < 0 then 0 else if nat start > length s then length s else nat start)
       in if fnd \<and> (lua_toboolean L 4 \<or> no_specials p)
          then rbind (lmemfind s start p) (\<lambda>r. case r of
                 Some s2 \<Rightarrow> Inr [pushint (int s2 + 1), pushint (int s2 + int (length p))]
               | None \<Rightarrow> Inr [Vnil])
          else rbind (rd p 0) (\<lambda>c.
            let anchor = (c = CHR ''^'')
            in find_scan (\<lambda>ms s1 e.
                  if fnd then rbind (push_captures L ms None) (\<lambda>vs. Inr (pushint (int s1 + 1) # pushint (int e) # vs))
                  else push_captures L ms (Some (s1, e)))
                 p (if anchor then 1 else 0) anchor s start))))"

definition str_find :: "libenv \<Rightarrow> args \<Rightarrow> lval list res" where
  "str_find E L = str_find_aux E L True"

definition str_match :: "libenv \<Rightarrow> args \<Rightarrow> lval list res" where
  "str_match E L = str_find_aux E L False"

section \<open>\<open>gmatch\<close>\<close>

text \<open>The upvalues of the iterator are the subject, the pattern and the next start, which is returned anew.\<close>

function gmatch_aux :: "args \<Rightarrow> bytes \<Rightarrow> bytes \<Rightarrow> nat \<Rightarrow> (lval list \<times> nat option) res" where
  "gmatch_aux L s p from =
     (if from \<le> length s
      then rbind (do_match p 0 from (start_match s)) (\<lambda>(r, ms).
        case r of
          Some e \<Rightarrow>
            let newstart = (if e = from then e + 1 else e)
            in rbind (push_captures L ms (Some (from, e))) (\<lambda>vs. Inr (vs, Some newstart))
        | None \<Rightarrow> gmatch_aux L s p (from + 1))
      else Inr ([], None))"
  by pat_completeness auto
termination
  by (relation "measure (\<lambda>(L, s, p, from). Suc (length s) - from)") auto

declare gmatch_aux.simps [simp del]

definition gmatch :: "libenv \<Rightarrow> args \<Rightarrow> (bytes \<times> bytes \<times> nat) res" where
  "gmatch E L = rbind (luaL_checklstring E L 1) (\<lambda>s. rbind (luaL_checklstring E L 2) (\<lambda>p. Inr (s, p, 0)))"

section \<open>\<open>gsub\<close>\<close>

text \<open>What a replacement may call: a Lua function and an index into a table, over the rest of the Lua state.\<close>

record 'w calls =
  lua_call :: "ptr \<Rightarrow> lval list \<Rightarrow> 'w \<Rightarrow> (lval \<times> 'w) res"
  lua_gettable :: "ptr \<Rightarrow> lval \<Rightarrow> 'w \<Rightarrow> (lval \<times> 'w) res"

definition tostr :: "libenv \<Rightarrow> lval \<Rightarrow> bytes" where
  "tostr E v = (case v of Vstring s \<Rightarrow> s | Vnumber n \<Rightarrow> fmt14g E n | _ \<Rightarrow> [])"

fun add_s :: "libenv \<Rightarrow> MatchState \<Rightarrow> nat \<Rightarrow> nat \<Rightarrow> bytes \<Rightarrow> bytes res" where
  "add_s E ms s e [] = Inr []"
| "add_s E ms s e [c] = Inr [if c = L_ESC then CHR 0x00 else c]"
| "add_s E ms s e (c # d # news) =
     (if c \<noteq> L_ESC then rbind (add_s E ms s e (d # news)) (\<lambda>b. Inr (c # b))
      else if \<not> isdigit d then rbind (add_s E ms s e news) (\<lambda>b. Inr (d # b))
      else if d = CHR ''0'' then rbind (add_s E ms s e news) (\<lambda>b. Inr (take (e - s) (drop s (src ms)) @ b))
      else rbind (push_onecapture ms (code d - code (CHR ''1'')) (Some (s, e))) (\<lambda>v.
           rbind (add_s E ms s e news) (\<lambda>b. Inr (tostr E v @ b))))"

definition add_value :: "libenv \<Rightarrow> 'w calls \<Rightarrow> args \<Rightarrow> MatchState \<Rightarrow> nat \<Rightarrow> nat \<Rightarrow> 'w \<Rightarrow> (bytes \<times> 'w) res" where
  "add_value E F L ms s e w =
     (let keep = (\<lambda>(v, w).
            if l_isfalse v then Inr (take (e - s) (drop s (src ms)), w)
            else if ttype v = 4 \<or> ttype v = 3 then Inr (tostr E v, w)
            else luaL_error (''invalid replacement value (a '' @ lua_typename (ttype v) @ '')''))
      in case index2adr L 3 of
           Some (Vnumber n) \<Rightarrow> rbind (add_s E ms s e (fmt14g E n)) (\<lambda>b. Inr (b, w))
         | Some (Vstring r) \<Rightarrow> rbind (add_s E ms s e r) (\<lambda>b. Inr (b, w))
         | Some (Vfunction f) \<Rightarrow> rbind (push_captures L ms (Some (s, e))) (\<lambda>vs. rbind (lua_call F f vs w) keep)
         | Some (Vtable t) \<Rightarrow> rbind (push_onecapture ms 0 (Some (s, e))) (\<lambda>v. rbind (lua_gettable F t v w) keep)
         | _ \<Rightarrow> Inl (Undefined ''replacement''))"

text \<open>The loop of \<open>str_gsub\<close>: \<open>b\<close> is the buffer, \<open>pos\<close> the position \<open>src\<close>. Every round but the last advances.\<close>

primrec gsub_loop :: "nat \<Rightarrow> libenv \<Rightarrow> 'w calls \<Rightarrow> args \<Rightarrow> bytes \<Rightarrow> nat \<Rightarrow> bool \<Rightarrow> int \<Rightarrow> bytes \<Rightarrow> nat \<Rightarrow> int \<Rightarrow> bytes \<Rightarrow> 'w
    \<Rightarrow> (bytes \<times> nat \<times> int \<times> 'w) res" where
  "gsub_loop 0 E F L p i anchor max_s s pos n b w = Inl (Undefined ''fuel'')"
| "gsub_loop (Suc k) E F L p i anchor max_s s pos n b w =
     (if n < max_s
      then rbind (do_match p i pos (start_match s)) (\<lambda>(e, ms).
           rbind (case e of
               Some e \<Rightarrow> rbind (add_value E F L ms pos e w) (\<lambda>(v, w). Inr (n + 1, b @ v, w))
             | None \<Rightarrow> Inr (n, b, w)) (\<lambda>(n, b, w).
             let (stop, pos, b) =
               (if (case e of Some x \<Rightarrow> x > pos | None \<Rightarrow> False) then (False, the e, b)
                else if pos < length s then (False, pos + 1, b @ [s ! pos])
                else (True, pos, b))
             in if stop \<or> anchor then Inr (b, pos, n, w)
                else gsub_loop k E F L p i anchor max_s s pos n b w))
      else Inr (b, pos, n, w))"

definition str_gsub :: "libenv \<Rightarrow> 'w calls \<Rightarrow> args \<Rightarrow> 'w \<Rightarrow> (lval list \<times> 'w) res" where
  "str_gsub E F L w =
     rbind (luaL_checklstring E L 1) (\<lambda>s.
     rbind (luaL_checklstring E L 2) (\<lambda>p.
     rbind (luaL_optint E L 4 (int (length s) + 1)) (\<lambda>max_s.
     rbind (rd p 0) (\<lambda>c.
       let anchor = (c = CHR ''^''); tr = lua_type L 3
       in rbind (luaL_argcheck E (tr = 3 \<or> tr = 4 \<or> tr = 6 \<or> tr = 5) 3 ''string/function/table expected'') (\<lambda>_.
          rbind (gsub_loop (Suc (length s)) E F L p (if anchor then 1 else 0) anchor max_s s 0 0 [] w) (\<lambda>(b, pos, n, w).
            Inr ([Vstring (b @ drop pos s), pushint n], w)))))))"

end
