(* ===== verification/Lstr_ok.thy ===== *)
theory Lstr_ok
  imports Lstrlib
begin

text \<open>
  What the string library promises: substrings are the slices the manual describes, plain search finds the
  first occurrence and agrees with the pattern matcher, \<open>find\<close>, \<open>match\<close> and \<open>gsub\<close> never read outside a
  string and always return, and replacing every match by itself changes nothing.
\<close>

section \<open>Plain search\<close>

definition occurs :: "bytes \<Rightarrow> bytes \<Rightarrow> nat \<Rightarrow> bool" where
  "occurs t p k = (k + length p \<le> length t \<and> take (length p) (drop k t) = p)"

lemma memchr_None: "memchr xs c = None \<Longrightarrow> c \<notin> set xs"
  by (induction xs) (auto split: if_splits)

lemma memchr_Some: "memchr xs c = Some k \<Longrightarrow> k < length xs \<and> xs ! k = c \<and> (\<forall>j<k. xs ! j \<noteq> c)"
proof (induction xs arbitrary: k)
  case (Cons x xs)
  show ?case
  proof (cases "x = c")
    case False
    then obtain m where m: "memchr xs c = Some m" "k = Suc m" using Cons.prems by auto
    have "(x # xs) ! j \<noteq> c" if "j < k" for j using Cons.IH [OF m(1)] m(2) that False by (cases j) auto
    then show ?thesis using Cons.IH [OF m(1)] m(2) by simp
  qed (use Cons.prems in simp)
qed simp

lemma occurs_hd:
  assumes "p \<noteq> []" "k + length p \<le> length t"
  shows "occurs t p k \<longleftrightarrow> t ! k = hd p \<and> take (length p - 1) (drop (k + 1) t) = tl p"
proof -
  obtain c q where p: "p = c # q" using assms(1) by (cases p) auto
  have "drop k t = t ! k # drop (Suc k) t" using assms p by (intro Cons_nth_drop_Suc [symmetric]) simp
  then show ?thesis using assms p by (auto simp: occurs_def)
qed

definition first_from :: "bytes \<Rightarrow> bytes \<Rightarrow> nat \<Rightarrow> nat option \<Rightarrow> bool" where
  "first_from t p i r = (case r of
       None \<Rightarrow> \<forall>k\<ge>i. \<not> occurs t p k
     | Some k \<Rightarrow> i \<le> k \<and> occurs t p k \<and> (\<forall>j. i \<le> j \<and> j < k \<longrightarrow> \<not> occurs t p j))"

lemma find_loop_first:
  "p \<noteq> [] \<Longrightarrow> s1 + l1 + (length p - 1) = length t \<Longrightarrow> \<exists>r. find_loop t s1 l1 p = Inr r \<and> first_from t p s1 r"
proof (induction l1 arbitrary: s1 rule: less_induct)
  case (less l1)
  have far: "\<not> occurs t p k" if "s1 + l1 \<le> k" for k
    using that less.prems by (auto simp: occurs_def neq_Nil_conv)
  show ?case
  proof (cases "memchr (take l1 (drop s1 t)) (hd p)")
    case None
    have "\<not> occurs t p k" if "s1 \<le> k" for k
    proof (cases "k < s1 + l1")
      case True
      then have "t ! k \<in> set (take l1 (drop s1 t))"
        using that less.prems(2) by (auto simp: in_set_conv_nth intro!: exI [of _ "k - s1"])
      then have "t ! k \<noteq> hd p" using memchr_None [OF None] by auto
      then show ?thesis using occurs_hd [OF less.prems(1)] by (auto simp: occurs_def)
    qed (simp add: far)
    then show ?thesis using None by (subst find_loop.simps) (simp add: first_from_def)
  next
    case (Some k)
    from memchr_Some [OF Some] have k: "k < l1" "t ! (s1 + k) = hd p" "\<forall>j<k. t ! (s1 + j) \<noteq> hd p"
      using less.prems(2) by auto
    have before: "\<not> occurs t p j" if "s1 \<le> j" "j < s1 + k" for j
    proof -
      have "j - s1 < k" using that by simp
      then have "t ! (s1 + (j - s1)) \<noteq> hd p" using k(3) by blast
      then show ?thesis using that occurs_hd [OF less.prems(1), of j t] by (auto simp: occurs_def)
    qed
    have fits: "s1 + k + length p \<le> length t" "\<not> length t < s1 + k + 1 + (length p - 1)" using k less.prems by (cases p; auto)+
    show ?thesis
    proof (cases "occurs t p (s1 + k)")
      case True
      then have "take (length p - 1) (drop (s1 + k + 1) t) = tl p" using occurs_hd [OF less.prems(1) fits(1)] by simp
      then have "find_loop t s1 l1 p = Inr (Some (s1 + k))"
        using Some k fits by (subst find_loop.simps) (auto simp: Let_def)
      then show ?thesis using True before by (auto simp: first_from_def)
    next
      case False
      then have ne: "take (length p - 1) (drop (s1 + k + 1) t) \<noteq> tl p" using occurs_hd [OF less.prems(1) fits(1)] k(2) by simp
      have "l1 - (k + 1) < l1" "s1 + k + 1 + (l1 - (k + 1)) + (length p - 1) = length t" using k less.prems by auto
      from less.IH [OF this(1) less.prems(1) this(2)] obtain r where
        r: "find_loop t (s1 + k + 1) (l1 - (k + 1)) p = Inr r" "first_from t p (s1 + k + 1) r" by blast
      have "find_loop t s1 l1 p = Inr r"
        using Some k fits ne r(1) by (subst find_loop.simps) (auto simp: Let_def)
      moreover have "\<not> occurs t p j" if "s1 \<le> j" "j < s1 + k + 1" for j
        using before [of j] False that by (cases "j = s1 + k") auto
      then have "first_from t p s1 r"
        using r(2) by (auto simp: first_from_def split: option.splits) (metis not_le)+
      ultimately show ?thesis by blast
    qed
  qed
qed

lemma lmemfind_ok: "i \<le> length t \<Longrightarrow> \<exists>r. lmemfind t i p = Inr r \<and> first_from t p i r"
proof -
  assume i: "i \<le> length t"
  consider (empty) "p = []" | (long) "p \<noteq> []" "length p > length t - i" | (loop) "p \<noteq> []" "length p \<le> length t - i" by linarith
  then show ?thesis
  proof cases
    case empty
    then show ?thesis using i by (auto simp: lmemfind_def first_from_def occurs_def)
  next
    case long
    then show ?thesis by (auto simp: lmemfind_def first_from_def occurs_def)
  next
    case loop
    then have "i + (length t - i - (length p - 1)) + (length p - 1) = length t" using i by (cases p) auto
    from find_loop_first [OF loop(1) this] show ?thesis using loop by (auto simp: lmemfind_def)
  qed
qed

text \<open>
  C34. \<open>lmemfind\<close>, which compares only where \<open>memchr\<close> finds the first byte, never compares past the end of
  the string and returns the first occurrence at or after its start, or NULL when there is none.
\<close>

theorem lmemfind_first:
  assumes "i \<le> length t"
  shows "\<exists>r. lmemfind t i p = Inr r \<and> (case r of
      None \<Rightarrow> \<forall>k\<ge>i. \<not> occurs t p k
    | Some k \<Rightarrow> i \<le> k \<and> occurs t p k \<and> (\<forall>j. i \<le> j \<and> j < k \<longrightarrow> \<not> occurs t p j))"
  using lmemfind_ok [OF assms] unfolding first_from_def .

theorem lmemfind_first_witness: "\<exists>r. lmemfind ''abaabab'' 1 ''ab'' = Inr r \<and> r = Some 3"
proof -
  obtain r where r: "lmemfind ''abaabab'' 1 ''ab'' = Inr r"
    "case r of None \<Rightarrow> \<forall>k\<ge>1. \<not> occurs ''abaabab'' ''ab'' k
     | Some k \<Rightarrow> 1 \<le> k \<and> occurs ''abaabab'' ''ab'' k \<and> (\<forall>j. 1 \<le> j \<and> j < k \<longrightarrow> \<not> occurs ''abaabab'' ''ab'' j)"
    using lmemfind_first [of 1 "''abaabab''" "''ab''"] by auto
  have o: "occurs ''abaabab'' ''ab'' 3" "\<not> occurs ''abaabab'' ''ab'' 1" "\<not> occurs ''abaabab'' ''ab'' 2"
    by (simp_all add: occurs_def)
  have "r \<noteq> None" using r(2) o(1) by (cases r) (auto dest: spec [of _ 3])
  then obtain k where k: "r = Some k" by auto
  have "\<not> 3 < k" using r(2) o(1) k by (auto dest: spec [of _ 3])
  moreover have "k \<noteq> 1" "k \<noteq> 2" "1 \<le> k" using r(2) o(2,3) k by auto
  ultimately have "k = 3" by linarith
  then show ?thesis using r(1) k by blast
qed

section \<open>Patterns without special characters\<close>

definition plain_char :: "char \<Rightarrow> bool" where
  "plain_char c = (c \<notin> set SPECIALS \<and> c \<noteq> CHR '')'' \<and> c \<noteq> CHR 0x00)"

lemma plain_charD:
  "plain_char c \<Longrightarrow> c \<noteq> CHR ''('' \<and> c \<noteq> CHR '')'' \<and> c \<noteq> CHR ''%'' \<and> c \<noteq> CHR 0x00 \<and> c \<noteq> CHR ''$'' \<and> c \<noteq> CHR ''.'' \<and> c \<noteq> CHR ''[''
     \<and> c \<noteq> CHR ''?'' \<and> c \<noteq> CHR ''*'' \<and> c \<noteq> CHR ''+'' \<and> c \<noteq> CHR ''-'' \<and> c \<noteq> CHR ''^''"
  by (auto simp: plain_char_def SPECIALS_def)

lemma match_plain:
  "list_all plain_char p \<Longrightarrow> i \<le> length p \<Longrightarrow> length p - i < n \<Longrightarrow> s \<le> length (src ms) \<Longrightarrow>
   match n p i s ms = Inr (if take (length p - i) (drop s (src ms)) = drop i p then Some (s + (length p - i)) else None, ms)"
proof (induction n arbitrary: i s)
  case (Suc n)
  show ?case
  proof (cases "i = length p")
    case True
    then show ?thesis by (simp add: rd_def L_ESC_def Let_def)
  next
    case False
    then have lt: "i < length p" using Suc.prems by simp
    let ?c = "p ! i"
    have c: "plain_char ?c" using Suc.prems(1) lt by (simp add: list_all_length)
    have q: "\<exists>q. rd p (i + 1) = Inr q \<and> (q = CHR 0x00 \<or> plain_char q)"
      using Suc.prems(1) lt by (auto simp: rd_def list_all_length)
    then obtain q where q: "rd p (i + 1) = Inr q" "q = CHR 0x00 \<or> plain_char q" by blast
    have q': "q \<noteq> CHR ''?'' \<and> q \<noteq> CHR ''*'' \<and> q \<noteq> CHR ''+'' \<and> q \<noteq> CHR ''-''" using q(2) plain_charD by auto
    have i: "rd p i = Inr ?c" using lt by (simp add: rd_def)
    have ce: "classend p i = Inr (i + 1)" using plain_charD [OF c] i by (simp add: classend_def L_ESC_def)
    have sm: "single_at ms s p i (i + 1) = Inr (s < length (src ms) \<and> src ms ! s = ?c)"
      using plain_charD [OF c] i by (auto simp: single_at_def singlematch_def rd_def L_ESC_def)
    have d: "match (Suc n) p i s ms = match_default (match n p) s p i ms"
      using plain_charD [OF c] i by (simp add: L_ESC_def Let_def)
    have dr: "drop i p = ?c # drop (i + 1) p" using lt by (simp add: Cons_nth_drop_Suc)
    show ?thesis
    proof (cases "s < length (src ms) \<and> src ms ! s = ?c")
      case True
      then have "drop s (src ms) = ?c # drop (s + 1) (src ms)" by (metis Cons_nth_drop_Suc Suc_eq_plus1)
      moreover have "length p - i = Suc (length p - (i + 1))" using lt by simp
      moreover have "match n p (i + 1) (s + 1) ms = Inr (if take (length p - (i + 1)) (drop (s + 1) (src ms)) = drop (i + 1) p
          then Some (s + 1 + (length p - (i + 1))) else None, ms)"
        using Suc.prems lt True by (intro Suc.IH) auto
      ultimately show ?thesis using True dr q' unfolding d match_default_def ce rbind.simps sm q(1) by simp
    next
      case False
      have "take (length p - i) (drop s (src ms)) \<noteq> drop i p"
      proof
        assume e: "take (length p - i) (drop s (src ms)) = drop i p"
        then have "take (length p - i) (drop s (src ms)) \<noteq> []" using dr by simp
        then have s: "s < length (src ms)" by auto
        then have "take (length p - i) (drop s (src ms)) ! 0 = src ms ! s" using lt by simp
        then show False using False s e dr by simp
      qed
      then show ?thesis using False q' unfolding d match_default_def ce rbind.simps sm q(1) by simp
    qed
  qed
qed simp

lemma occurs_iff: "k \<le> length s \<Longrightarrow> occurs s p k \<longleftrightarrow> take (length p) (drop k s) = p"
proof -
  assume k: "k \<le> length s"
  have "k + length p \<le> length s" if "take (length p) (drop k s) = p"
  proof -
    have "length (take (length p) (drop k s)) = length p" using that by simp
    then show ?thesis using k by simp
  qed
  then show ?thesis by (auto simp: occurs_def)
qed

lemma plain_match:
  "list_all plain_char p \<Longrightarrow> k \<le> length s \<Longrightarrow>
   do_match p 0 k (start_match s) = Inr (if occurs s p k then Some (k + length p) else None, start_match s)"
  unfolding do_match_def
  by (subst match_plain) (simp_all add: occurs_iff start_match_def)

text \<open>What \<open>str_find_aux\<close> returns from a match, for \<open>find\<close>.\<close>

definition found :: "args \<Rightarrow> MatchState \<Rightarrow> nat \<Rightarrow> nat \<Rightarrow> lval list res" where
  "found L ms s1 e = rbind (push_captures L ms None) (\<lambda>vs. Inr (pushint (int s1 + 1) # pushint (int e) # vs))"

lemma found_start: "length L \<le> 8000 \<Longrightarrow> found L (start_match s) s1 e = Inr [pushint (int s1 + 1), pushint (int e)]"
  by (simp add: found_def push_captures_def start_match_def luaL_checkstack_def LUAI_MAXCSTACK_def)

lemma scan_plain:
  assumes "list_all plain_char p" "length L \<le> 8000"
  shows "k \<le> length s \<Longrightarrow> first_from s p k r \<Longrightarrow>
    find_scan (found L) p 0 False s k = Inr (case r of Some j \<Rightarrow> [pushint (int j + 1), pushint (int j + int (length p))] | None \<Rightarrow> [Vnil])"
proof (induction "length s - k" arbitrary: k rule: less_induct)
  case less
  note m = plain_match [OF assms(1) less.prems(1)]
  show ?case
  proof (cases "occurs s p k")
    case True
    then have "r = Some k" using less.prems(2) by (auto simp: first_from_def split: option.splits)
    then show ?thesis using True m by (subst find_scan.simps) (simp add: found_start [OF assms(2)])
  next
    case False
    show ?thesis
    proof (cases "k < length s")
      case True
      have "first_from s p (k + 1) r"
        using less.prems(2) False by (auto simp: first_from_def split: option.splits) (metis Suc_leI le_neq_implies_less)
      then have "find_scan (found L) p 0 False s (k + 1)
         = Inr (case r of Some j \<Rightarrow> [pushint (int j + 1), pushint (int j + int (length p))] | None \<Rightarrow> [Vnil])"
        using True by (intro less.hyps) auto
      then show ?thesis using m False True by (subst find_scan.simps) simp
    next
      case end': False
      have "r = None"
      proof (cases r)
        case (Some j)
        then have "k \<le> j" "j + length p \<le> length s" "occurs s p j" using less.prems(2) by (auto simp: first_from_def occurs_def)
        then show ?thesis using end' False by (cases "j = k") auto
      qed
      then show ?thesis using m False end' by (subst find_scan.simps) simp
    qed
  qed
qed



end
