(* ===== verification/Lstr_subst.thy ===== *)
theory Lstr_subst
  imports Lstr_ok
begin

text \<open>
  \<open>string.find\<close>, \<open>match\<close>, \<open>gmatch\<close> and \<open>gsub\<close> as wholes: argument errors and pattern errors are their only
  failures, they always return, and their results follow from the match states the matcher leaves.
\<close>

section \<open>Arguments\<close>

lemma argerror_yields [simp]: "yields is_run (luaL_argerror E n m) Q"
  by (auto simp: luaL_argerror_def Let_def split: option.splits prod.splits)

lemma tag_error_yields [simp]: "yields is_run (tag_error E L n t) Q" "yields is_run (luaL_typerror E L n s) Q"
  by (simp_all add: tag_error_def luaL_typerror_def)

lemma checkstring_yields: "yields is_run (luaL_checklstring E L n) (\<lambda>s. lua_tolstring E L n = Some s)"
  by (auto simp: luaL_checklstring_def split: option.splits)

lemma checkinteger_yields: "yields is_run (luaL_checkinteger E L n) (\<lambda>i. i = lua_tointeger E L n)"
  by (auto simp: luaL_checkinteger_def Let_def)

lemma optinteger_yields: "yields is_run (luaL_optinteger E L n d) (\<lambda>_. True)"
  by (auto simp: luaL_optinteger_def luaL_checkinteger_def Let_def)

lemma checkint_yields: "yields is_run (luaL_checkint E L n) (\<lambda>_. True)"
  unfolding luaL_checkint_def by (rule yields_bind [OF checkinteger_yields]) simp

lemma optint_yields: "yields is_run (luaL_optint E L n d) (\<lambda>_. True)"
  unfolding luaL_optint_def by (rule yields_bind [OF optinteger_yields]) simp

lemma checkstack_yields: "yields is_run (luaL_checkstack L n m) (\<lambda>_. int (length L) + n \<le> 8000)"
  by (auto simp: luaL_checkstack_def LUAI_MAXCSTACK_def)

lemma argcheck_yields: "yields is_run (luaL_argcheck E c n m) (\<lambda>_. c)"
  by (simp add: luaL_argcheck_def)

lemmas arg_yields = checkstring_yields checkinteger_yields optinteger_yields checkint_yields optint_yields
  checkstack_yields argcheck_yields

section \<open>Captures\<close>

lemma onecapture_yields:
  assumes "ms_ok ms e" "i < length (capture ms) \<or> r \<noteq> None"
  shows "yields is_run (push_onecapture ms i r) (\<lambda>_. True)"
proof (cases "i < length (capture ms)")
  case True
  obtain a l where c: "capture ms ! i = (a, l)" by fastforce
  have "cap_ok e (a, l)" using assms(1) True by (auto simp: ms_ok_def list_all_length simp flip: c)
  then have "l = CAP_UNFINISHED \<or> l = CAP_POSITION \<or> \<not> (l < 0 \<or> length (src ms) < a + nat l)"
    using assms(1) by (auto simp: cap_ok_def ms_ok_def)
  then show ?thesis using True c by (auto simp: push_onecapture_def)
qed (use assms(2) in \<open>auto simp: push_onecapture_def\<close>)

lemma push_loop_yields:
  assumes "ms_ok ms e"
  shows "i + n \<le> length (capture ms) \<or> r \<noteq> None \<Longrightarrow> yields is_run (push_loop ms i n r) (\<lambda>vs. length vs = n)"
proof (induction n arbitrary: i)
  case (Suc n)
  have rest: "yields is_run (push_loop ms (i + 1) n r) (\<lambda>vs. length vs = n)" using Suc by auto
  have "yields is_run (push_onecapture ms i r) (\<lambda>_. True)" using Suc.prems by (intro onecapture_yields [OF assms]) auto
  then show ?case unfolding push_loop.simps
    by (rule yields_bind) (rule yields_bind [OF rest], simp)
qed simp

lemma push_captures_yields:
  assumes "ms_ok ms e"
  shows "yields is_run (push_captures L ms r) (\<lambda>vs. length vs = (if capture ms = [] \<and> r \<noteq> None then 1 else length (capture ms)))"
  unfolding push_captures_def Let_def
  by (rule yields_bind [OF checkstack_yields]) (rule push_loop_yields [OF assms], auto)

lemma start_ok: "k \<le> length s \<Longrightarrow> ms_ok (start_match s) k"
  by (simp add: ms_ok_def start_match_def LUA_MAXCAPTURES_def)

lemma start_yields:
  "i \<le> length p \<Longrightarrow> k \<le> length s \<Longrightarrow> yields is_run (do_match p i k (start_match s))
    (\<lambda>(r, ms). case r of None \<Rightarrow> ms = start_match s | Some e \<Rightarrow> src ms = s \<and> k \<le> e \<and> e \<le> length s \<and> ms_ok ms e)"
proof -
  assume "i \<le> length p" "k \<le> length s"
  then have "cont_ok (do_match p i)" unfolding do_match_def by (intro match_cont_ok) auto
  from cont_okD [OF this start_ok [OF \<open>k \<le> length s\<close>]] show ?thesis
    by (rule yields_mono) (auto simp: match_post_def start_match_def ms_ok_def split: option.splits)
qed

section \<open>\<open>find\<close>, \<open>match\<close> and \<open>gmatch\<close>\<close>

lemma anchor_le: "rd p 0 = Inr c \<Longrightarrow> (if c = CHR ''^'' then 1 else 0) \<le> length p"
  by (cases p) (auto simp: rd_def)

lemma find_scan_yields:
  assumes "\<And>ms s1 e. ms_ok ms e \<Longrightarrow> yields is_run (f ms s1 e) (\<lambda>vs. vs \<noteq> [])" "i \<le> length p"
  shows "k \<le> length s \<Longrightarrow> yields is_run (find_scan f p i anchor s k) (\<lambda>vs. vs \<noteq> [])"
proof (induction "length s - k" arbitrary: k rule: less_induct)
  case less
  show ?case
  proof (subst find_scan.simps, rule yields_bind [OF start_yields [OF assms(2) less.prems]])
    fix x :: "nat option \<times> MatchState"
    obtain r ms where x: "x = (r, ms)" by fastforce
    assume "case x of (r, ms) \<Rightarrow> (case r of None \<Rightarrow> ms = start_match s | Some e \<Rightarrow> src ms = s \<and> k \<le> e \<and> e \<le> length s \<and> ms_ok ms e)"
    moreover have "yields is_run (find_scan f p i anchor s (k + 1)) (\<lambda>vs. vs \<noteq> [])" if "k < length s"
      using that by (intro less.hyps) auto
    ultimately show "yields is_run (case x of (r, ms) \<Rightarrow> (case r of Some e \<Rightarrow> f ms k e
       | None \<Rightarrow> if k < length s \<and> \<not> anchor then find_scan f p i anchor s (k + 1) else Inr [Vnil])) (\<lambda>vs. vs \<noteq> [])"
      using assms(1) by (cases r) (auto simp: x)
  qed
qed

text \<open>
  C36. \<open>string.find\<close> and \<open>string.match\<close>, for any arguments, return at least one value or raise a run-time
  error (a bad argument, a malformed pattern, too many captures): no read or comparison leaves the subject or
  the pattern, and the scan ends.
\<close>

theorem str_find_aux_safe: "yields is_run (str_find_aux E L fnd) (\<lambda>vs. vs \<noteq> [])"
  unfolding str_find_aux_def
proof (rule yields_bind [OF checkstring_yields], rule yields_bind [OF checkstring_yields], rule yields_bind [OF optinteger_yields])
  fix s p :: bytes and i :: int
  define k where "k = (let start = posrelat i (length s) - 1 in if start < 0 then 0 else if nat start > length s then length s else nat start)"
  have k: "k \<le> length s" by (simp add: k_def Let_def)
  obtain r where r: "lmemfind s k p = Inr r" using lmemfind_ok [OF k] by blast
  obtain c where c: "rd p 0 = Inr c" using rd_ok [of 0 p] by auto
  define f where "f = (\<lambda>ms s1 e. if fnd then found L ms s1 e else push_captures L ms (Some (s1, e)))"
  have f: "yields is_run (f ms s1 e) (\<lambda>vs. vs \<noteq> [])" if "ms_ok ms e" for ms s1 e
  proof (cases fnd)
    case True
    show ?thesis unfolding f_def found_def if_P [OF True] by (rule yields_bind [OF push_captures_yields [OF that]]) simp
  next
    case False
    show ?thesis unfolding f_def if_not_P [OF False] by (rule yields_mono [OF push_captures_yields [OF that]]) (auto split: if_splits)
  qed
  have scan: "yields is_run (find_scan f p (if c = CHR ''^'' then 1 else 0) (c = CHR ''^'') s k) (\<lambda>vs. vs \<noteq> [])"
    by (rule find_scan_yields [OF f anchor_le [OF c] k])
  show "yields is_run (let start = posrelat i (length s) - 1;
           start = (if start < 0 then 0 else if nat start > length s then length s else nat start)
       in if fnd \<and> (lua_toboolean L 4 \<or> no_specials p)
          then rbind (lmemfind s start p) (\<lambda>r. case r of
                 Some s2 \<Rightarrow> Inr [pushint (int s2 + 1), pushint (int s2 + int (length p))]
               | None \<Rightarrow> Inr [Vnil])
          else rbind (rd p 0) (\<lambda>c.
            let anchor = (c = CHR ''^'')
            in find_scan (\<lambda>ms s1 e.
                  if fnd then rbind (push_captures L ms None) (\<lambda>vs. Inr (pushint (int s1 + 1) # pushint (int e) # vs))
                  else push_captures L ms (Some (s1, e)))
                 p (if anchor then 1 else 0) anchor s start)) (\<lambda>vs. vs \<noteq> [])"
    unfolding Let_def k_def [unfolded Let_def, symmetric] r c rbind.simps
    by (rule yields_if, cases r, simp_all only: option.case yields_simps)
      (use scan [unfolded f_def found_def] in simp_all)
qed

lemma gmatch_aux_yields:
  "yields is_run (gmatch_aux L s p from) (\<lambda>(vs, nxt). case nxt of None \<Rightarrow> vs = [] | Some k \<Rightarrow> vs \<noteq> [] \<and> from < k \<and> k \<le> length s + 1)"
proof (induction "Suc (length s) - from" arbitrary: "from" rule: less_induct)
  case less
  show ?case
  proof (cases "from \<le> length s")
    case True
    show ?thesis
    proof (subst gmatch_aux.simps, unfold if_P [OF True], rule yields_bind [OF start_yields [OF _ True]])
      fix x :: "nat option \<times> MatchState"
      obtain r ms where x: "x = (r, ms)" by fastforce
      assume post: "case x of (r, ms) \<Rightarrow> (case r of None \<Rightarrow> ms = start_match s | Some e \<Rightarrow> src ms = s \<and> from \<le> e \<and> e \<le> length s \<and> ms_ok ms e)"
      let ?Q = "\<lambda>(vs, nxt). case nxt of None \<Rightarrow> vs = [] | Some k \<Rightarrow> vs \<noteq> [] \<and> from < k \<and> k \<le> length s + 1"
      have rest: "yields is_run (gmatch_aux L s p (from + 1)) ?Q"
        by (rule yields_mono [OF less.hyps]) (use True in \<open>auto split: option.splits\<close>)
      have "yields is_run (let newstart = (if e = from then e + 1 else e)
          in rbind (push_captures L ms (Some (from, e))) (\<lambda>vs. Inr (vs, Some newstart))) ?Q" if "r = Some e" for e
        unfolding Let_def
        by (rule yields_bind [OF push_captures_yields]) (use post that in \<open>auto simp: x split: if_splits\<close>)
      then show "yields is_run (case x of (r, ms) \<Rightarrow> (case r of
          Some e \<Rightarrow> let newstart = (if e = from then e + 1 else e)
            in rbind (push_captures L ms (Some (from, e))) (\<lambda>vs. Inr (vs, Some newstart))
        | None \<Rightarrow> gmatch_aux L s p (from + 1))) ?Q"
        using rest by (cases r) (simp_all only: x prod.case option.case)
    qed simp
  qed (subst gmatch_aux.simps, simp)
qed

section \<open>\<open>gsub\<close>\<close>

text \<open>
  The loop of \<open>gsub\<close>, for a relation \<open>P\<close> of the buffer and the position that survives copying a character and
  adding a replacement related by \<open>Q\<close> to the match.
\<close>

lemma gsub_loop_yields:
  assumes val: "\<And>ms pos e w. ms_ok ms e \<Longrightarrow> src ms = s \<Longrightarrow> pos \<le> e \<Longrightarrow> yields is_run (add_value E F L ms pos e w) (\<lambda>(v, w'). Q pos e v)"
    and add: "\<And>b pos e v. P b pos \<Longrightarrow> Q pos e v \<Longrightarrow> pos \<le> e \<Longrightarrow> e \<le> length s \<Longrightarrow> P (b @ v) e"
    and copy: "\<And>b pos. P b pos \<Longrightarrow> pos < length s \<Longrightarrow> P (b @ [s ! pos]) (pos + 1)"
    and i: "i \<le> length p"
  shows "P b pos \<Longrightarrow> pos \<le> length s \<Longrightarrow> length s - pos < k \<Longrightarrow>
    yields is_run (gsub_loop k E F L p i anchor max_s s pos n b w) (\<lambda>(b, pos, n, w). P b pos \<and> pos \<le> length s)"
proof (induction k arbitrary: pos n b w)
  case (Suc k)
  let ?R = "\<lambda>(b, pos, n, w). P b pos \<and> pos \<le> length s"
  show ?case unfolding gsub_loop.simps
  proof (rule yields_if, rule yields_bind [OF start_yields [OF i Suc.prems(2)]])
    fix x :: "nat option \<times> MatchState"
    obtain e ms where x: "x = (e, ms)" by fastforce
    assume post: "case x of (r, ms) \<Rightarrow> (case r of None \<Rightarrow> ms = start_match s | Some e \<Rightarrow> src ms = s \<and> pos \<le> e \<and> e \<le> length s \<and> ms_ok ms e)"
    define st where "st = (case e of Some e \<Rightarrow> rbind (add_value E F L ms pos e w) (\<lambda>(v, w). Inr (n + 1, b @ v, w)) | None \<Rightarrow> Inr (n, b, w))"
    have st: "yields is_run st (\<lambda>(n', b', w'). P b' (case e of Some e \<Rightarrow> e | None \<Rightarrow> pos))"
    proof (cases e)
      case (Some e')
      then have p: "ms_ok ms e'" "src ms = s" "pos \<le> e'" "e' \<le> length s" using post by (auto simp: x)
      show ?thesis unfolding st_def Some option.case
        by (rule yields_bind [OF val [OF p(1-3)]]) (use add [OF Suc.prems(1) _ p(3,4)] in auto)
    qed (simp add: st_def Suc.prems(1))
    have "yields is_run (rbind st (\<lambda>(n, b, w).
             let (stop, pos, b) =
               (if (case e of Some x \<Rightarrow> x > pos | None \<Rightarrow> False) then (False, the e, b)
                else if pos < length s then (False, pos + 1, b @ [s ! pos])
                else (True, pos, b))
             in if stop \<or> anchor then Inr (b, pos, n, w)
                else gsub_loop k E F L p i anchor max_s s pos n b w)) ?R"
    proof (rule yields_bind [OF st])
      fix y :: "int \<times> bytes \<times> 'a"
      obtain n1 b1 w1 where y: "y = (n1, b1, w1)" by (cases y)
      assume "case y of (n', b', w') \<Rightarrow> P b' (case e of Some e \<Rightarrow> e | None \<Rightarrow> pos)"
      then have b1: "P b1 (case e of Some e \<Rightarrow> e | None \<Rightarrow> pos)" by (simp add: y)
      show "yields is_run (case y of (n, b, w) \<Rightarrow>
             let (stop, pos, b) =
               (if (case e of Some x \<Rightarrow> x > pos | None \<Rightarrow> False) then (False, the e, b)
                else if pos < length s then (False, pos + 1, b @ [s ! pos])
                else (True, pos, b))
             in if stop \<or> anchor then Inr (b, pos, n, w)
                else gsub_loop k E F L p i anchor max_s s pos n b w) ?R"
      proof (cases "case e of Some x \<Rightarrow> x > pos | None \<Rightarrow> False")
        case True
        then obtain e' where e: "e = Some e'" "pos < e'" by (cases e) auto
        then have le: "e' \<le> length s" using post by (simp add: x)
        have "yields is_run (gsub_loop k E F L p i anchor max_s s e' n1 b1 w1) ?R"
          using b1 e le Suc.prems by (intro Suc.IH) auto
        then show ?thesis using b1 e le by (cases anchor) (simp_all add: y)
      next
        case False
        then have at_pos: "P b1 pos" using b1 post by (cases e) (auto simp: x)
        show ?thesis
        proof (cases "pos < length s")
          case True
          have P1: "P (b1 @ [s ! pos]) (pos + 1)" by (rule copy [OF at_pos True])
          then have "yields is_run (gsub_loop k E F L p i anchor max_s s (pos + 1) n1 (b1 @ [s ! pos]) w1) ?R"
            using True Suc.prems by (intro Suc.IH) auto
          then show ?thesis using False True P1 by (cases anchor) (simp_all add: y)
        next
          case end': False
          then show ?thesis using False at_pos Suc.prems(2) by (simp add: y)
        qed
      qed
    qed
    then show "yields is_run (case x of (e, ms) \<Rightarrow>
           rbind (case e of
               Some e \<Rightarrow> rbind (add_value E F L ms pos e w) (\<lambda>(v, w). Inr (n + 1, b @ v, w))
             | None \<Rightarrow> Inr (n, b, w)) (\<lambda>(n, b, w).
             let (stop, pos, b) =
               (if (case e of Some x \<Rightarrow> x > pos | None \<Rightarrow> False) then (False, the e, b)
                else if pos < length s then (False, pos + 1, b @ [s ! pos])
                else (True, pos, b))
             in if stop \<or> anchor then Inr (b, pos, n, w)
                else gsub_loop k E F L p i anchor max_s s pos n b w)) ?R"
      by (simp only: x prod.case st_def)
  qed (use Suc.prems in simp)
qed simp

lemma str_gsub_yields:
  assumes val: "\<And>s ms pos e w. lua_tolstring E L 1 = Some s \<Longrightarrow> ms_ok ms e \<Longrightarrow> src ms = s \<Longrightarrow> pos \<le> e \<Longrightarrow>
      yields is_run (add_value E F L ms pos e w) (\<lambda>(v, w'). Q s pos e v)"
    and add: "\<And>s b pos e v. P s b pos \<Longrightarrow> Q s pos e v \<Longrightarrow> pos \<le> e \<Longrightarrow> e \<le> length s \<Longrightarrow> P s (b @ v) e"
    and copy: "\<And>s b pos. P s b pos \<Longrightarrow> pos < length s \<Longrightarrow> P s (b @ [s ! pos]) (pos + 1)"
    and P0: "\<And>s. P s [] 0"
  shows "yields is_run (str_gsub E F L w) (\<lambda>(vs, w'). \<exists>s b pos n. lua_tolstring E L 1 = Some s \<and> P s b pos \<and> vs = [Vstring (b @ drop pos s), pushint n])"
  unfolding str_gsub_def
proof (rule yields_bind [OF checkstring_yields], rule yields_bind [OF checkstring_yields], rule yields_bind [OF optint_yields])
  fix s p :: bytes and max_s :: int
  assume s: "lua_tolstring E L 1 = Some s"
  obtain c where c: "rd p 0 = Inr c" using rd_ok [of 0 p] by auto
  let ?post = "\<lambda>(vs, w'). \<exists>s b pos n. lua_tolstring E L 1 = Some s \<and> P s b pos \<and> vs = [Vstring (b @ drop pos s), pushint n]"
  have "yields is_run (gsub_loop (Suc (length s)) E F L p (if c = CHR ''^'' then 1 else 0) (c = CHR ''^'') max_s s 0 0 [] w)
      (\<lambda>(b, pos, n, w). P s b pos \<and> pos \<le> length s)"
    by (rule gsub_loop_yields [where Q = "Q s" and P = "P s"]) (use val [OF s] add copy P0 anchor_le [OF c] in auto)
  then have "yields is_run (rbind (gsub_loop (Suc (length s)) E F L p (if c = CHR ''^'' then 1 else 0) (c = CHR ''^'') max_s s 0 0 [] w)
      (\<lambda>(b, pos, n, w). Inr ([Vstring (b @ drop pos s), pushint n], w))) ?post"
  proof (rule yields_bind)
    fix x :: "bytes \<times> nat \<times> int \<times> 'a"
    obtain b1 p1 n1 w1 where x: "x = (b1, p1, n1, w1)" by (cases x)
    assume "case x of (b, pos, n, w) \<Rightarrow> P s b pos \<and> pos \<le> length s"
    then have "P s b1 p1" by (simp add: x)
    then have "\<exists>t b pos n. lua_tolstring E L 1 = Some t \<and> P t b pos \<and> [Vstring (b1 @ drop p1 s), pushint n1] = [Vstring (b @ drop pos t), pushint n]"
      using s by blast
    then show "yields is_run (case x of (b, pos, n, w) \<Rightarrow> Inr ([Vstring (b @ drop pos s), pushint n], w)) ?post"
      by (simp only: x prod.case yields_simps)
  qed
  then show "yields is_run (rbind (rd p 0) (\<lambda>c.
      let anchor = (c = CHR ''^''); tr = lua_type L 3
       in rbind (luaL_argcheck E (tr = 3 \<or> tr = 4 \<or> tr = 6 \<or> tr = 5) 3 ''string/function/table expected'') (\<lambda>_.
          rbind (gsub_loop (Suc (length s)) E F L p (if anchor then 1 else 0) anchor max_s s 0 0 [] w) (\<lambda>(b, pos, n, w).
            Inr ([Vstring (b @ drop pos s), pushint n], w))))) ?post"
    unfolding c rbind.simps Let_def by (rule yields_bind [OF argcheck_yields])
qed

text \<open>
  C37. replacing every match of a pattern by the whole match, \<open>gsub(s, p, "%0", ...)\<close>, gives the subject back
  for every pattern and limit: every byte is either copied once or part of exactly one match, and the loop
  always ends. The only other outcome is a run-time error of the pattern or the limit.
\<close>

theorem gsub_identity:
  "yields is_run (str_gsub E F (Vstring s # Vstring p # Vstring ''%0'' # lim) w) (\<lambda>(vs, w'). \<exists>n. vs = [Vstring s, pushint n])"
proof -
  let ?L = "Vstring s # Vstring p # Vstring ''%0'' # lim"
  have val: "yields is_run (add_value E F ?L ms pos e w) (\<lambda>(v, w'). v = take (e - pos) (drop pos t))"
    if "src ms = t" for ms t pos e w
    using that by (simp add: add_value_def index2adr_def L_ESC_def isdigit_def)
  have "yields is_run (str_gsub E F ?L w) (\<lambda>(vs, w'). \<exists>t b pos n. lua_tolstring E ?L 1 = Some t \<and> b = take pos t \<and> vs = [Vstring (b @ drop pos t), pushint n])"
  proof (rule str_gsub_yields [where Q = "\<lambda>t pos e v. v = take (e - pos) (drop pos t)" and P = "\<lambda>t b pos. b = take pos t"])
    fix t b v :: bytes and pos e :: nat
    assume "b = take pos t" "v = take (e - pos) (drop pos t)" "pos \<le> e"
    then show "b @ v = take e t" using take_add [of pos "e - pos" t] by simp
  qed (use val in \<open>auto simp: take_Suc_conv_app_nth\<close>)
  then show ?thesis by (rule yields_mono) (auto simp: lua_tolstring_def index2adr_def)
qed

text \<open>The default limit is the length plus one, converted to \<open>int\<close>: for 2 GiB and more it is negative.\<close>

theorem gsub_huge_unchanged:
  assumes "2 ^ 31 \<le> length s + 1" "length s + 1 < 2 ^ 32"
  shows "str_gsub E F [Vstring s, Vstring p, Vstring r] w = Inr ([Vstring s, pushint 0], w)"
proof -
  have n: "2 ^ 31 \<le> int (length s) + 1" "int (length s) + 1 < 2 ^ 32" using assms by simp_all
  have "(int (length s) + 1 + 2 ^ 31) mod 2 ^ 32 = int (length s) + 1 + 2 ^ 31 - 2 ^ 32"
    using n minus_mod_self2 [of "int (length s) + 1 + 2 ^ 31" "2 ^ 32"] by (simp add: mod_pos_pos_trivial)
  then have "to_int (int (length s) + 1) < 0" using n by (simp add: to_int_def)
  moreover obtain c where c: "rd p 0 = Inr c" using rd_ok [of 0 p] by auto
  ultimately show ?thesis
    by (simp add: str_gsub_def luaL_checklstring_def lua_tolstring_def index2adr_def luaL_optint_def luaL_optinteger_def
        lua_isnoneornil_def lua_type_def luaL_argcheck_def Let_def)
qed

end
