(* ===== verification/Lstr_format.thy ===== *)
theory Lstr_format
  imports Lstr_subst
begin

text \<open>
  lstrlib.c: \<open>string.format\<close>. The format specification is copied into an array of MAX_FORMAT bytes and
  every item but \<open>%q\<close> and long strings goes through \<open>sprintf\<close> into one of MAX_ITEM bytes; a write past
  either is undefined in the model. \<open>sprintf\<close> is a parameter, one for each type of argument, of which only
  the documented bound on the length of its output is used.
\<close>

section \<open>Quoting\<close>

fun quote_loop :: "bytes \<Rightarrow> bytes" where
  "quote_loop [] = []"
| "quote_loop (c # s) =
     (if c = CHR 0x22 \<or> c = CHR 0x5C \<or> c = CHR 0x0A then [CHR 0x5C, c]
      else if c = CHR 0x0D then [CHR 0x5C, CHR ''r'']
      else if c = CHR 0x00 then [CHR 0x5C, CHR ''0'', CHR ''0'', CHR ''0'']
      else [c]) @ quote_loop s"

definition addquoted :: "bytes \<Rightarrow> bytes" where
  "addquoted s = CHR 0x22 # quote_loop s @ [CHR 0x22]"

section \<open>Specifications\<close>

definition MAX_ITEM :: nat where "MAX_ITEM = 512"
definition FLAGS :: bytes where "FLAGS = ''-+ #0''"
definition LUA_INTFRMLEN :: bytes where "LUA_INTFRMLEN = ''l''"

text \<open>\<open>sizeof\<close> of a literal counts its terminator.\<close>

definition MAX_FORMAT :: nat where "MAX_FORMAT = (length FLAGS + 1) + (length LUA_INTFRMLEN + 1) + 10"

text \<open>The byte \<open>i\<close> of the format; the string has a zero at its end.\<close>

definition ch :: "bytes \<Rightarrow> nat \<Rightarrow> char" where
  "ch s i = (if i < length s then s ! i else CHR 0x00)"

definition is_flag :: "char \<Rightarrow> bool" where
  "is_flag c = (c \<noteq> CHR 0x00 \<and> c \<in> set FLAGS)"

definition skip_digit :: "bytes \<Rightarrow> nat \<Rightarrow> nat" where
  "skip_digit s p = (if isdigit (ch s p) then p + 1 else p)"

definition scanformat :: "bytes \<Rightarrow> (nat \<times> bytes) res" where
  "scanformat strfrmt =
     (let p = length (takeWhile is_flag strfrmt)
      in if p \<ge> length FLAGS + 1 then luaL_error ''invalid format (repeated flags)''
         else let p = skip_digit strfrmt (skip_digit strfrmt p);
                  p = (if ch strfrmt p = CHR ''.'' then skip_digit strfrmt (skip_digit strfrmt (p + 1)) else p)
              in if isdigit (ch strfrmt p) then luaL_error ''invalid format (width or precision too long)''
                 else if p + 3 > MAX_FORMAT then Inl (Undefined ''form'')
                 else Inr (p, CHR ''%'' # cstr (take (p + 1) strfrmt)))"

definition addintlen :: "bytes \<Rightarrow> bytes res" where
  "addintlen form =
     (let l = length form
      in if l = 0 \<or> l + length LUA_INTFRMLEN + 1 > MAX_FORMAT then Inl (Undefined ''form'')
         else Inr (take (l - 1) form @ LUA_INTFRMLEN @ [form ! (l - 1)]))"

section \<open>\<open>string.format\<close>\<close>

text \<open>\<open>sprintf\<close> for each type of argument, and the conversion of a double outside the range of \<open>unsigned long\<close>.\<close>

record fmtenv = libenv +
  spr_chr :: "bytes \<Rightarrow> int \<Rightarrow> bytes"
  spr_int :: "bytes \<Rightarrow> int \<Rightarrow> bytes"
  spr_uint :: "bytes \<Rightarrow> int \<Rightarrow> bytes"
  spr_dbl :: "bytes \<Rightarrow> lua_Number \<Rightarrow> bytes"
  spr_str :: "bytes \<Rightarrow> bytes \<Rightarrow> bytes"
  ulong_of :: "lua_Number \<Rightarrow> int"

definition to_ulong :: "fmtenv \<Rightarrow> lua_Number \<Rightarrow> int" where
  "to_ulong E d = (if num_finite d \<and> 0 \<le> num_trunc d \<and> num_trunc d < 2 ^ 64 then num_trunc d else ulong_of E d)"

definition libenv_of :: "fmtenv \<Rightarrow> libenv" where
  "libenv_of E = \<lparr>ar = ar E, strtod = strtod E, strtoul16 = strtoul16 E, fmt14g = fmt14g E\<rparr>"

text \<open>\<open>sprintf\<close> into \<open>buff\<close>, then its bytes up to the first zero.\<close>

definition emit :: "bytes \<Rightarrow> bytes res" where
  "emit item = (if length item + 1 > MAX_ITEM then Inl (Undefined ''buff'') else Inr (cstr item))"

definition format_item :: "fmtenv \<Rightarrow> args \<Rightarrow> nat \<Rightarrow> char \<Rightarrow> bytes \<Rightarrow> bytes res" where
  "format_item E L arg c form =
     (let E0 = libenv_of E
      in if c = CHR ''c'' then rbind (luaL_checknumber E0 L arg) (\<lambda>n. emit (spr_chr E form (num_conv 32 n)))
         else if c = CHR ''d'' \<or> c = CHR ''i''
         then rbind (addintlen form) (\<lambda>form. rbind (luaL_checknumber E0 L arg) (\<lambda>n. emit (spr_int E form (num_conv 64 n))))
         else if c = CHR ''o'' \<or> c = CHR ''u'' \<or> c = CHR ''x'' \<or> c = CHR ''X''
         then rbind (addintlen form) (\<lambda>form. rbind (luaL_checknumber E0 L arg) (\<lambda>n. emit (spr_uint E form (to_ulong E n))))
         else if c = CHR ''e'' \<or> c = CHR ''E'' \<or> c = CHR ''f'' \<or> c = CHR ''g'' \<or> c = CHR ''G''
         then rbind (luaL_checknumber E0 L arg) (\<lambda>n. emit (spr_dbl E form n))
         else if c = CHR ''q'' then rbind (luaL_checklstring E0 L arg) (\<lambda>s. Inr (addquoted s))
         else if c = CHR ''s''
         then rbind (luaL_checklstring E0 L arg) (\<lambda>s.
                if CHR ''.'' \<notin> set form \<and> length s \<ge> 100 then Inr s else emit (spr_str E form (cstr s)))
         else luaL_error (''invalid option '' @ [CHR 0x27, CHR ''%''] @ cstr [c] @ [CHR 0x27] @ '' to '' @ [CHR 0x27] @ ''format'' @ [CHR 0x27]))"

function format_loop :: "fmtenv \<Rightarrow> args \<Rightarrow> nat \<Rightarrow> bytes \<Rightarrow> bytes res" where
  "format_loop E L arg [] = Inr []"
| "format_loop E L arg (c # rest) =
     (if c \<noteq> L_ESC then rbind (format_loop E L arg rest) (\<lambda>b. Inr (c # b))
      else if ch rest 0 = L_ESC then rbind (format_loop E L arg (drop 1 rest)) (\<lambda>b. Inr (L_ESC # b))
      else if arg + 1 > length L then luaL_argerror (libenv_of E) (arg + 1) ''no value''
      else rbind (scanformat rest) (\<lambda>(p, form).
           rbind (format_item E L (arg + 1) (ch rest p) form) (\<lambda>item.
           rbind (format_loop E L (arg + 1) (drop (p + 1) rest)) (\<lambda>b. Inr (item @ b)))))"
  by pat_completeness auto
termination
  by (relation "measure (\<lambda>(E, L, arg, rest). length rest)") auto

declare format_loop.simps [simp del]

definition str_format :: "fmtenv \<Rightarrow> args \<Rightarrow> lval list res" where
  "str_format E L =
     rbind (luaL_checklstring (libenv_of E) L 1) (\<lambda>s. rbind (format_loop E L 1 s) (\<lambda>b. Inr [Vstring b]))"

section \<open>The arrays are large enough\<close>

text \<open>A specification as the manual describes it: flags, width, precision and the conversion.\<close>

definition spec_form :: "bytes \<Rightarrow> bytes \<Rightarrow> bytes option \<Rightarrow> bytes \<Rightarrow> bytes" where
  "spec_form fl w pr conv = CHR ''%'' # fl @ w @ (case pr of None \<Rightarrow> [] | Some d \<Rightarrow> CHR ''.'' # d) @ conv"

definition short_spec :: "bytes \<Rightarrow> bytes \<Rightarrow> bytes option \<Rightarrow> bool" where
  "short_spec fl w pr = (list_all is_flag fl \<and> list_all isdigit w \<and> length fl \<le> 5 \<and> length w \<le> 2
     \<and> (case pr of None \<Rightarrow> True | Some d \<Rightarrow> list_all isdigit d \<and> length d \<le> 2))"

lemma skip_digit_take:
  "p \<le> length s \<Longrightarrow> \<exists>d. take (skip_digit s p) s = take p s @ d \<and> list_all isdigit d \<and> length d \<le> 1 \<and> skip_digit s p = p + length d \<and> skip_digit s p \<le> length s"
proof (cases "p < length s \<and> isdigit (s ! p)")
  case True
  then show ?thesis by (intro exI [of _ "[s ! p]"]) (auto simp: skip_digit_def ch_def take_Suc_conv_app_nth)
next
  case False
  assume "p \<le> length s"
  moreover have "\<not> isdigit (CHR 0x00)" by (simp add: isdigit_def)
  ultimately show ?thesis using False by (intro exI [of _ "[]"]) (auto simp: skip_digit_def ch_def)
qed

lemma skip_digits_take:
  assumes "p \<le> length s"
  shows "\<exists>d. take (skip_digit s (skip_digit s p)) s = take p s @ d \<and> list_all isdigit d \<and> length d \<le> 2
    \<and> skip_digit s (skip_digit s p) = p + length d \<and> skip_digit s (skip_digit s p) \<le> length s"
proof -
  obtain d where d: "take (skip_digit s p) s = take p s @ d" "list_all isdigit d" "length d \<le> 1" "skip_digit s p = p + length d" "skip_digit s p \<le> length s"
    using skip_digit_take [OF assms] by blast
  obtain e where e: "take (skip_digit s (skip_digit s p)) s = take (skip_digit s p) s @ e" "list_all isdigit e" "length e \<le> 1"
      "skip_digit s (skip_digit s p) = skip_digit s p + length e" "skip_digit s (skip_digit s p) \<le> length s"
    using skip_digit_take [OF d(5)] by blast
  show ?thesis by (rule exI [of _ "d @ e"]) (use d e in auto)
qed

lemma scanformat_shape:
  "yields is_run (scanformat s) (\<lambda>(p, form). \<exists>fl w pr. short_spec fl w pr \<and> form = spec_form fl w pr (cstr [ch s p]))"
proof -
  define p0 where "p0 = length (takeWhile is_flag s)"
  define fl where "fl = takeWhile is_flag s"
  have fl: "take p0 s = fl" "list_all is_flag fl" "p0 = length fl" "p0 \<le> length s"
    by (simp_all add: p0_def fl_def takeWhile_eq_take [symmetric] list_all_iff length_takeWhile_le)
      (meson set_takeWhileD)
  obtain w where w: "take (skip_digit s (skip_digit s p0)) s = take p0 s @ w" "list_all isdigit w" "length w \<le> 2"
      "skip_digit s (skip_digit s p0) = p0 + length w" "skip_digit s (skip_digit s p0) \<le> length s"
    using skip_digits_take [OF fl(4)] by blast
  define p1 where "p1 = skip_digit s (skip_digit s p0)"
  have p1: "take p1 s = fl @ w" "p1 = length fl + length w" "p1 \<le> length s" using w fl by (simp_all add: p1_def)
  define p2 where "p2 = (if ch s p1 = CHR ''.'' then skip_digit s (skip_digit s (p1 + 1)) else p1)"
  have p2: "\<exists>pr. take p2 s = fl @ w @ (case pr of None \<Rightarrow> [] | Some d \<Rightarrow> CHR ''.'' # d) \<and> p2 \<le> length s
     \<and> (case pr of None \<Rightarrow> True | Some d \<Rightarrow> list_all isdigit d \<and> length d \<le> 2)"
  proof (cases "ch s p1 = CHR ''.''")
    case True
    then have "p1 < length s" "s ! p1 = CHR ''.''" by (auto simp: ch_def split: if_splits)
    then have dot: "take (p1 + 1) s = fl @ w @ [CHR ''.'']" "p1 + 1 \<le> length s" using p1 by (simp_all add: take_Suc_conv_app_nth)
    obtain d where "take (skip_digit s (skip_digit s (p1 + 1))) s = take (p1 + 1) s @ d" "list_all isdigit d" "length d \<le> 2"
        "skip_digit s (skip_digit s (p1 + 1)) \<le> length s"
      using skip_digits_take [OF dot(2)] by blast
    then show ?thesis using True dot by (intro exI [of _ "Some d"]) (simp add: p2_def)
  next
    case False
    then show ?thesis using p1 by (intro exI [of _ None]) (simp add: p2_def)
  qed
  then obtain pr where pr: "take p2 s = fl @ w @ (case pr of None \<Rightarrow> [] | Some d \<Rightarrow> CHR ''.'' # d)" "p2 \<le> length s"
     "case pr of None \<Rightarrow> True | Some d \<Rightarrow> list_all isdigit d \<and> length d \<le> 2" by blast
  have sf: "scanformat s = (if p0 \<ge> 6 then luaL_error ''invalid format (repeated flags)''
     else if isdigit (ch s p2) then luaL_error ''invalid format (width or precision too long)''
     else if p2 + 3 > MAX_FORMAT then Inl (Undefined ''form'') else Inr (p2, CHR ''%'' # cstr (take (p2 + 1) s)))"
    by (simp add: scanformat_def p0_def p1_def p2_def Let_def FLAGS_def)
  have nz: "\<not> isdigit (CHR 0x00)" "\<not> is_flag (CHR 0x00)" by (simp_all add: isdigit_def is_flag_def)
  have "list_all (\<lambda>c. c \<noteq> CHR 0x00) (take p2 s)"
    using fl(2) w(2) pr(3) nz by (auto simp: pr(1) list_all_iff split: option.splits)
  then have cs: "cstr (take p2 s @ z) = take p2 s @ cstr z" for z
    by (simp add: cstr_def takeWhile_append2 list_all_iff)
  have "cstr (take (p2 + 1) s) = take p2 s @ cstr [ch s p2]"
  proof (cases "p2 < length s")
    case True
    then show ?thesis using cs [of "[s ! p2]"] by (simp add: take_Suc_conv_app_nth ch_def)
  next
    case False
    then show ?thesis using pr(2) cs [of "[]"] by (simp add: ch_def cstr_def)
  qed
  then have form: "CHR ''%'' # cstr (take (p2 + 1) s) = spec_form fl w pr (cstr [ch s p2])"
    using pr(1) by (simp add: spec_form_def)
  have len: "p2 + 3 \<le> MAX_FORMAT" if "p0 < 6"
  proof -
    have "length (take p2 s) \<le> 5 + 2 + 3" unfolding pr(1) using that w(3) fl(3) pr(3) by (auto split: option.splits)
    then show ?thesis using pr(2) by (simp add: MAX_FORMAT_def FLAGS_def LUA_INTFRMLEN_def)
  qed
  have "short_spec fl w pr" if "p0 < 6" using that fl w pr(3) by (simp add: short_spec_def)
  then show ?thesis unfolding sf using form len by (auto intro!: exI)
qed

text \<open>
  What the C standard says of the length of \<open>sprintf\<close>'s output: the field width or, if longer, the digits
  asked for by the precision with sign, prefix and point (at most 19 digits for a \<open>long\<close>, 22 octal digits
  for an \<open>unsigned long\<close>, 309 before the point of a double), or the string cut at the precision.
\<close>

definition numval :: "bytes \<Rightarrow> nat" where
  "numval ds = foldl (\<lambda>a d. 10 * a + (code d - 48)) 0 ds"

definition precision :: "bytes option \<Rightarrow> nat \<Rightarrow> nat" where
  "precision pr d = (case pr of None \<Rightarrow> d | Some ds \<Rightarrow> numval ds)"

definition sprintf_ok :: "fmtenv \<Rightarrow> bool" where
  "sprintf_ok E = ((\<forall>d. 0 \<le> ulong_of E d \<and> ulong_of E d < 2 ^ 64) \<and> (\<forall>fl w pr. short_spec fl w pr \<longrightarrow>
     (\<forall>n. length (spr_chr E (spec_form fl w pr ''c'') n) \<le> max (numval w) 1)
     \<and> (\<forall>c \<in> set ''di''. \<forall>n. - (2 ^ 63) \<le> n \<and> n < 2 ^ 63 \<longrightarrow>
          length (spr_int E (spec_form fl w pr (LUA_INTFRMLEN @ [c])) n) \<le> max (numval w) (1 + max 19 (precision pr 1)))
     \<and> (\<forall>c \<in> set ''ouxX''. \<forall>n. 0 \<le> n \<and> n < 2 ^ 64 \<longrightarrow>
          length (spr_uint E (spec_form fl w pr (LUA_INTFRMLEN @ [c])) n) \<le> max (numval w) (2 + max 22 (precision pr 1)))
     \<and> (\<forall>c \<in> set ''eEfgG''. \<forall>x. length (spr_dbl E (spec_form fl w pr [c]) x) \<le> max (numval w) (311 + precision pr 6))
     \<and> (\<forall>s. length (spr_str E (spec_form fl w pr ''s'') s)
            \<le> max (numval w) (case pr of None \<Rightarrow> length s | Some d \<Rightarrow> min (numval d) (length s)))))"

lemma numval_short: "list_all isdigit d \<Longrightarrow> length d \<le> 2 \<Longrightarrow> numval d \<le> 99"
proof -
  assume d: "list_all isdigit d" "length d \<le> 2"
  consider "d = []" | x where "d = [x]" | x y where "d = [x, y]"
    using d(2) by (cases d; cases "tl d"; cases "tl (tl d)") auto
  then show ?thesis using d(1) by cases (auto simp: numval_def isdigit_def)
qed

lemma precision_short: "short_spec fl w pr \<Longrightarrow> n \<le> 99 \<Longrightarrow> precision pr n \<le> 99"
  by (auto simp: short_spec_def precision_def numval_short split: option.splits)

lemma width_short: "short_spec fl w pr \<Longrightarrow> numval w \<le> 99"
  by (simp add: short_spec_def numval_short)

lemma emit_yields: "length item < 512 \<Longrightarrow> yields is_run (emit item) (\<lambda>_. True)"
  by (simp add: emit_def MAX_ITEM_def)

lemma addintlen_spec: "short_spec fl w pr \<Longrightarrow> addintlen (spec_form fl w pr [c]) = Inr (spec_form fl w pr (LUA_INTFRMLEN @ [c]))"
proof -
  assume sp: "short_spec fl w pr"
  define pre where "pre = CHR ''%'' # fl @ w @ (case pr of None \<Rightarrow> [] | Some d \<Rightarrow> CHR ''.'' # d)"
  have "length pre \<le> 11" using sp by (cases pr) (auto simp: pre_def short_spec_def)
  moreover have "spec_form fl w pr z = pre @ z" for z by (simp add: spec_form_def pre_def)
  ultimately show ?thesis by (simp add: addintlen_def MAX_FORMAT_def FLAGS_def LUA_INTFRMLEN_def)
qed

lemma no_dot: "short_spec fl w None \<Longrightarrow> CHR ''.'' \<notin> set (spec_form fl w None ''s'')"
proof -
  assume sp: "short_spec fl w None"
  have "\<not> is_flag (CHR ''.'')" "\<not> isdigit (CHR ''.'')" by (simp_all add: is_flag_def FLAGS_def isdigit_def)
  then have "CHR ''.'' \<notin> set fl" "CHR ''.'' \<notin> set w" using sp by (auto simp: short_spec_def list_all_iff)
  then show ?thesis by (simp add: spec_form_def)
qed

lemma checknumber_yields: "yields is_run (luaL_checknumber E L n) (\<lambda>_. True)"
  by (auto simp: luaL_checknumber_def Let_def)

lemma num_conv_range: "- (2 ^ 63) \<le> num_conv 64 d \<and> num_conv 64 d < 2 ^ 63"
  by (auto simp: num_conv_def)

lemma format_item_yields:
  assumes E: "sprintf_ok E" and sp: "short_spec fl w pr"
  shows "yields is_run (format_item E L arg c (spec_form fl w pr (cstr [c]))) (\<lambda>_. True)"
proof -
  note b = E [unfolded sprintf_ok_def, THEN conjunct2, rule_format, OF sp]
  note w = width_short [OF sp] and p1 = precision_short [OF sp, of 1] and p6 = precision_short [OF sp, of 6]
  have chr: "yields is_run (emit (spr_chr E (spec_form fl w pr ''c'') n)) (\<lambda>_. True)" for n
  proof (rule emit_yields)
    have "length (spr_chr E (spec_form fl w pr ''c'') n) \<le> max (numval w) 1" using b by blast
    then show "length (spr_chr E (spec_form fl w pr ''c'') n) < 512" using w by linarith
  qed
  have int: "yields is_run (emit (spr_int E (spec_form fl w pr (LUA_INTFRMLEN @ [k])) (num_conv 64 n))) (\<lambda>_. True)" if "k \<in> set ''di''" for k n
  proof (rule emit_yields)
    have "length (spr_int E (spec_form fl w pr (LUA_INTFRMLEN @ [k])) (num_conv 64 n)) \<le> max (numval w) (1 + max 19 (precision pr 1))"
      using b that num_conv_range by blast
    then show "length (spr_int E (spec_form fl w pr (LUA_INTFRMLEN @ [k])) (num_conv 64 n)) < 512" using w p1 by linarith
  qed
  have uint: "yields is_run (emit (spr_uint E (spec_form fl w pr (LUA_INTFRMLEN @ [k])) (to_ulong E n))) (\<lambda>_. True)" if "k \<in> set ''ouxX''" for k n
  proof (rule emit_yields)
    have "0 \<le> to_ulong E n \<and> to_ulong E n < 2 ^ 64" using E by (auto simp: sprintf_ok_def to_ulong_def)
    then have "length (spr_uint E (spec_form fl w pr (LUA_INTFRMLEN @ [k])) (to_ulong E n)) \<le> max (numval w) (2 + max 22 (precision pr 1))"
      using b that by blast
    then show "length (spr_uint E (spec_form fl w pr (LUA_INTFRMLEN @ [k])) (to_ulong E n)) < 512" using w p1 by linarith
  qed
  have dbl: "yields is_run (emit (spr_dbl E (spec_form fl w pr [k]) n)) (\<lambda>_. True)" if "k \<in> set ''eEfgG''" for k n
  proof (rule emit_yields)
    have "length (spr_dbl E (spec_form fl w pr [k]) n) \<le> max (numval w) (311 + precision pr 6)" using b that by blast
    then show "length (spr_dbl E (spec_form fl w pr [k]) n) < 512" using w p6 by linarith
  qed
  have str: "yields is_run (if CHR ''.'' \<notin> set (spec_form fl w pr ''s'') \<and> length s \<ge> 100 then Inr s
      else emit (spr_str E (spec_form fl w pr ''s'') (cstr s))) (\<lambda>_. True)" for s
  proof (rule yields_if)
    assume short: "\<not> (CHR ''.'' \<notin> set (spec_form fl w pr ''s'') \<and> length s \<ge> 100)"
    have cs: "length (cstr s) \<le> length s" by (simp add: cstr_def length_takeWhile_le)
    have "(case pr of None \<Rightarrow> length (cstr s) | Some d \<Rightarrow> min (numval d) (length (cstr s))) \<le> 99"
    proof (cases pr)
      case None
      then show ?thesis using short no_dot sp cs by auto
    next
      case (Some d)
      then show ?thesis using precision_short [OF sp, of 0] by (simp add: precision_def)
    qed
    moreover have "length (spr_str E (spec_form fl w pr ''s'') (cstr s))
         \<le> max (numval w) (case pr of None \<Rightarrow> length (cstr s) | Some d \<Rightarrow> min (numval d) (length (cstr s)))"
      using b by blast
    ultimately show "yields is_run (emit (spr_str E (spec_form fl w pr ''s'') (cstr s))) (\<lambda>_. True)"
      using w by (intro emit_yields) linarith
  qed simp
  have c: "c \<noteq> CHR 0x00 \<Longrightarrow> cstr [c] = [c]" by (simp add: cstr_def)
  show ?thesis unfolding format_item_def Let_def
  proof (intro yields_if)
    assume "c = CHR ''d'' \<or> c = CHR ''i''"
    then have k: "c \<in> set ''di''" "cstr [c] = [c]" by (auto simp: cstr_def)
    show "yields is_run (rbind (addintlen (spec_form fl w pr (cstr [c])))
       (\<lambda>form. rbind (luaL_checknumber (libenv_of E) L arg) (\<lambda>n. emit (spr_int E form (num_conv 64 n))))) (\<lambda>_. True)"
      unfolding k(2) addintlen_spec [OF sp] rbind.simps by (rule yields_bind [OF checknumber_yields int [OF k(1)]])
  next
    assume "c = CHR ''o'' \<or> c = CHR ''u'' \<or> c = CHR ''x'' \<or> c = CHR ''X''"
    then have k: "c \<in> set ''ouxX''" "cstr [c] = [c]" by (auto simp: cstr_def)
    show "yields is_run (rbind (addintlen (spec_form fl w pr (cstr [c])))
       (\<lambda>form. rbind (luaL_checknumber (libenv_of E) L arg) (\<lambda>n. emit (spr_uint E form (to_ulong E n))))) (\<lambda>_. True)"
      unfolding k(2) addintlen_spec [OF sp] rbind.simps by (rule yields_bind [OF checknumber_yields uint [OF k(1)]])
  next
    assume "c = CHR ''e'' \<or> c = CHR ''E'' \<or> c = CHR ''f'' \<or> c = CHR ''g'' \<or> c = CHR ''G''"
    then have k: "c \<in> set ''eEfgG''" "cstr [c] = [c]" by (auto simp: cstr_def)
    show "yields is_run (rbind (luaL_checknumber (libenv_of E) L arg) (\<lambda>n. emit (spr_dbl E (spec_form fl w pr (cstr [c])) n))) (\<lambda>_. True)"
      unfolding k(2) by (rule yields_bind [OF checknumber_yields dbl [OF k(1)]])
  next
    assume k: "c = CHR ''c''"
    show "yields is_run (rbind (luaL_checknumber (libenv_of E) L arg) (\<lambda>n. emit (spr_chr E (spec_form fl w pr (cstr [c])) (num_conv 32 n)))) (\<lambda>_. True)"
      unfolding k using chr by (intro yields_bind [OF checknumber_yields]) (simp add: cstr_def)
  next
    assume k: "c = CHR ''s''"
    have k2: "cstr [c] = ''s''" by (simp add: k cstr_def)
    show "yields is_run (rbind (luaL_checklstring (libenv_of E) L arg) (\<lambda>s.
       if CHR ''.'' \<notin> set (spec_form fl w pr (cstr [c])) \<and> length s \<ge> 100 then Inr s
       else emit (spr_str E (spec_form fl w pr (cstr [c])) (cstr s)))) (\<lambda>_. True)"
      unfolding k2 by (rule yields_bind [OF checkstring_yields str])
  next
    show "yields is_run (rbind (luaL_checklstring (libenv_of E) L arg) (\<lambda>s. Inr (addquoted s))) (\<lambda>_. True)"
      by (rule yields_bind [OF checkstring_yields]) simp
  qed simp
qed

lemma format_loop_yields: "sprintf_ok E \<Longrightarrow> yields is_run (format_loop E L arg s) (\<lambda>_. True)"
proof (induction "length s" arbitrary: s arg rule: less_induct)
  case less
  have rec: "yields is_run (rbind (format_loop E L a z) (\<lambda>b. Inr (f b))) (\<lambda>_. True)" if "length z < length s" for a z and f :: "bytes \<Rightarrow> bytes"
    by (rule yields_bind [OF less.hyps [OF that less.prems]]) simp
  show ?case
  proof (cases s)
    case (Cons c rest)
    show ?thesis unfolding Cons format_loop.simps(2)
    proof (intro yields_if)
      show "yields is_run (rbind (scanformat rest) (\<lambda>(p, form).
           rbind (format_item E L (arg + 1) (ch rest p) form) (\<lambda>item.
           rbind (format_loop E L (arg + 1) (drop (p + 1) rest)) (\<lambda>b. Inr (item @ b))))) (\<lambda>_. True)"
      proof (rule yields_bind [OF scanformat_shape])
        fix x :: "nat \<times> bytes"
        obtain p form where x: "x = (p, form)" by fastforce
        assume "case x of (p, form) \<Rightarrow> \<exists>fl w pr. short_spec fl w pr \<and> form = spec_form fl w pr (cstr [ch rest p])"
        then obtain fl w pr where sp: "short_spec fl w pr" "form = spec_form fl w pr (cstr [ch rest p])" by (auto simp: x)
        show "yields is_run (case x of (p, form) \<Rightarrow> rbind (format_item E L (arg + 1) (ch rest p) form) (\<lambda>item.
           rbind (format_loop E L (arg + 1) (drop (p + 1) rest)) (\<lambda>b. Inr (item @ b)))) (\<lambda>_. True)"
          unfolding x prod.case sp(2)
          by (rule yields_bind [OF format_item_yields [OF less.prems sp(1)]], rule rec) (simp add: Cons)
      qed
    qed (use rec Cons in auto)
  qed (simp add: format_loop.simps)
qed

text \<open>
  C38. \<open>string.format\<close> never writes past its two arrays: whatever the format and the arguments, the copied
  specification fits in MAX_FORMAT bytes, also with the length modifier put in, and every item that
  \<open>sprintf\<close> writes fits in MAX_ITEM bytes, given the documented length of its output. The call gives one
  string or raises a run-time error.
\<close>

theorem str_format_safe:
  assumes "sprintf_ok E"
  shows "yields is_run (str_format E L) (\<lambda>vs. \<exists>b. vs = [Vstring b])"
  unfolding str_format_def
  by (rule yields_bind [OF checkstring_yields], rule yields_bind [OF format_loop_yields [OF assms]]) simp

definition sample_env :: fmtenv where
  "sample_env = \<lparr>ar = None, strtod = (\<lambda>s. (num_zero, 0)), strtoul16 = (\<lambda>s. (0, 0)), fmt14g = (\<lambda>n. ''0''),
     spr_chr = (\<lambda>f n. [char_of (nat (n mod 256))]), spr_int = (\<lambda>f n. ''7''), spr_uint = (\<lambda>f n. ''7''), spr_dbl = (\<lambda>f x. ''7.0''),
     spr_str = (\<lambda>f s. if CHR ''.'' \<in> set f then [] else s), ulong_of = (\<lambda>d. 0)\<rparr>"

theorem str_format_safe_witness:
  "yields is_run (str_format sample_env [Vstring ''%5d|%s|%-099.99f'', Vnumber num_zero, Vstring ''x'', Vnumber num_zero]) (\<lambda>vs. \<exists>b. vs = [Vstring b])"
  by (rule str_format_safe) (auto simp: sprintf_ok_def sample_env_def spec_form_def split: option.splits)

text \<open>A negative number under \<open>%x\<close> is converted to \<open>unsigned long\<close> out of its range.\<close>

lemma to_ulong_negative: "num_trunc d < 0 \<Longrightarrow> to_ulong E d = ulong_of E d"
  by (simp add: to_ulong_def)

end
