(* ===== verification/Llex.thy ===== *)
theory Llex
  imports Lformat Lzio
begin

text \<open>
  llex.c: the lexical analyser. The stream is the list of its bytes (see \<open>Lzio\<close>: \<open>zgetc\<close> yields them in
  order however the reader cuts them); taking a byte after the end, where the counter of the stream
  has wrapped around, is undefined. The number conversion of the C library and the decimal point of
  the locale are parameters. Strings are their contents.
\<close>

section \<open>State\<close>

datatype SemInfo = SemNone | SemR lua_Number | SemTs bytes

record Token =
  token :: int
  seminfo :: SemInfo

record LexState =
  current :: "char option"
  linenumber :: int
  lastline :: int
  tok :: Token
  ahead :: Token
  input :: bytes
  buff :: bytes
  buffsize :: nat
  lsource :: string
  decpoint :: char

record lexenv =
  str2d :: "bytes \<Rightarrow> lua_Number option"
  decimal_point :: char

definition FIRST_RESERVED :: int where "FIRST_RESERVED = 257"

definition luaX_tokens :: "string list" where
  "luaX_tokens = [''and'', ''break'', ''do'', ''else'', ''elseif'', ''end'', ''false'', ''for'', ''function'', ''if'',
     ''in'', ''local'', ''nil'', ''not'', ''or'', ''repeat'', ''return'', ''then'', ''true'', ''until'', ''while'',
     ''..'', ''...'', ''=='', ''>='', ''<='', ''~='', ''<number>'', ''<name>'', ''<string>'', ''<eof>'']"

definition NUM_RESERVED :: nat where "NUM_RESERVED = 21"

definition TK_CONCAT :: int where "TK_CONCAT = 278"
definition TK_DOTS :: int where "TK_DOTS = 279"
definition TK_EQ :: int where "TK_EQ = 280"
definition TK_GE :: int where "TK_GE = 281"
definition TK_LE :: int where "TK_LE = 282"
definition TK_NE :: int where "TK_NE = 283"
definition TK_NUMBER :: int where "TK_NUMBER = 284"
definition TK_NAME :: int where "TK_NAME = 285"
definition TK_STRING :: int where "TK_STRING = 286"
definition TK_EOS :: int where "TK_EOS = 287"

definition MAX_BUFFER :: nat where "MAX_BUFFER = 2 ^ 64 - 3"
definition MAX_LINE :: int where "MAX_LINE = 2 ^ 31 - 3"
definition MAXSRC :: nat where "MAXSRC = 80"

section \<open>Errors and the buffer\<close>

definition nextc :: "LexState \<Rightarrow> LexState res" where
  "nextc ls =
     (case current ls of
        None \<Rightarrow> Inl (Undefined ''zgetc after EOZ'')
      | Some _ \<Rightarrow> Inr (case input ls of [] \<Rightarrow> ls\<lparr>current := None\<rparr> | c # cs \<Rightarrow> ls\<lparr>current := Some c, input := cs\<rparr>))"

definition pushf :: "string \<Rightarrow> fmt_arg list \<Rightarrow> string res" where
  "pushf fmt args = luaO_pushvfstring (\<lambda>_. []) (\<lambda>_. []) fmt args"

definition lexmsg :: "LexState \<Rightarrow> string \<Rightarrow> string res" where
  "lexmsg ls msg = pushf ''%s:%d: %s'' [ArgS (Some (luaO_chunkid (lsource ls) MAXSRC)), ArgD (linenumber ls), ArgS (Some msg)]"

definition throw :: "string res \<Rightarrow> 'a res" where
  "throw m = rbind m (\<lambda>msg. Inl (SyntaxError msg))"

definition save :: "LexState \<Rightarrow> char \<Rightarrow> LexState res" where
  "save ls c =
     rbind (if length (buff ls) + 1 > buffsize ls
            then if buffsize ls \<ge> MAX_BUFFER div 2 then throw (lexmsg ls ''lexical element too long'')
                 else Inr (ls\<lparr>buffsize := buffsize ls * 2\<rparr>)
            else Inr ls) (\<lambda>ls.
       if length (buff ls) < buffsize ls then Inr (ls\<lparr>buff := buff ls @ [c]\<rparr>)
       else Inl (Undefined ''buffer write''))"

definition luaX_token2str :: "int \<Rightarrow> string res" where
  "luaX_token2str t =
     (if t < FIRST_RESERVED
      then (if 0 \<le> t \<and> t < 256
            then (if iscntrl (char_of (nat t)) then pushf ''char(%d)'' [ArgD t] else pushf ''%c'' [ArgC (char_of (nat t))])
            else Inl (Undefined ''iscntrl''))
      else Inr (luaX_tokens ! nat (t - FIRST_RESERVED)))"

definition txtToken :: "LexState \<Rightarrow> int \<Rightarrow> string res" where
  "txtToken ls t =
     (if t = TK_NAME \<or> t = TK_STRING \<or> t = TK_NUMBER
      then rbind (save ls (CHR 0x00)) (\<lambda>ls. Inr (cstr (buff ls)))
      else luaX_token2str t)"

definition near_fmt :: string where
  "near_fmt = ''%s near '' @ [CHR 0x27] @ ''%s'' @ [CHR 0x27]"

definition luaX_lexerror :: "LexState \<Rightarrow> string \<Rightarrow> int \<Rightarrow> 'a res" where
  "luaX_lexerror ls msg t =
     rbind (lexmsg ls msg) (\<lambda>msg.
       if t \<noteq> 0
       then rbind (txtToken ls t) (\<lambda>s. throw (pushf near_fmt [ArgS (Some msg), ArgS (Some s)]))
       else Inl (SyntaxError msg))"

definition luaX_syntaxerror :: "LexState \<Rightarrow> string \<Rightarrow> 'a res" where
  "luaX_syntaxerror ls msg = luaX_lexerror ls msg (token (tok ls))"

definition save_and_next :: "LexState \<Rightarrow> LexState res" where
  "save_and_next ls = rbind (save ls (case current ls of Some c \<Rightarrow> c | None \<Rightarrow> CHR 0xFF)) nextc"

definition luaZ_resetbuffer :: "LexState \<Rightarrow> LexState" where
  "luaZ_resetbuffer ls = ls\<lparr>buff := []\<rparr>"

definition newline :: "char \<Rightarrow> bool" where
  "newline c = (c = CHR 0x0A \<or> c = CHR 0x0D)"

definition currIsNewline :: "LexState \<Rightarrow> bool" where
  "currIsNewline ls = (case current ls of None \<Rightarrow> False | Some c \<Rightarrow> newline c)"

definition inclinenumber :: "LexState \<Rightarrow> LexState res" where
  "inclinenumber ls =
     rbind (nextc ls) (\<lambda>ls1.
     rbind (if currIsNewline ls1 \<and> current ls1 \<noteq> current ls then nextc ls1 else Inr ls1) (\<lambda>ls2.
     let ls3 = ls2\<lparr>linenumber := linenumber ls2 + 1\<rparr>
     in if linenumber ls3 \<ge> MAX_LINE then luaX_syntaxerror ls3 ''chunk has too many lines'' else Inr ls3))"

text \<open>\<open>luaX_setinput\<close>: the first byte is read with the stream untouched.\<close>

definition luaX_setinput :: "bytes \<Rightarrow> string \<Rightarrow> LexState" where
  "luaX_setinput z src =
     \<lparr>current = (case z of [] \<Rightarrow> None | c # _ \<Rightarrow> Some c), linenumber = 1, lastline = 1,
      tok = \<lparr>token = 0, seminfo = SemNone\<rparr>, ahead = \<lparr>token = TK_EOS, seminfo = SemNone\<rparr>,
      input = tl z, buff = [], buffsize = unat LUA_MINBUFFER, lsource = src, decpoint = CHR ''.''\<rparr>"

section \<open>Scanning\<close>

text \<open>\<open>strchr\<close> also finds the terminator of \<open>set\<close>, for a current byte of zero.\<close>

definition check_next :: "LexState \<Rightarrow> string \<Rightarrow> (bool \<times> LexState) res" where
  "check_next ls cs =
     (if current ls = Some (CHR 0x00) \<or> (\<exists>c \<in> set cs. current ls = Some c)
      then rbind (save_and_next ls) (\<lambda>ls. Inr (True, ls))
      else Inr (False, ls))"

definition buffreplace :: "LexState \<Rightarrow> char \<Rightarrow> char \<Rightarrow> LexState" where
  "buffreplace ls from to = ls\<lparr>buff := map (\<lambda>c. if c = from then to else c) (buff ls)\<rparr>"

definition trydecpoint :: "lexenv \<Rightarrow> LexState \<Rightarrow> (lua_Number \<times> LexState) res" where
  "trydecpoint E ls =
     (let old = decpoint ls;
          ls1 = buffreplace (ls\<lparr>decpoint := decimal_point E\<rparr>) old (decimal_point E)
      in case str2d E (buff ls1) of
           None \<Rightarrow> luaX_lexerror (buffreplace ls1 (decpoint ls1) (CHR ''.'')) ''malformed number'' TK_NUMBER
         | Some r \<Rightarrow> Inr (r, ls1))"

definition left :: "LexState \<Rightarrow> nat" where
  "left ls = length (input ls) + (if current ls = None then 0 else 1)"

lemma nextc_left: "nextc ls = Inr ls' \<Longrightarrow> left ls = Suc (left ls')"
  by (auto simp: nextc_def left_def split: option.splits list.splits)

lemma save_left: "save ls c = Inr ls' \<Longrightarrow> left ls' = left ls \<and> current ls' = current ls"
  by (auto simp: save_def throw_def left_def split: if_splits)

lemma save_and_next_left: "save_and_next ls = Inr ls' \<Longrightarrow> left ls = Suc (left ls')"
  by (auto simp: save_and_next_def dest!: nextc_left save_left)

text \<open>The loops that save, or skip, bytes while a test holds of the current one.\<close>

function save_while :: "(char \<Rightarrow> bool) \<Rightarrow> LexState \<Rightarrow> LexState res" where
  "save_while P ls =
     (case current ls of
        None \<Rightarrow> Inr ls
      | Some c \<Rightarrow> if P c then rbind (save_and_next ls) (save_while P) else Inr ls)"
  by pat_completeness auto
termination
  by (relation "measure (\<lambda>(P, ls). left ls)") (auto dest: save_and_next_left)

function skip_while :: "(char \<Rightarrow> bool) \<Rightarrow> LexState \<Rightarrow> LexState res" where
  "skip_while P ls =
     (case current ls of
        None \<Rightarrow> Inr ls
      | Some c \<Rightarrow> if P c then rbind (nextc ls) (skip_while P) else Inr ls)"
  by pat_completeness auto
termination
  by (relation "measure (\<lambda>(P, ls). left ls)") (auto dest: nextc_left)

declare save_while.simps [simp del] skip_while.simps [simp del]

definition read_numeral :: "lexenv \<Rightarrow> LexState \<Rightarrow> (lua_Number \<times> LexState) res" where
  "read_numeral E ls =
     rbind (save_and_next ls) (\<lambda>ls.
     rbind (save_while (\<lambda>c. isdigit c \<or> c = CHR ''.'') ls) (\<lambda>ls.
     rbind (check_next ls ''Ee'') (\<lambda>(e, ls).
     rbind (if e then rbind (check_next ls ''+-'') (\<lambda>(_, ls). Inr ls) else Inr ls) (\<lambda>ls.
     rbind (save_while (\<lambda>c. isalnum c \<or> c = CHR ''_'') ls) (\<lambda>ls.
     rbind (save ls (CHR 0x00)) (\<lambda>ls.
     let ls = buffreplace ls (CHR ''.'') (decpoint ls)
     in case str2d E (buff ls) of None \<Rightarrow> trydecpoint E ls | Some r \<Rightarrow> Inr (r, ls)))))))"

function count_eq :: "int \<Rightarrow> LexState \<Rightarrow> (int \<times> LexState) res" where
  "count_eq n ls =
     (if current ls = Some (CHR ''='') then rbind (save_and_next ls) (count_eq (n + 1)) else Inr (n, ls))"
  by pat_completeness auto
termination
  by (relation "measure (\<lambda>(n, ls). left ls)") (auto dest: save_and_next_left)

declare count_eq.simps [simp del]

definition skip_sep :: "LexState \<Rightarrow> (int \<times> LexState) res" where
  "skip_sep ls =
     rbind (save_and_next ls) (\<lambda>ls1.
     rbind (count_eq 0 ls1) (\<lambda>(count, ls2).
     Inr (if current ls2 = current ls then count else - count - 1, ls2)))"

lemma count_eq_left: "count_eq n ls = Inr (k, ls') \<Longrightarrow> left ls' \<le> left ls"
proof (induction n ls rule: count_eq.induct)
  case (1 n ls)
  show ?case
  proof (cases "current ls = Some (CHR ''='')")
    case True
    then obtain ls1 where "save_and_next ls = Inr ls1" "count_eq (n + 1) ls1 = Inr (k, ls')"
      using "1.prems" by (auto simp: count_eq.simps [of n ls])
    then show ?thesis using "1.IH" [OF True] save_and_next_left [of ls ls1] by fastforce
  next
    case False
    then show ?thesis using "1.prems" by (simp add: count_eq.simps [of n ls])
  qed
qed

lemma skip_sep_left: "skip_sep ls = Inr (n, ls') \<Longrightarrow> left ls' < left ls"
  by (auto simp: skip_sep_def dest!: save_and_next_left count_eq_left)

lemma lexerror_Inr [simp]: "luaX_lexerror l m t \<noteq> Inr x" "luaX_syntaxerror l m \<noteq> Inr x"
  by (auto simp: luaX_lexerror_def luaX_syntaxerror_def throw_def split: if_splits)

lemma inclinenumber_left: "inclinenumber ls = Inr ls' \<Longrightarrow> left ls' < left ls"
proof -
  have "ens (inclinenumber ls) (\<lambda>ls'. left ls' < left ls)"
    unfolding inclinenumber_def Let_def
  proof (rule ens_bind)
    show "ens (nextc ls) (\<lambda>ls1. left ls1 < left ls)" by (auto simp: ens_def dest: nextc_left)
    show "ens (rbind (if currIsNewline ls1 \<and> current ls1 \<noteq> current ls then nextc ls1 else Inr ls1) (\<lambda>ls2.
      if linenumber (ls2\<lparr>linenumber := linenumber ls2 + 1\<rparr>) \<ge> MAX_LINE
      then luaX_syntaxerror (ls2\<lparr>linenumber := linenumber ls2 + 1\<rparr>) ''chunk has too many lines''
      else Inr (ls2\<lparr>linenumber := linenumber ls2 + 1\<rparr>))) (\<lambda>ls'. left ls' < left ls)" if "left ls1 < left ls" for ls1
      by (rule ens_bind [where P = "\<lambda>ls2. left ls2 < left ls"]) (use that in \<open>auto simp: ens_def left_def dest: nextc_left\<close>)
  qed
  then show "inclinenumber ls = Inr ls' \<Longrightarrow> left ls' < left ls" by (rule ensD)
qed

section \<open>Strings and tokens\<close>

text \<open>The loop of \<open>read_long_string\<close>, up to \<open>endloop\<close>; \<open>str\<close> tells a string from a comment.\<close>

function long_loop :: "bool \<Rightarrow> int \<Rightarrow> LexState \<Rightarrow> LexState res" where
  "long_loop str sep ls =
     (case current ls of
        None \<Rightarrow> luaX_lexerror ls (if str then ''unfinished long string'' else ''unfinished long comment'') TK_EOS
      | Some c \<Rightarrow>
          if c = CHR ''['' then
            rbind (skip_sep ls) (\<lambda>(n, ls).
              if n = sep
              then rbind (save_and_next ls) (\<lambda>ls.
                     if sep = 0 then luaX_lexerror ls ''nesting of [[...]] is deprecated'' (int (code (CHR ''['')))
                     else long_loop str sep ls)
              else long_loop str sep ls)
          else if c = CHR '']'' then
            rbind (skip_sep ls) (\<lambda>(n, ls). if n = sep then save_and_next ls else long_loop str sep ls)
          else if newline c then
            rbind (save ls (CHR 0x0A)) (\<lambda>ls. rbind (inclinenumber ls) (\<lambda>ls.
              long_loop str sep (if str then ls else luaZ_resetbuffer ls)))
          else rbind (if str then save_and_next ls else nextc ls) (long_loop str sep))"
  by pat_completeness auto
termination
  by (relation "measure (\<lambda>(str, sep, ls). left ls)")
    (auto dest!: skip_sep_left save_and_next_left inclinenumber_left save_left nextc_left simp: left_def luaZ_resetbuffer_def split: if_splits)

declare long_loop.simps [simp del]

definition read_long_string :: "bool \<Rightarrow> int \<Rightarrow> LexState \<Rightarrow> (bytes \<times> LexState) res" where
  "read_long_string str sep ls =
     rbind (save_and_next ls) (\<lambda>ls.
     rbind (if currIsNewline ls then inclinenumber ls else Inr ls) (\<lambda>ls.
     rbind (long_loop str sep ls) (\<lambda>ls.
     let n = nat (2 + sep)
     in if \<not> str then Inr ([], ls)
        else if length (buff ls) < 2 * n then Inl (Undefined ''buffer read'')
        else Inr (take (length (buff ls) - 2 * n) (drop n (buff ls)), ls))))"

text \<open>The decimal escape: at most three digits.\<close>

fun dec_escape :: "nat \<Rightarrow> int \<Rightarrow> LexState \<Rightarrow> (int \<times> LexState) res" where
  "dec_escape 0 c ls = Inr (c, ls)"
| "dec_escape (Suc i) c ls =
     (case current ls of
        Some d \<Rightarrow> if isdigit d
                  then rbind (nextc ls) (\<lambda>ls. dec_escape i (10 * c + (int (code d) - 48)) ls)
                  else Inr (c, ls)
      | None \<Rightarrow> Inr (c, ls))"

definition simple_escape :: "char \<Rightarrow> char option" where
  "simple_escape c =
     (if c = CHR ''a'' then Some (CHR 0x07) else if c = CHR ''b'' then Some (CHR 0x08)
      else if c = CHR ''f'' then Some (CHR 0x0C) else if c = CHR ''n'' then Some (CHR 0x0A)
      else if c = CHR ''r'' then Some (CHR 0x0D) else if c = CHR ''t'' then Some (CHR 0x09)
      else if c = CHR ''v'' then Some (CHR 0x0B) else None)"

text \<open>What follows a backslash.\<close>

definition read_escape :: "LexState \<Rightarrow> LexState res" where
  "read_escape ls =
     rbind (nextc ls) (\<lambda>ls.
       case current ls of
         None \<Rightarrow> Inr ls
       | Some c \<Rightarrow>
           (case simple_escape c of
              Some e \<Rightarrow> rbind (save ls e) nextc
            | None \<Rightarrow>
                if newline c then rbind (save ls (CHR 0x0A)) inclinenumber
                else if \<not> isdigit c then save_and_next ls
                else rbind (dec_escape 3 0 ls) (\<lambda>(n, ls).
                       if n > 255 then luaX_lexerror ls ''escape sequence too large'' TK_STRING
                       else save ls (char_of (nat n)))))"

lemma dec_escape_left: "dec_escape i c ls = Inr (n, ls') \<Longrightarrow> left ls' \<le> left ls"
proof (induction i arbitrary: c ls)
  case (Suc i)
  then show ?case by (fastforce split: option.splits if_splits dest!: nextc_left)
qed simp

lemma read_escape_left: "read_escape ls = Inr ls' \<Longrightarrow> left ls' < left ls"
proof -
  assume r: "read_escape ls = Inr ls'"
  then obtain ls1 where ls1: "nextc ls = Inr ls1" by (auto simp: read_escape_def)
  have "left ls' \<le> left ls1"
    using r ls1 by (cases "current ls1"; cases "simple_escape (the (current ls1))")
      (auto simp: read_escape_def split: if_splits dest!: nextc_left save_left save_and_next_left inclinenumber_left dec_escape_left)
  then show ?thesis using nextc_left [OF ls1] by simp
qed

function string_loop :: "char \<Rightarrow> LexState \<Rightarrow> LexState res" where
  "string_loop del ls =
     (case current ls of
        None \<Rightarrow> luaX_lexerror ls ''unfinished string'' TK_EOS
      | Some c \<Rightarrow>
          if c = del then Inr ls
          else if newline c then luaX_lexerror ls ''unfinished string'' TK_STRING
          else if c = CHR 0x5C then rbind (read_escape ls) (string_loop del)
          else rbind (save_and_next ls) (string_loop del))"
  by pat_completeness auto
termination
  by (relation "measure (\<lambda>(del, ls). left ls)") (auto dest!: read_escape_left save_and_next_left)

declare string_loop.simps [simp del]

definition read_string :: "char \<Rightarrow> LexState \<Rightarrow> (bytes \<times> LexState) res" where
  "read_string del ls =
     rbind (save_and_next ls) (\<lambda>ls.
     rbind (string_loop del ls) (\<lambda>ls.
     rbind (save_and_next ls) (\<lambda>ls.
     if length (buff ls) < 2 then Inl (Undefined ''buffer read'')
     else Inr (take (length (buff ls) - 2) (tl (buff ls)), ls))))"

text \<open>The reserved words, as \<open>luaX_init\<close> marks them.\<close>

definition reserved :: "bytes \<Rightarrow> int option" where
  "reserved ts = map_of (zip (take NUM_RESERVED luaX_tokens) (map int [0..<NUM_RESERVED])) ts"

text \<open>One round of the loop of \<open>llex\<close>: \<open>Inl\<close> continues, \<open>Inr\<close> returns a token.\<close>

type_synonym lexstep = "(LexState + int \<times> SemInfo \<times> LexState) res"

definition single :: "char \<Rightarrow> LexState \<Rightarrow> lexstep" where
  "single c ls = Inr (Inr (int (code c), SemNone, ls))"

definition one_or_two :: "char \<Rightarrow> int \<Rightarrow> LexState \<Rightarrow> lexstep" where
  "one_or_two c t ls =
     rbind (nextc ls) (\<lambda>ls.
       if current ls \<noteq> Some (CHR ''='') then single c ls
       else rbind (nextc ls) (\<lambda>ls. Inr (Inr (t, SemNone, ls))))"

definition short_comment :: "LexState \<Rightarrow> lexstep" where
  "short_comment ls = rbind (skip_while (\<lambda>c. \<not> newline c) ls) (\<lambda>ls. Inr (Inl ls))"

definition long_comment :: "LexState \<Rightarrow> lexstep" where
  "long_comment ls =
     rbind (skip_sep ls) (\<lambda>(sep, ls).
       if sep \<ge> 0
       then rbind (read_long_string False sep (luaZ_resetbuffer ls)) (\<lambda>(_, ls). Inr (Inl (luaZ_resetbuffer ls)))
       else short_comment (luaZ_resetbuffer ls))"

definition lex_comment :: "LexState \<Rightarrow> lexstep" where
  "lex_comment ls =
     rbind (nextc ls) (\<lambda>ls.
     if current ls \<noteq> Some (CHR ''-'') then single (CHR ''-'') ls
     else rbind (nextc ls) (\<lambda>ls.
       if current ls = Some (CHR ''['') then long_comment ls else short_comment ls))"

definition lex_bracket :: "LexState \<Rightarrow> lexstep" where
  "lex_bracket ls =
     rbind (skip_sep ls) (\<lambda>(sep, ls).
       if sep \<ge> 0 then rbind (read_long_string True sep ls) (\<lambda>(s, ls). Inr (Inr (TK_STRING, SemTs s, ls)))
       else if sep = - 1 then single (CHR ''['') ls
       else luaX_lexerror ls ''invalid long string delimiter'' TK_STRING)"

definition lex_dot :: "lexenv \<Rightarrow> LexState \<Rightarrow> lexstep" where
  "lex_dot E ls =
     rbind (save_and_next ls) (\<lambda>ls.
     rbind (check_next ls ''.'') (\<lambda>(d, ls).
     if d then rbind (check_next ls ''.'') (\<lambda>(d2, ls). Inr (Inr (if d2 then TK_DOTS else TK_CONCAT, SemNone, ls)))
     else case current ls of
            None \<Rightarrow> single (CHR ''.'') ls
          | Some c \<Rightarrow>
              if \<not> isdigit c then single (CHR ''.'') ls
              else rbind (read_numeral E ls) (\<lambda>(r, ls). Inr (Inr (TK_NUMBER, SemR r, ls)))))"

definition lex_name :: "LexState \<Rightarrow> lexstep" where
  "lex_name ls =
     rbind (save_and_next ls) (\<lambda>ls.
     rbind (save_while (\<lambda>c. isalnum c \<or> c = CHR ''_'') ls) (\<lambda>ls.
     case reserved (buff ls) of
       Some r \<Rightarrow> Inr (Inr (r + FIRST_RESERVED, SemNone, ls))
     | None \<Rightarrow> Inr (Inr (TK_NAME, SemTs (buff ls), ls))))"

definition lex_step :: "lexenv \<Rightarrow> LexState \<Rightarrow> lexstep" where
  "lex_step E ls =
     (case current ls of
        None \<Rightarrow> Inr (Inr (TK_EOS, SemNone, ls))
      | Some c \<Rightarrow>
          if newline c then rbind (inclinenumber ls) (\<lambda>ls. Inr (Inl ls))
          else if c = CHR ''-'' then lex_comment ls
          else if c = CHR ''['' then lex_bracket ls
          else if c = CHR ''='' then one_or_two c TK_EQ ls
          else if c = CHR ''<'' then one_or_two c TK_LE ls
          else if c = CHR ''>'' then one_or_two c TK_GE ls
          else if c = CHR ''~'' then one_or_two c TK_NE ls
          else if c = CHR 0x22 \<or> c = CHR 0x27 then rbind (read_string c ls) (\<lambda>(s, ls). Inr (Inr (TK_STRING, SemTs s, ls)))
          else if c = CHR ''.'' then lex_dot E ls
          else if isspace c then rbind (nextc ls) (\<lambda>ls. Inr (Inl ls))
          else if isdigit c then rbind (read_numeral E ls) (\<lambda>(r, ls). Inr (Inr (TK_NUMBER, SemR r, ls)))
          else if isalpha c \<or> c = CHR ''_'' then lex_name ls
          else rbind (nextc ls) (single c))"

lemma skip_while_left: "skip_while P ls = Inr ls' \<Longrightarrow> left ls' \<le> left ls"
proof (induction P ls rule: skip_while.induct)
  case (1 P ls)
  then show ?case
    by (subst (asm) skip_while.simps) (fastforce split: option.splits if_splits dest: nextc_left)
qed

lemma left_reset [simp]: "left (luaZ_resetbuffer ls) = left ls"
  by (simp add: left_def luaZ_resetbuffer_def)

lemma long_loop_left: "long_loop str sep ls = Inr ls' \<Longrightarrow> left ls' \<le> left ls"
proof (induction "left ls" arbitrary: ls rule: less_induct)
  case less
  have rec: "left ls' \<le> left ls" if "long_loop str sep ls1 = Inr ls'" "left ls1 < left ls" for ls1
    using less.hyps [OF that(2,1)] that(2) by simp
  obtain c where c: "current ls = Some c" using less.prems by (subst (asm) long_loop.simps) (auto split: option.splits)
  consider "c = CHR ''[''" | "c = CHR '']''" | "c \<noteq> CHR ''[''" "c \<noteq> CHR '']''" "newline c"
    | "c \<noteq> CHR ''[''" "c \<noteq> CHR '']''" "\<not> newline c" by blast
  then show ?case
  proof cases
    case 1
    then show ?thesis using less.prems c
      by (subst (asm) long_loop.simps) (auto split: if_splits dest!: skip_sep_left save_and_next_left intro: rec)
  next
    case 2
    then show ?thesis using less.prems c
      by (subst (asm) long_loop.simps) (auto split: if_splits dest!: skip_sep_left save_and_next_left intro: rec)
  next
    case 3
    then obtain ls1 ls2 where "save ls (CHR 0x0A) = Inr ls1" "inclinenumber ls1 = Inr ls2"
      "long_loop str sep (if str then ls2 else luaZ_resetbuffer ls2) = Inr ls'"
      using less.prems c by (subst (asm) long_loop.simps) auto
    then show ?thesis using save_left [of ls] inclinenumber_left [of ls1 ls2] rec by (metis left_reset)
  next
    case 4
    then obtain ls1 where "(if str then save_and_next ls else nextc ls) = Inr ls1" "long_loop str sep ls1 = Inr ls'"
      using less.prems c by (subst (asm) long_loop.simps) auto
    then show ?thesis using rec save_and_next_left [of ls ls1] nextc_left [of ls ls1] by (metis lessI)
  qed
qed

lemma read_long_string_left: "read_long_string str sep ls = Inr (s, ls') \<Longrightarrow> left ls' < left ls"
  by (auto simp: read_long_string_def Let_def split: if_splits
      dest!: save_and_next_left inclinenumber_left long_loop_left)

definition lex_shrinks :: "LexState \<Rightarrow> LexState + int \<times> SemInfo \<times> LexState \<Rightarrow> bool" where
  "lex_shrinks ls r = (case r of Inl ls' \<Rightarrow> left ls' < left ls | Inr _ \<Rightarrow> True)"

lemma ens_shrinks:
  "ens (Inr (Inr t)) (lex_shrinks ls)" "ens (single c l) (lex_shrinks ls)" "ens (luaX_lexerror l m tk) (lex_shrinks ls)"
  "left l < left ls \<Longrightarrow> ens (short_comment l) (lex_shrinks ls)"
  by (auto simp: lex_shrinks_def single_def ens_def short_comment_def dest: skip_while_left)

lemma long_comment_left: "left l < left ls \<Longrightarrow> ens (long_comment l) (lex_shrinks ls)"
  unfolding long_comment_def
proof (rule ens_bind)
  show "ens (skip_sep l) (\<lambda>(_, l'). left l' < left l)" by (auto simp: ens_def dest: skip_sep_left)
  fix x :: "int \<times> LexState"
  assume l: "left l < left ls" and x: "case x of (_, l') \<Rightarrow> left l' < left l"
  then show "ens (case x of (sep, l) \<Rightarrow> if 0 \<le> sep then rbind (read_long_string False sep (luaZ_resetbuffer l))
      (\<lambda>(_, l). Inr (Inl (luaZ_resetbuffer l))) else short_comment (luaZ_resetbuffer l)) (lex_shrinks ls)"
    by (cases x) (auto simp: ens_def lex_shrinks_def short_comment_def dest!: read_long_string_left skip_while_left)
qed

lemma lex_comment_left: "ens (lex_comment ls) (lex_shrinks ls)"
proof -
  have n: "ens (nextc l) (\<lambda>l'. left l' < left l)" for l by (auto simp: ens_def dest: nextc_left)
  show ?thesis unfolding lex_comment_def
  proof (rule ens_bind [OF n])
    fix l1 assume l1: "left l1 < left ls"
    have "ens (rbind (nextc l1) (\<lambda>ls. if current ls = Some (CHR ''['') then long_comment ls else short_comment ls)) (lex_shrinks ls)"
      by (rule ens_bind [OF n]) (use l1 in \<open>simp add: long_comment_left ens_shrinks(4)\<close>)
    then show "ens (if current l1 \<noteq> Some (CHR ''-'') then single (CHR ''-'') l1
        else rbind (nextc l1) (\<lambda>ls. if current ls = Some (CHR ''['') then long_comment ls else short_comment ls)) (lex_shrinks ls)"
      by (simp add: ens_shrinks)
  qed
qed

lemma lex_token_only:
  "lex_bracket l \<noteq> Inr (Inl x)" "one_or_two c k l \<noteq> Inr (Inl x)" "lex_dot E l \<noteq> Inr (Inl x)" "lex_name l \<noteq> Inr (Inl x)"
  by (auto simp: lex_bracket_def one_or_two_def lex_dot_def lex_name_def single_def split: if_splits option.splits)

lemma lex_step_left: "lex_step E ls = Inr (Inl ls') \<Longrightarrow> left ls' < left ls"
proof -
  assume l: "lex_step E ls = Inr (Inl ls')"
  then obtain c where c: "current ls = Some c" by (auto simp: lex_step_def split: option.splits)
  consider "inclinenumber ls = Inr ls'" | "lex_comment ls = Inr (Inl ls')" | "nextc ls = Inr ls'"
    using l c by (auto simp: lex_step_def lex_token_only single_def split: if_splits)
  then show ?thesis
  proof cases
    case 2
    then show ?thesis using ensD [OF lex_comment_left 2] by (simp add: lex_shrinks_def)
  qed (auto dest: inclinenumber_left nextc_left)
qed

function llex_loop :: "lexenv \<Rightarrow> LexState \<Rightarrow> (int \<times> SemInfo \<times> LexState) res" where
  "llex_loop E ls = rbind (lex_step E ls) (\<lambda>r. case r of Inl ls' \<Rightarrow> llex_loop E ls' | Inr t \<Rightarrow> Inr t)"
  by pat_completeness auto
termination
  by (relation "measure (\<lambda>(E, ls). left ls)") (auto dest: lex_step_left)

declare llex_loop.simps [simp del]

definition llex :: "lexenv \<Rightarrow> LexState \<Rightarrow> (int \<times> SemInfo \<times> LexState) res" where
  "llex E ls = llex_loop E (luaZ_resetbuffer ls)"

definition luaX_next :: "lexenv \<Rightarrow> LexState \<Rightarrow> LexState res" where
  "luaX_next E ls =
     (let ls = ls\<lparr>lastline := linenumber ls\<rparr>
      in if token (ahead ls) \<noteq> TK_EOS
         then Inr (ls\<lparr>tok := ahead ls, ahead := (ahead ls)\<lparr>token := TK_EOS\<rparr>\<rparr>)
         else rbind (llex E ls) (\<lambda>(t, s, ls). Inr (ls\<lparr>tok := \<lparr>token = t, seminfo = s\<rparr>\<rparr>)))"

definition luaX_lookahead :: "lexenv \<Rightarrow> LexState \<Rightarrow> LexState res" where
  "luaX_lookahead E ls = rbind (llex E ls) (\<lambda>(t, s, ls). Inr (ls\<lparr>ahead := \<lparr>token = t, seminfo = s\<rparr>\<rparr>))"

end
