(* ===== verification/Llex_ok.thy ===== *)
theory Llex_ok
  imports Llex
begin

text \<open>
  The lexer on well-formed states: it never takes a byte past the end of the stream, never writes
  outside its buffer, raises nothing but syntax errors, and its line counter is one more than the
  number of line breaks behind it, where the two bytes of \<open>\r\n\<close> or \<open>\n\r\<close> are one break.
\<close>

section \<open>Line breaks and the invariant\<close>

fun nlines :: "bytes \<Rightarrow> nat" where
  "nlines [] = 0"
| "nlines [c] = (if newline c then 1 else 0)"
| "nlines (c # d # cs) =
     (if newline c then (if newline d \<and> d \<noteq> c then 1 + nlines cs else 1 + nlines (d # cs)) else nlines (d # cs))"

lemma nlines_plain: "\<not> newline c \<Longrightarrow> nlines (c # cs) = nlines cs"
  by (cases cs) auto

definition rest_text :: "LexState \<Rightarrow> bytes" where
  "rest_text ls = (case current ls of None \<Rightarrow> [] | Some c \<Rightarrow> c # input ls)"

definition lines :: "LexState \<Rightarrow> int" where
  "lines ls = linenumber ls + int (nlines (rest_text ls))"

definition tok_ok :: "int \<Rightarrow> bool" where
  "tok_ok t = (0 \<le> t \<and> t \<noteq> 256)"

definition buf_ok :: "LexState \<Rightarrow> bool" where
  "buf_ok ls = (length (buff ls) \<le> buffsize ls \<and> 0 < buffsize ls)"

definition lex_ok :: "LexState \<Rightarrow> bool" where
  "lex_ok ls = (buf_ok ls \<and> 0 < linenumber ls \<and> linenumber ls < MAX_LINE \<and>
     tok_ok (token (tok ls)) \<and> (current ls = None \<longrightarrow> input ls = []))"

definition is_syn :: "lua_error \<Rightarrow> bool" where
  "is_syn e = (\<exists>m. e = SyntaxError m)"

text \<open>What every scanner does: it goes forward and keeps the invariant and the line count.\<close>

definition adv :: "LexState \<Rightarrow> LexState \<Rightarrow> bool" where
  "adv ls ls' = (lex_ok ls' \<and> left ls' \<le> left ls \<and> lines ls' = lines ls \<and> ahead ls' = ahead ls)"

definition sadv :: "LexState \<Rightarrow> LexState \<Rightarrow> bool" where
  "sadv ls ls' = (adv ls ls' \<and> left ls' < left ls)"

lemma adv_refl: "lex_ok ls \<Longrightarrow> adv ls ls"
  by (simp add: adv_def)

lemma adv_trans: "adv a b \<Longrightarrow> adv b c \<Longrightarrow> adv a c" "sadv a b \<Longrightarrow> adv b c \<Longrightarrow> sadv a c" "adv a b \<Longrightarrow> sadv b c \<Longrightarrow> sadv a c"
  "sadv a b \<Longrightarrow> sadv b c \<Longrightarrow> sadv a c"
  by (auto simp: adv_def sadv_def)

lemma adv_ok: "adv a b \<Longrightarrow> lex_ok b" "sadv a b \<Longrightarrow> lex_ok b" "sadv a b \<Longrightarrow> adv a b"
  by (auto simp: adv_def sadv_def)

lemma code_not_256: "code c \<noteq> 256"
  using nat_of_char_less_256 [of c] by linarith

section \<open>Errors and the buffer\<close>

lemma lexmsg_total: "\<exists>m. lexmsg ls msg = Inr m"
  by (simp add: lexmsg_def pushf_def)

lemma throw_lexmsg: "\<exists>m. throw (lexmsg ls msg) = Inl (SyntaxError m)"
  using lexmsg_total [of ls msg] by (auto simp: throw_def)

lemma save_yields:
  assumes "buf_ok ls"
  shows "yields is_syn (save ls c) (\<lambda>ls'. \<exists>k \<ge> buffsize ls. ls' = ls\<lparr>buffsize := k, buff := buff ls @ [c]\<rparr> \<and> length (buff ls) < k)"
proof (cases "length (buff ls) + 1 > buffsize ls")
  case True
  have "length (buff ls) < buffsize ls * 2" using assms by (auto simp: buf_ok_def)
  moreover obtain m where m: "(throw (lexmsg ls ''lexical element too long'') :: LexState res) = Inl (SyntaxError m)"
    using throw_lexmsg by blast
  ultimately show ?thesis using True
    by (cases "buffsize ls \<ge> MAX_BUFFER div 2") (auto simp: save_def is_syn_def intro!: exI [of _ "buffsize ls * 2"])
qed (auto simp: save_def yields_def intro!: exI [of _ "buffsize ls"])

lemma save_adv: "lex_ok ls \<Longrightarrow> yields is_syn (save ls c) (\<lambda>ls'. adv ls ls' \<and> current ls' = current ls \<and> buff ls' = buff ls @ [c])"
  by (rule yields_mono [OF save_yields])
    (auto simp: adv_def lex_ok_def buf_ok_def left_def lines_def rest_text_def split: option.split)

lemma token2str_total: "tok_ok t \<Longrightarrow> \<exists>s. luaX_token2str t = Inr s"
  by (auto simp: luaX_token2str_def tok_ok_def FIRST_RESERVED_def pushf_def)

lemma lexerror_yields: "buf_ok ls \<Longrightarrow> tok_ok t \<Longrightarrow> yields is_syn (luaX_lexerror ls msg t) Q"
proof -
  assume ok: "buf_ok ls" and t: "tok_ok t"
  obtain m where m: "lexmsg ls msg = Inr m" using lexmsg_total by blast
  have "yields is_syn (txtToken ls t) (\<lambda>_. True)"
  proof (cases "t = TK_NAME \<or> t = TK_STRING \<or> t = TK_NUMBER")
    case True
    then show ?thesis unfolding txtToken_def
      by (simp add: True) (rule yields_bind [OF save_yields [OF ok]], simp)
  next
    case False
    then show ?thesis using token2str_total [OF t] by (auto simp: txtToken_def)
  qed
  moreover have "yields is_syn (throw (pushf near_fmt [ArgS (Some a), ArgS (Some b)])) Q" for a b
    by (simp add: throw_def pushf_def near_fmt_def is_syn_def)
  ultimately show ?thesis using m by (auto simp: luaX_lexerror_def is_syn_def intro!: yields_bind)
qed

lemma tok_ok_const [simp]: "tok_ok TK_EOS" "tok_ok TK_STRING" "tok_ok TK_NUMBER" "tok_ok TK_NAME" "tok_ok 0" "tok_ok (int (code c))"
  using code_not_256 [of c]
  by (auto simp: tok_ok_def TK_EOS_def TK_STRING_def TK_NUMBER_def TK_NAME_def)

lemma syntaxerror_yields: "lex_ok ls \<Longrightarrow> yields is_syn (luaX_syntaxerror ls msg) Q"
  unfolding luaX_syntaxerror_def by (rule lexerror_yields) (auto simp: lex_ok_def)

section \<open>Taking bytes\<close>

lemma nextc_sadv:
  assumes "lex_ok ls" "current ls = Some c" "\<not> newline c"
  shows "yields is_syn (nextc ls) (\<lambda>ls'. sadv ls ls' \<and> buff ls' = buff ls)"
  using assms
  by (cases "input ls") (auto simp: nextc_def sadv_def adv_def lex_ok_def buf_ok_def left_def lines_def rest_text_def nlines_plain)

lemma save_and_next_sadv:
  assumes "lex_ok ls" "current ls = Some c" "\<not> newline c"
  shows "yields is_syn (save_and_next ls) (\<lambda>ls'. sadv ls ls' \<and> buff ls' = buff ls @ [c])"
  unfolding save_and_next_def
proof (rule yields_bind)
  show "yields is_syn (save ls (case current ls of Some c \<Rightarrow> c | None \<Rightarrow> CHR 0xFF))
    (\<lambda>ls'. adv ls ls' \<and> current ls' = current ls \<and> buff ls' = buff ls @ [c])"
    using save_adv [OF assms(1), of c] assms(2) by simp
  show "yields is_syn (nextc x) (\<lambda>ls'. sadv ls ls' \<and> buff ls' = buff ls @ [c])"
    if "adv ls x \<and> current x = current ls \<and> buff x = buff ls @ [c]" for x
    using that assms by (intro yields_mono [OF nextc_sadv [of x c]]) (auto simp: adv_ok intro: adv_trans(3))
qed

lemma inclinenumber_sadv:
  assumes "lex_ok ls" "current ls = Some c" "newline c"
  shows "yields is_syn (inclinenumber ls) (\<lambda>ls'. sadv ls ls' \<and> buff ls' = buff ls)"
proof -
  define fin where "fin = (\<lambda>l. let l3 = l\<lparr>linenumber := linenumber l + 1\<rparr>
     in if linenumber l3 \<ge> MAX_LINE then luaX_syntaxerror l3 ''chunk has too many lines'' else Inr l3)"
  have fin: "yields is_syn (fin l) (\<lambda>ls'. sadv ls ls' \<and> buff ls' = buff ls)"
    if "current l = None \<longrightarrow> input l = []" "left l < left ls" "buff l = buff ls" "buffsize l = buffsize ls" "tok l = tok ls"
      "linenumber l = linenumber ls" "ahead l = ahead ls" "nlines (rest_text ls) = Suc (nlines (rest_text l))" for l
  proof (cases "linenumber l + 1 \<ge> MAX_LINE")
    case True
    have "buf_ok (l\<lparr>linenumber := linenumber l + 1\<rparr>)" using assms(1) that by (simp add: lex_ok_def buf_ok_def)
    moreover have "tok_ok (token (tok l))" using assms(1) \<open>tok l = tok ls\<close> by (simp add: lex_ok_def)
    ultimately show ?thesis using True by (simp add: fin_def Let_def luaX_syntaxerror_def lexerror_yields)
  next
    case False
    then show ?thesis using that assms(1)
      by (auto simp: fin_def Let_def sadv_def adv_def lex_ok_def buf_ok_def left_def lines_def rest_text_def split: option.splits)
  qed
  have e: "inclinenumber ls = rbind (nextc ls) (\<lambda>ls1. rbind (if currIsNewline ls1 \<and> current ls1 \<noteq> current ls then nextc ls1 else Inr ls1) fin)"
    by (simp add: inclinenumber_def fin_def)
  show ?thesis
  proof (cases "input ls")
    case Nil
    then show ?thesis unfolding e using assms fin [of "ls\<lparr>current := None\<rparr>"]
      by (simp add: nextc_def currIsNewline_def left_def rest_text_def)
  next
    case (Cons d ds)
    define l1 where "l1 = ls\<lparr>current := Some d, input := ds\<rparr>"
    have n1: "nextc ls = Inr l1" using assms(2) Cons by (simp add: nextc_def l1_def)
    show ?thesis
    proof (cases "newline d \<and> d \<noteq> c")
      case False
      then have "nlines (rest_text ls) = Suc (nlines (rest_text l1))" using assms Cons by (auto simp: rest_text_def l1_def)
      then show ?thesis unfolding e using fin [of l1] n1 False assms Cons
        by (auto simp: l1_def currIsNewline_def left_def)
    next
      case True
      define l2 where "l2 = (case ds of [] \<Rightarrow> l1\<lparr>current := None\<rparr> | e # es \<Rightarrow> l1\<lparr>current := Some e, input := es\<rparr>)"
      have n2: "nextc l1 = Inr l2" by (simp add: nextc_def l2_def l1_def split: list.split)
      have "yields is_syn (fin l2) (\<lambda>ls'. sadv ls ls' \<and> buff ls' = buff ls)"
        by (rule fin) (use True assms Cons in \<open>auto simp: l2_def l1_def left_def rest_text_def split: list.split\<close>)
      then show ?thesis unfolding e using n1 n2 True assms(2) by (simp add: currIsNewline_def l1_def)
    qed
  qed
qed

section \<open>Scanning\<close>

lemma save_while_adv:
  assumes "\<And>c. P c \<Longrightarrow> \<not> newline c"
  shows "lex_ok ls \<Longrightarrow> yields is_syn (save_while P ls) (\<lambda>ls'. adv ls ls' \<and> length (buff ls) \<le> length (buff ls'))"
proof (induction "left ls" arbitrary: ls rule: less_induct)
  case less
  show ?case
  proof (cases "\<exists>c. current ls = Some c \<and> P c")
    case True
    then obtain c where c: "current ls = Some c" "P c" by blast
    have "yields is_syn (rbind (save_and_next ls) (save_while P)) (\<lambda>ls'. adv ls ls' \<and> length (buff ls) \<le> length (buff ls'))"
    proof (rule yields_bind [OF save_and_next_sadv [OF less.prems c(1) assms [OF c(2)]]])
      fix x assume x: "sadv ls x \<and> buff x = buff ls @ [c]"
      then have "yields is_syn (save_while P x) (\<lambda>ls'. adv x ls' \<and> length (buff x) \<le> length (buff ls'))"
        by (intro less.hyps) (auto simp: sadv_def adv_def)
      then show "yields is_syn (save_while P x) (\<lambda>ls'. adv ls ls' \<and> length (buff ls) \<le> length (buff ls'))"
        by (rule yields_mono) (use x adv_trans(1) [of ls x] in \<open>auto simp: adv_ok\<close>)
    qed
    then show ?thesis using c by (subst save_while.simps) simp
  next
    case False
    then show ?thesis using less.prems by (subst save_while.simps) (auto simp: adv_refl split: option.split)
  qed
qed

lemma skip_while_adv:
  assumes "\<And>c. P c \<Longrightarrow> \<not> newline c"
  shows "lex_ok ls \<Longrightarrow> yields is_syn (skip_while P ls) (\<lambda>ls'. adv ls ls' \<and> buff ls' = buff ls)"
proof (induction "left ls" arbitrary: ls rule: less_induct)
  case less
  show ?case
  proof (cases "\<exists>c. current ls = Some c \<and> P c")
    case True
    then obtain c where c: "current ls = Some c" "P c" by blast
    have "yields is_syn (rbind (nextc ls) (skip_while P)) (\<lambda>ls'. adv ls ls' \<and> buff ls' = buff ls)"
    proof (rule yields_bind [OF nextc_sadv [OF less.prems c(1) assms [OF c(2)]]])
      fix x assume x: "sadv ls x \<and> buff x = buff ls"
      then have "yields is_syn (skip_while P x) (\<lambda>ls'. adv x ls' \<and> buff ls' = buff x)"
        by (intro less.hyps) (auto simp: sadv_def adv_def)
      then show "yields is_syn (skip_while P x) (\<lambda>ls'. adv ls ls' \<and> buff ls' = buff ls)"
        by (rule yields_mono) (use x adv_trans(1) [of ls x] in \<open>auto simp: adv_ok\<close>)
    qed
    then show ?thesis using c by (subst skip_while.simps) simp
  next
    case False
    then show ?thesis using less.prems by (subst skip_while.simps) (auto simp: adv_refl split: option.split)
  qed
qed

lemma check_next_adv:
  assumes "lex_ok ls" "\<forall>c \<in> set cs. \<not> newline c"
  shows "yields is_syn (check_next ls cs) (\<lambda>(b, ls'). adv ls ls')"
proof (cases "current ls = Some (CHR 0x00) \<or> (\<exists>c \<in> set cs. current ls = Some c)")
  case True
  then obtain c where c: "current ls = Some c" "\<not> newline c" using assms(2) by (auto simp: newline_def)
  show ?thesis unfolding check_next_def if_P [OF True]
    by (rule yields_bind [OF save_and_next_sadv [OF assms(1) c]]) (simp add: adv_ok)
qed (use assms(1) in \<open>simp add: check_next_def adv_refl\<close>)

lemma buffreplace_adv: "lex_ok ls \<Longrightarrow> adv ls (buffreplace (ls\<lparr>decpoint := d\<rparr>) a b)" "lex_ok ls \<Longrightarrow> adv ls (buffreplace ls a b)"
  by (auto simp: buffreplace_def adv_def lex_ok_def buf_ok_def left_def lines_def rest_text_def split: option.split)

lemma trydecpoint_adv: "lex_ok ls \<Longrightarrow> yields is_syn (trydecpoint E ls) (\<lambda>(r, ls'). adv ls ls')"
proof -
  assume ok: "lex_ok ls"
  define l1 where "l1 = buffreplace (ls\<lparr>decpoint := decimal_point E\<rparr>) (decpoint ls) (decimal_point E)"
  have a: "adv ls l1" unfolding l1_def by (rule buffreplace_adv(1) [OF ok])
  have "buf_ok (buffreplace l1 x y)" for x y using buffreplace_adv(2) [of l1 x y] a by (simp add: adv_def lex_ok_def)
  then show ?thesis using a
    by (auto simp: trydecpoint_def Let_def l1_def [symmetric] split: option.split intro: lexerror_yields)
qed

lemma read_numeral_sadv:
  assumes "lex_ok ls" "current ls = Some c" "\<not> newline c"
  shows "yields is_syn (read_numeral E ls) (\<lambda>(r, ls'). sadv ls ls')"
proof -
  define fin where "fin = (\<lambda>ls. let ls = buffreplace ls (CHR ''.'') (decpoint ls)
     in case str2d E (buff ls) of None \<Rightarrow> trydecpoint E ls | Some r \<Rightarrow> Inr (r, ls))"
  have fin: "yields is_syn (fin l) (\<lambda>(r, ls'). sadv ls ls')" if "sadv ls l" for l
  proof -
    have a: "sadv ls (buffreplace l (CHR ''.'') (decpoint l))"
      using that buffreplace_adv(2) [of l] adv_trans(2) adv_ok by blast
    have "yields is_syn (trydecpoint E (buffreplace l (CHR ''.'') (decpoint l))) (\<lambda>(r, ls'). sadv ls ls')"
      by (rule yields_mono [OF trydecpoint_adv]) (use a adv_trans(2) adv_ok in \<open>auto\<close>)
    then show ?thesis using a by (auto simp: fin_def Let_def split: option.split)
  qed
  have sv: "yields is_syn (rbind (save l (CHR 0x00)) fin) (\<lambda>(r, ls'). sadv ls ls')" if "sadv ls l" for l
    by (rule yields_bind [OF save_adv]) (use that fin adv_trans(2) adv_ok in blast)+
  have an: "yields is_syn (rbind (save_while (\<lambda>c. isalnum c \<or> c = CHR ''_'') l) (\<lambda>l. rbind (save l (CHR 0x00)) fin)) (\<lambda>(r, ls'). sadv ls ls')"
    if "sadv ls l" for l
  proof (rule yields_bind [OF save_while_adv])
    show "lex_ok l" using that by (rule adv_ok)
    show "isalnum c \<or> c = CHR ''_'' \<Longrightarrow> \<not> newline c" for c
      by (auto simp: newline_def isalnum_def isalpha_def isupper_def islower_def isdigit_def)
    show "yields is_syn (rbind (save x (CHR 0x00)) fin) (\<lambda>(r, ls'). sadv ls ls')" if "adv l x \<and> length (buff l) \<le> length (buff x)" for x
      using sv [of x] that \<open>sadv ls l\<close> adv_trans(2) by blast
  qed
  have sg: "yields is_syn (if e then rbind (check_next l ''+-'') (\<lambda>(_, ls). Inr ls) else Inr l) (\<lambda>ls'. sadv ls ls')"
    if "sadv ls l" for l e
  proof (cases e)
    case True
    have "yields is_syn (rbind (check_next l ''+-'') (\<lambda>(_, ls). Inr ls)) (\<lambda>ls'. sadv ls ls')"
      by (rule yields_bind [OF check_next_adv]) (use that adv_trans(2) adv_ok in \<open>auto simp: newline_def\<close>)
    then show ?thesis using True by simp
  qed (use that in simp)
  have ex: "yields is_syn (rbind (check_next l ''Ee'') (\<lambda>(e, ls).
     rbind (if e then rbind (check_next ls ''+-'') (\<lambda>(_, ls). Inr ls) else Inr ls) (\<lambda>ls.
     rbind (save_while (\<lambda>c. isalnum c \<or> c = CHR ''_'') ls) (\<lambda>l. rbind (save l (CHR 0x00)) fin)))) (\<lambda>(r, ls'). sadv ls ls')"
    if "sadv ls l" for l
  proof (rule yields_bind [OF check_next_adv])
    show "lex_ok l" using that by (rule adv_ok)
    fix x :: "bool \<times> LexState"
    assume "case x of (b, l') \<Rightarrow> adv l l'"
    then have "sadv ls (snd x)" using that adv_trans(2) by (cases x) auto
    then show "yields is_syn (case x of (e, ls) \<Rightarrow>
       rbind (if e then rbind (check_next ls ''+-'') (\<lambda>(_, ls). Inr ls) else Inr ls) (\<lambda>ls.
       rbind (save_while (\<lambda>c. isalnum c \<or> c = CHR ''_'') ls) (\<lambda>l. rbind (save l (CHR 0x00)) fin))) (\<lambda>(r, ls'). sadv ls ls')"
      by (cases x) (simp only: prod.case snd_conv, rule yields_bind [OF sg an])
  qed (auto simp: newline_def)
  show ?thesis unfolding read_numeral_def fin_def [symmetric]
  proof (rule yields_bind [OF save_and_next_sadv [OF assms]])
    fix x assume x: "sadv ls x \<and> buff x = buff ls @ [c]"
    show "yields is_syn (rbind (save_while (\<lambda>c. isdigit c \<or> c = CHR ''.'') x) (\<lambda>l. rbind (check_next l ''Ee'') (\<lambda>(e, ls).
     rbind (if e then rbind (check_next ls ''+-'') (\<lambda>(_, ls). Inr ls) else Inr ls) (\<lambda>ls.
     rbind (save_while (\<lambda>c. isalnum c \<or> c = CHR ''_'') ls) (\<lambda>l. rbind (save l (CHR 0x00)) fin))))) (\<lambda>(r, ls'). sadv ls ls')"
    proof (rule yields_bind [OF save_while_adv])
      show "lex_ok x" using x by (auto intro: adv_ok)
      show "isdigit c \<or> c = CHR ''.'' \<Longrightarrow> \<not> newline c" for c by (auto simp: newline_def isdigit_def)
    qed (use ex x adv_trans(2) in blast)
  qed
qed

section \<open>Long brackets\<close>

lemma count_eq_adv: "lex_ok ls \<Longrightarrow> yields is_syn (count_eq n ls)
   (\<lambda>(k, ls'). adv ls ls' \<and> n \<le> k \<and> int (length (buff ls')) = int (length (buff ls)) + (k - n))"
proof (induction "left ls" arbitrary: ls n rule: less_induct)
  case less
  show ?case
  proof (cases "current ls = Some (CHR ''='')")
    case True
    have "yields is_syn (rbind (save_and_next ls) (count_eq (n + 1)))
      (\<lambda>(k, ls'). adv ls ls' \<and> n \<le> k \<and> int (length (buff ls')) = int (length (buff ls)) + (k - n))"
    proof (rule yields_bind [OF save_and_next_sadv [OF less.prems True]])
      show "\<not> newline (CHR ''='')" by (simp add: newline_def)
      fix x assume x: "sadv ls x \<and> buff x = buff ls @ ''=''"
      then have "yields is_syn (count_eq (n + 1) x)
        (\<lambda>(k, ls'). adv x ls' \<and> n + 1 \<le> k \<and> int (length (buff ls')) = int (length (buff x)) + (k - (n + 1)))"
        by (intro less.hyps) (auto simp: sadv_def adv_def)
      then show "yields is_syn (count_eq (n + 1) x)
        (\<lambda>(k, ls'). adv ls ls' \<and> n \<le> k \<and> int (length (buff ls')) = int (length (buff ls)) + (k - n))"
        by (rule yields_mono) (use x adv_trans(1) [of ls x] in \<open>auto simp: adv_ok\<close>)
    qed
    then show ?thesis using True by (subst count_eq.simps) simp
  next
    case False
    then show ?thesis using less.prems by (subst count_eq.simps) (simp add: adv_refl)
  qed
qed

text \<open>A separator of length \<open>n \<ge> 0\<close> leaves its \<open>n + 1\<close> bytes in the buffer, the second bracket unread.\<close>

lemma skip_sep_sadv:
  assumes "lex_ok ls" "current ls = Some c" "\<not> newline c"
  shows "yields is_syn (skip_sep ls) (\<lambda>(n, ls'). sadv ls ls' \<and> length (buff ls) < length (buff ls') \<and>
    (0 \<le> n \<longrightarrow> current ls' = Some c \<and> int (length (buff ls')) = int (length (buff ls)) + n + 1))"
  unfolding skip_sep_def
proof (rule yields_bind [OF save_and_next_sadv [OF assms]])
  fix x assume x: "sadv ls x \<and> buff x = buff ls @ [c]"
  show "yields is_syn (rbind (count_eq 0 x) (\<lambda>(count, ls2). Inr (if current ls2 = current ls then count else - count - 1, ls2)))
    (\<lambda>(n, ls'). sadv ls ls' \<and> length (buff ls) < length (buff ls') \<and>
    (0 \<le> n \<longrightarrow> current ls' = Some c \<and> int (length (buff ls')) = int (length (buff ls)) + n + 1))"
    by (rule yields_bind [OF count_eq_adv]) (use x assms(2) adv_trans(2) [of ls x] in \<open>auto simp: adv_ok\<close>)
qed

lemma adv_buff: "adv ls l \<Longrightarrow> adv ls (luaZ_resetbuffer l)" "sadv ls l \<Longrightarrow> sadv ls (luaZ_resetbuffer l)"
  by (auto simp: adv_def sadv_def luaZ_resetbuffer_def lex_ok_def buf_ok_def lines_def rest_text_def left_def cong: option.case_cong)

lemma long_loop_adv:
  "lex_ok ls \<Longrightarrow> 0 \<le> sep \<Longrightarrow> yields is_syn (long_loop str sep ls)
     (\<lambda>ls'. sadv ls ls' \<and> (str \<longrightarrow> int (length (buff ls)) + sep + 2 \<le> int (length (buff ls'))))"
  (is "_ \<Longrightarrow> _ \<Longrightarrow> yields _ _ (?Q ls)")
proof (induction "left ls" arbitrary: ls rule: less_induct)
  case less
  have rec: "yields is_syn (long_loop str sep l) (?Q ls)" if "sadv ls l" "str \<longrightarrow> length (buff ls) \<le> length (buff l)" for l
  proof -
    have "yields is_syn (long_loop str sep l) (?Q l)"
      using that(1) less.prems(2) by (intro less.hyps) (auto simp: sadv_def adv_def)
    then show ?thesis by (rule yields_mono) (use that adv_trans(4) [of ls l] in auto)
  qed
  show ?case
  proof (cases "current ls")
    case None
    then show ?thesis using less.prems by (subst long_loop.simps) (auto intro: lexerror_yields simp: lex_ok_def)
  next
    case (Some c)
    consider "c = CHR ''[''" | "c = CHR '']''" | "c \<noteq> CHR ''[''" "c \<noteq> CHR '']''" "newline c"
      | "c \<noteq> CHR ''[''" "c \<noteq> CHR '']''" "\<not> newline c" by blast
    then show ?thesis
    proof cases
      case 1
      have "yields is_syn (rbind (skip_sep ls) (\<lambda>(n, ls). if n = sep
              then rbind (save_and_next ls) (\<lambda>ls.
                     if sep = 0 then luaX_lexerror ls ''nesting of [[...]] is deprecated'' (int (code (CHR ''['')))
                     else long_loop str sep ls)
              else long_loop str sep ls)) (?Q ls)"
      proof (rule yields_bind [OF skip_sep_sadv [OF less.prems(1) Some]])
        show "\<not> newline c" using 1 by (simp add: newline_def)
        fix x :: "int \<times> LexState"
        obtain n l where x: "x = (n, l)" by fastforce
        assume "case x of (n, ls') \<Rightarrow> sadv ls ls' \<and> length (buff ls) < length (buff ls') \<and>
          (0 \<le> n \<longrightarrow> current ls' = Some c \<and> int (length (buff ls')) = int (length (buff ls)) + n + 1)"
        then have l: "sadv ls l" "length (buff ls) < length (buff l)" "0 \<le> n \<Longrightarrow> current l = Some c" by (auto simp: x)
        have "yields is_syn (rbind (save_and_next l) (\<lambda>ls.
                     if sep = 0 then luaX_lexerror ls ''nesting of [[...]] is deprecated'' (int (code (CHR ''['')))
                     else long_loop str sep ls)) (?Q ls)" if "n = sep"
        proof (rule yields_bind [OF save_and_next_sadv])
          show "lex_ok l" "current l = Some c" "\<not> newline c" using l 1 that less.prems(2) by (auto simp: adv_ok newline_def)
          show "yields is_syn (if sep = 0 then luaX_lexerror y ''nesting of [[...]] is deprecated'' (int (code (CHR ''['')))
              else long_loop str sep y) (?Q ls)" if "sadv l y \<and> buff y = buff l @ [c]" for y
            using that l rec [of y] adv_trans(4) [of ls l y] adv_ok(2) [of l y] lexerror_yields [of y "int (code (CHR ''[''))"]
            by (auto simp: lex_ok_def tok_ok_def)
        qed
        then show "yields is_syn (case x of (n, ls) \<Rightarrow> if n = sep
              then rbind (save_and_next ls) (\<lambda>ls.
                     if sep = 0 then luaX_lexerror ls ''nesting of [[...]] is deprecated'' (int (code (CHR ''['')))
                     else long_loop str sep ls)
              else long_loop str sep ls) (?Q ls)"
          using rec [of l] l by (simp add: x)
      qed
      then show ?thesis using Some 1 by (subst long_loop.simps) simp
    next
      case 2
      have "yields is_syn (rbind (skip_sep ls) (\<lambda>(n, ls). if n = sep then save_and_next ls else long_loop str sep ls)) (?Q ls)"
      proof (rule yields_bind [OF skip_sep_sadv [OF less.prems(1) Some]])
        show "\<not> newline c" using 2 by (simp add: newline_def)
        fix x :: "int \<times> LexState"
        obtain n l where x: "x = (n, l)" by fastforce
        assume "case x of (n, ls') \<Rightarrow> sadv ls ls' \<and> length (buff ls) < length (buff ls') \<and>
          (0 \<le> n \<longrightarrow> current ls' = Some c \<and> int (length (buff ls')) = int (length (buff ls)) + n + 1)"
        then have l: "sadv ls l" "length (buff ls) < length (buff l)"
          "0 \<le> n \<Longrightarrow> current l = Some c \<and> int (length (buff l)) = int (length (buff ls)) + n + 1" by (auto simp: x)
        have "yields is_syn (save_and_next l) (?Q ls)" if "n = sep"
        proof (rule yields_mono [OF save_and_next_sadv])
          show "lex_ok l" "current l = Some c" "\<not> newline c" using l 2 that less.prems(2) by (auto simp: adv_ok newline_def)
          show "?Q ls y" if "sadv l y \<and> buff y = buff l @ [c]" for y
            using that l(1) l(3) \<open>n = sep\<close> less.prems(2) adv_trans(4) [of ls l y] by auto
        qed
        then show "yields is_syn (case x of (n, ls) \<Rightarrow> if n = sep then save_and_next ls else long_loop str sep ls) (?Q ls)"
          using rec [of l] l by (simp add: x)
      qed
      then show ?thesis using Some 2 by (subst long_loop.simps) simp
    next
      case 3
      have "yields is_syn (rbind (save ls (CHR 0x0A)) (\<lambda>ls. rbind (inclinenumber ls) (\<lambda>ls.
              long_loop str sep (if str then ls else luaZ_resetbuffer ls)))) (?Q ls)"
      proof (rule yields_bind [OF save_adv [OF less.prems(1)]])
        fix x assume x: "adv ls x \<and> current x = current ls \<and> buff x = buff ls @ [CHR 0x0A]"
        show "yields is_syn (rbind (inclinenumber x) (\<lambda>ls. long_loop str sep (if str then ls else luaZ_resetbuffer ls))) (?Q ls)"
        proof (rule yields_bind [OF inclinenumber_sadv])
          show "lex_ok x" "current x = Some c" "newline c" using x Some 3 by (auto simp: adv_ok)
          show "yields is_syn (long_loop str sep (if str then y else luaZ_resetbuffer y)) (?Q ls)" if "sadv x y \<and> buff y = buff x" for y
            using that x by (intro rec) (auto intro: adv_trans(3) adv_buff)
        qed
      qed
      then show ?thesis using Some 3 by (subst long_loop.simps) simp
    next
      case 4
      have "yields is_syn (rbind (if str then save_and_next ls else nextc ls) (long_loop str sep)) (?Q ls)"
        using rec nextc_sadv [OF less.prems(1) Some 4(3)] save_and_next_sadv [OF less.prems(1) Some 4(3)]
        by (cases str) (auto elim!: yields_bind)
      then show ?thesis using Some 4 by (subst long_loop.simps) simp
    qed
  qed
qed

lemma read_long_string_sadv:
  assumes "lex_ok ls" "0 \<le> sep" "current ls = Some (CHR ''['')" "int (length (buff ls)) = sep + 1"
  shows "yields is_syn (read_long_string str sep ls) (\<lambda>(s, ls'). sadv ls ls')"
  unfolding read_long_string_def
proof (rule yields_bind [OF save_and_next_sadv [OF assms(1,3)]])
  show "\<not> newline (CHR ''['')" by (simp add: newline_def)
  fix x assume x: "sadv ls x \<and> buff x = buff ls @ ''[''"
  have nl: "yields is_syn (if currIsNewline x then inclinenumber x else Inr x) (\<lambda>y. sadv ls y \<and> buff y = buff x)"
  proof (cases "currIsNewline x")
    case True
    then obtain c where "current x = Some c" "newline c" by (auto simp: currIsNewline_def split: option.splits)
    then show ?thesis using True x adv_trans(4) [of ls x]
      by simp (rule yields_mono [OF inclinenumber_sadv]; auto simp: adv_ok)
  qed (use x in simp)
  show "yields is_syn (rbind (if currIsNewline x then inclinenumber x else Inr x) (\<lambda>ls. rbind (long_loop str sep ls) (\<lambda>ls.
     let n = nat (2 + sep) in if \<not> str then Inr ([], ls)
        else if length (buff ls) < 2 * n then Inl (Undefined ''buffer read'')
        else Inr (take (length (buff ls) - 2 * n) (drop n (buff ls)), ls)))) (\<lambda>(s, ls'). sadv ls ls')"
  proof (rule yields_bind [OF nl])
    fix y assume y: "sadv ls y \<and> buff y = buff x"
    show "yields is_syn (rbind (long_loop str sep y) (\<lambda>ls. let n = nat (2 + sep) in if \<not> str then Inr ([], ls)
        else if length (buff ls) < 2 * n then Inl (Undefined ''buffer read'')
        else Inr (take (length (buff ls) - 2 * n) (drop n (buff ls)), ls))) (\<lambda>(s, ls'). sadv ls ls')"
    proof (rule yields_bind [OF long_loop_adv [OF _ assms(2)]])
      show "lex_ok y" using y by (auto intro: adv_ok)
      fix z assume z: "sadv y z \<and> (str \<longrightarrow> int (length (buff y)) + sep + 2 \<le> int (length (buff z)))"
      have "sadv ls z" using y z adv_trans(4) by blast
      moreover have "str \<longrightarrow> 2 * nat (2 + sep) \<le> length (buff z)" using z y x assms(2,4) by (auto simp: nat_le_iff)
      ultimately show "yields is_syn (let n = nat (2 + sep) in if \<not> str then Inr ([], z)
        else if length (buff z) < 2 * n then Inl (Undefined ''buffer read'')
        else Inr (take (length (buff z) - 2 * n) (drop n (buff z)), z)) (\<lambda>(s, ls'). sadv ls ls')"
        by (auto simp: Let_def)
    qed
  qed
qed

section \<open>Quoted strings\<close>

lemma dec_escape_adv:
  "lex_ok ls \<Longrightarrow> 0 \<le> n \<Longrightarrow> yields is_syn (dec_escape i n ls) (\<lambda>(k, ls'). adv ls ls' \<and> buff ls' = buff ls \<and> 0 \<le> k)"
proof (induction i arbitrary: n ls)
  case 0
  then show ?case by (simp add: adv_refl)
next
  case (Suc i)
  show ?case
  proof (cases "\<exists>d. current ls = Some d \<and> isdigit d")
    case True
    then obtain d where d: "current ls = Some d" "isdigit d" by blast
    have nl: "\<not> newline d" using d(2) by (auto simp: newline_def isdigit_def)
    have "yields is_syn (rbind (nextc ls) (dec_escape i (10 * n + (int (code d) - 48)))) (\<lambda>(k, ls'). adv ls ls' \<and> buff ls' = buff ls \<and> 0 \<le> k)"
    proof (rule yields_bind [OF nextc_sadv [OF Suc.prems(1) d(1) nl]])
      fix x assume x: "sadv ls x \<and> buff x = buff ls"
      have "0 \<le> 10 * n + (int (code d) - 48)" using Suc.prems(2) d(2) by (simp add: isdigit_def)
      then show "yields is_syn (dec_escape i (10 * n + (int (code d) - 48)) x) (\<lambda>(k, ls'). adv ls ls' \<and> buff ls' = buff ls \<and> 0 \<le> k)"
        using x adv_trans(1) [of ls x] by (intro yields_mono [OF Suc.IH [of x]]) (auto simp: adv_ok)
    qed
    then show ?thesis using d by simp
  next
    case False
    then show ?thesis using Suc.prems by (auto simp: adv_refl split: option.split)
  qed
qed

lemma simple_escape_plain: "simple_escape c = Some e \<Longrightarrow> \<not> newline c"
  by (auto simp: simple_escape_def newline_def split: if_splits)

lemma save_bind_sadv:
  assumes "lex_ok x"
    "\<And>y. lex_ok y \<Longrightarrow> current y = current x \<Longrightarrow> yields is_syn (f y) (\<lambda>z. sadv y z \<and> buff z = buff y)"
  shows "yields is_syn (rbind (save x e) f) (\<lambda>z. sadv x z \<and> length (buff x) \<le> length (buff z))"
proof (rule yields_bind [OF save_adv [OF assms(1)]])
  fix y assume y: "adv x y \<and> current y = current x \<and> buff y = buff x @ [e]"
  have "yields is_syn (f y) (\<lambda>z. sadv y z \<and> buff z = buff y)" using y assms(2) adv_ok(1) by blast
  then show "yields is_syn (f y) (\<lambda>z. sadv x z \<and> length (buff x) \<le> length (buff z))"
    by (rule yields_mono) (use y adv_trans(3) [of x y] in auto)
qed

lemma read_escape_sadv:
  assumes "lex_ok ls" "current ls = Some (CHR 0x5C)"
  shows "yields is_syn (read_escape ls) (\<lambda>ls'. sadv ls ls' \<and> length (buff ls) \<le> length (buff ls'))"
  unfolding read_escape_def
proof (rule yields_bind [OF nextc_sadv [OF assms]])
  show "\<not> newline (CHR 0x5C)" by (simp add: newline_def)
  fix x assume x: "sadv ls x \<and> buff x = buff ls"
  have ok: "lex_ok x" using x by (auto intro: adv_ok)
  let ?Q = "\<lambda>ls'. sadv ls ls' \<and> length (buff ls) \<le> length (buff ls')"
  show "yields is_syn (case current x of None \<Rightarrow> Inr x | Some c \<Rightarrow>
           (case simple_escape c of Some e \<Rightarrow> rbind (save x e) nextc
            | None \<Rightarrow> if newline c then rbind (save x (CHR 0x0A)) inclinenumber
                else if \<not> isdigit c then save_and_next x
                else rbind (dec_escape 3 0 x) (\<lambda>(n, ls).
                       if n > 255 then luaX_lexerror ls ''escape sequence too large'' TK_STRING
                       else save ls (char_of (nat n))))) ?Q"
  proof (cases "current x")
    case None
    then show ?thesis using x by simp
  next
    case (Some c)
    have up: "yields is_syn r ?Q" if "yields is_syn r (\<lambda>z. sadv x z \<and> length (buff x) \<le> length (buff z))" for r
      by (rule yields_mono [OF that]) (use x adv_trans(4) [of ls x] in auto)
    have simple: "yields is_syn (rbind (save x e) nextc) ?Q" if "\<not> newline c" for e
      using that Some by (intro up save_bind_sadv [OF ok] nextc_sadv) auto
    have nl: "yields is_syn (rbind (save x (CHR 0x0A)) inclinenumber) ?Q" if "newline c"
      using that Some by (intro up save_bind_sadv [OF ok] inclinenumber_sadv) auto
    have other: "yields is_syn (save_and_next x) ?Q" if "\<not> newline c"
      by (rule yields_mono [OF save_and_next_sadv [OF ok Some that]]) (use x adv_trans(4) [of ls x] in auto)
    have dec: "yields is_syn (rbind (dec_escape 3 0 x) (\<lambda>(n, ls).
                       if n > 255 then luaX_lexerror ls ''escape sequence too large'' TK_STRING
                       else save ls (char_of (nat n)))) ?Q"
    proof (rule yields_bind [OF dec_escape_adv [OF ok]])
      fix y :: "int \<times> LexState"
      obtain n l where y: "y = (n, l)" by fastforce
      assume "case y of (k, ls') \<Rightarrow> adv x ls' \<and> buff ls' = buff x \<and> 0 \<le> k"
      then have l: "adv x l" "buff l = buff x" by (auto simp: y)
      have "yields is_syn (save l (char_of (nat n))) ?Q"
      proof (rule yields_mono [OF save_adv])
        show "lex_ok l" using l(1) by (rule adv_ok)
        show "?Q z" if "adv l z \<and> current z = current l \<and> buff z = buff l @ [char_of (nat n)]" for z
          using that l x adv_trans(2) [OF _ l(1), of ls] adv_trans(2) [of ls l z] by auto
      qed
      then show "yields is_syn (case y of (n, ls) \<Rightarrow> if n > 255 then luaX_lexerror ls ''escape sequence too large'' TK_STRING
                       else save ls (char_of (nat n))) ?Q"
        using adv_ok(1) [OF l(1)] by (auto simp: y lex_ok_def intro: lexerror_yields)
    qed simp
    show ?thesis using Some simple nl other dec simple_escape_plain [of c]
      by (cases "simple_escape c") auto
  qed
qed

lemma string_loop_adv:
  "lex_ok ls \<Longrightarrow> yields is_syn (string_loop del ls) (\<lambda>ls'. adv ls ls' \<and> length (buff ls) \<le> length (buff ls') \<and> current ls' = Some del)"
  (is "_ \<Longrightarrow> yields _ _ (?Q ls)")
proof (induction "left ls" arbitrary: ls rule: less_induct)
  case less
  have rec: "yields is_syn (string_loop del l) (?Q ls)" if "sadv ls l \<and> length (buff ls) \<le> length (buff l)" for l
  proof -
    have "yields is_syn (string_loop del l) (?Q l)" using that by (intro less.hyps) (auto simp: sadv_def adv_def)
    then show ?thesis by (rule yields_mono) (use that adv_trans(1) [of ls l] adv_ok(3) [of ls l] in auto)
  qed
  have err: "yields is_syn (luaX_lexerror ls ''unfinished string'' t) (?Q ls)" if "tok_ok t" for t
    using less.prems that by (auto simp: lex_ok_def intro: lexerror_yields)
  show ?case
  proof (cases "current ls")
    case None
    then show ?thesis using err by (subst string_loop.simps) simp
  next
    case (Some c)
    have esc: "yields is_syn (rbind (read_escape ls) (string_loop del)) (?Q ls)" if "c = CHR 0x5C"
      by (rule yields_bind [OF read_escape_sadv [OF less.prems]]) (use that Some rec in auto)
    have plain: "yields is_syn (rbind (save_and_next ls) (string_loop del)) (?Q ls)" if "\<not> newline c"
      by (rule yields_bind [OF save_and_next_sadv [OF less.prems Some that]]) (use rec in auto)
    show ?thesis using Some err esc plain less.prems adv_refl by (subst string_loop.simps) auto
  qed
qed

lemma read_string_sadv:
  assumes "lex_ok ls" "current ls = Some del" "\<not> newline del"
  shows "yields is_syn (read_string del ls) (\<lambda>(s, ls'). sadv ls ls')"
  unfolding read_string_def
proof (rule yields_bind [OF save_and_next_sadv [OF assms]])
  fix x assume x: "sadv ls x \<and> buff x = buff ls @ [del]"
  show "yields is_syn (rbind (string_loop del x) (\<lambda>ls. rbind (save_and_next ls) (\<lambda>ls.
     if length (buff ls) < 2 then Inl (Undefined ''buffer read'')
     else Inr (take (length (buff ls) - 2) (tl (buff ls)), ls)))) (\<lambda>(s, ls'). sadv ls ls')"
  proof (rule yields_bind [OF string_loop_adv])
    show "lex_ok x" using x by (auto intro: adv_ok)
    fix y assume y: "adv x y \<and> length (buff x) \<le> length (buff y) \<and> current y = Some del"
    have s: "sadv ls z" if "sadv y z" for z using x y that adv_trans by blast
    show "yields is_syn (rbind (save_and_next y) (\<lambda>ls. if length (buff ls) < 2 then Inl (Undefined ''buffer read'')
       else Inr (take (length (buff ls) - 2) (tl (buff ls)), ls))) (\<lambda>(s, ls'). sadv ls ls')"
      by (rule yields_bind [OF save_and_next_sadv [of y del]]) (use x y s assms(3) in \<open>auto simp: adv_ok\<close>)
  qed
qed

section \<open>Tokens\<close>

definition tok_post :: "LexState \<Rightarrow> int \<times> SemInfo \<times> LexState \<Rightarrow> bool" where
  "tok_post ls r = (case r of (t, s, ls') \<Rightarrow>
     adv ls ls' \<and> tok_ok t \<and> (if t = TK_EOS then current ls' = None else left ls' < left ls))"

definition lex_post :: "LexState \<Rightarrow> LexState + int \<times> SemInfo \<times> LexState \<Rightarrow> bool" where
  "lex_post ls r = (case r of Inl ls' \<Rightarrow> sadv ls ls' \<and> buff ls' = [] | Inr t \<Rightarrow> tok_post ls t)"

lemma token_numbers:
  "tok_ok TK_EQ" "tok_ok TK_LE" "tok_ok TK_GE" "tok_ok TK_NE" "tok_ok TK_DOTS" "tok_ok TK_CONCAT"
  "TK_EQ \<noteq> TK_EOS" "TK_LE \<noteq> TK_EOS" "TK_GE \<noteq> TK_EOS" "TK_NE \<noteq> TK_EOS" "TK_DOTS \<noteq> TK_EOS" "TK_CONCAT \<noteq> TK_EOS"
  "TK_STRING \<noteq> TK_EOS" "TK_NUMBER \<noteq> TK_EOS" "TK_NAME \<noteq> TK_EOS"
  by (simp_all add: tok_ok_def TK_EQ_def TK_LE_def TK_GE_def TK_NE_def TK_DOTS_def TK_CONCAT_def TK_EOS_def TK_STRING_def
      TK_NUMBER_def TK_NAME_def)

lemma code_not_eos: "int (code c) \<noteq> TK_EOS"
  using nat_of_char_less_256 [of c] unfolding TK_EOS_def by linarith

lemma post_token: "sadv ls l \<Longrightarrow> tok_ok t \<Longrightarrow> t \<noteq> TK_EOS \<Longrightarrow> lex_post ls (Inr (t, s, l))"
  by (simp add: lex_post_def tok_post_def sadv_def)

lemma post_single: "sadv ls l \<Longrightarrow> yields is_syn (single c l) (lex_post ls)"
  by (simp add: single_def post_token code_not_eos)

lemma short_comment_post: "sadv ls l \<Longrightarrow> buff l = [] \<Longrightarrow> yields is_syn (short_comment l) (lex_post ls)"
  unfolding short_comment_def
  by (rule yields_bind [OF skip_while_adv]) (auto simp: lex_post_def adv_ok intro: adv_trans(2))

lemma plain_chars: "\<not> newline (CHR ''-'')" "\<not> newline (CHR ''['')" "\<not> newline (CHR ''='')" "\<not> newline (CHR ''.'')"
  by (simp_all add: newline_def)

lemma adv_ok_reset: "adv ls (luaZ_resetbuffer l) \<Longrightarrow> buff (luaZ_resetbuffer l) = [] \<and> lex_ok (luaZ_resetbuffer l)"
  by (simp add: luaZ_resetbuffer_def adv_def)

text \<open>The brackets of a comment: \<open>skip_sep\<close> is undone in the buffer, so the length is counted afresh.\<close>

lemma long_string_any:
  assumes "lex_ok ls" "0 \<le> sep" "current ls = Some (CHR ''['')"
  shows "yields is_syn (read_long_string False sep ls) (\<lambda>(s, ls'). sadv ls ls')"
  unfolding read_long_string_def
proof (rule yields_bind [OF save_and_next_sadv [OF assms(1,3) plain_chars(2)]])
  fix x assume x: "sadv ls x \<and> buff x = buff ls @ ''[''"
  have nl: "yields is_syn (if currIsNewline x then inclinenumber x else Inr x) (sadv ls)"
  proof (cases "currIsNewline x")
    case True
    then obtain c where "current x = Some c" "newline c" by (auto simp: currIsNewline_def split: option.splits)
    then show ?thesis using True x adv_trans(4) [of ls x]
      by simp (rule yields_mono [OF inclinenumber_sadv]; auto simp: adv_ok)
  qed (use x in simp)
  have lp: "yields is_syn (long_loop False sep y) (sadv ls)" if "sadv ls y" for y
    by (rule yields_mono [OF long_loop_adv]) (use that assms(2) adv_trans(4) [of ls y] in \<open>auto intro: adv_ok\<close>)
  show "yields is_syn (rbind (if currIsNewline x then inclinenumber x else Inr x) (\<lambda>ls. rbind (long_loop False sep ls) (\<lambda>ls.
     let n = nat (2 + sep) in if \<not> False then Inr ([], ls)
        else if length (buff ls) < 2 * n then Inl (Undefined ''buffer read'')
        else Inr (take (length (buff ls) - 2 * n) (drop n (buff ls)), ls)))) (\<lambda>(s, ls'). sadv ls ls')"
    by (rule yields_bind [OF nl], rule yields_bind [OF lp]) simp_all
qed

lemma long_comment_post:
  assumes "sadv ls l" "current l = Some (CHR ''['')" "buff l = []"
  shows "yields is_syn (long_comment l) (lex_post ls)"
  unfolding long_comment_def
proof (rule yields_bind [OF skip_sep_sadv [OF adv_ok(2) [OF assms(1)] assms(2) plain_chars(2)]])
  fix x :: "int \<times> LexState"
  obtain sep y where x: "x = (sep, y)" by fastforce
  assume "case x of (n, ls') \<Rightarrow> sadv l ls' \<and> length (buff l) < length (buff ls') \<and>
    (0 \<le> n \<longrightarrow> current ls' = Some (CHR ''['') \<and> int (length (buff ls')) = int (length (buff l)) + n + 1)"
  then have y: "sadv l y" "0 \<le> sep \<Longrightarrow> current y = Some (CHR ''['')" by (auto simp: x)
  have r: "sadv ls (luaZ_resetbuffer y)" "buff (luaZ_resetbuffer y) = []"
    using adv_buff(2) adv_trans(4) [OF assms(1) y(1)] by (auto simp: luaZ_resetbuffer_def)
  have "yields is_syn (rbind (read_long_string False sep (luaZ_resetbuffer y)) (\<lambda>(_, ls). Inr (Inl (luaZ_resetbuffer ls)))) (lex_post ls)"
    if "0 \<le> sep"
  proof (rule yields_bind [OF long_string_any])
    show "lex_ok (luaZ_resetbuffer y)" "0 \<le> sep" "current (luaZ_resetbuffer y) = Some (CHR ''['')"
      using r(1) y(2) that by (auto intro: adv_ok simp: luaZ_resetbuffer_def)
    fix z :: "bytes \<times> LexState"
    assume "case z of (s, ls') \<Rightarrow> sadv (luaZ_resetbuffer y) ls'"
    then have "sadv ls (snd z)" using r(1) adv_trans(4) by (cases z) auto
    then show "yields is_syn (case z of (_, ls) \<Rightarrow> Inr (Inl (luaZ_resetbuffer ls))) (lex_post ls)"
      using adv_buff(2) by (cases z) (auto simp: lex_post_def luaZ_resetbuffer_def)
  qed
  then show "yields is_syn (case x of (sep, ls) \<Rightarrow>
      if sep \<ge> 0 then rbind (read_long_string False sep (luaZ_resetbuffer ls)) (\<lambda>(_, ls). Inr (Inl (luaZ_resetbuffer ls)))
      else short_comment (luaZ_resetbuffer ls)) (lex_post ls)"
    using short_comment_post [OF r] by (simp add: x)
qed

lemma lex_comment_post:
  assumes "lex_ok ls" "current ls = Some (CHR ''-'')" "buff ls = []"
  shows "yields is_syn (lex_comment ls) (lex_post ls)"
  unfolding lex_comment_def
proof (rule yields_bind [OF nextc_sadv [OF assms(1,2) plain_chars(1)]])
  fix x assume x: "sadv ls x \<and> buff x = buff ls"
  have "yields is_syn (rbind (nextc x) (\<lambda>ls. if current ls = Some (CHR ''['') then long_comment ls else short_comment ls)) (lex_post ls)"
    if "current x = Some (CHR ''-'')"
  proof (rule yields_bind [OF nextc_sadv])
    show "lex_ok x" using x by (auto intro: adv_ok)
    show "current x = Some (CHR ''-'')" by fact
    show "yields is_syn (if current y = Some (CHR ''['') then long_comment y else short_comment y) (lex_post ls)"
      if "sadv x y \<and> buff y = buff x" for y
      using that x assms(3) adv_trans(4) [of ls x y] by (auto intro: long_comment_post short_comment_post)
  qed (rule plain_chars)
  then show "yields is_syn (if current x \<noteq> Some (CHR ''-'') then single (CHR ''-'') x
      else rbind (nextc x) (\<lambda>ls. if current ls = Some (CHR ''['') then long_comment ls else short_comment ls)) (lex_post ls)"
    using x by (auto intro: post_single)
qed

lemma lex_bracket_post:
  assumes "lex_ok ls" "current ls = Some (CHR ''['')" "buff ls = []"
  shows "yields is_syn (lex_bracket ls) (lex_post ls)"
  unfolding lex_bracket_def
proof (rule yields_bind [OF skip_sep_sadv [OF assms(1,2) plain_chars(2)]])
  fix x :: "int \<times> LexState"
  obtain sep y where x: "x = (sep, y)" by fastforce
  assume "case x of (n, ls') \<Rightarrow> sadv ls ls' \<and> length (buff ls) < length (buff ls') \<and>
    (0 \<le> n \<longrightarrow> current ls' = Some (CHR ''['') \<and> int (length (buff ls')) = int (length (buff ls)) + n + 1)"
  then have y: "sadv ls y" "0 \<le> sep \<Longrightarrow> current y = Some (CHR ''['') \<and> int (length (buff y)) = sep + 1"
    using assms(3) by (auto simp: x)
  have "yields is_syn (rbind (read_long_string True sep y) (\<lambda>(s, ls). Inr (Inr (TK_STRING, SemTs s, ls)))) (lex_post ls)" if "0 \<le> sep"
    by (rule yields_bind [OF read_long_string_sadv])
      (use y that adv_trans(4) [OF y(1)] in \<open>auto intro: adv_ok intro!: post_token simp: token_numbers\<close>)
  moreover have "buf_ok y" using adv_ok(2) [OF y(1)] by (simp add: lex_ok_def)
  ultimately show "yields is_syn (case x of (sep, ls) \<Rightarrow>
       if sep \<ge> 0 then rbind (read_long_string True sep ls) (\<lambda>(s, ls). Inr (Inr (TK_STRING, SemTs s, ls)))
       else if sep = - 1 then single (CHR ''['') ls
       else luaX_lexerror ls ''invalid long string delimiter'' TK_STRING) (lex_post ls)"
    using y(1) by (auto simp: x intro: post_single lexerror_yields)
qed

lemma one_or_two_post:
  assumes "lex_ok ls" "current ls = Some c" "\<not> newline c" "tok_ok t" "t \<noteq> TK_EOS"
  shows "yields is_syn (one_or_two c t ls) (lex_post ls)"
  unfolding one_or_two_def
proof (rule yields_bind [OF nextc_sadv [OF assms(1-3)]])
  fix x assume x: "sadv ls x \<and> buff x = buff ls"
  have "yields is_syn (rbind (nextc x) (\<lambda>ls. Inr (Inr (t, SemNone, ls)))) (lex_post ls)" if "current x = Some (CHR ''='')"
    by (rule yields_bind [OF nextc_sadv [OF _ that plain_chars(3)]])
      (use x assms adv_trans(4) [of ls x] in \<open>auto intro: adv_ok post_token\<close>)
  then show "yields is_syn (if current x \<noteq> Some (CHR ''='') then single c x
      else rbind (nextc x) (\<lambda>ls. Inr (Inr (t, SemNone, ls)))) (lex_post ls)"
    using x by (auto intro: post_single)
qed

lemma number_post:
  assumes "lex_ok l" "current l = Some c" "\<not> newline c" "adv ls l"
  shows "yields is_syn (rbind (read_numeral E l) (\<lambda>(r, ls). Inr (Inr (TK_NUMBER, SemR r, ls)))) (lex_post ls)"
  by (rule yields_bind [OF read_numeral_sadv [OF assms(1-3)]])
    (use adv_trans(3) [OF assms(4)] in \<open>auto intro!: post_token simp: token_numbers\<close>)

lemma lex_dot_post:
  assumes "lex_ok ls" "current ls = Some (CHR ''.'')"
  shows "yields is_syn (lex_dot E ls) (lex_post ls)"
  unfolding lex_dot_def
proof (rule yields_bind [OF save_and_next_sadv [OF assms plain_chars(4)]])
  fix x assume x: "sadv ls x \<and> buff x = buff ls @ ''.''"
  then have ok: "lex_ok x" by (auto intro: adv_ok)
  have ck: "yields is_syn (check_next y ''.'') (\<lambda>(b, z). sadv ls z)" if "sadv ls y" for y
    by (rule yields_mono [OF check_next_adv]) (use that adv_trans(2) [OF that] in \<open>auto intro: adv_ok simp: plain_chars\<close>)
  show "yields is_syn (rbind (check_next x ''.'') (\<lambda>(d, ls).
     if d then rbind (check_next ls ''.'') (\<lambda>(d2, ls). Inr (Inr (if d2 then TK_DOTS else TK_CONCAT, SemNone, ls)))
     else case current ls of None \<Rightarrow> single (CHR ''.'') ls
          | Some c \<Rightarrow> if \<not> isdigit c then single (CHR ''.'') ls
              else rbind (read_numeral E ls) (\<lambda>(r, ls). Inr (Inr (TK_NUMBER, SemR r, ls))))) (lex_post ls)"
  proof (rule yields_bind [OF ck])
    show "sadv ls x" using x by simp
    fix y :: "bool \<times> LexState"
    obtain d l where y: "y = (d, l)" by fastforce
    assume "case y of (b, z) \<Rightarrow> sadv ls z"
    then have l: "sadv ls l" by (simp add: y)
    have two: "yields is_syn (rbind (check_next l ''.'') (\<lambda>(d2, ls). Inr (Inr (if d2 then TK_DOTS else TK_CONCAT, SemNone, ls)))) (lex_post ls)"
      by (rule yields_bind [OF ck [OF l]]) (auto intro!: post_token simp: token_numbers split: prod.splits)
    have num: "yields is_syn (rbind (read_numeral E l) (\<lambda>(r, ls). Inr (Inr (TK_NUMBER, SemR r, ls)))) (lex_post ls)"
      if "current l = Some c" "isdigit c" for c
      using that l by (intro number_post [of l c]) (auto intro: adv_ok simp: newline_def isdigit_def)
    show "yields is_syn (case y of (d, ls) \<Rightarrow>
     if d then rbind (check_next ls ''.'') (\<lambda>(d2, ls). Inr (Inr (if d2 then TK_DOTS else TK_CONCAT, SemNone, ls)))
     else case current ls of None \<Rightarrow> single (CHR ''.'') ls
          | Some c \<Rightarrow> if \<not> isdigit c then single (CHR ''.'') ls
              else rbind (read_numeral E ls) (\<lambda>(r, ls). Inr (Inr (TK_NUMBER, SemR r, ls)))) (lex_post ls)"
      using two num l by (auto simp: y intro: post_single split: option.split)
  qed
qed

lemma reserved_token:
  assumes "reserved w = Some r"
  shows "tok_ok (r + FIRST_RESERVED)" "r + FIRST_RESERVED \<noteq> TK_EOS"
proof -
  have "(w, r) \<in> set (zip (take NUM_RESERVED luaX_tokens) (map int [0..<NUM_RESERVED]))"
    using assms unfolding reserved_def by (rule map_of_SomeD)
  then have "r \<in> set (map int [0..<NUM_RESERVED])" by (rule set_zip_rightD)
  then have "0 \<le> r" "r < 21" unfolding set_map set_upt NUM_RESERVED_def by (auto simp del: upt_conv_Cons)
  then show "tok_ok (r + FIRST_RESERVED)" "r + FIRST_RESERVED \<noteq> TK_EOS"
    by (auto simp: tok_ok_def FIRST_RESERVED_def TK_EOS_def)
qed

lemma lex_name_post:
  assumes "lex_ok ls" "current ls = Some c" "\<not> newline c"
  shows "yields is_syn (lex_name ls) (lex_post ls)"
  unfolding lex_name_def
proof (rule yields_bind [OF save_and_next_sadv [OF assms]])
  fix x assume x: "sadv ls x \<and> buff x = buff ls @ [c]"
  show "yields is_syn (rbind (save_while (\<lambda>c. isalnum c \<or> c = CHR ''_'') x) (\<lambda>ls.
     case reserved (buff ls) of Some r \<Rightarrow> Inr (Inr (r + FIRST_RESERVED, SemNone, ls))
     | None \<Rightarrow> Inr (Inr (TK_NAME, SemTs (buff ls), ls)))) (lex_post ls)"
  proof (rule yields_bind [OF save_while_adv])
    show "lex_ok x" using x by (auto intro: adv_ok)
    show "isalnum c \<or> c = CHR ''_'' \<Longrightarrow> \<not> newline c" for c
      by (auto simp: newline_def isalnum_def isalpha_def isupper_def islower_def isdigit_def)
    fix y assume "adv x y \<and> length (buff x) \<le> length (buff y)"
    then have "sadv ls y" using x adv_trans(2) by blast
    then show "yields is_syn (case reserved (buff y) of Some r \<Rightarrow> Inr (Inr (r + FIRST_RESERVED, SemNone, y))
     | None \<Rightarrow> Inr (Inr (TK_NAME, SemTs (buff y), y))) (lex_post ls)"
      by (auto simp: reserved_token token_numbers intro!: post_token split: option.split)
  qed
qed

lemma lex_step_post:
  assumes "lex_ok ls" "buff ls = []"
  shows "yields is_syn (lex_step E ls) (lex_post ls)"
proof (cases "current ls")
  case None
  then show ?thesis using assms(1) by (simp add: lex_step_def lex_post_def tok_post_def adv_refl)
next
  case (Some c)
  have nl: "yields is_syn (rbind (inclinenumber ls) (\<lambda>ls. Inr (Inl ls))) (lex_post ls)" if "newline c"
    by (rule yields_bind [OF inclinenumber_sadv [OF assms(1) Some that]]) (use assms(2) in \<open>simp add: lex_post_def\<close>)
  have sp: "yields is_syn (rbind (nextc ls) (\<lambda>ls. Inr (Inl ls))) (lex_post ls)" if "\<not> newline c"
    by (rule yields_bind [OF nextc_sadv [OF assms(1) Some that]]) (use assms(2) in \<open>simp add: lex_post_def\<close>)
  have one: "yields is_syn (rbind (nextc ls) (single c)) (lex_post ls)" if "\<not> newline c"
    by (rule yields_bind [OF nextc_sadv [OF assms(1) Some that]]) (simp add: post_single)
  have str: "yields is_syn (rbind (read_string c ls) (\<lambda>(s, ls). Inr (Inr (TK_STRING, SemTs s, ls)))) (lex_post ls)" if "\<not> newline c"
    by (rule yields_bind [OF read_string_sadv [OF assms(1) Some that]]) (auto intro!: post_token simp: token_numbers)
  note num = number_post [OF assms(1) Some _ adv_refl [OF assms(1)]]
  note two = one_or_two_post [OF assms(1) Some]
  note name = lex_name_post [OF assms(1) Some]
  note rules = lex_comment_post [OF assms(1) _ assms(2)] lex_bracket_post [OF assms(1) _ assms(2)] lex_dot_post [OF assms(1)]
    two [OF _ token_numbers(1,7)] two [OF _ token_numbers(2,8)] two [OF _ token_numbers(3,9)] two [OF _ token_numbers(4,10)]
  show ?thesis unfolding lex_step_def Some option.case
    by (intro yields_if; (rule nl sp one str num name rules; (assumption | simp only: Some))?)
qed

lemma llex_loop_post: "lex_ok ls \<Longrightarrow> buff ls = [] \<Longrightarrow> yields is_syn (llex_loop E ls) (tok_post ls)"
proof (induction "left ls" arbitrary: ls rule: less_induct)
  case less
  show ?case
  proof (subst llex_loop.simps, rule yields_bind [OF lex_step_post [OF less.prems]])
    fix r assume r: "lex_post ls r"
    show "yields is_syn (case r of Inl l \<Rightarrow> llex_loop E l | Inr t \<Rightarrow> Inr t) (tok_post ls)"
    proof (cases r)
      case (Inl l)
      then have l: "sadv ls l" "buff l = []" using r by (auto simp: lex_post_def)
      have "yields is_syn (llex_loop E l) (tok_post l)" using l by (intro less.hyps) (auto simp: sadv_def adv_def)
      then show ?thesis unfolding Inl sum.case
        by (rule yields_mono) (use l(1) adv_trans(1) [of ls l] in \<open>auto simp: tok_post_def sadv_def split: prod.splits if_splits\<close>)
    qed (use r in \<open>simp add: lex_post_def\<close>)
  qed
qed

lemma llex_post: "lex_ok ls \<Longrightarrow> yields is_syn (llex E ls) (tok_post ls)"
proof -
  assume ok: "lex_ok ls"
  have a: "adv ls (luaZ_resetbuffer ls)" by (rule adv_buff(1) [OF adv_refl [OF ok]])
  have "yields is_syn (llex_loop E (luaZ_resetbuffer ls)) (tok_post (luaZ_resetbuffer ls))"
    using a by (intro llex_loop_post) (auto simp: adv_def luaZ_resetbuffer_def)
  then show ?thesis unfolding llex_def
    by (rule yields_mono) (use a adv_trans(1) in \<open>auto simp: tok_post_def split: prod.splits if_splits\<close>)
qed

section \<open>The tokens of a chunk\<close>

lemma luaX_next_post:
  assumes "lex_ok ls" "token (ahead ls) = TK_EOS"
  shows "yields is_syn (luaX_next E ls) (\<lambda>ls'. adv ls ls' \<and>
    (if token (tok ls') = TK_EOS then current ls' = None else left ls' < left ls))"
proof -
  define l where "l = ls\<lparr>lastline := linenumber ls\<rparr>"
  have a: "adv ls l" using assms(1) by (auto simp: l_def adv_def lex_ok_def buf_ok_def left_def lines_def rest_text_def split: option.split)
  have "yields is_syn (rbind (llex E l) (\<lambda>(t, s, ls). Inr (ls\<lparr>tok := \<lparr>token = t, seminfo = s\<rparr>\<rparr>))) (\<lambda>ls'. adv ls ls' \<and>
    (if token (tok ls') = TK_EOS then current ls' = None else left ls' < left ls))"
  proof (rule yields_bind [OF llex_post])
    show "lex_ok l" using a by (rule adv_ok)
    fix x :: "int \<times> SemInfo \<times> LexState"
    obtain t s y where x: "x = (t, s, y)" by (cases x) auto
    assume "tok_post l x"
    then have y: "adv l y" "tok_ok t" "if t = TK_EOS then current y = None else left y < left l" by (auto simp: x tok_post_def)
    have "adv y (y\<lparr>tok := \<lparr>token = t, seminfo = s\<rparr>\<rparr>)"
      using y(1,2) by (auto simp: adv_def lex_ok_def buf_ok_def left_def lines_def rest_text_def split: option.split)
    then have "adv ls (y\<lparr>tok := \<lparr>token = t, seminfo = s\<rparr>\<rparr>)" using a y(1) adv_trans(1) by blast
    then show "yields is_syn (case x of (t, s, ls) \<Rightarrow> Inr (ls\<lparr>tok := \<lparr>token = t, seminfo = s\<rparr>\<rparr>)) (\<lambda>ls'. adv ls ls' \<and>
      (if token (tok ls') = TK_EOS then current ls' = None else left ls' < left ls))"
      using y(3) a by (auto simp: x adv_def left_def)
  qed
  then show ?thesis using assms(2) by (simp add: luaX_next_def l_def Let_def)
qed

text \<open>The tokens up to the end of the stream, as the parser takes them; the fuel bounds their number.\<close>

primrec lex_tokens :: "nat \<Rightarrow> lexenv \<Rightarrow> LexState \<Rightarrow> (Token list \<times> LexState) res" where
  "lex_tokens 0 E ls = Inl (Undefined ''fuel'')"
| "lex_tokens (Suc n) E ls =
     rbind (luaX_next E ls) (\<lambda>ls.
       if token (tok ls) = TK_EOS then Inr ([tok ls], ls)
       else rbind (lex_tokens n E ls) (\<lambda>(ts, l). Inr (tok ls # ts, l)))"

lemma lex_tokens_post:
  "lex_ok ls \<Longrightarrow> token (ahead ls) = TK_EOS \<Longrightarrow> left ls < n \<Longrightarrow>
   yields is_syn (lex_tokens n E ls) (\<lambda>(ts, l). adv ls l \<and> current l = None \<and> ts \<noteq> [] \<and> token (List.last ts) = TK_EOS \<and>
     (\<forall>t \<in> set (butlast ts). token t \<noteq> TK_EOS))"
proof (induction n arbitrary: ls)
  case (Suc n)
  show ?case unfolding lex_tokens.simps
  proof (rule yields_bind [OF luaX_next_post [OF Suc.prems(1,2)]])
    fix x assume x: "adv ls x \<and> (if token (tok x) = TK_EOS then current x = None else left x < left ls)"
    show "yields is_syn (if token (tok x) = TK_EOS then Inr ([tok x], x)
       else rbind (lex_tokens n E x) (\<lambda>(ts, l). Inr (tok x # ts, l)))
      (\<lambda>(ts, l). adv ls l \<and> current l = None \<and> ts \<noteq> [] \<and> token (List.last ts) = TK_EOS \<and> (\<forall>t \<in> set (butlast ts). token t \<noteq> TK_EOS))"
    proof (cases "token (tok x) = TK_EOS")
      case False
      have "yields is_syn (rbind (lex_tokens n E x) (\<lambda>(ts, l). Inr (tok x # ts, l)))
        (\<lambda>(ts, l). adv ls l \<and> current l = None \<and> ts \<noteq> [] \<and> token (List.last ts) = TK_EOS \<and> (\<forall>t \<in> set (butlast ts). token t \<noteq> TK_EOS))"
        by (rule yields_bind [OF Suc.IH])
          (use x False Suc.prems adv_trans(1) [of ls x] in \<open>auto simp: adv_def split: prod.splits\<close>)
      then show ?thesis using False by simp
    qed (use x in simp)
  qed
qed simp

lemma setinput_ok: "lex_ok (luaX_setinput src name)"
  by (cases src) (simp_all add: luaX_setinput_def lex_ok_def buf_ok_def LUA_MINBUFFER_def MAX_LINE_def)

section \<open>Claims\<close>



end
