(* ===== verification/Lstr_quote.thy ===== *)
theory Lstr_quote
  imports Lstr_format Llex_ok
begin

text \<open>
  \<open>%q\<close> against the lexer: what \<open>addquoted\<close> of lstrlib.c writes, \<open>read_string\<close> of llex.c reads back.
\<close>

section \<open>The lexer's stream and buffer\<close>

lemma rest_text_updates [simp]:
  "rest_text (ls\<lparr>buff := b\<rparr>) = rest_text ls" "rest_text (ls\<lparr>buffsize := n\<rparr>) = rest_text ls"
  "rest_text (ls\<lparr>linenumber := k\<rparr>) = rest_text ls"
  by (simp_all add: rest_text_def split: option.split)

text \<open>What has been read into the buffer so far, with room for \<open>n\<close> more bytes and lines.\<close>

definition reading :: "nat \<Rightarrow> bytes \<Rightarrow> bytes \<Rightarrow> LexState \<Rightarrow> bool" where
  "reading n b z ls = (rest_text ls = z \<and> buff ls = b \<and> length b \<le> buffsize ls \<and> 0 < buffsize ls
     \<and> length b + n < MAX_BUFFER div 2 \<and> linenumber ls + int n < MAX_LINE)"

lemma reading_less: "reading n b z ls \<Longrightarrow> m \<le> n \<Longrightarrow> reading m b z ls"
  by (auto simp: reading_def)

lemma rest_text_Cons: "rest_text ls = c # z \<longleftrightarrow> current ls = Some c \<and> input ls = z"
  by (auto simp: rest_text_def split: option.splits)

lemma nextc_reading: "reading n b (c # z) ls \<Longrightarrow> \<exists>ls'. nextc ls = Inr ls' \<and> reading n b z ls'"
  by (auto simp: reading_def rest_text_Cons nextc_def) (auto simp: rest_text_def split: list.splits)

lemma save_reading: "reading (Suc n) b z ls \<Longrightarrow> \<exists>ls'. save ls c = Inr ls' \<and> reading n (b @ [c]) z ls'"
proof -
  assume r: "reading (Suc n) b z ls"
  show ?thesis
  proof (cases "length (buff ls) + 1 > buffsize ls")
    case True
    then have "\<not> buffsize ls \<ge> MAX_BUFFER div 2" "length (buff ls) < buffsize ls * 2" using r by (auto simp: reading_def)
    then show ?thesis using r True by (auto simp: save_def reading_def)
  next
    case False
    then show ?thesis using r by (auto simp: save_def reading_def)
  qed
qed

lemma save_and_next_reading: "reading (Suc n) b (c # z) ls \<Longrightarrow> \<exists>ls'. save_and_next ls = Inr ls' \<and> reading n (b @ [c]) z ls'"
proof -
  assume r: "reading (Suc n) b (c # z) ls"
  then have c: "current ls = Some c" by (simp add: reading_def rest_text_Cons)
  obtain ls1 where ls1: "save ls c = Inr ls1" "reading n (b @ [c]) (c # z) ls1" using save_reading [OF r] by blast
  obtain ls2 where "nextc ls1 = Inr ls2" "reading n (b @ [c]) z ls2" using nextc_reading [OF ls1(2)] by blast
  then show ?thesis using c ls1 by (simp add: save_and_next_def)
qed

lemma inclinenumber_reading:
  assumes "reading (Suc n) b (CHR 0x0A # c # z) ls" "\<not> newline c"
  shows "\<exists>ls'. inclinenumber ls = Inr ls' \<and> reading n b (c # z) ls'"
proof -
  obtain ls1 where ls1: "nextc ls = Inr ls1" "reading (Suc n) b (c # z) ls1" using nextc_reading [OF assms(1)] by blast
  then have "\<not> currIsNewline ls1" using assms(2) by (simp add: currIsNewline_def reading_def rest_text_Cons)
  then show ?thesis using ls1 by (auto simp: inclinenumber_def Let_def reading_def)
qed

section \<open>One quoted character\<close>

definition quote1 :: "char \<Rightarrow> bytes" where
  "quote1 c =
     (if c = CHR 0x22 \<or> c = CHR 0x5C \<or> c = CHR 0x0A then [CHR 0x5C, c]
      else if c = CHR 0x0D then [CHR 0x5C, CHR ''r'']
      else if c = CHR 0x00 then [CHR 0x5C, CHR ''0'', CHR ''0'', CHR ''0'']
      else [c])"

lemma quote_loop_Cons: "quote_loop (c # s) = quote1 c @ quote_loop s"
  by (simp add: quote1_def)

text \<open>The text after a quoted character never starts with a line end: it is a quoted character or the quote.\<close>

lemma quoted_start: "\<exists>d y. quote_loop s @ CHR 0x22 # z = d # y \<and> \<not> newline d"
  by (cases s) (auto simp: newline_def)

definition escaped :: "bytes \<Rightarrow> char \<Rightarrow> bool" where
  "escaped e c = (e = [c] \<and> (c = CHR 0x22 \<or> c = CHR 0x5C) \<or> e = [CHR 0x0A] \<and> c = CHR 0x0A
     \<or> e = ''r'' \<and> c = CHR 0x0D \<or> e = ''000'' \<and> c = CHR 0x00)"

lemma escape_reading:
  assumes "reading (Suc (Suc n)) b (CHR 0x5C # e @ d # z) ls" "\<not> newline d"
    and "escaped e c"
  shows "\<exists>ls'. read_escape ls = Inr ls' \<and> reading n (b @ [c]) (d # z) ls'"
proof -
  obtain ls1 where ls1: "nextc ls = Inr ls1" "reading (Suc (Suc n)) b (e @ d # z) ls1" using nextc_reading [OF assms(1)] by blast
  consider (plain) "e = [c]" "c = CHR 0x22 \<or> c = CHR 0x5C" | (nl) "e = [CHR 0x0A]" "c = CHR 0x0A"
    | (cr) "e = ''r''" "c = CHR 0x0D" | (nul) "e = ''000''" "c = CHR 0x00"
    using assms(3) unfolding escaped_def by blast
  then show ?thesis
  proof cases
    case plain
    then have r: "reading (Suc n) b (c # d # z) ls1" using ls1(2) by (auto intro: reading_less)
    then have "current ls1 = Some c" by (simp add: reading_def rest_text_Cons)
    moreover have "simple_escape c = None \<and> \<not> newline c \<and> \<not> isdigit c"
      using plain(2) by (elim disjE) (simp_all add: simple_escape_def newline_def isdigit_def)
    ultimately have "read_escape ls = save_and_next ls1"
      using ls1(1) by (simp add: read_escape_def)
    then show ?thesis using save_and_next_reading [OF r] by simp
  next
    case nl
    then have r: "reading (Suc (Suc n)) b (CHR 0x0A # d # z) ls1" using ls1(2) by simp
    then have "current ls1 = Some (CHR 0x0A)" by (simp add: reading_def rest_text_Cons)
    then have eq: "read_escape ls = rbind (save ls1 (CHR 0x0A)) inclinenumber"
      using ls1(1) by (simp add: read_escape_def simple_escape_def newline_def)
    obtain ls2 where ls2: "save ls1 (CHR 0x0A) = Inr ls2" "reading (Suc n) (b @ [CHR 0x0A]) (CHR 0x0A # d # z) ls2"
      using save_reading [OF r] by blast
    then show ?thesis using inclinenumber_reading [OF ls2(2) assms(2)] nl eq by simp
  next
    case cr
    then have r: "reading (Suc n) b (CHR ''r'' # d # z) ls1" using ls1(2) by (auto intro: reading_less)
    then have "current ls1 = Some (CHR ''r'')" by (simp add: reading_def rest_text_Cons)
    then have eq: "read_escape ls = rbind (save ls1 (CHR 0x0D)) nextc"
      using ls1(1) by (simp add: read_escape_def simple_escape_def)
    obtain ls2 where ls2: "save ls1 (CHR 0x0D) = Inr ls2" "reading n (b @ [CHR 0x0D]) (CHR ''r'' # d # z) ls2"
      using save_reading [OF r] by blast
    then show ?thesis using nextc_reading [OF ls2(2)] cr eq by simp
  next
    case nul
    then have r: "reading (Suc n) b (CHR ''0'' # CHR ''0'' # CHR ''0'' # d # z) ls1" using ls1(2) by (auto intro: reading_less)
    obtain ls2 where ls2: "nextc ls1 = Inr ls2" "reading (Suc n) b (CHR ''0'' # CHR ''0'' # d # z) ls2" using nextc_reading [OF r] by blast
    obtain ls3 where ls3: "nextc ls2 = Inr ls3" "reading (Suc n) b (CHR ''0'' # d # z) ls3" using nextc_reading [OF ls2(2)] by blast
    obtain ls4 where ls4: "nextc ls3 = Inr ls4" "reading (Suc n) b (d # z) ls4" using nextc_reading [OF ls3(2)] by blast
    have c: "current ls1 = Some (CHR ''0'')" "current ls2 = Some (CHR ''0'')" "current ls3 = Some (CHR ''0'')"
      using r ls2(2) ls3(2) by (simp_all add: reading_def rest_text_Cons)
    have "dec_escape 3 0 ls1 = Inr (0, ls4)"
      using c ls2(1) ls3(1) ls4(1) by (simp add: numeral_eq_Suc isdigit_def)
    moreover have "char_of (0 :: nat) = CHR 0x00" by (simp add: char_of_def)
    ultimately have eq: "read_escape ls = save ls4 (CHR 0x00)"
      using ls1(1) c(1) by (simp add: read_escape_def simple_escape_def newline_def isdigit_def)
    then show ?thesis using save_reading [OF ls4(2)] nul by simp
  qed
qed

lemma string_loop_quoted:
  "reading (Suc (2 * length s)) b (quote_loop s @ CHR 0x22 # z) ls \<Longrightarrow>
   \<exists>ls'. string_loop (CHR 0x22) ls = Inr ls' \<and> reading 1 (b @ s) (CHR 0x22 # z) ls'"
proof (induction s arbitrary: b ls)
  case Nil
  then have "current ls = Some (CHR 0x22)" by (simp add: reading_def rest_text_Cons)
  then show ?case using Nil by (subst string_loop.simps) simp
next
  case (Cons c s)
  obtain d y where dy: "quote_loop s @ CHR 0x22 # z = d # y" "\<not> newline d" using quoted_start by blast
  have r: "reading (Suc (Suc (Suc (2 * length s)))) b (quote1 c @ d # y) ls"
    using Cons.prems by (simp only: quote_loop_Cons append_assoc dy) simp
  have "\<exists>ls1. string_loop (CHR 0x22) ls = string_loop (CHR 0x22) ls1 \<and> reading (Suc (2 * length s)) (b @ [c]) (d # y) ls1"
  proof (cases "c \<in> {CHR 0x22, CHR 0x5C, CHR 0x0A, CHR 0x0D, CHR 0x00}")
    case True
    define e where "e = tl (quote1 c)"
    have q: "quote1 c = CHR 0x5C # e" using True by (auto simp: quote1_def e_def)
    have "escaped e c"
      using True by (auto simp: quote1_def e_def escaped_def)
    from escape_reading [OF _ dy(2) this] obtain ls1 where ls1: "read_escape ls = Inr ls1"
        "reading (Suc (2 * length s)) (b @ [c]) (d # y) ls1"
      using r q by fastforce
    have "current ls = Some (CHR 0x5C)" using r q by (simp add: reading_def rest_text_Cons)
    then have "string_loop (CHR 0x22) ls = string_loop (CHR 0x22) ls1"
      using ls1(1) by (subst string_loop.simps) (simp add: newline_def)
    then show ?thesis using ls1(2) by blast
  next
    case False
    then have q: "quote1 c = [c]" by (simp add: quote1_def)
    then have "reading (Suc (Suc (2 * length s))) b (c # d # y) ls" using r by (auto intro: reading_less)
    from save_and_next_reading [OF this] obtain ls1 where ls1: "save_and_next ls = Inr ls1"
        "reading (Suc (2 * length s)) (b @ [c]) (d # y) ls1" by blast
    have "current ls = Some c" using r q by (simp add: reading_def rest_text_Cons)
    then have "string_loop (CHR 0x22) ls = string_loop (CHR 0x22) ls1"
      using ls1(1) False by (subst string_loop.simps) (simp add: newline_def)
    then show ?thesis using ls1(2) by blast
  qed
  then obtain ls1 where ls1: "string_loop (CHR 0x22) ls = string_loop (CHR 0x22) ls1"
      "reading (Suc (2 * length s)) (b @ [c]) (quote_loop s @ CHR 0x22 # z) ls1" unfolding dy(1) by blast
  show ?case using Cons.IH [OF ls1(2)] ls1(1) by simp
qed

lemma read_string_quoted:
  assumes "reading (2 * length s + 3) [] (addquoted s @ z) ls"
  shows "\<exists>ls'. read_string (CHR 0x22) ls = Inr (s, ls') \<and> rest_text ls' = z"
proof -
  have "reading (Suc (2 * length s + 2)) [] (CHR 0x22 # quote_loop s @ CHR 0x22 # z) ls"
    using assms by (simp add: addquoted_def numeral_eq_Suc)
  then obtain ls1 where ls1: "save_and_next ls = Inr ls1" "reading (2 * length s + 2) [CHR 0x22] (quote_loop s @ CHR 0x22 # z) ls1"
    using save_and_next_reading by fastforce
  have "reading (Suc (2 * length s)) [CHR 0x22] (quote_loop s @ CHR 0x22 # z) ls1" by (rule reading_less [OF ls1(2)]) simp
  from string_loop_quoted [OF this] obtain ls2 where ls2: "string_loop (CHR 0x22) ls1 = Inr ls2"
      "reading 1 (CHR 0x22 # s) (CHR 0x22 # z) ls2" by auto
  obtain ls3 where ls3: "save_and_next ls2 = Inr ls3" "reading 0 (CHR 0x22 # s @ [CHR 0x22]) z ls3"
    using save_and_next_reading [of 0] ls2(2) by fastforce
  have "buff ls3 = CHR 0x22 # s @ [CHR 0x22]" "rest_text ls3 = z" using ls3(2) by (simp_all add: reading_def)
  then show ?thesis using ls1(1) ls2(1) ls3(1) by (simp add: read_string_def)
qed

text \<open>
  C39. the lexer reads a string written by \<open>%q\<close> back: the first token of the quoted text, whatever follows it,
  is a string token with the original bytes, among them quotes, backslashes, line ends and zero bytes, and
  the lexer stops right after it. The bound keeps the quoted lines below the lexer's limit.
\<close>

theorem quoted_string_reads_back:
  assumes "2 * length s + 4 < 2 ^ 31 - 3"
  shows "\<exists>ls'. llex E (luaX_setinput (addquoted s @ z) name) = Inr (TK_STRING, SemTs s, ls') \<and> rest_text ls' = z"
proof -
  let ?ls = "luaX_setinput (addquoted s @ z) name"
  have "reading (2 * length s + 3) [] (addquoted s @ z) ?ls"
    using assms by (simp add: reading_def luaX_setinput_def rest_text_def addquoted_def LUA_MINBUFFER_def MAX_BUFFER_def MAX_LINE_def)
  from read_string_quoted [OF this] obtain ls' where ls': "read_string (CHR 0x22) ?ls = Inr (s, ls')" "rest_text ls' = z" by blast
  have "luaZ_resetbuffer ?ls = ?ls" by (simp add: luaZ_resetbuffer_def luaX_setinput_def)
  moreover have "current ?ls = Some (CHR 0x22)" by (simp add: luaX_setinput_def addquoted_def)
  ultimately show ?thesis using ls'
    by (auto simp: llex_def llex_loop.simps [of E ?ls] lex_step_def newline_def)
qed

theorem quoted_string_reads_back_witness:
  "\<exists>ls'. llex \<lparr>str2d = (\<lambda>_. None), decimal_point = CHR ''.''\<rparr> (luaX_setinput (addquoted [CHR 0x0A, CHR 0x0D, CHR 0x00, CHR ''7'', CHR 0x22, CHR 0x5C] @ '' .. x'') ''=q'')
     = Inr (TK_STRING, SemTs [CHR 0x0A, CHR 0x0D, CHR 0x00, CHR ''7'', CHR 0x22, CHR 0x5C], ls') \<and> rest_text ls' = '' .. x''"
  by (rule quoted_string_reads_back) simp

end
