(* ===== verification/Lvm_ops.thy ===== *)
theory Lvm_ops
  imports Ltable_ops Lauxlib
begin

text \<open>
  ltm.c and the operations of lvm.c that can call metamethods: indexing, comparison and arithmetic of any
  values, and the cache of absent metamethods in the flags of a metatable. The global
  state is a record of what they read: the tables and strings behind their addresses and the metatables of
  the types; it can be extended by whatever else Lua functions change.
\<close>

section \<open>The state and the functions called\<close>

datatype TMS = TM_INDEX | TM_NEWINDEX | TM_GC | TM_MODE | TM_EQ | TM_ADD | TM_SUB | TM_MUL | TM_DIV | TM_MOD
  | TM_POW | TM_UNM | TM_LEN | TM_LT | TM_LE | TM_CONCAT | TM_CALL

definition tm_bit :: "TMS \<Rightarrow> nat" where
  "tm_bit e = (case e of TM_INDEX \<Rightarrow> 0 | TM_NEWINDEX \<Rightarrow> 1 | TM_GC \<Rightarrow> 2 | TM_MODE \<Rightarrow> 3 | TM_EQ \<Rightarrow> 4 | TM_ADD \<Rightarrow> 5 | TM_SUB \<Rightarrow> 6
     | TM_MUL \<Rightarrow> 7 | TM_DIV \<Rightarrow> 8 | TM_MOD \<Rightarrow> 9 | TM_POW \<Rightarrow> 10 | TM_UNM \<Rightarrow> 11 | TM_LEN \<Rightarrow> 12 | TM_LT \<Rightarrow> 13 | TM_LE \<Rightarrow> 14
     | TM_CONCAT \<Rightarrow> 15 | TM_CALL \<Rightarrow> 16)"

definition luaT_eventname :: "TMS \<Rightarrow> string" where
  "luaT_eventname e = (case e of TM_INDEX \<Rightarrow> ''__index'' | TM_NEWINDEX \<Rightarrow> ''__newindex'' | TM_GC \<Rightarrow> ''__gc'' | TM_MODE \<Rightarrow> ''__mode''
     | TM_EQ \<Rightarrow> ''__eq'' | TM_ADD \<Rightarrow> ''__add'' | TM_SUB \<Rightarrow> ''__sub'' | TM_MUL \<Rightarrow> ''__mul'' | TM_DIV \<Rightarrow> ''__div'' | TM_MOD \<Rightarrow> ''__mod''
     | TM_POW \<Rightarrow> ''__pow'' | TM_UNM \<Rightarrow> ''__unm'' | TM_LEN \<Rightarrow> ''__len'' | TM_LT \<Rightarrow> ''__lt'' | TM_LE \<Rightarrow> ''__le''
     | TM_CONCAT \<Rightarrow> ''__concat'' | TM_CALL \<Rightarrow> ''__call'')"

record gstate =
  tables :: "ptr \<Rightarrow> Table"
  chars :: "ptr \<Rightarrow> bytes"
  strhash :: "ptr \<Rightarrow> uint32"
  udmeta :: "ptr \<Rightarrow> ptr option"
  gmt :: "nat \<Rightarrow> ptr option"
  tmname :: "TMS \<Rightarrow> ptr"

text \<open>
  \<open>callTM\<close> and \<open>callTMres\<close> (their bodies are in Lvm, where the stack is), \<open>luaS_newlstr\<close>, and functions of
  the C library.
\<close>

record 'g vmenv =
  call0 :: "tval \<Rightarrow> tval list \<Rightarrow> 'g \<Rightarrow> 'g res"
  call1 :: "tval \<Rightarrow> tval list \<Rightarrow> 'g \<Rightarrow> (tval \<times> 'g) res"
  newlstr_at :: "bytes \<Rightarrow> 'g \<Rightarrow> (ptr \<times> 'g) res"
  strcoll :: "bytes \<Rightarrow> bytes \<Rightarrow> int"
  c_floor :: "lua_Number \<Rightarrow> lua_Number"
  c_pow :: "lua_Number \<Rightarrow> lua_Number \<Rightarrow> lua_Number"
  elib :: libenv

text \<open>\<open>luaG_runerror\<close>: the message without the position in front of it and without the name of the variable.\<close>

definition luaG_runerror :: "string \<Rightarrow> 'a res" where
  "luaG_runerror m = Inl (RunError m)"

definition typename :: "tval \<Rightarrow> string" where
  "typename v = luaT_typenames ! nat (ttype v)"

definition luaG_typeerror :: "tval \<Rightarrow> string \<Rightarrow> 'a res" where
  "luaG_typeerror v op = luaG_runerror (''attempt to '' @ op @ '' a '' @ typename v @ '' value'')"

definition luaG_ordererror :: "tval \<Rightarrow> tval \<Rightarrow> 'a res" where
  "luaG_ordererror p1 p2 =
     (if typename p1 ! 2 = typename p2 ! 2 then luaG_runerror (''attempt to compare two '' @ typename p1 @ '' values'')
      else luaG_runerror (''attempt to compare '' @ typename p1 @ '' with '' @ typename p2))"

section \<open>Metamethods\<close>

definition sval :: "Table \<Rightarrow> slot \<Rightarrow> tval" where
  "sval t s = slot_val t s"

definition set_table :: "ptr \<Rightarrow> Table \<Rightarrow> 'g gstate_scheme \<Rightarrow> 'g gstate_scheme" where
  "set_table p t G = G\<lparr>tables := (tables G)(p := t)\<rparr>"

definition luaT_gettm :: "'g gstate_scheme \<Rightarrow> ptr \<Rightarrow> TMS \<Rightarrow> tval option \<times> 'g gstate_scheme" where
  "luaT_gettm G events event =
     (let t = tables G events; tm = sval t (luaH_getstr (strhash G) t (tmname G event))
      in if ttisnil tm then (None, set_table events (t\<lparr>flags := flags t OR push_bit (tm_bit event) 1\<rparr>) G)
         else (Some tm, G))"

definition fasttm :: "'g gstate_scheme \<Rightarrow> ptr option \<Rightarrow> TMS \<Rightarrow> tval option \<times> 'g gstate_scheme" where
  "fasttm G et e =
     (case et of
        None \<Rightarrow> (None, G)
      | Some p \<Rightarrow> if bit (flags (tables G p)) (tm_bit e) then (None, G) else luaT_gettm G p e)"

definition luaT_gettmbyobj :: "'g gstate_scheme \<Rightarrow> tval \<Rightarrow> TMS \<Rightarrow> tval" where
  "luaT_gettmbyobj G v event =
     (let mt = (case v of Vtable p \<Rightarrow> metatable (tables G p) | Vuserdata p \<Rightarrow> udmeta G p | _ \<Rightarrow> gmt G (nat (ttype v)))
      in case mt of None \<Rightarrow> Vnil | Some p \<Rightarrow> sval (tables G p) (luaH_getstr (strhash G) (tables G p) (tmname G event)))"

definition MAXTAGLOOP :: nat where "MAXTAGLOOP = 100"

primrec gettable_loop :: "nat \<Rightarrow> 'g gstate_scheme vmenv \<Rightarrow> tval \<Rightarrow> tval \<Rightarrow> 'g gstate_scheme \<Rightarrow> (tval \<times> 'g gstate_scheme) res" where
  "gettable_loop 0 E t key G = luaG_runerror ''loop in gettable''"
| "gettable_loop (Suc n) E t key G =
     (let again = (\<lambda>tm G. if ttype tm = 6 then call1 E tm [t, key] G else gettable_loop n E tm key G)
      in case t of
           Vtable p \<Rightarrow>
             let h = tables G p; r = sval h (luaH_get (strhash G) h key)
             in if \<not> ttisnil r then Inr (r, G)
                else (case fasttm G (metatable h) TM_INDEX of (None, G) \<Rightarrow> Inr (r, G) | (Some tm, G) \<Rightarrow> again tm G)
         | _ \<Rightarrow>
             let tm = luaT_gettmbyobj G t TM_INDEX
             in if ttisnil tm then luaG_typeerror t ''index'' else again tm G)"

definition luaV_gettable :: "'g gstate_scheme vmenv \<Rightarrow> tval \<Rightarrow> tval \<Rightarrow> 'g gstate_scheme \<Rightarrow> (tval \<times> 'g gstate_scheme) res" where
  "luaV_gettable E t key G = gettable_loop MAXTAGLOOP E t key G"

primrec settable_loop :: "nat \<Rightarrow> 'g gstate_scheme vmenv \<Rightarrow> tval \<Rightarrow> tval \<Rightarrow> tval \<Rightarrow> 'g gstate_scheme \<Rightarrow> 'g gstate_scheme res" where
  "settable_loop 0 E t key val G = luaG_runerror ''loop in settable''"
| "settable_loop (Suc n) E t key val G =
     (let again = (\<lambda>tm G. if ttype tm = 6 then call0 E tm [t, key, val] G
                          else settable_loop n E tm key val G)
      in case t of
           Vtable p \<Rightarrow>
             rbind (luaH_set (strhash G) (tables G p) key) (\<lambda>(h, oldval).
               let G = set_table p h G;
                   put = (\<lambda>G. set_table p ((store (tables G p) oldval val)\<lparr>flags := 0\<rparr>) G)
               in if \<not> ttisnil (sval h oldval) then Inr (put G)
                  else (case fasttm G (metatable h) TM_NEWINDEX of (None, G) \<Rightarrow> Inr (put G) | (Some tm, G) \<Rightarrow> again tm G))
         | _ \<Rightarrow>
             let tm = luaT_gettmbyobj G t TM_NEWINDEX
             in if ttisnil tm then luaG_typeerror t ''index'' else again tm G)"

definition luaV_settable :: "'g gstate_scheme vmenv \<Rightarrow> tval \<Rightarrow> tval \<Rightarrow> tval \<Rightarrow> 'g gstate_scheme \<Rightarrow> 'g gstate_scheme res" where
  "luaV_settable E t key val G = settable_loop MAXTAGLOOP E t key val G"

definition call_binTM :: "'g gstate_scheme vmenv \<Rightarrow> tval \<Rightarrow> tval \<Rightarrow> TMS \<Rightarrow> 'g gstate_scheme \<Rightarrow> (tval option \<times> 'g gstate_scheme) res" where
  "call_binTM E p1 p2 event G =
     (let tm = luaT_gettmbyobj G p1 event;
          tm = (if ttisnil tm then luaT_gettmbyobj G p2 event else tm)
      in if ttisnil tm then Inr (None, G) else rbind (call1 E tm [p1, p2] G) (\<lambda>(r, G). Inr (Some r, G)))"

definition get_compTM :: "'g gstate_scheme \<Rightarrow> ptr option \<Rightarrow> ptr option \<Rightarrow> TMS \<Rightarrow> tval option \<times> 'g gstate_scheme" where
  "get_compTM G mt1 mt2 event =
     (case fasttm G mt1 event of
        (None, G) \<Rightarrow> (None, G)
      | (Some tm1, G) \<Rightarrow>
          if mt1 = mt2 then (Some tm1, G)
          else (case fasttm G mt2 event of
                  (None, G) \<Rightarrow> (None, G)
                | (Some tm2, G) \<Rightarrow> (if luaO_rawequalObj tm1 tm2 then Some tm1 else None, G)))"

definition call_orderTM :: "'g gstate_scheme vmenv \<Rightarrow> tval \<Rightarrow> tval \<Rightarrow> TMS \<Rightarrow> 'g gstate_scheme \<Rightarrow> (bool option \<times> 'g gstate_scheme) res" where
  "call_orderTM E p1 p2 event G =
     (let tm1 = luaT_gettmbyobj G p1 event
      in if ttisnil tm1 then Inr (None, G)
         else if \<not> luaO_rawequalObj tm1 (luaT_gettmbyobj G p2 event) then Inr (None, G)
         else rbind (call1 E tm1 [p1, p2] G) (\<lambda>(r, G). Inr (Some (\<not> l_isfalse r), G)))"

section \<open>Comparison\<close>

text \<open>Strings compare piece by piece, each up to its next zero byte.\<close>

function strcmp_loop :: "(bytes \<Rightarrow> bytes \<Rightarrow> int) \<Rightarrow> bytes \<Rightarrow> bytes \<Rightarrow> int" where
  "strcmp_loop coll l r =
     (let temp = coll (cstr l) (cstr r)
      in if temp \<noteq> 0 then temp
         else let len = length (cstr l)
              in if len = length r then (if len = length l then 0 else 1)
                 else if len = length l then - 1
                 else strcmp_loop coll (drop (len + 1) l) (drop (len + 1) r))"
  by pat_completeness auto
termination
proof (relation "measure (\<lambda>(coll, l, r). length l)")
  fix coll :: "bytes \<Rightarrow> bytes \<Rightarrow> int" and l r :: bytes and temp len
  assume "len = length (cstr l)" "len \<noteq> length l"
  moreover have "length (cstr l) \<le> length l" by (simp add: cstr_def length_takeWhile_le)
  ultimately show "((coll, drop (len + 1) l, drop (len + 1) r), coll, l, r) \<in> measure (\<lambda>(coll, l, r). length l)" by simp
qed simp

declare strcmp_loop.simps [simp del]

definition l_strcmp :: "'g gstate_scheme vmenv \<Rightarrow> 'g gstate_scheme \<Rightarrow> ptr \<Rightarrow> ptr \<Rightarrow> int" where
  "l_strcmp E G ls rs = strcmp_loop (strcoll E) (chars G ls) (chars G rs)"

definition luaV_lessthan :: "'g gstate_scheme vmenv \<Rightarrow> tval \<Rightarrow> tval \<Rightarrow> 'g gstate_scheme \<Rightarrow> (bool \<times> 'g gstate_scheme) res" where
  "luaV_lessthan E l r G =
     (if ttype l \<noteq> ttype r then luaG_ordererror l r
      else case (l, r) of
        (Vnumber a, Vnumber b) \<Rightarrow> Inr (luai_numlt a b, G)
      | (Vstring a, Vstring b) \<Rightarrow> Inr (l_strcmp E G a b < 0, G)
      | _ \<Rightarrow> rbind (call_orderTM E l r TM_LT G) (\<lambda>(res, G). case res of Some b \<Rightarrow> Inr (b, G) | None \<Rightarrow> luaG_ordererror l r))"

definition lessequal :: "'g gstate_scheme vmenv \<Rightarrow> tval \<Rightarrow> tval \<Rightarrow> 'g gstate_scheme \<Rightarrow> (bool \<times> 'g gstate_scheme) res" where
  "lessequal E l r G =
     (if ttype l \<noteq> ttype r then luaG_ordererror l r
      else case (l, r) of
        (Vnumber a, Vnumber b) \<Rightarrow> Inr (luai_numle a b, G)
      | (Vstring a, Vstring b) \<Rightarrow> Inr (l_strcmp E G a b \<le> 0, G)
      | _ \<Rightarrow> rbind (call_orderTM E l r TM_LE G) (\<lambda>(res, G). case res of
            Some b \<Rightarrow> Inr (b, G)
          | None \<Rightarrow> rbind (call_orderTM E r l TM_LT G) (\<lambda>(res, G). case res of Some b \<Rightarrow> Inr (\<not> b, G) | None \<Rightarrow> luaG_ordererror l r)))"

definition equal_tm :: "'g gstate_scheme vmenv \<Rightarrow> tval \<Rightarrow> tval \<Rightarrow> tval option \<times> 'g gstate_scheme \<Rightarrow> (bool \<times> 'g gstate_scheme) res" where
  "equal_tm E t1 t2 r =
     (case r of (None, G) \<Rightarrow> Inr (False, G) | (Some tm, G) \<Rightarrow> rbind (call1 E tm [t1, t2] G) (\<lambda>(r, G). Inr (\<not> l_isfalse r, G)))"

definition luaV_equalval :: "'g gstate_scheme vmenv \<Rightarrow> tval \<Rightarrow> tval \<Rightarrow> 'g gstate_scheme \<Rightarrow> (bool \<times> 'g gstate_scheme) res" where
  "luaV_equalval E t1 t2 G =
     (case (t1, t2) of
        (Vnil, Vnil) \<Rightarrow> Inr (True, G)
      | (Vnumber a, Vnumber b) \<Rightarrow> Inr (luai_numeq a b, G)
      | (Vboolean a, Vboolean b) \<Rightarrow> Inr (a = b, G)
      | (Vlightuserdata a, Vlightuserdata b) \<Rightarrow> Inr (a = b, G)
      | (Vuserdata a, Vuserdata b) \<Rightarrow> if a = b then Inr (True, G) else equal_tm E t1 t2 (get_compTM G (udmeta G a) (udmeta G b) TM_EQ)
      | (Vtable a, Vtable b) \<Rightarrow>
          if a = b then Inr (True, G) else equal_tm E t1 t2 (get_compTM G (metatable (tables G a)) (metatable (tables G b)) TM_EQ)
      | _ \<Rightarrow> Inr (t1 = t2, G))"

definition equalobj :: "'g gstate_scheme vmenv \<Rightarrow> tval \<Rightarrow> tval \<Rightarrow> 'g gstate_scheme \<Rightarrow> (bool \<times> 'g gstate_scheme) res" where
  "equalobj E t1 t2 G = (if ttype t1 = ttype t2 then luaV_equalval E t1 t2 G else Inr (False, G))"

section \<open>Arithmetic and conversions\<close>

definition tonum :: "'g gstate_scheme vmenv \<Rightarrow> 'g gstate_scheme \<Rightarrow> tval \<Rightarrow> lua_Number option" where
  "tonum E G v = luaV_tonumber (elib E) (map_TValue (chars G) v)"

definition luai_nummod :: "'g vmenv \<Rightarrow> lua_Number \<Rightarrow> lua_Number \<Rightarrow> lua_Number" where
  "luai_nummod E a b = luai_numsub a (luai_nummul (c_floor E (luai_numdiv a b)) b)"

definition arith_num :: "'g vmenv \<Rightarrow> TMS \<Rightarrow> lua_Number \<Rightarrow> lua_Number \<Rightarrow> lua_Number res" where
  "arith_num E op nb nc =
     (case op of
        TM_ADD \<Rightarrow> Inr (luai_numadd nb nc) | TM_SUB \<Rightarrow> Inr (luai_numsub nb nc) | TM_MUL \<Rightarrow> Inr (luai_nummul nb nc)
      | TM_DIV \<Rightarrow> Inr (luai_numdiv nb nc) | TM_MOD \<Rightarrow> Inr (luai_nummod E nb nc) | TM_POW \<Rightarrow> Inr (c_pow E nb nc)
      | TM_UNM \<Rightarrow> Inr (luai_numunm nb) | _ \<Rightarrow> Inl (Undefined ''Arith''))"

definition luaG_aritherror :: "'g gstate_scheme vmenv \<Rightarrow> 'g gstate_scheme \<Rightarrow> tval \<Rightarrow> tval \<Rightarrow> 'a res" where
  "luaG_aritherror E G p1 p2 = luaG_typeerror (if tonum E G p1 = None then p1 else p2) ''perform arithmetic on''"

definition Arith :: "'g gstate_scheme vmenv \<Rightarrow> tval \<Rightarrow> tval \<Rightarrow> TMS \<Rightarrow> 'g gstate_scheme \<Rightarrow> (tval \<times> 'g gstate_scheme) res" where
  "Arith E rb rc op G =
     (case (tonum E G rb, tonum E G rc) of
        (Some nb, Some nc) \<Rightarrow> rbind (arith_num E op nb nc) (\<lambda>n. Inr (Vnumber n, G))
      | _ \<Rightarrow> rbind (call_binTM E rb rc op G) (\<lambda>(r, G). case r of Some v \<Rightarrow> Inr (v, G) | None \<Rightarrow> luaG_aritherror E G rb rc))"

definition arith_op :: "'g gstate_scheme vmenv \<Rightarrow> tval \<Rightarrow> tval \<Rightarrow> TMS \<Rightarrow> 'g gstate_scheme \<Rightarrow> (tval \<times> 'g gstate_scheme) res" where
  "arith_op E rb rc op G =
     (case (rb, rc) of
        (Vnumber nb, Vnumber nc) \<Rightarrow> rbind (arith_num E op nb nc) (\<lambda>n. Inr (Vnumber n, G))
      | _ \<Rightarrow> Arith E rb rc op G)"

text \<open>\<open>tostring\<close> on a stack value: a string as it is, a number as its text.\<close>

definition tostring_bytes :: "'g gstate_scheme vmenv \<Rightarrow> 'g gstate_scheme \<Rightarrow> tval \<Rightarrow> bytes option" where
  "tostring_bytes E G v = (case v of Vstring p \<Rightarrow> Some (chars G p) | Vnumber n \<Rightarrow> Some (fmt14g (elib E) n) | _ \<Rightarrow> None)"

definition luaG_concaterror :: "tval \<Rightarrow> tval \<Rightarrow> 'a res" where
  "luaG_concaterror p1 p2 = luaG_typeerror (if ttype p1 = 4 \<or> ttype p1 = 3 then p2 else p1) ''concatenate''"

section \<open>The cache of absent metamethods\<close>

text \<open>
  A set flag means that the metatable has no such field. Only the first five events are cached.
\<close>

definition flags_ok :: "'g gstate_scheme \<Rightarrow> bool" where
  "flags_ok G = (\<forall>p e. bit (flags (tables G p)) (tm_bit e) \<longrightarrow> sval (tables G p) (luaH_getstr (strhash G) (tables G p) (tmname G e)) = Vnil)"

definition tables_ok :: "'g gstate_scheme \<Rightarrow> bool" where
  "tables_ok G = (\<forall>p. tab_ok (strhash G) (tables G p))"

definition raw_tm :: "'g gstate_scheme \<Rightarrow> ptr option \<Rightarrow> TMS \<Rightarrow> tval option" where
  "raw_tm G et e = (case et of None \<Rightarrow> None
     | Some p \<Rightarrow> let tm = sval (tables G p) (luaH_getstr (strhash G) (tables G p) (tmname G e)) in if ttisnil tm then None else Some tm)"

end
