(* ===== verification/Lvm_meta.thy ===== *)
theory Lvm_meta
  imports Lvm_ops
begin

text \<open>
  The cache of absent metamethods is sound: a flag of a table never hides a field the table has, and the
  indexing operations of lvm.c keep it so, also for tables that are their own metatable.
\<close>

section \<open>Assignment clears the flags\<close>

definition clears :: "newkey_fn \<Rightarrow> bool" where
  "clears nk = (\<forall>t k t' s. nk t k = Inr (t', s) \<longrightarrow> flags t = 0 \<longrightarrow> flags t' = 0)"

lemma flags_store [simp]: "flags (store t s v) = flags t"
  by (auto simp: store_def split: slot.split)

lemma flags_set_with: "clears nk \<Longrightarrow> luaH_set_with sh nk t k = Inr (t', s) \<Longrightarrow> flags t' = 0"
  by (fastforce simp: clears_def luaH_set_with_def Let_def split: if_splits)

lemma flags_setnum_with: "clears nk \<Longrightarrow> luaH_setnum_with nk t i = Inr (t', s) \<Longrightarrow> flags t = 0 \<Longrightarrow> flags t' = 0"
  by (auto simp: clears_def luaH_setnum_with_def Let_def split: if_splits)

lemma flags_reinsert_array:
  "clears nk \<Longrightarrow> reinsert_array nk i r t = Inr t' \<Longrightarrow> flags t = 0 \<Longrightarrow> flags t' = 0"
proof (induction nk i r t rule: reinsert_array.induct)
  case (2 nk i r t)
  show ?case
  proof (cases "ttisnil (tarray t ! i)")
    case True
    then show ?thesis using 2 by simp
  next
    case False
    then obtain t1 s where s: "luaH_setnum_with nk t (int i + 1) = Inr (t1, s)" "tarray t1 = tarray t"
      "reinsert_array nk (i + 1) r (store t1 s (tarray t ! i)) = Inr t'"
      using 2(4) by (auto simp: Let_def split: if_splits)
    then show ?thesis using "2.IH"(2) [OF refl False s(1) refl] 2(3,5) flags_setnum_with [OF 2(3) s(1) 2(5)] by simp
  qed
qed simp

lemma flags_reinsert_hash:
  "clears nk \<Longrightarrow> reinsert_hash sh nk nold i t = Inr t' \<Longrightarrow> flags t = 0 \<Longrightarrow> flags t' = 0"
proof (induction sh nk nold i t rule: reinsert_hash.induct)
  case (2 sh nk nold i t)
  then show ?case by (auto dest: flags_set_with split: if_splits)
qed simp

lemma flags_resize:
  assumes "clears nk" "resize_with sh nk t na nh = Inr t'" "flags t = 0"
  shows "flags t' = 0"
proof -
  obtain t1 t2 t3 where t: "t1 = (if sizearray t < na then setarrayvector t na else t)" "setnodevector t1 nh = Inr t2"
    "(if na < sizearray t then rbind (reinsert_array nk na (sizearray t - na) (t2\<lparr>sizearray := na\<rparr>))
        (\<lambda>t3. Inr (t3\<lparr>tarray := take na (tarray t3)\<rparr>)) else Inr t2) = Inr t3"
    "reinsert_hash sh nk (node t) (twoto (lsizenode t)) t3 = Inr t'"
    using assms(2) by (auto simp only: resize_with_def Let_def rbind_eq_Inr)
  have "flags t1 = 0" using assms(3) t(1) by (simp add: setarrayvector_def)
  then have "flags t2 = 0" using t(2) by (auto simp: setnodevector_def Let_def split: if_splits)
  then have "flags t3 = 0" using t(3) flags_reinsert_array [OF assms(1)] by (fastforce split: if_splits)
  then show ?thesis using t(4) flags_reinsert_hash [OF assms(1)] by blast
qed

lemma clears_newkey_with:
  assumes "clears nk"
  shows "clears (newkey_with sh nk)"
  unfolding clears_def
proof (intro allI impI)
  fix t k t' s assume n: "newkey_with sh nk t k = Inr (t', s)" "flags t = 0"
  obtain t1 fr where g: "getfreepos t = (t1, fr)" by (rule prod.exhaust)
  have t1: "flags t1 = 0" using g n(2) by (auto simp: getfreepos_def Let_def split: prod.splits if_splits)
  show "flags t' = 0"
  proof (cases "\<not> ttisnil (i_val (node t ! mainposition sh t k)) \<or> isdummy t")
    case False
    then show ?thesis using n by (auto simp: newkey_with_def Let_def set_key_def)
  next
    case True
    show ?thesis
    proof (cases fr)
      case None
      then obtain t2 where "rehash_with sh nk t1 k = Inr t2" "luaH_set_with sh nk t2 k = Inr (t', s)"
        using n(1) g True by (auto simp: newkey_with_def Let_def)
      then show ?thesis using flags_set_with [OF assms] by blast
    next
      case (Some m)
      then show ?thesis using n(1) g True t1
        by (auto simp: newkey_with_def Let_def set_key_def split: if_splits option.splits)
    qed
  qed
qed

lemma clears_newkey: "clears (newkey sh n)"
  by (induction n) (simp_all add: clears_newkey_with, simp add: clears_def)

lemma flags_luaH_set: "luaH_set sh t k = Inr (t', s) \<Longrightarrow> flags t' = 0"
  unfolding luaH_set_def by (rule flags_set_with [OF clears_newkey])

section \<open>The invariant\<close>

definition meta_ok :: "'g gstate_scheme \<Rightarrow> bool" where
  "meta_ok G = (flags_ok G \<and> tables_ok G)"

lemma getstr_tget: "sval t (luaH_getstr sh t s) = tget sh t (Vstring s)"
  by (simp add: sval_def tget_def luaH_get_def)

lemma tm_bit_inj: "tm_bit e = tm_bit e' \<Longrightarrow> e = e'"
  by (cases e; cases e') (simp_all add: tm_bit_def)

lemma meta_okD:
  assumes "meta_ok G"
  shows "tab_ok (strhash G) (tables G p)" "bit (flags (tables G p)) (tm_bit e) \<Longrightarrow> tget (strhash G) (tables G p) (Vstring (tmname G e)) = Vnil"
  using assms by (auto simp: meta_ok_def flags_ok_def tables_ok_def getstr_tget)

lemma meta_ok_set_table:
  assumes "meta_ok G" "tab_ok (strhash G) t"
    "\<And>e. bit (flags t) (tm_bit e) \<Longrightarrow> tget (strhash G) t (Vstring (tmname G e)) = Vnil"
  shows "meta_ok (set_table p t G)"
  using assms by (auto simp: meta_ok_def flags_ok_def tables_ok_def set_table_def getstr_tget)

lemma fasttm_ok:
  assumes "meta_ok G" "fasttm G et e = (r, G')"
  shows "meta_ok G' \<and> r = raw_tm G et e \<and> strhash G' = strhash G \<and> tmname G' = tmname G \<and>
    (\<forall>p. \<exists>x. tables G' p = (tables G p)\<lparr>flags := x\<rparr>)"
proof (cases et)
  case None
  have "\<exists>x. tables G p = (tables G p)\<lparr>flags := x\<rparr>" for p by (rule exI [where x = "flags (tables G p)"]) simp
  then show ?thesis using assms None by (auto simp: fasttm_def raw_tm_def)
next
  case (Some p)
  let ?t = "tables G p"
  have same: "\<exists>x. tables G q = (tables G q)\<lparr>flags := x\<rparr>" for q by (rule exI [where x = "flags (tables G q)"]) simp
  show ?thesis
  proof (cases "bit (flags ?t) (tm_bit e)")
    case True
    then show ?thesis using assms Some meta_okD(2) [OF assms(1) True] same
      by (auto simp: fasttm_def raw_tm_def getstr_tget ttisnil_def)
  next
    case False
    let ?v = "tget (strhash G) ?t (Vstring (tmname G e))"
    show ?thesis
    proof (cases "?v = Vnil")
      case False
      then show ?thesis using assms Some \<open>\<not> bit _ _\<close> same
        by (auto simp: fasttm_def luaT_gettm_def raw_tm_def getstr_tget ttisnil_def Let_def)
    next
      case True
      define f where "f = flags ?t OR push_bit (tm_bit e) 1"
      have G': "G' = set_table p (?t\<lparr>flags := f\<rparr>) G" "r = None"
        using assms(2) Some True False by (auto simp: fasttm_def luaT_gettm_def getstr_tget ttisnil_def Let_def f_def)
      have "e' = e \<or> bit (flags ?t) (tm_bit e')" if "bit f (tm_bit e')" for e'
        using that tm_bit_inj [of e' e] by (auto simp: f_def bit_simps)
      then have "meta_ok G'" unfolding G'(1) using True meta_okD [OF assms(1)] assms(1)
        by (intro meta_ok_set_table) auto
      moreover have "\<exists>x. tables G' q = (tables G q)\<lparr>flags := x\<rparr>" for q using same [of q] by (auto simp: G'(1) set_table_def)
      ultimately show ?thesis using G' Some True by (simp add: raw_tm_def getstr_tget ttisnil_def set_table_def)
    qed
  qed
qed

text \<open>What is asked of Lua functions called by metamethods.\<close>

definition calls_ok :: "'g gstate_scheme vmenv \<Rightarrow> bool" where
  "calls_ok E = ((\<forall>f vs G r G'. meta_ok G \<longrightarrow> call1 E f vs G = Inr (r, G') \<longrightarrow> meta_ok G') \<and>
     (\<forall>f vs G G'. meta_ok G \<longrightarrow> call0 E f vs G = Inr G' \<longrightarrow> meta_ok G'))"

lemma call_ens:
  assumes "calls_ok E" "meta_ok G"
  shows "ens (call1 E f vs G) (\<lambda>(r, G'). meta_ok G')"
proof (cases "call1 E f vs G")
  case (Inr x)
  obtain r G' where x: "x = (r, G')" by (rule prod.exhaust)
  have "meta_ok G'" using assms Inr unfolding calls_ok_def x by blast
  then show ?thesis using Inr x by simp
qed simp

lemma call0_ens:
  assumes "calls_ok E" "meta_ok G"
  shows "ens (call0 E f vs G) meta_ok"
proof (cases "call0 E f vs G")
  case (Inr G')
  have "meta_ok G'" using assms Inr unfolding calls_ok_def by blast
  then show ?thesis using Inr by simp
qed simp

lemma gettable_ens:
  assumes "calls_ok E"
  shows "meta_ok G \<Longrightarrow> ens (gettable_loop n E t k G) (\<lambda>(r, G'). meta_ok G')"
proof (induction n arbitrary: t G)
  case (Suc n)
  have again: "ens (if ttype tm = 6 then call1 E tm vs H else gettable_loop n E tm k H) (\<lambda>(r, G'). meta_ok G')"
    if "meta_ok H" for tm vs H
    using that Suc.IH call_ens [OF assms] by auto
  show ?case
  proof (cases "\<exists>p. t = Vtable p")
    case True
    then obtain p where p: "t = Vtable p" by blast
    obtain r H where f: "fasttm G (metatable (tables G p)) TM_INDEX = (r, H)" by (rule prod.exhaust)
    have "meta_ok H" using fasttm_ok [OF Suc.prems f] by blast
    then show ?thesis using again [of H] Suc.prems by (cases r) (auto simp: p f Let_def)
  next
    case False
    then show ?thesis using again [OF Suc.prems] by (cases t) (auto simp: Let_def luaG_typeerror_def luaG_runerror_def)
  qed
qed (simp add: luaG_runerror_def)

lemma settable_ens:
  assumes "calls_ok E" "\<And>q. k \<noteq> Vdeadkey q"
  shows "meta_ok G \<Longrightarrow> ens (settable_loop n E t k v G) meta_ok"
proof (induction n arbitrary: t G)
  case (Suc n)
  have again: "ens (if ttype tm = 6 then call0 E tm vs H else settable_loop n E tm k v H) meta_ok"
    if "meta_ok H" for tm vs H
    using that Suc.IH call0_ens [OF assms(1)] by auto
  show ?case
  proof (cases "\<exists>p. t = Vtable p")
    case True
    then obtain p where p: "t = Vtable p" by blast
    show ?thesis
    proof (cases "luaH_set (strhash G) (tables G p) k")
      case (Inl e)
      then show ?thesis by (simp add: p)
    next
      case (Inr hs)
      obtain h s where hs: "luaH_set (strhash G) (tables G p) k = Inr (h, s)" using Inr by (cases hs) auto
      note okp = meta_okD [OF Suc.prems, of p]
      have k: "proper k" "no_nan k" using luaH_set_key [OF okp(1) hs] assms(2) by (auto simp: proper_def split: TValue.split)
      have post: "tab_ok (strhash G) h" "luaH_get (strhash G) h k = s" "s \<noteq> NilObject"
        "\<And>k'. proper k' \<Longrightarrow> tget (strhash G) h k' = tget (strhash G) (tables G p) k'"
        using set_total [OF okp(1) k] hs by (auto simp: set_post_def)
      define H where "H = set_table p h G"
      have H: "meta_ok H" unfolding H_def using Suc.prems post(1) flags_luaH_set [OF hs]
        by (intro meta_ok_set_table) simp_all
      have put: "meta_ok (set_table p ((store (tables K p) s v)\<lparr>flags := 0\<rparr>) K)"
        if "meta_ok K" "strhash K = strhash G" "tables K p = h\<lparr>flags := x\<rparr>" for K x
        using that(1) by (rule meta_ok_set_table)
          (use tab_ok_store(1) [of "strhash G" "h\<lparr>flags := x\<rparr>" k s v] post k that in \<open>simp_all add: tab_ok_store(1)\<close>)
      obtain r K where f: "fasttm H (metatable h) TM_NEWINDEX = (r, K)" by (rule prod.exhaust)
      have "meta_ok K \<and> strhash K = strhash H \<and> (\<exists>x. tables K p = (tables H p)\<lparr>flags := x\<rparr>)" using fasttm_ok [OF H f] by blast
      then have K: "meta_ok K" "strhash K = strhash G" "\<exists>x. tables K p = h\<lparr>flags := x\<rparr>" by (auto simp: H_def set_table_def)
      have "\<exists>x. tables H p = h\<lparr>flags := x\<rparr>" by (rule exI [where x = "flags h"]) (simp add: H_def set_table_def)
      then have "meta_ok (set_table p ((store (tables H p) s v)\<lparr>flags := 0\<rparr>) H)"
        using put [OF H] by (auto simp: H_def set_table_def)
      then show ?thesis using put [OF K(1,2)] K(3) again [OF K(1)] f hs
        by (cases r) (auto simp: p Let_def H_def [symmetric] simp del: settable_loop.simps(1) split: option.splits)
    qed
  next
    case False
    then show ?thesis using again [OF Suc.prems] by (cases t) (auto simp: Let_def luaG_typeerror_def luaG_runerror_def)
  qed
qed (simp add: luaG_runerror_def)


section \<open>Examples\<close>

definition array_table :: "tval list \<Rightarrow> Table" where
  "array_table vs = empty_table\<lparr>tarray := vs, sizearray := length vs\<rparr>"

lemma array_table_ok: "length vs \<le> MAXASIZE \<Longrightarrow> tab_ok sh (array_table vs)"
proof -
  assume "length vs \<le> MAXASIZE"
  moreover have "setnodevector (array_table vs) 0 = Inr (array_table vs)" by (simp add: setnodevector_def array_table_def empty_table_def)
  ultimately show ?thesis using setnodevector_fresh [of "array_table vs" 0 sh] by (auto simp: array_table_def)
qed

definition sample_state :: "Table \<Rightarrow> gstate" where
  "sample_state t = \<lparr>tables = (\<lambda>_. t), chars = (\<lambda>_. []), strhash = (\<lambda>_. 0), udmeta = (\<lambda>_. None), gmt = (\<lambda>_. None), tmname = (\<lambda>e. word_of_nat (tm_bit e))\<rparr>"

definition sample_env :: "gstate vmenv" where
  "sample_env = \<lparr>call0 = (\<lambda>_ _ G. Inr G), call1 = (\<lambda>_ _ G. Inr (Vnil, G)), newlstr_at = (\<lambda>_ G. Inr (0, G)), strcoll = (\<lambda>_ _. 0), c_floor = (\<lambda>x. x), c_pow = (\<lambda>x _. x),
     elib = \<lparr>ar = None, strtod = (\<lambda>_. (num_zero, 0)), strtoul16 = (\<lambda>_. (0, 0)), fmt14g = (\<lambda>_. [])\<rparr>\<rparr>"

lemma tab_ok_metatable [simp]: "tab_ok sh (t\<lparr>metatable := m\<rparr>) = tab_ok sh t"
proof -
  have "mainposition sh (t\<lparr>metatable := m\<rparr>) = mainposition sh t" by (rule mainposition_cong) simp
  then show ?thesis by (simp add: tab_ok_def sizenode_def arr_key_def)
qed

definition self_meta :: Table where
  "self_meta = (array_table [])\<lparr>metatable := Some 0\<rparr>"

lemma self_meta_ok: "meta_ok (sample_state self_meta)"
proof -
  have ok: "tab_ok sh self_meta" for sh by (simp add: self_meta_def array_table_ok)
  have "tget sh self_meta (Vstring s) = Vnil" for sh s
    by (rule tget_empty [OF ok]) (simp_all add: self_meta_def array_table_def empty_table_def live_entries_def nilnode_def proper_def arr_key_def arrayindex_def)
  then show ?thesis using ok by (simp add: meta_ok_def flags_ok_def tables_ok_def sample_state_def getstr_tget)
qed

lemma sample_calls_ok: "calls_ok sample_env"
  by (simp add: calls_ok_def sample_env_def)


end
