(* ===== verification/Lsort.thy ===== *)
theory Lsort
  imports Prelude "HOL-Library.Multiset"
begin

text \<open>
  ltablib.c: \<open>auxsort\<close>, the quicksort of \<open>table.sort\<close>, over any array that can be read and written at integer
  positions and any comparison, both acting on a state (the comparison is a Lua function that may do
  anything). The locale \<open>sort_array\<close> says what the sort needs to be right: reads see writes, and the
  comparison is a strict weak order that leaves the state alone. The interpretation on tables is in Ltablib.
\<close>

section \<open>The code\<close>

record ('s, 'v) arrops =
  a_get :: "int \<Rightarrow> 's \<Rightarrow> 'v"
  a_set :: "int \<Rightarrow> 'v \<Rightarrow> 's \<Rightarrow> 's res"
  a_less :: "'v \<Rightarrow> 'v \<Rightarrow> 's \<Rightarrow> (bool \<times> 's) res"

text \<open>\<open>set2\<close> with the two topmost stack values, the top first.\<close>

definition set2 :: "('s, 'v) arrops \<Rightarrow> int \<Rightarrow> int \<Rightarrow> 'v \<Rightarrow> 'v \<Rightarrow> 's \<Rightarrow> 's res" where
  "set2 A i j top1 top2 s = rbind (a_set A i top1 s) (a_set A j top2)"

definition bad_order :: "'a res" where
  "bad_order = Inl (RunError ''invalid order function for sorting'')"

text \<open>\<open>repeat ++i until a[i] >= P\<close>: the position, the value there and the state.\<close>

function up_loop :: "('s, 'v) arrops \<Rightarrow> 'v \<Rightarrow> int \<Rightarrow> int \<Rightarrow> 's \<Rightarrow> (int \<times> 'v \<times> 's) res" where
  "up_loop A P u i s =
     (let i = i + 1; v = a_get A i s
      in rbind (a_less A v P s) (\<lambda>(b, s).
           if b then if i > u then bad_order else up_loop A P u i s else Inr (i, v, s)))"
  by pat_completeness auto
termination
  by (relation "measure (\<lambda>(A, P, u, i, s). nat (u + 1 - i))") auto

declare up_loop.simps [simp del]

text \<open>\<open>repeat --j until a[j] <= P\<close>.\<close>

function down_loop :: "('s, 'v) arrops \<Rightarrow> 'v \<Rightarrow> int \<Rightarrow> int \<Rightarrow> 's \<Rightarrow> (int \<times> 'v \<times> 's) res" where
  "down_loop A P l j s =
     (let j = j - 1; v = a_get A j s
      in rbind (a_less A P v s) (\<lambda>(b, s).
           if b then if j < l then bad_order else down_loop A P l j s else Inr (j, v, s)))"
  by pat_completeness auto
termination
  by (relation "measure (\<lambda>(A, P, l, j, s). nat (j + 1 - l))") auto

declare down_loop.simps [simp del]

lemma up_loop_gt: "up_loop A P u i s = Inr (i', v, s') \<Longrightarrow> i < i'"
proof (induction A P u i s rule: up_loop.induct)
  case (1 A P u i s)
  then show ?case by (subst (asm) (2) up_loop.simps) (fastforce simp: Let_def bad_order_def split: if_splits prod.splits)
qed

lemma down_loop_lt: "down_loop A P l j s = Inr (j', v, s') \<Longrightarrow> j' < j"
proof (induction A P l j s rule: down_loop.induct)
  case (1 A P l j s)
  then show ?case by (subst (asm) (2) down_loop.simps) (fastforce simp: Let_def bad_order_def split: if_splits prod.splits)
qed

text \<open>The partition: the final \<open>i\<close> and the state.\<close>

function part_loop :: "('s, 'v) arrops \<Rightarrow> 'v \<Rightarrow> int \<Rightarrow> int \<Rightarrow> int \<Rightarrow> int \<Rightarrow> 's \<Rightarrow> (int \<times> 's) res" where
  "part_loop A P l u i j s =
     rbind (up_loop A P u i s) (\<lambda>(i', vi, s).
     rbind (down_loop A P l j s) (\<lambda>(j', vj, s).
       if j' < i' then Inr (i', s)
       else rbind (set2 A i' j' vj vi s) (part_loop A P l u i' j')))"
  by pat_completeness auto
termination
  by (relation "measure (\<lambda>(A, P, l, u, i, j, s). nat (j - i))") (auto dest!: up_loop_gt down_loop_lt)

declare part_loop.simps [simp del]

text \<open>The first part of the loop body: orders \<open>a[l]\<close>, \<open>a[(l+u)/2]\<close> and \<open>a[u]\<close>; true when nothing is left to do.\<close>

definition order_ends :: "('s, 'v) arrops \<Rightarrow> int \<Rightarrow> int \<Rightarrow> 's \<Rightarrow> 's res" where
  "order_ends A l u s =
     (let vl = a_get A l s; vu = a_get A u s
      in rbind (a_less A vu vl s) (\<lambda>(b, s). if b then set2 A l u vu vl s else Inr s))"

definition order_mid :: "('s, 'v) arrops \<Rightarrow> int \<Rightarrow> int \<Rightarrow> int \<Rightarrow> 's \<Rightarrow> 's res" where
  "order_mid A l u i s =
     (let vi = a_get A i s; vl = a_get A l s
      in rbind (a_less A vi vl s) (\<lambda>(b, s).
           if b then set2 A i l vl vi s
           else let vu = a_get A u s
                in rbind (a_less A vu vi s) (\<lambda>(b, s). if b then set2 A i u vu vi s else Inr s)))"

definition partition :: "('s, 'v) arrops \<Rightarrow> int \<Rightarrow> int \<Rightarrow> int \<Rightarrow> 's \<Rightarrow> (int \<times> 's) res" where
  "partition A l u i s =
     (let P = a_get A i s; v = a_get A (u - 1) s
      in rbind (set2 A i (u - 1) v P s) (\<lambda>s.
         rbind (part_loop A P l u l (u - 1) s) (\<lambda>(i, s).
           let x = a_get A (u - 1) s; y = a_get A i s
           in rbind (set2 A (u - 1) i y x s) (\<lambda>s. Inr (i, s)))))"

text \<open>
  The first argument bounds the rounds and nested calls; the comparison can make the code loop, a strict weak
  order cannot (\<open>auxsort_sorts\<close>: one more than the length is enough).
\<close>

primrec auxsort :: "nat \<Rightarrow> ('s, 'v) arrops \<Rightarrow> int \<Rightarrow> int \<Rightarrow> 's \<Rightarrow> 's res" where
  "auxsort 0 A l u s = Inl (Undefined ''fuel'')"
| "auxsort (Suc n) A l u s =
     (if \<not> l < u then Inr s
      else rbind (order_ends A l u s) (\<lambda>s.
        if u - l = 1 then Inr s
        else if l + u \<ge> 2 ^ 31 then Inl (Undefined ''int overflow'')
        else let i = (l + u) div 2 in rbind (order_mid A l u i s) (\<lambda>s.
          if u - l = 2 then Inr s
          else rbind (partition A l u i s) (\<lambda>(i, s).
            let (j, i, l, u) = (if i - l < u - i then (l, i - 1, i + 1, u) else (i + 1, u, l, i - 1))
            in rbind (auxsort n A j i s) (auxsort n A l u)))))"

section \<open>Rearrangements\<close>

text \<open>\<open>g\<close> has the values of \<open>f\<close> between \<open>l\<close> and \<open>u\<close> in some order, and is \<open>f\<close> elsewhere.\<close>

definition rearr :: "int \<Rightarrow> int \<Rightarrow> (int \<Rightarrow> 'v) \<Rightarrow> (int \<Rightarrow> 'v) \<Rightarrow> bool" where
  "rearr l u f g = (image_mset g (mset_set {l..u}) = image_mset f (mset_set {l..u}) \<and> (\<forall>k. k \<notin> {l..u} \<longrightarrow> g k = f k))"

definition swap :: "(int \<Rightarrow> 'v) \<Rightarrow> int \<Rightarrow> int \<Rightarrow> int \<Rightarrow> 'v" where
  "swap f i j = f(i := f j, j := f i)"

lemma rearr_refl: "rearr l u f f"
  by (simp add: rearr_def)

lemma rearr_trans: "rearr l u f g \<Longrightarrow> rearr l u g h \<Longrightarrow> rearr l u f h"
  by (simp add: rearr_def)

lemma rearr_image: "rearr l u f g \<Longrightarrow> g ` {l..u} = f ` {l..u}"
proof -
  assume "rearr l u f g"
  then have "set_mset (image_mset g (mset_set {l..u})) = set_mset (image_mset f (mset_set {l..u}))" by (simp add: rearr_def)
  then show ?thesis by simp
qed

lemma rearr_ball: "rearr l u f g \<Longrightarrow> (\<forall>k \<in> {l..u}. Q (f k)) \<Longrightarrow> (\<forall>k \<in> {l..u}. Q (g k))"
  using rearr_image [of l u f g] by (metis imageE imageI)

lemma rearr_widen:
  assumes "rearr l u f g" "l' \<le> l" "u \<le> u'"
  shows "rearr l' u' f g"
proof (cases "l \<le> u")
  case True
  have d: "{l'..u'} = {l..u} \<union> ({l'..u'} - {l..u})" "finite {l'..u'}" using assms True by auto
  have "mset_set ({l..u} \<union> ({l'..u'} - {l..u})) = mset_set {l..u} + mset_set ({l'..u'} - {l..u})"
    by (rule mset_set_Union) auto
  then have "image_mset h (mset_set {l'..u'}) = image_mset h (mset_set {l..u}) + image_mset h (mset_set ({l'..u'} - {l..u}))" for h :: "int \<Rightarrow> 'a"
    unfolding d(1) [symmetric] by simp
  moreover have "image_mset g (mset_set ({l'..u'} - {l..u})) = image_mset f (mset_set ({l'..u'} - {l..u}))"
    using assms(1) by (intro image_mset_cong) (auto simp: rearr_def)
  ultimately show ?thesis using assms by (auto simp: rearr_def)
next
  case False
  then have "g = f" using assms(1) by (auto simp: rearr_def)
  then show ?thesis by (simp add: rearr_refl)
qed

lemma rearr_swap:
  assumes "i \<in> {l..u}" "j \<in> {l..u}"
  shows "rearr l u f (swap f i j)"
proof (cases "i = j")
  case True
  then show ?thesis by (simp add: swap_def rearr_refl)
next
  case False
  define R where "R = {l..u} - {i, j}"
  have d: "{l..u} = insert i (insert j R)" "finite R" "i \<notin> insert j R" "j \<notin> R" using assms False by (auto simp: R_def)
  have m: "image_mset h (mset_set {l..u}) = add_mset (h i) (add_mset (h j) (image_mset h (mset_set R)))" for h :: "int \<Rightarrow> 'a"
    unfolding d(1) using d(2-4) by simp
  have "image_mset (swap f i j) (mset_set R) = image_mset f (mset_set R)"
    by (intro image_mset_cong) (auto simp: swap_def R_def)
  then have "image_mset (swap f i j) (mset_set {l..u}) = image_mset f (mset_set {l..u})"
    unfolding m using False by (simp add: swap_def add_mset_commute)
  then show ?thesis using assms by (auto simp: rearr_def swap_def)
qed

lemma swap_self_mono: "swap f i j k = (if k = j then f i else if k = i then f j else f k)"
  by (simp add: swap_def)

section \<open>The sort on an array that behaves\<close>

locale sort_array =
  fixes A :: "('s, 'v) arrops" and n :: int and ok :: "'s \<Rightarrow> bool" and frame :: "'s \<Rightarrow> 's \<Rightarrow> bool"
    and good :: "'v \<Rightarrow> bool" and lt :: "'v \<Rightarrow> 'v \<Rightarrow> bool"
  assumes a_set: "ok s \<Longrightarrow> 1 \<le> i \<Longrightarrow> i \<le> n \<Longrightarrow> good v \<Longrightarrow>
      \<exists>s'. a_set A i v s = Inr s' \<and> ok s' \<and> frame s s' \<and> (\<forall>j. 1 \<le> j \<longrightarrow> j \<le> n \<longrightarrow> a_get A j s' = (if j = i then v else a_get A j s))"
    and a_get: "ok s \<Longrightarrow> 1 \<le> i \<Longrightarrow> i \<le> n \<Longrightarrow> good (a_get A i s)"
    and a_less: "ok s \<Longrightarrow> good a \<Longrightarrow> good b \<Longrightarrow> a_less A a b s = Inr (lt a b, s)"
    and lt_asym: "good a \<Longrightarrow> good b \<Longrightarrow> lt a b \<Longrightarrow> \<not> lt b a"
    and le_trans: "good a \<Longrightarrow> good b \<Longrightarrow> good c \<Longrightarrow> \<not> lt b a \<Longrightarrow> \<not> lt c b \<Longrightarrow> \<not> lt c a"
    and frame_refl: "frame s s"
    and frame_trans: "frame s s' \<Longrightarrow> frame s' s'' \<Longrightarrow> frame s s''"
begin

definition view :: "'s \<Rightarrow> int \<Rightarrow> 'v" where
  "view s i = (if 1 \<le> i \<and> i \<le> n then a_get A i s else undefined)"

text \<open>A step on a state that only rearranges the positions from \<open>l\<close> to \<open>u\<close>.\<close>

definition step :: "int \<Rightarrow> int \<Rightarrow> 's \<Rightarrow> 's \<Rightarrow> bool" where
  "step l u s s' = (ok s' \<and> frame s s' \<and> rearr l u (view s) (view s'))"

lemma step_refl: "ok s \<Longrightarrow> step l u s s"
  by (simp add: step_def frame_refl rearr_refl)

lemma step_trans: "step l u s s' \<Longrightarrow> step l u s' s'' \<Longrightarrow> step l u s s''"
  by (meson step_def frame_trans rearr_trans)

lemma step_widen: "step l u s s' \<Longrightarrow> l' \<le> l \<Longrightarrow> u \<le> u' \<Longrightarrow> step l' u' s s'"
  by (meson step_def rearr_widen)

lemma step_ok: "step l u s s' \<Longrightarrow> ok s'"
  by (simp add: step_def)

lemma view_good: "ok s \<Longrightarrow> 1 \<le> i \<Longrightarrow> i \<le> n \<Longrightarrow> good (view s i)"
  by (simp add: view_def a_get)

lemma view_eq: "1 \<le> i \<Longrightarrow> i \<le> n \<Longrightarrow> a_get A i s = view s i"
  by (simp add: view_def)

lemma set_view: "ok s \<Longrightarrow> 1 \<le> i \<Longrightarrow> i \<le> n \<Longrightarrow> good v \<Longrightarrow> \<exists>s'. a_set A i v s = Inr s' \<and> ok s' \<and> frame s s' \<and> view s' = (view s)(i := v)"
  using a_set [of s i v] by (fastforce simp: view_def fun_eq_iff)

lemma swap_step:
  assumes "ok s" "1 \<le> l" "l \<le> i" "i \<le> u" "l \<le> j" "j \<le> u" "u \<le> n"
  shows "\<exists>s'. set2 A i j (view s j) (view s i) s = Inr s' \<and> step l u s s' \<and> view s' = swap (view s) i j"
proof -
  have g: "good (view s i)" "good (view s j)" using assms by (auto intro: view_good)
  obtain s1 where s1: "a_set A i (view s j) s = Inr s1" "ok s1" "frame s s1" "view s1 = (view s)(i := view s j)"
    using set_view [of s i "view s j"] assms g by auto
  obtain s2 where s2: "a_set A j (view s i) s1 = Inr s2" "ok s2" "frame s1 s2" "view s2 = (view s1)(j := view s i)"
    using set_view [of s1 j "view s i"] assms g s1 by auto
  have "view s2 = swap (view s) i j" using s1 s2 by (simp add: swap_def)
  moreover have "rearr l u (view s) (swap (view s) i j)" using assms by (intro rearr_swap) auto
  ultimately show ?thesis using s1 s2 frame_trans [OF s1(3) s2(3)] by (simp add: set2_def step_def)
qed

lemma le_refl: "good a \<Longrightarrow> \<not> lt a a"
  using lt_asym by blast

section \<open>Partition\<close>

lemma up_loop_stops:
  "ok s \<Longrightarrow> good P \<Longrightarrow> 0 \<le> i \<Longrightarrow> i < k \<Longrightarrow> k \<le> u \<Longrightarrow> u \<le> n \<Longrightarrow> \<not> lt (view s k) P \<Longrightarrow>
   \<exists>i'. up_loop A P u i s = Inr (i', view s i', s) \<and> i < i' \<and> i' \<le> k \<and> (\<forall>m. i < m \<and> m < i' \<longrightarrow> lt (view s m) P) \<and> \<not> lt (view s i') P"
proof (induction "nat (k - i)" arbitrary: i rule: less_induct)
  case less
  have v: "a_get A (i + 1) s = view s (i + 1)" "good (view s (i + 1))" using less.prems by (auto intro: view_eq view_good)
  have c: "a_less A (view s (i + 1)) P s = Inr (lt (view s (i + 1)) P, s)" using a_less less.prems v by blast
  show ?case
  proof (cases "lt (view s (i + 1)) P")
    case True
    then have k: "i + 1 < k" using less.prems by (cases "k = i + 1") auto
    obtain i' where i': "up_loop A P u (i + 1) s = Inr (i', view s i', s)" "i + 1 < i'" "i' \<le> k"
        "\<forall>m. i + 1 < m \<and> m < i' \<longrightarrow> lt (view s m) P" "\<not> lt (view s i') P"
      using less.hyps [of "i + 1"] less.prems k by auto
    have "up_loop A P u i s = Inr (i', view s i', s)"
      using v c True k less.prems i'(1) by (subst up_loop.simps) (simp add: Let_def)
    moreover have "\<forall>m. i < m \<and> m < i' \<longrightarrow> lt (view s m) P"
      using i'(4) True by (metis add1_zle_eq order_le_less)
    ultimately show ?thesis using i' by auto
  next
    case False
    then have "up_loop A P u i s = Inr (i + 1, view s (i + 1), s)" using v c by (subst up_loop.simps) (simp add: Let_def)
    then show ?thesis using False less.prems by auto
  qed
qed

lemma down_loop_stops:
  "ok s \<Longrightarrow> good P \<Longrightarrow> j \<le> n + 1 \<Longrightarrow> k < j \<Longrightarrow> l \<le> k \<Longrightarrow> 1 \<le> l \<Longrightarrow> \<not> lt P (view s k) \<Longrightarrow>
   \<exists>j'. down_loop A P l j s = Inr (j', view s j', s) \<and> j' < j \<and> k \<le> j' \<and> (\<forall>m. j' < m \<and> m < j \<longrightarrow> lt P (view s m)) \<and> \<not> lt P (view s j')"
proof (induction "nat (j - k)" arbitrary: j rule: less_induct)
  case less
  have v: "a_get A (j - 1) s = view s (j - 1)" "good (view s (j - 1))" using less.prems by (auto intro: view_eq view_good)
  have c: "a_less A P (view s (j - 1)) s = Inr (lt P (view s (j - 1)), s)" using a_less less.prems v by blast
  show ?case
  proof (cases "lt P (view s (j - 1))")
    case True
    then have k: "k < j - 1" using less.prems by (cases "k = j - 1") auto
    obtain j' where j': "down_loop A P l (j - 1) s = Inr (j', view s j', s)" "j' < j - 1" "k \<le> j'"
        "\<forall>m. j' < m \<and> m < j - 1 \<longrightarrow> lt P (view s m)" "\<not> lt P (view s j')"
      using less.hyps [of "j - 1"] less.prems k by auto
    have "down_loop A P l j s = Inr (j', view s j', s)"
      using v c True k less.prems j'(1) by (subst down_loop.simps) (simp add: Let_def)
    moreover have "\<forall>m. j' < m \<and> m < j \<longrightarrow> lt P (view s m)"
      using j'(4) True by (metis add_diff_cancel_right' diff_add_cancel order_le_less zle_diff1_eq)
    ultimately show ?thesis using j' by auto
  next
    case False
    then have "down_loop A P l j s = Inr (j - 1, view s (j - 1), s)" using v c by (subst down_loop.simps) (simp add: Let_def)
    then show ?thesis using False less.prems by auto
  qed
qed

definition part_inv :: "'v \<Rightarrow> int \<Rightarrow> int \<Rightarrow> int \<Rightarrow> int \<Rightarrow> (int \<Rightarrow> 'v) \<Rightarrow> bool" where
  "part_inv P l u i j f = (l \<le> i \<and> i \<le> j \<and> j \<le> u - 1 \<and> i < u - 1 \<and> (i = j \<longrightarrow> l < i)
     \<and> (\<forall>m. l \<le> m \<and> m \<le> i \<longrightarrow> \<not> lt P (f m)) \<and> (\<forall>m. j \<le> m \<and> m \<le> u \<longrightarrow> \<not> lt (f m) P))"

definition parted :: "'v \<Rightarrow> int \<Rightarrow> int \<Rightarrow> int \<Rightarrow> (int \<Rightarrow> 'v) \<Rightarrow> bool" where
  "parted P l u i f = (l < i \<and> i \<le> u - 1 \<and> (\<forall>m. l \<le> m \<and> m < i \<longrightarrow> \<not> lt P (f m)) \<and> (\<forall>m. i \<le> m \<and> m \<le> u \<longrightarrow> \<not> lt (f m) P))"

lemma part_loop_parts:
  "ok s \<Longrightarrow> good P \<Longrightarrow> 1 \<le> l \<Longrightarrow> u \<le> n \<Longrightarrow> part_inv P l u i j (view s) \<Longrightarrow>
   \<exists>i' s'. part_loop A P l u i j s = Inr (i', s') \<and> step (l + 1) (u - 2) s s' \<and> parted P l u i' (view s')"
proof (induction "nat (j - i)" arbitrary: i j s rule: less_induct)
  case less
  note inv = less.prems(5) [unfolded part_inv_def]
  let ?f = "view s"
  have "i < max (i + 1) j" "max (i + 1) j \<le> u" "\<not> lt (?f (max (i + 1) j)) P" using inv by auto
  then obtain i' where i': "up_loop A P u i s = Inr (i', ?f i', s)" "i < i'" "i' \<le> max (i + 1) j"
      "\<forall>m. i < m \<and> m < i' \<longrightarrow> lt (?f m) P" "\<not> lt (?f i') P"
    using up_loop_stops [OF less.prems(1,2), of i "max (i + 1) j" u] inv less.prems by auto
  have "min i (j - 1) < j" "l \<le> min i (j - 1)" "\<not> lt P (?f (min i (j - 1)))" using inv by auto
  then obtain j' where j': "down_loop A P l j s = Inr (j', ?f j', s)" "j' < j" "min i (j - 1) \<le> j'"
      "\<forall>m. j' < m \<and> m < j \<longrightarrow> lt P (?f m)" "\<not> lt P (?f j')"
    using down_loop_stops [OF less.prems(1,2), of j "min i (j - 1)" l] inv less.prems by auto
  have g: "good (?f m)" if "l \<le> m" "m \<le> u" for m using view_good [OF less.prems(1)] that less.prems by auto
  have low: "\<not> lt P (?f m)" if "l \<le> m" "m < i'" for m
  proof (cases "m \<le> i")
    case False
    then show ?thesis using i'(3,4) that inv lt_asym [OF g less.prems(2)] by auto
  qed (use inv that in auto)
  have high: "\<not> lt (?f m) P" if "j' < m" "m \<le> u" for m
  proof (cases "j \<le> m")
    case False
    then show ?thesis using j'(3,4) that inv lt_asym [OF less.prems(2) g] by auto
  qed (use inv that in auto)
  show ?case
  proof (cases "j' < i'")
    case True
    have "part_loop A P l u i j s = Inr (i', s)" using i'(1) j'(1) True by (subst part_loop.simps) simp
    moreover have "\<not> lt (?f m) P" if "i' \<le> m" "m \<le> u" for m using i'(5) high [of m] that True by (cases "m = i'") auto
    then have "parted P l u i' ?f" using low i' inv by (auto simp: parted_def)
    ultimately show ?thesis using step_refl [OF less.prems(1)] by blast
  next
    case False
    then have r: "l + 1 \<le> i'" "i' \<le> j'" "j' \<le> u - 2" using i' j' inv by auto
    obtain s1 where s1: "set2 A i' j' (?f j') (?f i') s = Inr s1" "step (l + 1) (u - 2) s s1" "view s1 = swap ?f i' j'"
      using swap_step [OF less.prems(1), of "l + 1" i' "u - 2" j'] r less.prems by auto
    have "\<not> lt P (view s1 m)" if "l \<le> m" "m \<le> i'" for m
      using low [of m] j'(5) that r by (auto simp: s1(3) swap_self_mono)
    moreover have "\<not> lt (view s1 m) P" if "j' \<le> m" "m \<le> u" for m
      using high [of m] i'(5) that r by (auto simp: s1(3) swap_self_mono)
    ultimately have "part_inv P l u i' j' (view s1)" using r by (auto simp: part_inv_def)
    moreover have "nat (j' - i') < nat (j - i)" using i'(2) j'(2) r by auto
    ultimately obtain i2 s2 where "part_loop A P l u i' j' s1 = Inr (i2, s2)" "step (l + 1) (u - 2) s1 s2" "parted P l u i2 (view s2)"
      using less.hyps [of j' i' s1] less.prems step_ok [OF s1(2)] by blast
    moreover from this have "part_loop A P l u i j s = Inr (i2, s2)"
      using i'(1) j'(1) False s1(1) by (subst part_loop.simps) simp
    ultimately show ?thesis using step_trans [OF s1(2)] by blast
  qed
qed

definition split_at :: "int \<Rightarrow> int \<Rightarrow> int \<Rightarrow> (int \<Rightarrow> 'v) \<Rightarrow> bool" where
  "split_at l u i f = (l < i \<and> i \<le> u - 1 \<and> (\<forall>m. l \<le> m \<and> m < i \<longrightarrow> \<not> lt (f i) (f m)) \<and> (\<forall>m. i < m \<and> m \<le> u \<longrightarrow> \<not> lt (f m) (f i)))"

lemma partition_splits:
  assumes "ok s" "1 \<le> l" "u \<le> n" "l < i" "i < u" "l < u - 1" "\<not> lt (view s i) (view s l)" "\<not> lt (view s u) (view s i)"
  shows "\<exists>i' s'. partition A l u i s = Inr (i', s') \<and> step l u s s' \<and> split_at l u i' (view s')"
proof -
  define P where "P = view s i"
  have P: "good P" using assms by (auto simp: P_def intro: view_good)
  have rd: "a_get A i s = P" "a_get A (u - 1) s = view s (u - 1)" using assms by (auto simp: P_def view_eq)
  obtain s1 where s1: "set2 A i (u - 1) (view s (u - 1)) (view s i) s = Inr s1" "step l u s s1" "view s1 = swap (view s) i (u - 1)"
    using swap_step [OF assms(1), of l i u "u - 1"] assms by auto
  have ends: "view s1 l = view s l" "view s1 u = view s u" "view s1 (u - 1) = P"
    using assms by (auto simp: s1(3) swap_self_mono P_def)
  have high: "\<not> lt (view s1 m) P" if "u - 1 \<le> m" "m \<le> u" for m
  proof -
    have "m = u - 1 \<or> m = u" using that by auto
    then show ?thesis using ends assms(8) le_refl [OF P] by (auto simp: P_def)
  qed
  have low: "\<not> lt P (view s1 m)" if "l \<le> m" "m \<le> l" for m
  proof -
    have "m = l" using that by simp
    then show ?thesis using ends(1) assms(7) by (simp add: P_def)
  qed
  have "part_inv P l u l (u - 1) (view s1)"
    using assms(6) high low by (auto simp: part_inv_def)
  then obtain i' s2 where s2: "part_loop A P l u l (u - 1) s1 = Inr (i', s2)" "step (l + 1) (u - 2) s1 s2" "parted P l u i' (view s2)"
    using part_loop_parts [OF step_ok [OF s1(2)] P assms(2,3)] by blast
  have P2: "view s2 (u - 1) = P" using s2(2) ends(3) by (simp add: step_def rearr_def)
  have r: "l < i'" "i' \<le> u - 1" using s2(3) by (auto simp: parted_def)
  obtain s3 where s3: "set2 A (u - 1) i' (view s2 i') (view s2 (u - 1)) s2 = Inr s3" "step l u s2 s3" "view s3 = swap (view s2) (u - 1) i'"
    using swap_step [OF step_ok [OF s2(2)], of l "u - 1" u i'] r assms by auto
  have "partition A l u i s = Inr (i', s3)"
    using rd s1(1) s2(1) s3(1) r assms P2 by (simp add: partition_def P_def view_eq)
  moreover have "step l u s s3"
    using step_trans [OF s1(2)] step_trans [OF step_widen [OF s2(2)] s3(2)] by simp
  moreover have pi: "view s3 i' = P" using P2 by (simp add: s3(3) swap_self_mono)
  have "split_at l u i' (view s3)" unfolding split_at_def pi
    using s2(3) r by (auto simp: s3(3) swap_self_mono parted_def)
  ultimately show ?thesis by blast
qed

section \<open>The whole sort\<close>

lemma order_ends_orders:
  assumes "ok s" "1 \<le> l" "u \<le> n" "l < u"
  shows "\<exists>s'. order_ends A l u s = Inr s' \<and> step l u s s' \<and> \<not> lt (view s' u) (view s' l)"
proof -
  have v: "a_get A l s = view s l" "a_get A u s = view s u" "good (view s l)" "good (view s u)"
    using assms by (auto intro: view_eq view_good)
  note c = a_less [OF assms(1) v(4,3)]
  show ?thesis
  proof (cases "lt (view s u) (view s l)")
    case True
    obtain s1 where s1: "set2 A l u (view s u) (view s l) s = Inr s1" "step l u s s1" "view s1 = swap (view s) l u"
      using swap_step [OF assms(1), of l l u u] assms by auto
    have "\<not> lt (view s1 u) (view s1 l)" using lt_asym [OF v(4,3) True] assms(4) by (simp add: s1(3) swap_self_mono)
    then show ?thesis using s1 True c v by (simp add: order_ends_def)
  next
    case False
    then show ?thesis using c v step_refl [OF assms(1)] by (simp add: order_ends_def)
  qed
qed

lemma order_mid_orders:
  assumes "ok s" "1 \<le> l" "u \<le> n" "l < i" "i < u" "\<not> lt (view s u) (view s l)"
  shows "\<exists>s'. order_mid A l u i s = Inr s' \<and> step l u s s' \<and> \<not> lt (view s' i) (view s' l) \<and> \<not> lt (view s' u) (view s' i)"
proof -
  have v: "a_get A l s = view s l" "a_get A u s = view s u" "a_get A i s = view s i" "good (view s l)" "good (view s u)" "good (view s i)"
    using assms by (auto intro: view_eq view_good)
  note c = a_less [OF assms(1) v(6,4)] a_less [OF assms(1) v(5,6)]
  consider (low) "lt (view s i) (view s l)" | (high) "\<not> lt (view s i) (view s l)" "lt (view s u) (view s i)"
    | (mid) "\<not> lt (view s i) (view s l)" "\<not> lt (view s u) (view s i)" by blast
  then show ?thesis
  proof cases
    case low
    obtain s1 where s1: "set2 A i l (view s l) (view s i) s = Inr s1" "step l u s s1" "view s1 = swap (view s) i l"
      using swap_step [OF assms(1), of l i u l] assms by auto
    have "\<not> lt (view s1 i) (view s1 l)" "\<not> lt (view s1 u) (view s1 i)"
      using assms lt_asym [OF v(6,4) low] by (auto simp: s1(3) swap_self_mono)
    then show ?thesis using s1 low c v by (simp add: order_mid_def)
  next
    case high
    obtain s1 where s1: "set2 A i u (view s u) (view s i) s = Inr s1" "step l u s s1" "view s1 = swap (view s) i u"
      using swap_step [OF assms(1), of l i u u] assms by auto
    have "\<not> lt (view s1 i) (view s1 l)" "\<not> lt (view s1 u) (view s1 i)"
      using assms lt_asym [OF v(5,6) high(2)] by (auto simp: s1(3) swap_self_mono)
    then show ?thesis using s1 high c v by (simp add: order_mid_def)
  next
    case mid
    then show ?thesis using c v step_refl [OF assms(1)] by (simp add: order_mid_def)
  qed
qed

definition in_order :: "int \<Rightarrow> int \<Rightarrow> (int \<Rightarrow> 'v) \<Rightarrow> bool" where
  "in_order l u f = (\<forall>a b. l \<le> a \<and> a \<le> b \<and> b \<le> u \<longrightarrow> \<not> lt (f b) (f a))"

lemma in_order_join:
  assumes "ok s" "1 \<le> l" "u \<le> n" "split_at l u i (view s)" "in_order l (i - 1) (view s)" "in_order (i + 1) u (view s)"
  shows "in_order l u (view s)"
  unfolding in_order_def
proof (intro allI impI)
  let ?f = "view s"
  fix a b assume ab: "l \<le> a \<and> a \<le> b \<and> b \<le> u"
  have g: "good (?f m)" if "l \<le> m" "m \<le> u" for m using view_good [OF assms(1)] that assms by auto
  have i: "l < i" "i \<le> u - 1" using assms(4) by (auto simp: split_at_def)
  consider "b < i" | "i < a" | "a \<le> i" "i \<le> b" by linarith
  then show "\<not> lt (?f b) (?f a)"
  proof cases
    case 3
    have "\<not> lt (?f i) (?f a)" using assms(4) 3 ab le_refl [OF g] i by (cases "a = i") (auto simp: split_at_def)
    moreover have "\<not> lt (?f b) (?f i)" using assms(4) 3 ab le_refl [OF g] i by (cases "b = i") (auto simp: split_at_def)
    moreover have "good (?f a)" "good (?f i)" "good (?f b)" using g ab i by auto
    ultimately show ?thesis using le_trans by blast
  qed (use assms(5,6) ab in \<open>auto simp: in_order_def\<close>)
qed

lemma split_at_steps:
  assumes "split_at l u i (view s)" "rearr l (i - 1) (view s) g \<or> rearr (i + 1) u (view s) g"
  shows "split_at l u i g"
proof -
  have i: "g i = view s i" using assms by (auto simp: rearr_def)
  have low: "\<not> lt (view s i) (g m)" if "l \<le> m" "m < i" for m
  proof -
    have "\<forall>k \<in> {l..i - 1}. \<not> lt (view s i) (view s k)" using assms(1) by (auto simp: split_at_def)
    then have "\<forall>k \<in> {l..i - 1}. \<not> lt (view s i) (g k)"
      using rearr_ball [of l "i - 1" "view s" g "\<lambda>x. \<not> lt (view s i) x"] assms(2) by (auto simp: rearr_def)
    then show ?thesis using that by auto
  qed
  have high: "\<not> lt (g m) (view s i)" if "i < m" "m \<le> u" for m
  proof -
    have "\<forall>k \<in> {i + 1..u}. \<not> lt (view s k) (view s i)" using assms(1) by (auto simp: split_at_def)
    then have "\<forall>k \<in> {i + 1..u}. \<not> lt (g k) (view s i)"
      using rearr_ball [of "i + 1" u "view s" g "\<lambda>x. \<not> lt x (view s i)"] assms(2) by (auto simp: rearr_def)
    then show ?thesis using that by auto
  qed
  show ?thesis using assms(1) low high by (simp add: split_at_def i)
qed

lemma in_order_outside: "in_order l u f \<Longrightarrow> rearr l' u' f g \<Longrightarrow> u < l' \<or> u' < l \<Longrightarrow> in_order l u g"
  by (auto simp: in_order_def rearr_def)

lemma auxsort_sorts:
  assumes small: "n < 2 ^ 30"
  shows "ok s \<Longrightarrow> 1 \<le> l \<Longrightarrow> u \<le> n \<Longrightarrow> nat (u - l + 1) < k \<Longrightarrow>
   \<exists>s'. auxsort k A l u s = Inr s' \<and> step l u s s' \<and> in_order l u (view s')"
proof (induction k arbitrary: l u s)
  case (Suc k)
  show ?case
  proof (cases "l < u")
    case False
    have "in_order l u (view s)" unfolding in_order_def
    proof (intro allI impI)
      fix a b assume "l \<le> a \<and> a \<le> b \<and> b \<le> u"
      then have "a = b" "1 \<le> a" "a \<le> n" using False Suc.prems by auto
      then show "\<not> lt (view s b) (view s a)" using le_refl view_good [OF Suc.prems(1)] by simp
    qed
    then show ?thesis using False step_refl [OF Suc.prems(1)] by auto
  next
    case True
    obtain s1 where s1: "order_ends A l u s = Inr s1" "step l u s s1" "\<not> lt (view s1 u) (view s1 l)"
      using order_ends_orders [OF Suc.prems(1-3) True] by blast
    note ok1 = step_ok [OF s1(2)]
    have g1: "good (view s1 m)" if "l \<le> m" "m \<le> u" for m using view_good [OF ok1] that Suc.prems by auto
    show ?thesis
    proof (cases "u - l = 1")
      case one: True
      have "in_order l u (view s1)" unfolding in_order_def
      proof (intro allI impI)
        fix a b assume "l \<le> a \<and> a \<le> b \<and> b \<le> u"
        then have "a = l \<and> b = u \<or> a = b \<and> l \<le> a \<and> a \<le> u" using one by linarith
        then show "\<not> lt (view s1 b) (view s1 a)" using s1(3) le_refl [OF g1] by auto
      qed
      then show ?thesis using s1 one True by auto
    next
      case more: False
      define i where "i = (l + u) div 2"
      have i: "l < i" "i < u" using True more by (auto simp: i_def)
      have no: "\<not> l + u \<ge> 2 ^ 31" using Suc.prems True small by simp
      obtain s2 where s2: "order_mid A l u i s1 = Inr s2" "step l u s1 s2" "\<not> lt (view s2 i) (view s2 l)" "\<not> lt (view s2 u) (view s2 i)"
        using order_mid_orders [OF ok1 Suc.prems(2,3) i s1(3)] by blast
      note ok2 = step_ok [OF s2(2)]
      note st2 = step_trans [OF s1(2) s2(2)]
      have g2: "good (view s2 m)" if "l \<le> m" "m \<le> u" for m using view_good [OF ok2] that Suc.prems by auto
      show ?thesis
      proof (cases "u - l = 2")
        case two: True
        then have mid: "i = l + 1" "u = l + 2" by (simp_all add: i_def)
        have "split_at l u i (view s2)" unfolding split_at_def
        proof (intro conjI allI impI)
          fix m assume "l \<le> m \<and> m < i"
          then have "m = l" using mid by simp
          then show "\<not> lt (view s2 i) (view s2 m)" using s2(3) by simp
        next
          fix m assume "i < m \<and> m \<le> u"
          then have "m = u" using mid by simp
          then show "\<not> lt (view s2 m) (view s2 i)" using s2(4) by simp
        qed (use mid in auto)
        moreover have "in_order l (i - 1) (view s2)" "in_order (i + 1) u (view s2)"
          unfolding in_order_def
        proof (intro allI impI)
          fix a b assume "l \<le> a \<and> a \<le> b \<and> b \<le> i - 1"
          then have "a = b" "l \<le> a" "a \<le> u" using mid by auto
          then show "\<not> lt (view s2 b) (view s2 a)" using le_refl [OF g2] by simp
        next
          show "\<forall>a b. i + 1 \<le> a \<and> a \<le> b \<and> b \<le> u \<longrightarrow> \<not> lt (view s2 b) (view s2 a)"
          proof (intro allI impI)
            fix a b assume "i + 1 \<le> a \<and> a \<le> b \<and> b \<le> u"
            then have "a = b" "l \<le> a" "a \<le> u" using mid by auto
            then show "\<not> lt (view s2 b) (view s2 a)" using le_refl [OF g2] by simp
          qed
        qed
        ultimately have "in_order l u (view s2)" using in_order_join [OF ok2 Suc.prems(2,3)] by blast
        then show ?thesis using s1(1) s2(1) st2 True more two no by (auto simp: i_def [symmetric] Let_def)
      next
        case big: False
        have "l < u - 1" using True more by simp
        then obtain p s3 where s3: "partition A l u i s2 = Inr (p, s3)" "step l u s2 s3" "split_at l u p (view s3)"
          using partition_splits [OF ok2 Suc.prems(2,3) i _ s2(3,4)] by blast
        have p: "l < p" "p \<le> u - 1" using s3(3) by (auto simp: split_at_def)
        have fuel: "nat (p - 1 - l + 1) < k" "nat (u - (p + 1) + 1) < k" using Suc.prems(4) p by auto
        define a b c d where "a = (if p - l < u - p then l else p + 1)" and "b = (if p - l < u - p then p - 1 else u)"
          and "c = (if p - l < u - p then p + 1 else l)" and "d = (if p - l < u - p then u else p - 1)"
        have ab: "a = l \<and> b = p - 1 \<and> c = p + 1 \<and> d = u \<or> a = p + 1 \<and> b = u \<and> c = l \<and> d = p - 1"
          by (auto simp: a_def b_def c_def d_def)
        have rng: "1 \<le> a" "b \<le> n" "1 \<le> c" "d \<le> n" "nat (b - a + 1) < k" "nat (d - c + 1) < k" "l \<le> a" "b \<le> u" "l \<le> c" "d \<le> u"
          using ab Suc.prems p fuel by auto
        obtain s4 where s4: "auxsort k A a b s3 = Inr s4" "step a b s3 s4" "in_order a b (view s4)"
          using Suc.IH [OF step_ok [OF s3(2)] rng(1,2,5)] by blast
        obtain s5 where s5: "auxsort k A c d s4 = Inr s5" "step c d s4 s5" "in_order c d (view s5)"
          using Suc.IH [OF step_ok [OF s4(2)] rng(3,4,6)] by blast
        have "split_at l u p (view s4)" using split_at_steps [OF s3(3)] s4(2) ab by (auto simp: step_def)
        then have sp: "split_at l u p (view s5)" using split_at_steps s5(2) ab by (auto simp: step_def)
        have "in_order a b (view s5)" by (rule in_order_outside [OF s4(3), where l' = c and u' = d]) (use s5(2) ab p in \<open>auto simp: step_def\<close>)
        then have "in_order l (p - 1) (view s5)" "in_order (p + 1) u (view s5)" using s5(3) ab by auto
        then have srt: "in_order l u (view s5)" using in_order_join [OF step_ok [OF s5(2)] Suc.prems(2,3) sp] by blast
        have "step l u s s5"
          using step_trans [OF step_trans [OF st2 s3(2)] step_trans [OF step_widen [OF s4(2) rng(7,8)] step_widen [OF s5(2) rng(9,10)]]] .
        moreover have "auxsort (Suc k) A l u s = Inr s5"
          using s1(1) s2(1) s3(1) s4(1) s5(1) True more big no
          by (simp add: i_def [symmetric] Let_def a_def b_def c_def d_def split: if_splits)
        ultimately show ?thesis using srt by blast
      qed
    qed
  qed
qed simp

end

end
