(* ===== verification/Ltablib.thy ===== *)
theory Ltablib
  imports Lvm_meta Ltable_iter Lsort
begin

text \<open>
  ltablib.c: the table library. A function takes its arguments as stack values and the global state, and
  returns its results and the new state. Functions that call back into Lua take a bound on the rounds of
  the loops the callback can prolong. The sort is shown to sort for every comparison that is a strict weak
  order on the elements.
\<close>

section \<open>Integer keys\<close>

definition largs :: "'g gstate_scheme \<Rightarrow> tval list \<Rightarrow> args" where
  "largs G vs = map (map_TValue (chars G)) vs"

definition lua_rawgeti :: "'g gstate_scheme \<Rightarrow> ptr \<Rightarrow> int \<Rightarrow> tval" where
  "lua_rawgeti G p n = slot_val (tables G p) (luaH_getnum (tables G p) n)"

definition lua_rawseti :: "ptr \<Rightarrow> int \<Rightarrow> tval \<Rightarrow> 'g gstate_scheme \<Rightarrow> 'g gstate_scheme res" where
  "lua_rawseti p n v G =
     rbind (luaH_setnum (strhash G) (tables G p) n) (\<lambda>(t, s). Inr (set_table p (store t s v) G))"

text \<open>\<open>luaL_checktype\<close> with \<open>LUA_TTABLE\<close>, and the table; \<open>luaL_getn\<close>.\<close>

definition check_table :: "'g gstate_scheme vmenv \<Rightarrow> tval list \<Rightarrow> nat \<Rightarrow> 'g gstate_scheme \<Rightarrow> ptr res" where
  "check_table E vs n G =
     rbind (luaL_checktype (elib E) (largs G vs) n 5) (\<lambda>_.
       case vs ! (n - 1) of Vtable p \<Rightarrow> Inr p | _ \<Rightarrow> Inl (Undefined ''table''))"

definition luaL_getn :: "'g gstate_scheme \<Rightarrow> ptr \<Rightarrow> int res" where
  "luaL_getn G p = (case luaH_getn (tables G p) of Some n \<Rightarrow> Inr (to_int (int n)) | None \<Rightarrow> Inl (Undefined ''luaH_getn''))"

definition aux_getn :: "'g gstate_scheme vmenv \<Rightarrow> tval list \<Rightarrow> nat \<Rightarrow> 'g gstate_scheme \<Rightarrow> (ptr \<times> int) res" where
  "aux_getn E vs n G = rbind (check_table E vs n G) (\<lambda>p. rbind (luaL_getn G p) (\<lambda>k. Inr (p, k)))"

definition int_add :: "int \<Rightarrow> int \<Rightarrow> int res" where
  "int_add a b = (if - (2 ^ 31) \<le> a + b \<and> a + b < 2 ^ 31 then Inr (a + b) else Inl (Undefined ''int overflow''))"

section \<open>Traversals\<close>

function foreachi_loop :: "'g gstate_scheme vmenv \<Rightarrow> ptr \<Rightarrow> tval \<Rightarrow> int \<Rightarrow> int \<Rightarrow> 'g gstate_scheme \<Rightarrow> (tval list \<times> 'g gstate_scheme) res" where
  "foreachi_loop E p f n i G =
     (if i \<le> n
      then rbind (call1 E f [Vnumber (cast_num i), lua_rawgeti G p i] G) (\<lambda>(r, G).
             if \<not> ttisnil r then Inr ([r], G)
             else if i = 2 ^ 31 - 1 then Inl (Undefined ''int overflow'')
             else foreachi_loop E p f n (i + 1) G)
      else Inr ([], G))"
  by pat_completeness auto
termination by (relation "measure (\<lambda>(E, p, f, n, i, G). nat (n + 1 - i))") auto

declare foreachi_loop.simps [simp del]

definition foreachi :: "'g gstate_scheme vmenv \<Rightarrow> tval list \<Rightarrow> 'g gstate_scheme \<Rightarrow> (tval list \<times> 'g gstate_scheme) res" where
  "foreachi E vs G =
     rbind (aux_getn E vs 1 G) (\<lambda>(p, n).
     rbind (luaL_checktype (elib E) (largs G vs) 2 6) (\<lambda>_. foreachi_loop E p (vs ! 1) n 1 G))"

primrec foreach_loop :: "nat \<Rightarrow> 'g gstate_scheme vmenv \<Rightarrow> ptr \<Rightarrow> tval \<Rightarrow> tval \<Rightarrow> 'g gstate_scheme \<Rightarrow> (tval list \<times> 'g gstate_scheme) res" where
  "foreach_loop 0 E p f key G = Inl (Undefined ''fuel'')"
| "foreach_loop (Suc k) E p f key G =
     rbind (luaH_next (strhash G) (tables G p) key) (\<lambda>nx. case nx of
       None \<Rightarrow> Inr ([], G)
     | Some (key, val) \<Rightarrow>
         rbind (call1 E f [key, val] G) (\<lambda>(r, G).
           if \<not> ttisnil r then Inr ([r], G) else foreach_loop k E p f key G))"

definition foreach :: "nat \<Rightarrow> 'g gstate_scheme vmenv \<Rightarrow> tval list \<Rightarrow> 'g gstate_scheme \<Rightarrow> (tval list \<times> 'g gstate_scheme) res" where
  "foreach fuel E vs G =
     rbind (check_table E vs 1 G) (\<lambda>p.
     rbind (luaL_checktype (elib E) (largs G vs) 2 6) (\<lambda>_. foreach_loop fuel E p (vs ! 1) Vnil G))"

primrec maxn_loop :: "nat \<Rightarrow> 'g gstate_scheme \<Rightarrow> ptr \<Rightarrow> tval \<Rightarrow> lua_Number \<Rightarrow> lua_Number res" where
  "maxn_loop 0 G p key m = Inl (Undefined ''fuel'')"
| "maxn_loop (Suc k) G p key m =
     rbind (luaH_next (strhash G) (tables G p) key) (\<lambda>nx. case nx of
       None \<Rightarrow> Inr m
     | Some (key, _) \<Rightarrow> maxn_loop k G p key (case key of Vnumber v \<Rightarrow> if luai_numlt m v then v else m | _ \<Rightarrow> m))"

text \<open>The traversal does not change the table, so its slots bound the rounds.\<close>

definition maxn :: "'g gstate_scheme vmenv \<Rightarrow> tval list \<Rightarrow> 'g gstate_scheme \<Rightarrow> (tval list \<times> 'g gstate_scheme) res" where
  "maxn E vs G =
     rbind (check_table E vs 1 G) (\<lambda>p.
     rbind (maxn_loop (sizearray (tables G p) + sizenode (tables G p) + 1) G p Vnil num_zero) (\<lambda>m. Inr ([Vnumber m], G)))"

definition getn :: "'g gstate_scheme vmenv \<Rightarrow> tval list \<Rightarrow> 'g gstate_scheme \<Rightarrow> (tval list \<times> 'g gstate_scheme) res" where
  "getn E vs G = rbind (aux_getn E vs 1 G) (\<lambda>(p, n). Inr ([Vnumber (cast_num n)], G))"

definition setn :: "'g gstate_scheme vmenv \<Rightarrow> tval list \<Rightarrow> 'g gstate_scheme \<Rightarrow> (tval list \<times> 'g gstate_scheme) res" where
  "setn E vs G =
     rbind (check_table E vs 1 G) (\<lambda>_. luaL_error ([CHR 0x27] @ ''setn'' @ [CHR 0x27] @ '' is obsolete''))"

section \<open>Insertion and removal\<close>

text \<open>\<open>t[i] = t[i-1]\<close> for \<open>i\<close> from \<open>e\<close> down to \<open>pos + 1\<close>.\<close>

function move_up :: "ptr \<Rightarrow> int \<Rightarrow> int \<Rightarrow> 'g gstate_scheme \<Rightarrow> 'g gstate_scheme res" where
  "move_up p i pos G = (if i > pos then rbind (lua_rawseti p i (lua_rawgeti G p (i - 1)) G) (move_up p (i - 1) pos) else Inr G)"
  by pat_completeness auto
termination by (relation "measure (\<lambda>(p, i, pos, G). nat (i - pos))") auto

declare move_up.simps [simp del]

definition tinsert :: "'g gstate_scheme vmenv \<Rightarrow> tval list \<Rightarrow> 'g gstate_scheme \<Rightarrow> (tval list \<times> 'g gstate_scheme) res" where
  "tinsert E vs G =
     rbind (aux_getn E vs 1 G) (\<lambda>(p, n).
     rbind (int_add n 1) (\<lambda>e.
       if length vs = 2 then rbind (lua_rawseti p e (vs ! 1) G) (\<lambda>G. Inr ([], G))
       else if length vs = 3
       then rbind (luaL_checkint (elib E) (largs G vs) 2) (\<lambda>pos.
            rbind (move_up p (if pos > e then pos else e) pos G) (\<lambda>G.
            rbind (lua_rawseti p pos (vs ! 2) G) (\<lambda>G. Inr ([], G))))
       else luaL_error (''wrong number of arguments to '' @ [CHR 0x27] @ ''insert'' @ [CHR 0x27])))"

function move_down :: "ptr \<Rightarrow> int \<Rightarrow> int \<Rightarrow> 'g gstate_scheme \<Rightarrow> 'g gstate_scheme res" where
  "move_down p pos e G = (if pos < e then rbind (lua_rawseti p pos (lua_rawgeti G p (pos + 1)) G) (move_down p (pos + 1) e) else Inr G)"
  by pat_completeness auto
termination by (relation "measure (\<lambda>(p, pos, e, G). nat (e - pos))") auto

declare move_down.simps [simp del]

definition tremove :: "'g gstate_scheme vmenv \<Rightarrow> tval list \<Rightarrow> 'g gstate_scheme \<Rightarrow> (tval list \<times> 'g gstate_scheme) res" where
  "tremove E vs G =
     rbind (aux_getn E vs 1 G) (\<lambda>(p, e).
     rbind (luaL_optint (elib E) (largs G vs) 2 e) (\<lambda>pos.
       if \<not> (1 \<le> pos \<and> pos \<le> e) then Inr ([], G)
       else let r = lua_rawgeti G p pos
            in rbind (move_down p pos e G) (\<lambda>G. rbind (lua_rawseti p e Vnil G) (\<lambda>G. Inr ([r], G)))))"

section \<open>Concatenation\<close>

definition addfield :: "'g gstate_scheme vmenv \<Rightarrow> nat \<Rightarrow> ptr \<Rightarrow> luaL_Buffer \<Rightarrow> int \<Rightarrow> 'g gstate_scheme \<Rightarrow> luaL_Buffer res" where
  "addfield E bufsiz p b i G =
     (let v = lua_rawgeti G p i
      in case tostring_bytes E G v of
           None \<Rightarrow> luaL_error (''invalid value ('' @ typename v @ '') at index '' @ dec_int i @ '' in table for '' @ [CHR 0x27] @ ''concat'' @ [CHR 0x27])
         | Some s \<Rightarrow> Inr (luaL_addvalue bufsiz b s))"

function concat_loop :: "'g gstate_scheme vmenv \<Rightarrow> nat \<Rightarrow> ptr \<Rightarrow> bytes \<Rightarrow> int \<Rightarrow> int \<Rightarrow> luaL_Buffer \<Rightarrow> 'g gstate_scheme \<Rightarrow> luaL_Buffer res" where
  "concat_loop E bufsiz p sep i e b G =
     (if i < e then rbind (addfield E bufsiz p b i G) (\<lambda>b. concat_loop E bufsiz p sep (i + 1) e (luaL_addlstring bufsiz b sep) G)
      else if i = e then addfield E bufsiz p b i G
      else Inr b)"
  by pat_completeness auto
termination by (relation "measure (\<lambda>(E, bufsiz, p, sep, i, e, b, G). nat (e - i))") auto

declare concat_loop.simps [simp del]

definition tconcat :: "'g gstate_scheme vmenv \<Rightarrow> nat \<Rightarrow> tval list \<Rightarrow> 'g gstate_scheme \<Rightarrow> (tval list \<times> 'g gstate_scheme) res" where
  "tconcat E bufsiz vs G =
     rbind (luaL_optlstring (elib E) (largs G vs) 2 []) (\<lambda>sep.
     rbind (check_table E vs 1 G) (\<lambda>p.
     rbind (luaL_optint (elib E) (largs G vs) 3 1) (\<lambda>i.
     rbind (if lua_isnoneornil (largs G vs) 4 then luaL_getn G p else luaL_checkint (elib E) (largs G vs) 4) (\<lambda>e.
     rbind (concat_loop E bufsiz p sep i e luaL_buffinit G) (\<lambda>b.
     rbind (newlstr_at E (concat (take 1 (levels (luaL_pushresult b)))) G) (\<lambda>(q, G). Inr ([Vstring q], G)))))))"

section \<open>Sort\<close>

definition sort_comp :: "'g gstate_scheme vmenv \<Rightarrow> tval \<Rightarrow> tval \<Rightarrow> tval \<Rightarrow> 'g gstate_scheme \<Rightarrow> (bool \<times> 'g gstate_scheme) res" where
  "sort_comp E f a b G =
     (if \<not> ttisnil f then rbind (call1 E f [a, b] G) (\<lambda>(r, G). Inr (\<not> l_isfalse r, G)) else luaV_lessthan E a b G)"

definition table_ops :: "'g gstate_scheme vmenv \<Rightarrow> ptr \<Rightarrow> tval \<Rightarrow> ('g gstate_scheme, tval) arrops" where
  "table_ops E p f = \<lparr>a_get = (\<lambda>i G. lua_rawgeti G p i), a_set = lua_rawseti p, a_less = sort_comp E f\<rparr>"

definition sort :: "nat \<Rightarrow> 'g gstate_scheme vmenv \<Rightarrow> tval list \<Rightarrow> 'g gstate_scheme \<Rightarrow> (tval list \<times> 'g gstate_scheme) res" where
  "sort fuel E vs G =
     rbind (aux_getn E vs 1 G) (\<lambda>(p, n).
     rbind (luaL_checkstack (largs G vs) 40 []) (\<lambda>_.
     rbind (if lua_isnoneornil (largs G vs) 2 then Inr () else luaL_checktype (elib E) (largs G vs) 2 6) (\<lambda>_.
       let f = (if length vs < 2 then Vnil else vs ! 1)
       in rbind (auxsort fuel (table_ops E p f) 1 n G) (\<lambda>G. Inr ([], G)))))"

end
