(* ===== verification/Ltab_sort.thy ===== *)
theory Ltab_sort
  imports Ltablib
begin

text \<open>
  \<open>table.sort\<close> sorts: the table operations are an array in the sense of \<open>sort_array\<close> for every comparison
  that leaves the state alone and is a strict weak order, and the comparison of numbers is one.
\<close>

section \<open>Tables as arrays\<close>

definition numkey :: "int \<Rightarrow> tval" where
  "numkey i = Vnumber (cast_num i)"

lemma numkey_simps [simp]: "proper (numkey i)" "no_nan (numkey i)"
  by (simp_all add: numkey_def proper_def no_nan_def)

lemma numkey_eq:
  "1 \<le> i \<Longrightarrow> i < 2 ^ 31 \<Longrightarrow> 1 \<le> j \<Longrightarrow> j < 2 ^ 31 \<Longrightarrow> luaO_rawequalObj (numkey j) (numkey i) \<longleftrightarrow> i = j"
  by (auto simp: numkey_def rawequalObj_cases)

lemma rawgeti_tget: "- (2 ^ 31) \<le> i \<Longrightarrow> i < 2 ^ 31 \<Longrightarrow> lua_rawgeti G p i = tget (strhash G) (tables G p) (numkey i)"
  using luaH_getnum_eq [of i "tables G p" "strhash G"] by (simp add: lua_rawgeti_def tget_def numkey_def)

definition arr_ok :: "(tval \<Rightarrow> bool) \<Rightarrow> ptr \<Rightarrow> int \<Rightarrow> 'g gstate_scheme \<Rightarrow> bool" where
  "arr_ok good p n G = (n < 2 ^ 31 \<and> tab_ok (strhash G) (tables G p) \<and>
     (\<forall>i. 1 \<le> i \<longrightarrow> i \<le> n \<longrightarrow> luaH_getnum (tables G p) i \<noteq> NilObject \<and> good (lua_rawgeti G p i)))"

definition tab_frame :: "ptr \<Rightarrow> int \<Rightarrow> 'g gstate_scheme \<Rightarrow> 'g gstate_scheme \<Rightarrow> bool" where
  "tab_frame p n G G' = (\<exists>t. G' = set_table p t G \<and> flags t = flags (tables G p) \<and> metatable t = metatable (tables G p) \<and>
     (\<forall>k. proper k \<longrightarrow> (\<forall>i. 1 \<le> i \<longrightarrow> i \<le> n \<longrightarrow> \<not> luaO_rawequalObj k (numkey i)) \<longrightarrow>
        tget (strhash G) t k = tget (strhash G) (tables G p) k))"

lemma set_table_simps [simp]:
  "tables (set_table p t G) = (tables G)(p := t)" "strhash (set_table p t G) = strhash G" "chars (set_table p t G) = chars G"
  "set_table p t (set_table p t' G) = set_table p t G" "set_table p (tables G p) G = G"
  by (simp_all add: set_table_def)

lemma tab_frame_refl: "tab_frame p n G G"
  unfolding tab_frame_def by (rule exI [where x = "tables G p"]) simp

lemma tab_frame_trans: "tab_frame p n G G' \<Longrightarrow> tab_frame p n G' G'' \<Longrightarrow> tab_frame p n G G''"
  unfolding tab_frame_def by (elim exE conjE, rename_tac t t', rule_tac x = t' in exI) simp

lemma rawseti_found:
  assumes "tab_ok (strhash G) (tables G p)" "1 \<le> i" "i < 2 ^ 31" "luaH_getnum (tables G p) i \<noteq> NilObject"
  shows "\<exists>t. lua_rawseti p i v G = Inr (set_table p t G) \<and> tab_ok (strhash G) t \<and> flags t = flags (tables G p) \<and>
    metatable t = metatable (tables G p) \<and> (\<forall>k. proper k \<longrightarrow> luaH_get (strhash G) t k = luaH_get (strhash G) (tables G p) k) \<and>
    (\<forall>k. proper k \<longrightarrow> tget (strhash G) t k = (if luaO_rawequalObj k (numkey i) then v else tget (strhash G) (tables G p) k))"
proof -
  let ?t = "tables G p" and ?sh = "strhash G"
  let ?s = "luaH_getnum ?t i"
  have s: "luaH_get ?sh ?t (numkey i) = ?s" using assms(2,3) luaH_getnum_eq [of i ?t ?sh] by (simp add: numkey_def)
  note st = tab_ok_store [OF assms(1) numkey_simps(1) s assms(4), where v = v]
  have "lua_rawseti p i v G = Inr (set_table p (store ?t ?s v) G)"
    using assms(4) by (simp add: lua_rawseti_def luaH_setnum_def luaH_setnum_with_def Let_def)
  moreover have "flags (store ?t ?s v) = flags ?t" "metatable (store ?t ?s v) = metatable ?t" by (auto simp: store_def split: slot.split)
  moreover have "luaH_get ?sh (store ?t ?s v) k = luaH_get ?sh ?t k" if "proper k" for k
    by (rule luaH_get_same_keys [OF assms(1) st(1) st(9) st(3) st(8) that])
  ultimately show ?thesis using st(1) tget_store [OF assms(1) numkey_simps(1) s assms(4)] by blast
qed

lemma arr_ok_set:
  assumes "arr_ok good p n G" "1 \<le> i" "i \<le> n" "good v"
  shows "\<exists>G'. lua_rawseti p i v G = Inr G' \<and> arr_ok good p n G' \<and> tab_frame p n G G' \<and>
    (\<forall>j. 1 \<le> j \<longrightarrow> j \<le> n \<longrightarrow> lua_rawgeti G' p j = (if j = i then v else lua_rawgeti G p j))"
proof -
  have ok: "n < 2 ^ 31" "tab_ok (strhash G) (tables G p)" "luaH_getnum (tables G p) i \<noteq> NilObject"
    using assms by (auto simp: arr_ok_def)
  have i: "i < 2 ^ 31" using ok(1) assms(3) by simp
  obtain t where t: "lua_rawseti p i v G = Inr (set_table p t G)" "tab_ok (strhash G) t" "flags t = flags (tables G p)"
    "metatable t = metatable (tables G p)" "\<And>k. proper k \<Longrightarrow> luaH_get (strhash G) t k = luaH_get (strhash G) (tables G p) k"
    "\<And>k. proper k \<Longrightarrow> tget (strhash G) t k = (if luaO_rawequalObj k (numkey i) then v else tget (strhash G) (tables G p) k)"
    using rawseti_found [OF ok(2) assms(2) i ok(3)] by blast
  have rd: "lua_rawgeti (set_table p t G) p j = (if j = i then v else lua_rawgeti G p j)" if "1 \<le> j" "j \<le> n" for j
    using that ok(1) t(6) [of "numkey j"] rawgeti_tget [of j "set_table p t G" p] rawgeti_tget [of j G p] numkey_eq [OF assms(2) i, of j]
    by (cases "j = i") auto
  have sl: "luaH_getnum t j = luaH_getnum (tables G p) j" if "1 \<le> j" "j \<le> n" for j
    using that ok(1) t(5) [of "numkey j"] luaH_getnum_eq [of j t "strhash G"] luaH_getnum_eq [of j "tables G p" "strhash G"]
    by (simp add: numkey_simps(1) [unfolded numkey_def] numkey_def)
  have "arr_ok good p n (set_table p t G)" using assms(1,4) t(2) rd sl by (auto simp: arr_ok_def)
  moreover have "tab_frame p n G (set_table p t G)"
    unfolding tab_frame_def using t(3,4,6) assms(2,3) by (intro exI [where x = t]) auto
  ultimately show ?thesis using t(1) rd by blast
qed

section \<open>Comparisons\<close>

text \<open>What a comparison must promise on the values it is given: to be a strict weak order without side effects.\<close>

locale sort_order =
  fixes E :: "'a gstate_scheme vmenv" and f :: tval and good :: "tval \<Rightarrow> bool" and lt :: "tval \<Rightarrow> tval \<Rightarrow> bool"
  assumes comp: "\<And>G. good a \<Longrightarrow> good b \<Longrightarrow> sort_comp E f a b G = Inr (lt a b, G)"
    and asym: "good a \<Longrightarrow> good b \<Longrightarrow> lt a b \<Longrightarrow> \<not> lt b a"
    and not_lt_trans: "good a \<Longrightarrow> good b \<Longrightarrow> good c \<Longrightarrow> \<not> lt b a \<Longrightarrow> \<not> lt c b \<Longrightarrow> \<not> lt c a"

sublocale sort_order \<subseteq> tsort: sort_array "table_ops E p f" n "arr_ok good p n" "tab_frame p n" good lt for p n
proof
  fix G :: "'a gstate_scheme" and i v assume "arr_ok good p n G" "1 \<le> i" "i \<le> n" "good v"
  from arr_ok_set [OF this] show "\<exists>G'. a_set (table_ops E p f) i v G = Inr G' \<and> arr_ok good p n G' \<and> tab_frame p n G G' \<and>
      (\<forall>j. 1 \<le> j \<longrightarrow> j \<le> n \<longrightarrow> a_get (table_ops E p f) j G' = (if j = i then v else a_get (table_ops E p f) j G))"
    by (simp only: table_ops_def arrops.select_convs)
next
  show "\<And>G i. arr_ok good p n G \<Longrightarrow> 1 \<le> i \<Longrightarrow> i \<le> n \<Longrightarrow> good (a_get (table_ops E p f) i G)"
    by (simp add: table_ops_def arr_ok_def)
  show "\<And>G a b. arr_ok good p n G \<Longrightarrow> good a \<Longrightarrow> good b \<Longrightarrow> a_less (table_ops E p f) a b G = Inr (lt a b, G)"
    by (simp add: table_ops_def comp)
  show "\<And>a b. good a \<Longrightarrow> good b \<Longrightarrow> lt a b \<Longrightarrow> \<not> lt b a" by (rule asym)
  show "\<And>a b c. good a \<Longrightarrow> good b \<Longrightarrow> good c \<Longrightarrow> \<not> lt b a \<Longrightarrow> \<not> lt c b \<Longrightarrow> \<not> lt c a" by (rule not_lt_trans)
  show "\<And>G. tab_frame p n G G" by (rule tab_frame_refl)
  show "\<And>G G' G''. tab_frame p n G G' \<Longrightarrow> tab_frame p n G' G'' \<Longrightarrow> tab_frame p n G G''" by (rule tab_frame_trans)
qed


section \<open>The property\<close>

context sort_order
begin

lemma sort_sorted:
  assumes "arr_ok good p n G" "n < 2 ^ 30" "nat n < k" "1 \<le> n"
  shows "\<exists>G'. auxsort k (table_ops E p f) 1 n G = Inr G' \<and> arr_ok good p n G' \<and> tab_frame p n G G' \<and>
    image_mset (lua_rawgeti G' p) (mset_set {1..n}) = image_mset (lua_rawgeti G p) (mset_set {1..n}) \<and>
    (\<forall>i j. 1 \<le> i \<and> i \<le> j \<and> j \<le> n \<longrightarrow> \<not> lt (lua_rawgeti G' p j) (lua_rawgeti G' p i))"
proof -
  obtain G' where G': "auxsort k (table_ops E p f) 1 n G = Inr G'" "tsort.step p n 1 n G G'" "tsort.in_order 1 n (tsort.view p n G')"
    using tsort.auxsort_sorts [OF assms(2,1), of 1 n k] assms(3) by auto
  have v: "tsort.view p n H i = lua_rawgeti H p i" if "1 \<le> i" "i \<le> n" for H i
  proof -
    have "tsort.view p n H i = a_get (table_ops E p f) i H" using that by (simp add: tsort.view_def)
    then show ?thesis by (simp add: table_ops_def)
  qed
  have "image_mset (tsort.view p n H) (mset_set {1..n}) = image_mset (lua_rawgeti H p) (mset_set {1..n})" for H
    by (intro image_mset_cong) (simp add: v)
  then show ?thesis using G' by (auto simp: tsort.step_def tsort.in_order_def rearr_def v)
qed

end

text \<open>The comparison of numbers, without NaN: what \<open>table.sort\<close> uses when it gets no function.\<close>

definition sortable_num :: "tval \<Rightarrow> bool" where
  "sortable_num v = (case v of Vnumber x \<Rightarrow> \<not> num_isnan x | _ \<Rightarrow> False)"

definition less_num :: "tval \<Rightarrow> tval \<Rightarrow> bool" where
  "less_num a b = (case (a, b) of (Vnumber x, Vnumber y) \<Rightarrow> luai_numlt x y | _ \<Rightarrow> False)"

interpretation num_order: sort_order E Vnil sortable_num less_num
  by unfold_locales
    (auto simp: sortable_num_def less_num_def sort_comp_def ttisnil_def luaV_lessthan_def luai_numlt_def split: TValue.splits)

lemma present_bound:
  assumes "tab_ok sh t" "\<And>i. 1 \<le> i \<Longrightarrow> i \<le> n \<Longrightarrow> i < 2 ^ 31 \<Longrightarrow> tget sh t (intkey i) \<noteq> Vnil"
  shows "n < 2 ^ 30"
proof -
  obtain m where m: "1 \<le> m" "m \<le> sizearray t + sizenode t + 1" "absent t m" using exists_absent [OF assms(1)] by blast
  have "sizenode t \<le> 2 ^ MAXBITS" using assms(1) by (auto simp: tab_ok_def sizenode_def twoto_def intro: power_increasing)
  then have l: "m < 2 ^ 30" using m(2) assms(1) by (simp add: tab_ok_def MAXASIZE_def MAXBITS_def)
  then have "tget sh t (intkey m) = Vnil" using absent_tget [of m t sh] m(3) by simp
  then have "n < m" using assms(2) [OF m(1)] l by force
  with l show ?thesis by simp
qed

text \<open>
  C8. \<open>table.sort\<close> sorts. If no element from 1 to the length is nil and the comparison (a Lua function, or the
  operator when the second argument is nil) is a strict weak order on the elements that changes nothing, the
  call returns, the elements are the same ones in an order in which none is less than an earlier one, and
  nothing else in the table or the state has changed. The C arithmetic on the positions does not overflow.
\<close>

theorem sort_sorts:
  assumes "tab_ok (strhash G) (tables G p)" "luaH_getn (tables G p) = Some n" "f = Vnil \<or> ttype f = 6" "n < fuel"
    and "\<And>i. 1 \<le> i \<Longrightarrow> i \<le> int n \<Longrightarrow> good (lua_rawgeti G p i)" "\<not> good Vnil"
    and "\<And>a b H. good a \<Longrightarrow> good b \<Longrightarrow> sort_comp E f a b H = Inr (lt a b, H)"
    and "\<And>a b. good a \<Longrightarrow> good b \<Longrightarrow> lt a b \<Longrightarrow> \<not> lt b a"
    and "\<And>a b c. good a \<Longrightarrow> good b \<Longrightarrow> good c \<Longrightarrow> \<not> lt b a \<Longrightarrow> \<not> lt c b \<Longrightarrow> \<not> lt c a"
  shows "\<exists>G'. sort fuel E [Vtable p, f] G = Inr ([], G') \<and> tab_ok (strhash G) (tables G' p) \<and> tab_frame p (int n) G G' \<and>
    image_mset (lua_rawgeti G' p) (mset_set {1..int n}) = image_mset (lua_rawgeti G p) (mset_set {1..int n}) \<and>
    (\<forall>i j. 1 \<le> i \<and> i \<le> j \<and> j \<le> int n \<longrightarrow> \<not> lt (lua_rawgeti G' p j) (lua_rawgeti G' p i))"
proof -
  have so: "sort_order E f good lt" using assms(7-9) by unfold_locales
  have el: "tget (strhash G) (tables G p) (intkey i) \<noteq> Vnil" if "1 \<le> i" "i \<le> n" "i < 2 ^ 31" for i
    using assms(5) [of "int i"] assms(6) rawgeti_tget [of "int i" G p] that by (auto simp: numkey_def intkey_def)
  have n: "n < 2 ^ 30" using present_bound [OF assms(1)] el by blast
  have slot: "luaH_getnum (tables G p) i \<noteq> NilObject" if "1 \<le> i" "i \<le> int n" for i
  proof
    assume "luaH_getnum (tables G p) i = NilObject"
    then have "lua_rawgeti G p i = Vnil" by (simp add: lua_rawgeti_def slot_val_def)
    then show False using assms(5) [OF that] assms(6) by simp
  qed
  have ok: "arr_ok good p (int n) G" using assms(1,5) slot n by (simp add: arr_ok_def)
  have args: "sort fuel E [Vtable p, f] G = rbind (auxsort fuel (table_ops E p f) 1 (int n) G) (\<lambda>G. Inr ([], G))"
    using assms(2,3) n
    by (cases f) (simp_all add: sort_def aux_getn_def check_table_def luaL_getn_def luaL_checktype_def lua_type_def index2adr_def largs_def
        luaL_checkstack_def LUAI_MAXCSTACK_def lua_isnoneornil_def to_int_def)
  show ?thesis
  proof (cases "n = 0")
    case True
    obtain k where "fuel = Suc k" using assms(4) by (cases fuel) auto
    then show ?thesis using args True assms(1) tab_frame_refl [of p 0 G] by auto
  next
    case False
    then obtain G' where "auxsort fuel (table_ops E p f) 1 (int n) G = Inr G'" "arr_ok good p (int n) G'" "tab_frame p (int n) G G'"
      "image_mset (lua_rawgeti G' p) (mset_set {1..int n}) = image_mset (lua_rawgeti G p) (mset_set {1..int n})"
      "\<forall>i j. 1 \<le> i \<and> i \<le> j \<and> j \<le> int n \<longrightarrow> \<not> lt (lua_rawgeti G' p j) (lua_rawgeti G' p i)"
      using sort_order.sort_sorted [OF so ok, of fuel] n assms(4) by auto
    moreover from this have "strhash G' = strhash G" by (auto simp: tab_frame_def)
    ultimately show ?thesis using args by (auto simp: arr_ok_def)
  qed
qed

section \<open>Examples\<close>

theorem sort_sorts_witness:
  "\<exists>G'. sort 4 sample_env [Vtable 0, Vnil] (sample_state (array_table [numkey 3, numkey 1, numkey 2])) = Inr ([], G') \<and>
     \<not> less_num (lua_rawgeti G' 0 3) (lua_rawgeti G' 0 1)"
proof -
  let ?t = "array_table [numkey 3, numkey 1, numkey 2]"
  let ?G = "sample_state ?t"
  have ok: "tab_ok (strhash ?G) (tables ?G 0)" by (simp add: sample_state_def array_table_ok MAXASIZE_def MAXBITS_def)
  have n: "luaH_getn (tables ?G 0) = Some 3"
    by (simp add: sample_state_def array_table_def empty_table_def luaH_getn_def Let_def numkey_def ttisnil_def)
  have el: "sortable_num (lua_rawgeti ?G 0 i)" if "1 \<le> i" "i \<le> int 3" for i
  proof -
    have "i = 1 \<or> i = 2 \<or> i = 3" using that by auto
    then show ?thesis
      by (elim disjE) (simp_all add: sample_state_def array_table_def lua_rawgeti_def luaH_getnum_def slot_val_def sortable_num_def numkey_def)
  qed
  have "\<not> sortable_num Vnil" by (simp add: sortable_num_def)
  from sort_sorts [where f = Vnil and good = sortable_num and lt = less_num and E = sample_env and fuel = 4, OF ok n _ _ el this
      num_order.comp num_order.asym num_order.not_lt_trans]
  show ?thesis by fastforce
qed

definition array_state :: "tval list \<Rightarrow> gstate" where
  "array_state vs = set_table 0 (array_table vs) (sample_state (array_table []))"

lemma array_state_getnum:
  "1 \<le> i \<Longrightarrow> i \<le> int (length vs) \<Longrightarrow> length vs \<le> MAXASIZE \<Longrightarrow> luaH_getnum (array_table vs) i = ArraySlot (nat (i - 1))"
  using getnum_range [of i "length vs"] by (simp add: luaH_getnum_def array_table_def MAXASIZE_def MAXBITS_def)

lemma array_state_get:
  "1 \<le> i \<Longrightarrow> i \<le> int (length vs) \<Longrightarrow> length vs \<le> MAXASIZE \<Longrightarrow> lua_rawgeti (array_state vs) 0 i = vs ! nat (i - 1)"
  by (simp add: lua_rawgeti_def array_state_def array_state_getnum slot_val_def) (simp add: array_table_def)

lemma array_state_set:
  "1 \<le> i \<Longrightarrow> i \<le> int (length vs) \<Longrightarrow> length vs \<le> MAXASIZE \<Longrightarrow>
     lua_rawseti 0 i v (array_state vs) = Inr (array_state (vs[nat (i - 1) := v]))"
  by (simp add: lua_rawseti_def luaH_setnum_def luaH_setnum_with_def Let_def array_state_def array_state_getnum store_def)
    (simp add: array_table_def empty_table_def)

lemma up_step:
  "a_less A (a_get A (i + 1) s) P s = Inr (b, s') \<Longrightarrow>
   up_loop A P u i s = (if b then if i + 1 > u then bad_order else up_loop A P u (i + 1) s' else Inr (i + 1, a_get A (i + 1) s, s'))"
  by (subst up_loop.simps) (simp add: Let_def)

lemma down_step:
  "a_less A P (a_get A (j - 1) s) s = Inr (b, s') \<Longrightarrow>
   down_loop A P l j s = (if b then if j - 1 < l then bad_order else down_loop A P l (j - 1) s' else Inr (j - 1, a_get A (j - 1) s, s'))"
  by (subst down_loop.simps) (simp add: Let_def)

lemma part_step:
  "up_loop A P u i s = Inr (i', vi, s') \<Longrightarrow> down_loop A P l j s' = Inr (j', vj, s'') \<Longrightarrow>
   part_loop A P l u i j s = (if j' < i' then Inr (i', s'') else rbind (set2 A i' j' vj vi s'') (part_loop A P l u i' j'))"
  by (subst part_loop.simps) simp

definition bad_cmp :: "tval list \<Rightarrow> bool" where
  "bad_cmp vs = (vs ! 0 \<noteq> Vnil \<and> (vs ! 1 = Vlightuserdata 2 \<or> vs ! 1 = Vlightuserdata 4))"

definition bad_env :: "gstate vmenv" where
  "bad_env = sample_env\<lparr>call1 := (\<lambda>_ vs G. Inr (Vboolean (bad_cmp vs), G))\<rparr>"

text \<open>
  C40. With a comparison that is not an order, \<open>table.sort\<close> can end without an error and leave an element after
  the end of the array: the check for an invalid order function comes too late, once the scan has already
  stopped at the position after the last one.
\<close>

theorem sort_writes_outside:
  "\<exists>vs. sort 5 bad_env [Vtable 0, Vfunction 0]
      (array_state [Vlightuserdata 1, Vlightuserdata 2, Vlightuserdata 3, Vlightuserdata 4, Vnil]) = Inr ([], array_state vs)
    \<and> length vs = 5 \<and> vs ! 4 \<noteq> Vnil"
proof -
  let ?vs = "[Vlightuserdata 1, Vlightuserdata 2, Vlightuserdata 3, Vlightuserdata 4, Vnil] :: tval list"
  have n: "luaH_getn (array_table ?vs) = Some 4"
    by (simp add: array_table_def empty_table_def luaH_getn_def Let_def ttisnil_def border_array.simps)
  have less: "a_less (table_ops bad_env 0 (Vfunction 0)) a b G = Inr (bad_cmp [a, b], G)" for a b and G :: gstate
    by (simp add: table_ops_def sort_comp_def bad_env_def ttisnil_def l_isfalse_def)
  have get: "a_get (table_ops bad_env 0 (Vfunction 0)) i (array_state vs) = vs ! nat (i - 1)" if "1 \<le> i" "i \<le> 5" "length vs = 5" for i vs
    using that array_state_get [of i vs] by (simp add: table_ops_def MAXASIZE_def MAXBITS_def)
  have set: "a_set (table_ops bad_env 0 (Vfunction 0)) i v (array_state vs) = Inr (array_state (vs[nat (i - 1) := v]))"
    if "1 \<le> i" "i \<le> 5" "length vs = 5" for i v vs
    using that array_state_set [of i vs v] by (simp add: table_ops_def MAXASIZE_def MAXBITS_def)
  let ?A = "table_ops bad_env 0 (Vfunction 0)" and ?S = "\<lambda>a b c d e. array_state [a, b, c, d, e]"
  let ?v1 = "Vlightuserdata 1 :: tval" and ?v2 = "Vlightuserdata 2 :: tval" and ?v3 = "Vlightuserdata 3 :: tval" and ?v4 = "Vlightuserdata 4 :: tval"
  note ev = less get set bad_cmp_def Let_def order_ends_def order_mid_def set2_def
  have unf: "auxsort k A l u s = (if \<not> l < u then Inr s else rbind (order_ends A l u s) (\<lambda>s.
        if u - l = 1 then Inr s else if l + u \<ge> 2 ^ 31 then Inl (Undefined ''int overflow'')
        else let i = (l + u) div 2 in rbind (order_mid A l u i s) (\<lambda>s. if u - l = 2 then Inr s
          else rbind (partition A l u i s) (\<lambda>(i, s).
            let (j, i, l, u) = (if i - l < u - i then (l, i - 1, i + 1, u) else (i + 1, u, l, i - 1))
            in rbind (auxsort (k - 1) A j i s) (auxsort (k - 1) A l u)))))" if "0 < k" for k l u and A :: "(gstate, tval) arrops" and s
  proof -
    from that obtain m where "k = Suc m" by (cases k) auto
    then show ?thesis by (simp only: auxsort.simps diff_Suc_1)
  qed
  have up1: "up_loop ?A ?v4 4 1 (?S ?v1 ?v3 ?v4 ?v2 Vnil) = Inr (5, Vnil, ?S ?v1 ?v3 ?v4 ?v2 Vnil)"
    and dn1: "down_loop ?A ?v4 1 3 (?S ?v1 ?v3 ?v4 ?v2 Vnil) = Inr (2, ?v3, ?S ?v1 ?v3 ?v4 ?v2 Vnil)"
    and up2: "up_loop ?A ?v3 4 1 (?S ?v1 Vnil ?v3 ?v2 ?v4) = Inr (2, Vnil, ?S ?v1 Vnil ?v3 ?v2 ?v4)"
    and dn2: "down_loop ?A ?v3 1 3 (?S ?v1 Vnil ?v3 ?v2 ?v4) = Inr (2, Vnil, ?S ?v1 Vnil ?v3 ?v2 ?v4)"
    and up3: "up_loop ?A ?v3 4 2 (?S ?v1 Vnil ?v3 ?v2 ?v4) = Inr (3, ?v3, ?S ?v1 Vnil ?v3 ?v2 ?v4)"
    and dn3: "down_loop ?A ?v3 1 2 (?S ?v1 Vnil ?v3 ?v2 ?v4) = Inr (1, ?v1, ?S ?v1 Vnil ?v3 ?v2 ?v4)"
    by (simp_all add: up_step [OF less] down_step [OF less] get bad_cmp_def)
  have pl1: "part_loop ?A ?v4 1 4 1 3 (?S ?v1 ?v3 ?v4 ?v2 Vnil) = Inr (5, ?S ?v1 ?v3 ?v4 ?v2 Vnil)"
    by (subst part_step [OF up1 dn1]) simp
  have "part_loop ?A ?v3 1 4 2 2 (?S ?v1 Vnil ?v3 ?v2 ?v4) = Inr (3, ?S ?v1 Vnil ?v3 ?v2 ?v4)"
    by (subst part_step [OF up3 dn3]) simp
  then have pl2: "part_loop ?A ?v3 1 4 1 3 (?S ?v1 Vnil ?v3 ?v2 ?v4) = Inr (3, ?S ?v1 Vnil ?v3 ?v2 ?v4)"
    by (subst part_step [OF up2 dn2]) (simp add: ev)
  have p1: "partition ?A 1 4 2 (?S ?v1 ?v4 ?v3 ?v2 Vnil) = Inr (5, ?S ?v1 ?v3 Vnil ?v2 ?v4)" by (simp add: ev partition_def pl1)
  have p2: "partition ?A 1 4 2 (?S ?v1 ?v3 Vnil ?v2 ?v4) = Inr (3, ?S ?v1 Vnil ?v3 ?v2 ?v4)" by (simp add: ev partition_def pl2)
  have e1: "order_ends ?A 1 4 (?S ?v1 ?v2 ?v3 ?v4 Vnil) = Inr (?S ?v1 ?v2 ?v3 ?v4 Vnil)" "order_mid ?A 1 4 2 (?S ?v1 ?v2 ?v3 ?v4 Vnil) = Inr (?S ?v1 ?v4 ?v3 ?v2 Vnil)"
    by (simp_all add: ev)
  have e2: "order_ends ?A 1 4 (?S ?v1 ?v3 Vnil ?v2 ?v4) = Inr (?S ?v1 ?v3 Vnil ?v2 ?v4)" "order_mid ?A 1 4 2 (?S ?v1 ?v3 Vnil ?v2 ?v4) = Inr (?S ?v1 ?v3 Vnil ?v2 ?v4)"
    "order_ends ?A 1 2 (?S ?v1 Vnil ?v3 ?v2 ?v4) = Inr (?S ?v1 Vnil ?v3 ?v2 ?v4)"
    by (simp_all add: ev)
  have a0: "auxsort k ?A 6 4 s = Inr s" "auxsort k ?A 4 4 s = Inr s" if "0 < k" for k s using that by (subst unf; simp)+
  have a1: "auxsort 3 ?A 1 2 (?S ?v1 Vnil ?v3 ?v2 ?v4) = Inr (?S ?v1 Vnil ?v3 ?v2 ?v4)" by (subst unf) (simp_all add: e2)
  have a2: "auxsort 4 ?A 1 4 (?S ?v1 ?v3 Vnil ?v2 ?v4) = Inr (?S ?v1 Vnil ?v3 ?v2 ?v4)" by (subst unf) (simp_all add: e2 p2 a0 a1)
  have "auxsort 5 ?A 1 4 (array_state ?vs) = Inr (?S ?v1 Vnil ?v3 ?v2 ?v4)" by (subst unf) (simp_all add: e1 p1 a0 a2)
  then have r: "sort 5 bad_env [Vtable 0, Vfunction 0] (array_state ?vs) = Inr ([], ?S ?v1 Vnil ?v3 ?v2 ?v4)"
    by (simp add: sort_def aux_getn_def check_table_def luaL_getn_def luaL_checktype_def lua_type_def index2adr_def largs_def
        luaL_checkstack_def LUAI_MAXCSTACK_def lua_isnoneornil_def to_int_def) (simp add: array_state_def n to_int_def)
  have "length [?v1, Vnil, ?v3, ?v2, ?v4] = 5" "[?v1, Vnil, ?v3, ?v2, ?v4] ! 4 \<noteq> Vnil" by simp_all
  with r show ?thesis by blast
qed

end
