(* ===== verification/Ldo.thy ===== *)
theory Ldo
  imports Lvm_ops Ldebug
begin

text \<open>
  lfunc.c and ldo.c: closures, upvalues and the entry to and return from functions, on an explicit stack with
  its list of active calls. Every access to the stack checks its index, so that a memory error is the value
  \<open>Undefined\<close>. A C function is a parameter; hooks, coroutines and protected calls are not modelled, so an error
  ends the execution.
\<close>

section \<open>The state of a thread\<close>

text \<open>
  \<open>pc\<close> is a pointer into the code of a prototype: the prototype and the index of the next instruction.
\<close>

type_synonym codeptr = "Proto \<times> int"

record CallInfo =
  ci_base :: int
  ci_func :: int
  ci_top :: int
  savedpc :: codeptr
  nresults :: int
  tailcalls :: int

datatype Closure =
    CClosure ptr "tval list" ptr          \<comment> \<open>the C function, its upvalues, its environment\<close>
  | LClosure Proto "ptr list" ptr         \<comment> \<open>the prototype, its upvalues, its environment\<close>

datatype UpVal = UOpen int | UClosed tval

text \<open>
  The stack is the whole vector of \<open>stacksize\<close> slots; positions are indices. \<open>ci\<close> has the current call first;
  \<open>openupval\<close> has the highest level first.
\<close>

record lstate = gstate +
  stack :: "tval list"
  ltop :: int
  lbase :: int
  lpc :: codeptr
  ci :: "CallInfo list"
  size_ci :: int
  closures :: "ptr \<Rightarrow> Closure"
  upvals :: "ptr \<Rightarrow> UpVal"
  openupval :: "ptr list"
  nCcalls :: int

text \<open>
  Outside the model: C functions (they get the state with their frame on top and return the number of results
  left there), the address of a new object, the address of an interned constant, success of the allocation of
  a stack, and what \<open>vmenv\<close> holds.
\<close>

record 'g cenv =
  cfunc :: "ptr \<Rightarrow> 'g \<Rightarrow> (int \<times> 'g) res"
  newobj :: "'g \<Rightarrow> ptr"
  kstr :: "bytes \<Rightarrow> ptr"
  stack_alloc :: "int \<Rightarrow> bool"
  vmops :: "'g vmenv"

definition EXTRA_STACK :: int where "EXTRA_STACK = 5"
definition LUA_MINSTACK :: int where "LUA_MINSTACK = 20"
definition LUAI_MAXCALLS :: int where "LUAI_MAXCALLS = 20000"

definition stacksize :: "'g lstate_scheme \<Rightarrow> int" where
  "stacksize G = int (length (stack G))"

definition stack_last :: "'g lstate_scheme \<Rightarrow> int" where
  "stack_last G = stacksize G - EXTRA_STACK - 1"

section \<open>Stack slots\<close>

definition rd :: "'g lstate_scheme \<Rightarrow> int \<Rightarrow> tval res" where
  "rd G i = (if 0 \<le> i \<and> i < stacksize G then Inr (stack G ! nat i) else Inl (Undefined ''stack read''))"

definition wr :: "int \<Rightarrow> tval \<Rightarrow> 'g lstate_scheme \<Rightarrow> 'g lstate_scheme res" where
  "wr i v G = (if 0 \<le> i \<and> i < stacksize G then Inr (G\<lparr>stack := (stack G)[nat i := v]\<rparr>) else Inl (Undefined ''stack write''))"

text \<open>\<open>setobjs2s\<close>.\<close>

definition mv :: "int \<Rightarrow> int \<Rightarrow> 'g lstate_scheme \<Rightarrow> 'g lstate_scheme res" where
  "mv i j G = rbind (rd G j) (\<lambda>v. wr i v G)"

primrec fill_nil :: "int \<Rightarrow> nat \<Rightarrow> 'g lstate_scheme \<Rightarrow> 'g lstate_scheme res" where
  "fill_nil i 0 G = Inr G"
| "fill_nil i (Suc n) G = rbind (wr i Vnil G) (fill_nil (i + 1) n)"

text \<open>\<open>n\<close> values moved from \<open>j\<close> on to \<open>i\<close> on, the first one first.\<close>

primrec move_vals :: "int \<Rightarrow> int \<Rightarrow> nat \<Rightarrow> 'g lstate_scheme \<Rightarrow> 'g lstate_scheme res" where
  "move_vals i j 0 G = Inr G"
| "move_vals i j (Suc n) G = rbind (mv i j G) (move_vals (i + 1) (j + 1) n)"

text \<open>A new stack keeps its values; the C code leaves the new slots uninitialised.\<close>

definition luaD_reallocstack :: "'g lstate_scheme cenv \<Rightarrow> int \<Rightarrow> 'g lstate_scheme \<Rightarrow> 'g lstate_scheme res" where
  "luaD_reallocstack C newsize G =
     (let realsize = newsize + 1 + EXTRA_STACK
      in if realsize \<ge> 2 ^ 31 then Inl (Undefined ''int overflow'')
         else if \<not> stack_alloc C realsize then Inl (MemError ''not enough memory'')
         else Inr (G\<lparr>stack := stack G @ replicate (nat (realsize - stacksize G)) Vnil\<rparr>))"

definition luaD_growstack :: "'g lstate_scheme cenv \<Rightarrow> int \<Rightarrow> 'g lstate_scheme \<Rightarrow> 'g lstate_scheme res" where
  "luaD_growstack C n G = luaD_reallocstack C (if n \<le> stacksize G then 2 * stacksize G else stacksize G + n) G"

definition luaD_checkstack :: "'g lstate_scheme cenv \<Rightarrow> int \<Rightarrow> 'g lstate_scheme \<Rightarrow> 'g lstate_scheme res" where
  "luaD_checkstack C n G = (if stack_last G - ltop G \<le> n then luaD_growstack C n G else Inr G)"

definition incr_top :: "'g lstate_scheme cenv \<Rightarrow> 'g lstate_scheme \<Rightarrow> 'g lstate_scheme res" where
  "incr_top C G = rbind (luaD_checkstack C 1 G) (\<lambda>G. Inr (G\<lparr>ltop := ltop G + 1\<rparr>))"

section \<open>Objects\<close>

text \<open>Table sizes above \<open>MAXASIZE\<close> are outside the model of tables.\<close>

definition new_table :: "'g lstate_scheme cenv \<Rightarrow> int \<Rightarrow> int \<Rightarrow> 'g lstate_scheme \<Rightarrow> (ptr \<times> 'g lstate_scheme) res" where
  "new_table C na nh G =
     (if na > int MAXASIZE \<or> nh > int MAXASIZE then Inl (Undefined ''array size'')
      else rbind (luaH_new (nat na) (nat nh)) (\<lambda>t. let p = newobj C G in Inr (p, set_table p t G)))"

definition uv_level :: "'g lstate_scheme \<Rightarrow> ptr \<Rightarrow> int" where
  "uv_level G u = (case upvals G u of UOpen i \<Rightarrow> i | UClosed _ \<Rightarrow> - 1)"

fun find_open :: "(ptr \<Rightarrow> int) \<Rightarrow> int \<Rightarrow> ptr list \<Rightarrow> ptr list \<times> ptr option \<times> ptr list" where
  "find_open lv level [] = ([], None, [])"
| "find_open lv level (u # us) =
     (if \<not> lv u \<ge> level then ([], None, u # us)
      else if lv u = level then ([], Some u, us)
      else let (b, r, a) = find_open lv level us in (u # b, r, a))"

definition luaF_findupval :: "'g lstate_scheme cenv \<Rightarrow> int \<Rightarrow> 'g lstate_scheme \<Rightarrow> ptr \<times> 'g lstate_scheme" where
  "luaF_findupval C level G =
     (case find_open (uv_level G) level (openupval G) of
        (_, Some u, _) \<Rightarrow> (u, G)
      | (b, None, a) \<Rightarrow>
          let u = newobj C G
          in (u, G\<lparr>upvals := (upvals G)(u := UOpen level), openupval := b @ u # a\<rparr>))"

fun uv_close_loop :: "ptr list \<Rightarrow> int \<Rightarrow> 'g lstate_scheme \<Rightarrow> 'g lstate_scheme res" where
  "uv_close_loop [] level G = Inr (G\<lparr>openupval := []\<rparr>)"
| "uv_close_loop (u # us) level G =
     (if uv_level G u \<ge> level
      then rbind (rd G (uv_level G u)) (\<lambda>v. uv_close_loop us level (G\<lparr>upvals := (upvals G)(u := UClosed v)\<rparr>))
      else Inr (G\<lparr>openupval := u # us\<rparr>))"

definition luaF_close :: "int \<Rightarrow> 'g lstate_scheme \<Rightarrow> 'g lstate_scheme res" where
  "luaF_close level G = uv_close_loop (openupval G) level G"

definition upval_get :: "'g lstate_scheme \<Rightarrow> ptr \<Rightarrow> tval res" where
  "upval_get G u = (case upvals G u of UOpen i \<Rightarrow> rd G i | UClosed v \<Rightarrow> Inr v)"

definition upval_set :: "ptr \<Rightarrow> tval \<Rightarrow> 'g lstate_scheme \<Rightarrow> 'g lstate_scheme res" where
  "upval_set u v G = (case upvals G u of UOpen i \<Rightarrow> wr i v G | UClosed _ \<Rightarrow> Inr (G\<lparr>upvals := (upvals G)(u := UClosed v)\<rparr>))"

section \<open>Calls\<close>

definition inc_ci :: "CallInfo \<Rightarrow> 'g lstate_scheme \<Rightarrow> 'g lstate_scheme res" where
  "inc_ci c G =
     (if int (length (ci G)) \<noteq> size_ci G then Inr (G\<lparr>ci := c # ci G\<rparr>)
      else if size_ci G > LUAI_MAXCALLS then Inl (RunError ''error in error handling'')
      else if 2 * size_ci G > LUAI_MAXCALLS then luaG_runerror ''stack overflow''
      else Inr (G\<lparr>ci := c # ci G, size_ci := 2 * size_ci G\<rparr>))"

primrec fill_arg :: "ptr \<Rightarrow> int \<Rightarrow> int \<Rightarrow> nat \<Rightarrow> 'g lstate_scheme \<Rightarrow> 'g lstate_scheme res" where
  "fill_arg h src i 0 G = Inr G"
| "fill_arg h src i (Suc n) G =
     rbind (luaH_setnum (strhash G) (tables G h) (i + 1)) (\<lambda>(t, s).
     rbind (rd G (src + i)) (\<lambda>v. fill_arg h src (i + 1) n (set_table h (store t s v) G)))"

definition set_arg_n :: "'g lstate_scheme cenv \<Rightarrow> ptr \<Rightarrow> int \<Rightarrow> 'g lstate_scheme \<Rightarrow> 'g lstate_scheme res" where
  "set_arg_n C h nvar G =
     rbind (newlstr_at (vmops C) ''n'' G) (\<lambda>(n, G).
     rbind (luaH_setstr (strhash G) (tables G h) n) (\<lambda>(t, s). Inr (set_table h (store t s (Vnumber (cast_num nvar))) G)))"

text \<open>The table \<open>arg\<close> of old-style vararg functions (LUA_COMPAT_VARARG), if the function needs it.\<close>

definition make_arg :: "'g lstate_scheme cenv \<Rightarrow> Proto \<Rightarrow> int \<Rightarrow> 'g lstate_scheme \<Rightarrow> (ptr option \<times> 'g lstate_scheme) res" where
  "make_arg C p actual G =
     (if is_vararg p AND VARARG_NEEDSARG = 0 then Inr (None, G)
      else let nvar = actual - uint (numparams p)
           in rbind (luaD_checkstack C (maxstack p) G) (\<lambda>G.
              rbind (new_table C nvar 1 G) (\<lambda>(h, G).
              rbind (fill_arg h (ltop G - nvar) 0 (nat nvar) G) (\<lambda>G.
              rbind (set_arg_n C h nvar G) (\<lambda>G. Inr (Some h, G))))))"

primrec move_params :: "int \<Rightarrow> nat \<Rightarrow> 'g lstate_scheme \<Rightarrow> 'g lstate_scheme res" where
  "move_params fixed 0 G = Inr G"
| "move_params fixed (Suc n) G =
     rbind (mv (ltop G) fixed G) (\<lambda>G. rbind (wr fixed Vnil G) (\<lambda>G. move_params (fixed + 1) n (G\<lparr>ltop := ltop G + 1\<rparr>)))"

definition adjust_varargs :: "'g lstate_scheme cenv \<Rightarrow> Proto \<Rightarrow> int \<Rightarrow> 'g lstate_scheme \<Rightarrow> (int \<times> 'g lstate_scheme) res" where
  "adjust_varargs C p actual G =
     (let nfixargs = uint (numparams p); missing = nat (nfixargs - actual); actual = max actual nfixargs
      in rbind (fill_nil (ltop G) missing G) (\<lambda>G.
         rbind (make_arg C p actual (G\<lparr>ltop := ltop G + int missing\<rparr>)) (\<lambda>(htab, G).
           let fixed = ltop G - actual; base = ltop G
           in rbind (move_params fixed (nat nfixargs) G) (\<lambda>G.
              case htab of
                None \<Rightarrow> Inr (base, G)
              | Some h \<Rightarrow> rbind (wr (ltop G) (Vtable h) G) (\<lambda>G. Inr (base, G\<lparr>ltop := ltop G + 1\<rparr>))))))"

text \<open>\<open>for (p = L->top; p > func; p--) setobjs2s(L, p, p-1)\<close>.\<close>

primrec open_hole :: "int \<Rightarrow> nat \<Rightarrow> 'g lstate_scheme \<Rightarrow> 'g lstate_scheme res" where
  "open_hole p 0 G = Inr G"
| "open_hole p (Suc n) G = rbind (mv p (p - 1) G) (open_hole (p - 1) n)"

definition tryfuncTM :: "'g lstate_scheme cenv \<Rightarrow> int \<Rightarrow> 'g lstate_scheme \<Rightarrow> 'g lstate_scheme res" where
  "tryfuncTM C func G =
     rbind (rd G func) (\<lambda>f.
       let tm = luaT_gettmbyobj G f TM_CALL
       in if ttype tm \<noteq> 6 then luaG_typeerror f ''call''
          else rbind (open_hole (ltop G) (nat (ltop G - func)) G) (\<lambda>G.
               rbind (incr_top C G) (\<lambda>G. wr func tm G)))"

definition luaD_poscall :: "int \<Rightarrow> 'g lstate_scheme \<Rightarrow> (int \<times> 'g lstate_scheme) res" where
  "luaD_poscall firstResult G =
     (case ci G of
        c # c1 # cs \<Rightarrow>
          let wanted = nresults c; avail = nat (ltop G - firstResult);
              n = (if wanted < 0 then avail else min (nat wanted) avail)
          in rbind (move_vals (ci_func c) firstResult n (G\<lparr>ci := c1 # cs, lbase := ci_base c1, lpc := savedpc c1\<rparr>)) (\<lambda>G.
             rbind (fill_nil (ci_func c + int n) (nat wanted - n) G) (\<lambda>G.
               Inr (wanted - LUA_MULTRET, G\<lparr>ltop := ci_func c + int n + int (nat wanted - n)\<rparr>)))
      | _ \<Rightarrow> Inl (Undefined ''no frame''))"

datatype pcr = PCRLUA | PCRC | PCRYIELD

definition precall_lua ::
  "'g lstate_scheme cenv \<Rightarrow> Proto \<Rightarrow> int \<Rightarrow> int \<Rightarrow> 'g lstate_scheme \<Rightarrow> (pcr \<times> 'g lstate_scheme) res" where
  "precall_lua C p func nres G =
     rbind (luaD_checkstack C (maxstack p + uint (numparams p)) G) (\<lambda>G.
     rbind (if is_vararg p = 0
            then let base = func + 1
                 in Inr (base, if ltop G > base + uint (numparams p) then G\<lparr>ltop := base + uint (numparams p)\<rparr> else G)
            else adjust_varargs C p (ltop G - func - 1) G) (\<lambda>(base, G).
     let top = base + maxstack p
     in rbind (inc_ci \<lparr>ci_base = base, ci_func = func, ci_top = top, savedpc = (p, 0), nresults = nres, tailcalls = 0\<rparr> G) (\<lambda>G.
        rbind (fill_nil (ltop G) (nat (top - ltop G)) G) (\<lambda>G.
          Inr (PCRLUA, G\<lparr>lbase := base, lpc := (p, 0), ltop := top\<rparr>)))))"

definition precall_c ::
  "'g lstate_scheme cenv \<Rightarrow> ptr \<Rightarrow> int \<Rightarrow> int \<Rightarrow> 'g lstate_scheme \<Rightarrow> (pcr \<times> 'g lstate_scheme) res" where
  "precall_c C f func nres G =
     rbind (luaD_checkstack C LUA_MINSTACK G) (\<lambda>G.
     rbind (inc_ci \<lparr>ci_base = func + 1, ci_func = func, ci_top = ltop G + LUA_MINSTACK, savedpc = lpc G, nresults = nres,
              tailcalls = 0\<rparr> G) (\<lambda>G.
     rbind (cfunc C f (G\<lparr>lbase := func + 1\<rparr>)) (\<lambda>(n, G).
       if n < 0 then Inr (PCRYIELD, G) else rbind (luaD_poscall (ltop G - n) G) (\<lambda>(_, G). Inr (PCRC, G)))))"

definition luaD_precall ::
  "'g lstate_scheme cenv \<Rightarrow> int \<Rightarrow> int \<Rightarrow> 'g lstate_scheme \<Rightarrow> (pcr \<times> 'g lstate_scheme) res" where
  "luaD_precall C func nres G =
     rbind (rd G func) (\<lambda>f.
     rbind (if ttype f \<noteq> 6 then tryfuncTM C func G else Inr G) (\<lambda>G.
     rbind (rd G func) (\<lambda>f. case f of
       Vfunction p \<Rightarrow>
         (case ci G of
            [] \<Rightarrow> Inl (Undefined ''no frame'')
          | c # cs \<Rightarrow>
              let G = G\<lparr>ci := c\<lparr>savedpc := lpc G\<rparr> # cs\<rparr>
              in case closures G p of
                   LClosure pt _ _ \<Rightarrow> precall_lua C pt func nres G
                 | CClosure cf _ _ \<Rightarrow> precall_c C cf func nres G)
     | _ \<Rightarrow> Inl (Undefined ''not a function''))))"

text \<open>\<open>run\<close> is \<open>luaV_execute\<close> with one frame.\<close>

definition luaD_call_with ::
  "('g lstate_scheme \<Rightarrow> 'g lstate_scheme res) \<Rightarrow> 'g lstate_scheme cenv \<Rightarrow> int \<Rightarrow> int \<Rightarrow> 'g lstate_scheme \<Rightarrow> 'g lstate_scheme res" where
  "luaD_call_with run C func nres G =
     (let n = nCcalls G + 1; G = G\<lparr>nCcalls := n\<rparr>
      in if n = LUAI_MAXCCALLS then luaG_runerror ''C stack overflow''
         else if n \<ge> LUAI_MAXCCALLS + LUAI_MAXCCALLS div 8 then Inl (RunError ''error in error handling'')
         else rbind (luaD_precall C func nres G) (\<lambda>(r, G).
              rbind (if r = PCRLUA then run G else Inr G) (\<lambda>G. Inr (G\<lparr>nCcalls := nCcalls G - 1\<rparr>))))"

end
