(* ===== verification/Lvm.thy ===== *)
theory Lvm
  imports Ldo
begin

text \<open>
  lvm.c: the interpreter. \<open>vm_step\<close> is one round of the main loop of \<open>luaV_execute\<close>, with the operands read and
  written on the stack in the order of the code; \<open>vm_loop\<close> is the loop with its calls, returns and nested calls
  from metamethods. Its fuel bounds the instructions executed. Hooks are not set, the garbage collector is
  not run.
\<close>

section \<open>Calls of metamethods\<close>

primrec push_vals :: "int \<Rightarrow> tval list \<Rightarrow> 'g lstate_scheme \<Rightarrow> 'g lstate_scheme res" where
  "push_vals i [] G = Inr G"
| "push_vals i (v # vs) G = rbind (wr i v G) (push_vals (i + 1) vs)"

definition callTMres_with ::
  "(int \<Rightarrow> int \<Rightarrow> 'g lstate_scheme \<Rightarrow> 'g lstate_scheme res) \<Rightarrow> 'g lstate_scheme cenv \<Rightarrow> tval \<Rightarrow> tval list \<Rightarrow> 'g lstate_scheme
     \<Rightarrow> (tval \<times> 'g lstate_scheme) res" where
  "callTMres_with dcall C f ps G =
     rbind (push_vals (ltop G) (f # ps) G) (\<lambda>G.
     rbind (luaD_checkstack C 3 G) (\<lambda>G.
     let func = ltop G
     in rbind (dcall func 1 (G\<lparr>ltop := ltop G + 3\<rparr>)) (\<lambda>G.
        let G = G\<lparr>ltop := ltop G - 1\<rparr> in rbind (rd G (ltop G)) (\<lambda>r. Inr (r, G)))))"

definition callTM_with ::
  "(int \<Rightarrow> int \<Rightarrow> 'g lstate_scheme \<Rightarrow> 'g lstate_scheme res) \<Rightarrow> 'g lstate_scheme cenv \<Rightarrow> tval \<Rightarrow> tval list \<Rightarrow> 'g lstate_scheme
     \<Rightarrow> 'g lstate_scheme res" where
  "callTM_with dcall C f ps G =
     rbind (push_vals (ltop G) (f # ps) G) (\<lambda>G.
     rbind (luaD_checkstack C 4 G) (\<lambda>G. dcall (ltop G) 0 (G\<lparr>ltop := ltop G + 4\<rparr>)))"

definition vm_env ::
  "(int \<Rightarrow> int \<Rightarrow> 'g lstate_scheme \<Rightarrow> 'g lstate_scheme res) \<Rightarrow> 'g lstate_scheme cenv \<Rightarrow> 'g lstate_scheme vmenv" where
  "vm_env dcall C = (vmops C)\<lparr>call0 := callTM_with dcall C, call1 := callTMres_with dcall C\<rparr>"

section \<open>Concatenation\<close>

text \<open>\<open>tostring\<close> of a slot: its bytes; a number is replaced by its text.\<close>

definition tostring_at :: "'g lstate_scheme vmenv \<Rightarrow> int \<Rightarrow> 'g lstate_scheme \<Rightarrow> (bytes option \<times> 'g lstate_scheme) res" where
  "tostring_at E i G =
     rbind (rd G i) (\<lambda>v. case v of
       Vstring p \<Rightarrow> Inr (Some (chars G p), G)
     | Vnumber n \<Rightarrow>
         let s = fmt14g (elib E) n
         in rbind (newlstr_at E s G) (\<lambda>(p, G). rbind (wr i (Vstring p) G) (\<lambda>G. Inr (Some s, G)))
     | _ \<Rightarrow> Inr (None, G))"

text \<open>How many of the topmost values are strings or numbers, their length, and their bytes.\<close>

primrec collect :: "'g lstate_scheme vmenv \<Rightarrow> int \<Rightarrow> nat \<Rightarrow> nat \<Rightarrow> bytes \<Rightarrow> 'g lstate_scheme \<Rightarrow> (nat \<times> bytes \<times> 'g lstate_scheme) res" where
  "collect E tp 0 n b G = Inr (n, b, G)"
| "collect E tp (Suc r) n b G =
     rbind (tostring_at E (tp - int n - 1) G) (\<lambda>(s, G). case s of
       None \<Rightarrow> Inr (n, b, G)
     | Some s \<Rightarrow> if length s \<ge> MAX_SIZET - length b then luaG_runerror ''string length overflow''
                 else collect E tp r (n + 1) (s @ b) G)"

definition concat_meta :: "'g lstate_scheme vmenv \<Rightarrow> int \<Rightarrow> 'g lstate_scheme \<Rightarrow> (nat \<times> 'g lstate_scheme) res" where
  "concat_meta E tp G =
     rbind (rd G (tp - 2)) (\<lambda>v2. rbind (rd G (tp - 1)) (\<lambda>v1.
     rbind (call_binTM E v2 v1 TM_CONCAT G) (\<lambda>(r, G). case r of
       Some v \<Rightarrow> rbind (wr (tp - 2) v G) (\<lambda>G. Inr (2, G))
     | None \<Rightarrow> luaG_concaterror v2 v1)))"

definition concat_join :: "'g lstate_scheme vmenv \<Rightarrow> int \<Rightarrow> nat \<Rightarrow> bytes \<Rightarrow> 'g lstate_scheme \<Rightarrow> (nat \<times> 'g lstate_scheme) res" where
  "concat_join E tp cnt s G =
     rbind (collect E tp (cnt - 1) 1 s G) (\<lambda>(n, b, G).
     rbind (newlstr_at E b G) (\<lambda>(p, G). rbind (wr (tp - int n) (Vstring p) G) (\<lambda>G. Inr (n, G))))"

text \<open>One pass of the loop: the number of values it has joined.\<close>

definition concat_pass :: "'g lstate_scheme vmenv \<Rightarrow> nat \<Rightarrow> int \<Rightarrow> 'g lstate_scheme \<Rightarrow> (nat \<times> 'g lstate_scheme) res" where
  "concat_pass E cnt lst G =
     (let tp = lbase G + lst + 1
      in rbind (rd G (tp - 2)) (\<lambda>v2.
         if \<not> (ttype v2 = 4 \<or> ttype v2 = 3) then concat_meta E tp G
         else rbind (tostring_at E (tp - 1) G) (\<lambda>(s, G). case s of
           None \<Rightarrow> concat_meta E tp G
         | Some s \<Rightarrow>
             if s = [] then rbind (tostring_at E (tp - 2) G) (\<lambda>(_, G). Inr (2, G))
             else concat_join E tp cnt s G)))"

primrec concat_loop_fuel :: "nat \<Rightarrow> 'g lstate_scheme vmenv \<Rightarrow> nat \<Rightarrow> int \<Rightarrow> 'g lstate_scheme \<Rightarrow> 'g lstate_scheme res" where
  "concat_loop_fuel 0 E cnt lst G = Inl (Undefined ''concat fuel'')"
| "concat_loop_fuel (Suc k) E cnt lst G =
     rbind (concat_pass E cnt lst G) (\<lambda>(n, G).
       let cnt = cnt - (n - 1); lst = lst - int (n - 1)
       in if cnt > 1 then concat_loop_fuel k E cnt lst G else Inr G)"

definition luaV_concat :: "'g lstate_scheme vmenv \<Rightarrow> nat \<Rightarrow> int \<Rightarrow> 'g lstate_scheme \<Rightarrow> 'g lstate_scheme res" where
  "luaV_concat E cnt lst G = concat_loop_fuel cnt E cnt lst G"

section \<open>Operands\<close>

text \<open>The function that runs: its prototype, upvalues and environment (\<open>cl\<close>).\<close>

type_synonym frame = "Proto \<times> ptr list \<times> ptr"

definition const_val :: "'g cenv \<Rightarrow> kval \<Rightarrow> tval res" where
  "const_val C v =
     (case v of
        Vstring None \<Rightarrow> Inl (Undefined ''null string'')
      | Vstring (Some s) \<Rightarrow> Inr (Vstring (kstr C s))
      | _ \<Rightarrow> Inr (map_TValue (\<lambda>_. 0) v))"

definition konst :: "'g cenv \<Rightarrow> Proto \<Rightarrow> int \<Rightarrow> tval res" where
  "konst C pt j = rbind (read_at (pk pt) j) (const_val C)"

definition reg :: "'g lstate_scheme \<Rightarrow> int \<Rightarrow> tval res" where
  "reg G n = rd G (lbase G + n)"

definition setreg :: "int \<Rightarrow> tval \<Rightarrow> 'g lstate_scheme \<Rightarrow> 'g lstate_scheme res" where
  "setreg n v G = wr (lbase G + n) v G"

definition RK :: "'g lstate_scheme cenv \<Rightarrow> Proto \<Rightarrow> 'g lstate_scheme \<Rightarrow> int \<Rightarrow> tval res" where
  "RK C pt G x = (if ISK x then konst C pt (INDEXK x) else reg G x)"

definition bool_int :: "bool \<Rightarrow> int" where
  "bool_int b = (if b then 1 else 0)"

datatype ctl =
    Next int         \<comment> \<open>\<open>continue\<close>, with the new \<open>pc\<close>\<close>
  | Entered          \<comment> \<open>a call of a Lua function: \<open>nexeccalls++\<close>, \<open>goto reentry\<close>\<close>
  | Replaced         \<comment> \<open>a tail call of a Lua function: \<open>goto reentry\<close>\<close>
  | Returned bool    \<comment> \<open>the result of \<open>luaD_poscall\<close>\<close>
  | Yielded

text \<open>\<open>if (cond) dojump(L, pc, GETARG_sBx(*pc)); pc++\<close>.\<close>

definition test_jump :: "Proto \<Rightarrow> int \<Rightarrow> bool \<Rightarrow> 'g \<Rightarrow> (ctl \<times> 'g) res" where
  "test_jump pt pc cond G =
     (if cond then rbind (read_at (pcode pt) pc) (\<lambda>i. Inr (Next (pc + GETARG_sBx i + 1), G)) else Inr (Next (pc + 1), G))"

definition go :: "int \<Rightarrow> 'g res \<Rightarrow> (ctl \<times> 'g) res" where
  "go pc m = rbind m (\<lambda>G. Inr (Next pc, G))"

text \<open>\<open>do setnilvalue(rb--) while (rb >= ra)\<close>.\<close>

primrec nil_down :: "int \<Rightarrow> nat \<Rightarrow> 'g lstate_scheme \<Rightarrow> 'g lstate_scheme res" where
  "nil_down i 0 G = Inr G"
| "nil_down i (Suc n) G = rbind (setreg i Vnil G) (nil_down (i - 1) n)"

section \<open>Instructions\<close>

definition op_arith ::
  "'g lstate_scheme cenv \<Rightarrow> 'g lstate_scheme vmenv \<Rightarrow> Proto \<Rightarrow> TMS \<Rightarrow> int \<Rightarrow> int \<Rightarrow> int \<Rightarrow> 'g lstate_scheme \<Rightarrow> 'g lstate_scheme res" where
  "op_arith C E pt tm a b c G =
     rbind (RK C pt G b) (\<lambda>rb. rbind (RK C pt G c) (\<lambda>rc.
     rbind (arith_op E rb rc tm G) (\<lambda>(v, G). setreg a v G)))"

definition op_unm :: "'g lstate_scheme vmenv \<Rightarrow> int \<Rightarrow> int \<Rightarrow> 'g lstate_scheme \<Rightarrow> 'g lstate_scheme res" where
  "op_unm E a b G =
     rbind (reg G b) (\<lambda>rb. rbind (arith_op E rb rb TM_UNM G) (\<lambda>(v, G). setreg a v G))"

definition op_len :: "'g lstate_scheme vmenv \<Rightarrow> int \<Rightarrow> int \<Rightarrow> 'g lstate_scheme \<Rightarrow> 'g lstate_scheme res" where
  "op_len E a b G =
     rbind (reg G b) (\<lambda>rb. case rb of
       Vtable p \<Rightarrow> (case luaH_getn (tables G p) of
           Some n \<Rightarrow> setreg a (Vnumber (cast_num (int n))) G | None \<Rightarrow> Inl (Undefined ''luaH_getn''))
     | Vstring p \<Rightarrow> setreg a (Vnumber (cast_num (int (length (chars G p))))) G
     | _ \<Rightarrow> rbind (call_binTM E rb Vnil TM_LEN G) (\<lambda>(r, G). case r of
              Some v \<Rightarrow> setreg a v G | None \<Rightarrow> luaG_typeerror rb ''get length of''))"

definition op_self ::
  "'g lstate_scheme cenv \<Rightarrow> 'g lstate_scheme vmenv \<Rightarrow> Proto \<Rightarrow> int \<Rightarrow> int \<Rightarrow> int \<Rightarrow> 'g lstate_scheme \<Rightarrow> 'g lstate_scheme res" where
  "op_self C E pt a b c G =
     rbind (reg G b) (\<lambda>rb. rbind (setreg (a + 1) rb G) (\<lambda>G.
     rbind (reg G b) (\<lambda>rb. rbind (RK C pt G c) (\<lambda>rc.
     rbind (luaV_gettable E rb rc G) (\<lambda>(v, G). setreg a v G)))))"

definition op_concat :: "'g lstate_scheme vmenv \<Rightarrow> int \<Rightarrow> int \<Rightarrow> int \<Rightarrow> 'g lstate_scheme \<Rightarrow> 'g lstate_scheme res" where
  "op_concat E a b c G =
     rbind (luaV_concat E (nat (c - b + 1)) c G) (\<lambda>G. rbind (reg G b) (\<lambda>v. setreg a v G))"

definition op_testset :: "Proto \<Rightarrow> int \<Rightarrow> int \<Rightarrow> int \<Rightarrow> int \<Rightarrow> 'g lstate_scheme \<Rightarrow> (ctl \<times> 'g lstate_scheme) res" where
  "op_testset pt a b c pc G =
     rbind (reg G b) (\<lambda>rb.
       if bool_int (l_isfalse rb) \<noteq> c then rbind (setreg a rb G) (test_jump pt pc True) else Inr (Next (pc + 1), G))"

definition op_call :: "'g lstate_scheme cenv \<Rightarrow> Proto \<Rightarrow> int \<Rightarrow> int \<Rightarrow> int \<Rightarrow> int \<Rightarrow> 'g lstate_scheme \<Rightarrow> (ctl \<times> 'g lstate_scheme) res" where
  "op_call C pt a b c pc G =
     (let ra = lbase G + a; G = (if b \<noteq> 0 then G\<lparr>ltop := ra + b\<rparr> else G)
      in rbind (luaD_precall C ra (c - 1) (G\<lparr>lpc := (pt, pc)\<rparr>)) (\<lambda>(r, G). case r of
           PCRLUA \<Rightarrow> Inr (Entered, G)
         | PCRC \<Rightarrow> Inr (Next pc, if c - 1 \<ge> 0 then G\<lparr>ltop := ci_top (hd (ci G))\<rparr> else G)
         | PCRYIELD \<Rightarrow> Inr (Yielded, G)))"

text \<open>The new frame takes the place of the one that called it.\<close>

definition replace_frame :: "'g lstate_scheme \<Rightarrow> 'g lstate_scheme res" where
  "replace_frame G =
     (case ci G of
        cn # c # cs \<Rightarrow>
          let func = ci_func c; pfunc = ci_func cn
          in rbind (luaF_close (ci_base c) G) (\<lambda>G.
             let base = func + (ci_base cn - pfunc); aux = nat (ltop G - pfunc)
             in rbind (move_vals func pfunc aux (G\<lparr>lbase := base\<rparr>)) (\<lambda>G.
                let top = func + int aux
                in Inr (G\<lparr>ltop := top,
                     ci := c\<lparr>ci_base := base, ci_top := top, savedpc := lpc G, tailcalls := tailcalls c + 1\<rparr> # cs\<rparr>)))
      | _ \<Rightarrow> Inl (Undefined ''no frame''))"

definition op_tailcall :: "'g lstate_scheme cenv \<Rightarrow> Proto \<Rightarrow> int \<Rightarrow> int \<Rightarrow> int \<Rightarrow> 'g lstate_scheme \<Rightarrow> (ctl \<times> 'g lstate_scheme) res" where
  "op_tailcall C pt a b pc G =
     (let ra = lbase G + a; G = (if b \<noteq> 0 then G\<lparr>ltop := ra + b\<rparr> else G)
      in rbind (luaD_precall C ra LUA_MULTRET (G\<lparr>lpc := (pt, pc)\<rparr>)) (\<lambda>(r, G). case r of
           PCRLUA \<Rightarrow> rbind (replace_frame G) (\<lambda>G. Inr (Replaced, G))
         | PCRC \<Rightarrow> Inr (Next pc, G)
         | PCRYIELD \<Rightarrow> Inr (Yielded, G)))"

definition op_return :: "Proto \<Rightarrow> int \<Rightarrow> int \<Rightarrow> int \<Rightarrow> 'g lstate_scheme \<Rightarrow> (ctl \<times> 'g lstate_scheme) res" where
  "op_return pt a b pc G =
     (let ra = lbase G + a; G = (if b \<noteq> 0 then G\<lparr>ltop := ra + b - 1\<rparr> else G)
      in rbind (luaF_close (lbase G) G) (\<lambda>G.
         rbind (luaD_poscall ra (G\<lparr>lpc := (pt, pc)\<rparr>)) (\<lambda>(r, G). Inr (Returned (r \<noteq> 0), G))))"

text \<open>\<open>nvalue\<close> of a slot that need not hold a number: the C code does not look at the tag.\<close>

definition nvalue_at :: "'g lstate_scheme \<Rightarrow> int \<Rightarrow> lua_Number res" where
  "nvalue_at G n = rbind (reg G n) (\<lambda>v. case v of Vnumber x \<Rightarrow> Inr x | _ \<Rightarrow> Inl (Undefined ''for loop''))"

definition op_forloop :: "int \<Rightarrow> int \<Rightarrow> int \<Rightarrow> 'g lstate_scheme \<Rightarrow> (ctl \<times> 'g lstate_scheme) res" where
  "op_forloop a sbx pc G =
     rbind (nvalue_at G (a + 2)) (\<lambda>step. rbind (nvalue_at G a) (\<lambda>idx0. rbind (nvalue_at G (a + 1)) (\<lambda>limit.
       let idx = luai_numadd idx0 step
       in if (if luai_numlt num_zero step then luai_numle idx limit else luai_numle limit idx)
          then rbind (setreg a (Vnumber idx) G) (\<lambda>G. go (pc + sbx) (setreg (a + 3) (Vnumber idx) G))
          else Inr (Next pc, G))))"

text \<open>\<open>tonumber(o, o)\<close> on a register: a numeral is replaced by its number.\<close>

definition tonumber_at :: "'g lstate_scheme vmenv \<Rightarrow> int \<Rightarrow> string \<Rightarrow> 'g lstate_scheme \<Rightarrow> (lua_Number \<times> 'g lstate_scheme) res" where
  "tonumber_at E n msg G =
     rbind (reg G n) (\<lambda>v. case v of
       Vnumber x \<Rightarrow> Inr (x, G)
     | _ \<Rightarrow> (case tonum E G v of Some x \<Rightarrow> rbind (setreg n (Vnumber x) G) (\<lambda>G. Inr (x, G)) | None \<Rightarrow> luaG_runerror msg))"

definition for_msg :: "string \<Rightarrow> string" where
  "for_msg w = [CHR 0x27] @ ''for'' @ [CHR 0x27] @ '' '' @ w @ '' must be a number''"

definition op_forprep :: "'g lstate_scheme vmenv \<Rightarrow> int \<Rightarrow> int \<Rightarrow> int \<Rightarrow> 'g lstate_scheme \<Rightarrow> (ctl \<times> 'g lstate_scheme) res" where
  "op_forprep E a sbx pc G =
     rbind (tonumber_at E a (for_msg ''initial value'') G) (\<lambda>(init, G).
     rbind (tonumber_at E (a + 1) (for_msg ''limit'') G) (\<lambda>(_, G).
     rbind (tonumber_at E (a + 2) (for_msg ''step'') G) (\<lambda>(step, G).
       go (pc + sbx) (setreg a (Vnumber (luai_numsub init step)) G))))"

definition op_tforloop ::
  "(int \<Rightarrow> int \<Rightarrow> 'g lstate_scheme \<Rightarrow> 'g lstate_scheme res) \<Rightarrow> Proto \<Rightarrow> int \<Rightarrow> int \<Rightarrow> int \<Rightarrow> 'g lstate_scheme \<Rightarrow> (ctl \<times> 'g lstate_scheme) res" where
  "op_tforloop dcall pt a c pc G =
     (let ra = lbase G + a; cb = ra + 3
      in rbind (mv (cb + 2) (ra + 2) G) (\<lambda>G. rbind (mv (cb + 1) (ra + 1) G) (\<lambda>G. rbind (mv cb ra G) (\<lambda>G.
         rbind (dcall cb c (G\<lparr>ltop := cb + 3, lpc := (pt, pc)\<rparr>)) (\<lambda>G.
           let G = G\<lparr>ltop := ci_top (hd (ci G))\<rparr>
           in rbind (reg G (a + 3)) (\<lambda>v.
              if ttisnil v then Inr (Next (pc + 1), G)
              else rbind (setreg (a + 2) v G) (test_jump pt pc True)))))))"

primrec setlist_loop :: "ptr \<Rightarrow> int \<Rightarrow> int \<Rightarrow> nat \<Rightarrow> 'g lstate_scheme \<Rightarrow> 'g lstate_scheme res" where
  "setlist_loop h a lst 0 G = Inr G"
| "setlist_loop h a lst (Suc n) G =
     rbind (luaH_setnum (strhash G) (tables G h) lst) (\<lambda>(t, s).
     rbind (reg G (a + int n + 1)) (\<lambda>v. setlist_loop h a (lst - 1) n (set_table h (store t s v) G)))"

definition setlist_into :: "ptr \<Rightarrow> int \<Rightarrow> int \<Rightarrow> int \<Rightarrow> 'g lstate_scheme \<Rightarrow> 'g lstate_scheme res" where
  "setlist_into h a c n G =
     (let lst = (c - 1) * LFIELDS_PER_FLUSH + n
      in if \<not> (- (2 ^ 31) \<le> c - 1 \<and> - (2 ^ 31) \<le> (c - 1) * LFIELDS_PER_FLUSH \<and> (c - 1) * LFIELDS_PER_FLUSH < 2 ^ 31
               \<and> - (2 ^ 31) \<le> lst \<and> lst < 2 ^ 31 \<and> - (2 ^ 31) \<le> lst - n)
         then Inl (Undefined ''int overflow'')
         else rbind (if lst > int (sizearray (tables G h))
                     then if lst > int MAXASIZE then Inl (Undefined ''array size'')
                          else rbind (luaH_resizearray (strhash G) (tables G h) (nat lst)) (\<lambda>t. Inr (set_table h t G))
                     else Inr G) (setlist_loop h a lst (nat n)))"

definition op_setlist :: "Proto \<Rightarrow> int \<Rightarrow> int \<Rightarrow> int \<Rightarrow> int \<Rightarrow> 'g lstate_scheme \<Rightarrow> (ctl \<times> 'g lstate_scheme) res" where
  "op_setlist pt a b c pc G =
     (let n = (if b = 0 then ltop G - (lbase G + a) - 1 else b);
          G = (if b = 0 then G\<lparr>ltop := ci_top (hd (ci G))\<rparr> else G)
      in rbind (if c = 0 then rbind (read_at (pcode pt) pc) (\<lambda>w. Inr (sint w, pc + 1)) else Inr (c, pc)) (\<lambda>(c, pc).
         rbind (reg G a) (\<lambda>v. case v of Vtable h \<Rightarrow> go pc (setlist_into h a c n G) | _ \<Rightarrow> Inr (Next pc, G))))"

text \<open>The upvalues of a new closure, from the instructions that follow.\<close>

primrec closure_upvals ::
  "'g lstate_scheme cenv \<Rightarrow> frame \<Rightarrow> int \<Rightarrow> nat \<Rightarrow> 'g lstate_scheme \<Rightarrow> (ptr list \<times> 'g lstate_scheme) res" where
  "closure_upvals C cl pc 0 G = Inr ([], G)"
| "closure_upvals C cl pc (Suc n) G =
     (case cl of (pt, us, env) \<Rightarrow>
       rbind (read_at (pcode pt) pc) (\<lambda>i.
       rbind (if cast_OpCode (GET_OPCODE i) = Some OP_GETUPVAL
              then rbind (read_at us (GETARG_B i)) (\<lambda>u. Inr (u, G))
              else Inr (luaF_findupval C (lbase G + GETARG_B i) G)) (\<lambda>(u, G).
       rbind (closure_upvals C cl (pc + 1) n G) (\<lambda>(us', G). Inr (u # us', G)))))"

definition op_closure :: "'g lstate_scheme cenv \<Rightarrow> frame \<Rightarrow> int \<Rightarrow> int \<Rightarrow> int \<Rightarrow> 'g lstate_scheme \<Rightarrow> (ctl \<times> 'g lstate_scheme) res" where
  "op_closure C cl a bx pc G =
     (case cl of (pt, us, env) \<Rightarrow>
       rbind (read_at (pp pt) bx) (\<lambda>p.
       let ncl = newobj C G
       in rbind (closure_upvals C cl pc (unat (nups p)) G) (\<lambda>(us', G).
          go (pc + uint (nups p)) (setreg a (Vfunction ncl) (G\<lparr>closures := (closures G)(ncl := LClosure p us' env)\<rparr>)))))"

primrec copy_varargs :: "int \<Rightarrow> int \<Rightarrow> int \<Rightarrow> int \<Rightarrow> nat \<Rightarrow> 'g lstate_scheme \<Rightarrow> 'g lstate_scheme res" where
  "copy_varargs a src n j 0 G = Inr G"
| "copy_varargs a src n j (Suc r) G =
     rbind (if j < n then rbind (rd G (src + j)) (\<lambda>v. setreg (a + j) v G) else setreg (a + j) Vnil G)
       (copy_varargs a src n (j + 1) r)"

definition op_vararg :: "'g lstate_scheme cenv \<Rightarrow> Proto \<Rightarrow> int \<Rightarrow> int \<Rightarrow> 'g lstate_scheme \<Rightarrow> 'g lstate_scheme res" where
  "op_vararg C pt a b G =
     (let c = hd (ci G); n = ci_base c - ci_func c - uint (numparams pt) - 1
      in if b - 1 = LUA_MULTRET
         then rbind (luaD_checkstack C n G) (\<lambda>G.
              copy_varargs a (ci_base c - n) n 0 (nat n) (G\<lparr>ltop := lbase G + a + n\<rparr>))
         else copy_varargs a (ci_base c - n) n 0 (nat (b - 1)) G)"

section \<open>The main loop\<close>

text \<open>\<open>pc\<close> is already past the instruction \<open>i\<close>.\<close>

definition vm_op ::
  "'g lstate_scheme cenv \<Rightarrow> (int \<Rightarrow> int \<Rightarrow> 'g lstate_scheme \<Rightarrow> 'g lstate_scheme res) \<Rightarrow> frame \<Rightarrow> Instruction \<Rightarrow> int \<Rightarrow> 'g lstate_scheme
     \<Rightarrow> (ctl \<times> 'g lstate_scheme) res" where
  "vm_op C dcall cl i pc G =
     (case cl of (pt, us, env) \<Rightarrow>
      let G = G\<lparr>lpc := (pt, pc)\<rparr>; E = vm_env dcall C;
          a = GETARG_A i; b = GETARG_B i; c = GETARG_C i; bx = GETARG_Bx i; sbx = GETARG_sBx i;
          arith = (\<lambda>tm. go pc (op_arith C E pt tm a b c G))
      in case cast_OpCode (GET_OPCODE i) of None \<Rightarrow> Inr (Next pc, G) | Some op \<Rightarrow> (case op of
        OP_MOVE \<Rightarrow> go pc (rbind (reg G b) (\<lambda>v. setreg a v G))
      | OP_LOADK \<Rightarrow> go pc (rbind (konst C pt bx) (\<lambda>v. setreg a v G))
      | OP_LOADBOOL \<Rightarrow> go (if c \<noteq> 0 then pc + 1 else pc) (setreg a (Vboolean (b \<noteq> 0)) G)
      | OP_LOADNIL \<Rightarrow> go pc (nil_down b (nat (b - a) + 1) G)
      | OP_GETUPVAL \<Rightarrow> go pc (rbind (read_at us b) (\<lambda>u. rbind (upval_get G u) (\<lambda>v. setreg a v G)))
      | OP_GETGLOBAL \<Rightarrow> go pc (rbind (konst C pt bx) (\<lambda>k. rbind (luaV_gettable E (Vtable env) k G) (\<lambda>(v, G). setreg a v G)))
      | OP_GETTABLE \<Rightarrow> go pc (rbind (reg G b) (\<lambda>t. rbind (RK C pt G c) (\<lambda>k.
          rbind (luaV_gettable E t k G) (\<lambda>(v, G). setreg a v G))))
      | OP_SETGLOBAL \<Rightarrow> go pc (rbind (konst C pt bx) (\<lambda>k. rbind (reg G a) (\<lambda>v. luaV_settable E (Vtable env) k v G)))
      | OP_SETUPVAL \<Rightarrow> go pc (rbind (read_at us b) (\<lambda>u. rbind (reg G a) (\<lambda>v. upval_set u v G)))
      | OP_SETTABLE \<Rightarrow> go pc (rbind (reg G a) (\<lambda>t. rbind (RK C pt G b) (\<lambda>k. rbind (RK C pt G c) (\<lambda>v. luaV_settable E t k v G))))
      | OP_NEWTABLE \<Rightarrow> go pc (rbind (new_table C (luaO_fb2int b) (luaO_fb2int c) G) (\<lambda>(p, G). setreg a (Vtable p) G))
      | OP_SELF \<Rightarrow> go pc (op_self C E pt a b c G)
      | OP_ADD \<Rightarrow> arith TM_ADD
      | OP_SUB \<Rightarrow> arith TM_SUB
      | OP_MUL \<Rightarrow> arith TM_MUL
      | OP_DIV \<Rightarrow> arith TM_DIV
      | OP_MOD \<Rightarrow> arith TM_MOD
      | OP_POW \<Rightarrow> arith TM_POW
      | OP_UNM \<Rightarrow> go pc (op_unm E a b G)
      | OP_NOT \<Rightarrow> go pc (rbind (reg G b) (\<lambda>v. setreg a (Vboolean (l_isfalse v)) G))
      | OP_LEN \<Rightarrow> go pc (op_len E a b G)
      | OP_CONCAT \<Rightarrow> go pc (op_concat E a b c G)
      | OP_JMP \<Rightarrow> Inr (Next (pc + sbx), G)
      | OP_EQ \<Rightarrow> rbind (RK C pt G b) (\<lambda>rb. rbind (RK C pt G c) (\<lambda>rc.
          rbind (equalobj E rb rc G) (\<lambda>(r, G). test_jump pt pc (bool_int r = a) G)))
      | OP_LT \<Rightarrow> rbind (RK C pt G b) (\<lambda>rb. rbind (RK C pt G c) (\<lambda>rc.
          rbind (luaV_lessthan E rb rc G) (\<lambda>(r, G). test_jump pt pc (bool_int r = a) G)))
      | OP_LE \<Rightarrow> rbind (RK C pt G b) (\<lambda>rb. rbind (RK C pt G c) (\<lambda>rc.
          rbind (lessequal E rb rc G) (\<lambda>(r, G). test_jump pt pc (bool_int r = a) G)))
      | OP_TEST \<Rightarrow> rbind (reg G a) (\<lambda>v. test_jump pt pc (bool_int (l_isfalse v) \<noteq> c) G)
      | OP_TESTSET \<Rightarrow> op_testset pt a b c pc G
      | OP_CALL \<Rightarrow> op_call C pt a b c pc G
      | OP_TAILCALL \<Rightarrow> op_tailcall C pt a b pc G
      | OP_RETURN \<Rightarrow> op_return pt a b pc G
      | OP_FORLOOP \<Rightarrow> op_forloop a sbx pc G
      | OP_FORPREP \<Rightarrow> op_forprep E a sbx pc G
      | OP_TFORLOOP \<Rightarrow> op_tforloop dcall pt a c pc G
      | OP_SETLIST \<Rightarrow> op_setlist pt a b c pc G
      | OP_CLOSE \<Rightarrow> go pc (luaF_close (lbase G + a) G)
      | OP_CLOSURE \<Rightarrow> op_closure C cl a bx pc G
      | OP_VARARG \<Rightarrow> go pc (op_vararg C pt a b G)))"

definition vm_step ::
  "'g lstate_scheme cenv \<Rightarrow> (int \<Rightarrow> int \<Rightarrow> 'g lstate_scheme \<Rightarrow> 'g lstate_scheme res) \<Rightarrow> frame \<Rightarrow> int \<Rightarrow> 'g lstate_scheme
     \<Rightarrow> (ctl \<times> 'g lstate_scheme) res" where
  "vm_step C dcall cl pc G = rbind (read_at (pcode (fst cl)) pc) (\<lambda>i. vm_op C dcall cl i (pc + 1) G)"

text \<open>
  \<open>reentry:\<close> the function of the current frame, whose prototype is the one the saved \<open>pc\<close> points into; the C
  code takes both as they are.
\<close>

definition reentry :: "'g lstate_scheme \<Rightarrow> (frame \<times> int) res" where
  "reentry G =
     (case ci G of
        [] \<Rightarrow> Inl (Undefined ''no frame'')
      | c # _ \<Rightarrow> rbind (rd G (ci_func c)) (\<lambda>f. case f of
          Vfunction p \<Rightarrow> (case closures G p of
              LClosure pt us env \<Rightarrow> if pt = fst (lpc G) then Inr ((pt, us, env), snd (lpc G)) else Inl (Undefined ''frame'')
            | CClosure _ _ _ \<Rightarrow> Inl (Undefined ''frame''))
        | _ \<Rightarrow> Inl (Undefined ''frame'')))"

primrec vm_loop :: "nat \<Rightarrow> 'g lstate_scheme cenv \<Rightarrow> nat \<Rightarrow> frame \<Rightarrow> int \<Rightarrow> 'g lstate_scheme \<Rightarrow> 'g lstate_scheme res" where
  "vm_loop 0 C nexec cl pc G = Inl (Undefined ''fuel'')"
| "vm_loop (Suc k) C nexec cl pc G =
     (let run = (\<lambda>n G. rbind (reentry G) (\<lambda>(cl, pc). vm_loop k C n cl pc G))
      in rbind (vm_step C (luaD_call_with (run 1) C) cl pc G) (\<lambda>(r, G). case r of
           Next pc \<Rightarrow> vm_loop k C nexec cl pc G
         | Entered \<Rightarrow> run (nexec + 1) G
         | Replaced \<Rightarrow> run nexec G
         | Returned b \<Rightarrow>
             if nexec \<le> 1 then Inr G
             else run (nexec - 1) (if b then G\<lparr>ltop := ci_top (hd (ci G))\<rparr> else G)
         | Yielded \<Rightarrow> Inr G))"

definition luaV_execute :: "nat \<Rightarrow> 'g lstate_scheme cenv \<Rightarrow> nat \<Rightarrow> 'g lstate_scheme \<Rightarrow> 'g lstate_scheme res" where
  "luaV_execute fuel C nexeccalls G = rbind (reentry G) (\<lambda>(cl, pc). vm_loop fuel C nexeccalls cl pc G)"

definition luaD_call :: "nat \<Rightarrow> 'g lstate_scheme cenv \<Rightarrow> int \<Rightarrow> int \<Rightarrow> 'g lstate_scheme \<Rightarrow> 'g lstate_scheme res" where
  "luaD_call fuel C = luaD_call_with (luaV_execute fuel C 1) C"

end
