(* ===== verification/Lvm_ok.thy ===== *)
theory Lvm_ok
  imports Lvm Lvm_meta Ltable_iter Ldebug_flow
begin

text \<open>
  The invariant of the interpreter: well-formed objects, frames inside the stack, functions whose code the
  checker has accepted; and that the operations on values and the stack keep it. \<open>inst G0\<close> is the state inside
  an instruction that began in \<open>G0\<close>: objects and slots may have changed, the calls have not.
\<close>

section \<open>Errors that can happen\<close>

text \<open>
  What may end an execution: an error of Lua, or one of the undefined behaviours named here. They are the two
  confusions the checker does not exclude (\<open>for loop\<close>: the loop runs on values that are not numbers, \<open>frame\<close>: a
  running function was replaced in its stack slot through an upvalue), an overflow of a size of more than 2147483647
  slots, table sizes outside the model, and the end of the fuel.
\<close>

definition allowed :: "lua_error \<Rightarrow> bool" where
  "allowed e = (case e of
     Undefined w \<Rightarrow> w \<in> {''fuel'', ''int overflow'', ''array size'', ''for loop'', ''frame''}
   | _ \<Rightarrow> True)"

lemma allowed_simps [simp]:
  "allowed (RunError m)" "allowed (MemError m)" "allowed (SyntaxError m)"
  "allowed (Undefined ''fuel'')" "allowed (Undefined ''int overflow'')" "allowed (Undefined ''array size'')"
  "allowed (Undefined ''for loop'')" "allowed (Undefined ''frame'')"
  by (simp_all add: allowed_def)

lemma runerror_yields [simp]:
  "yields allowed (luaG_runerror m) Q" "yields allowed (luaG_typeerror v w) Q" "yields allowed (luaG_ordererror v v') Q"
  "yields allowed (luaG_concaterror v v') Q" "yields allowed (luaG_aritherror E G v v') Q"
  by (simp_all add: luaG_runerror_def luaG_typeerror_def luaG_ordererror_def luaG_concaterror_def luaG_aritherror_def)

section \<open>Functions the compiler makes\<close>

text \<open>
  What the checker accepts still has to keep four conventions of the code generator, which \<open>luaG_checkcode\<close> does
  not look at: OP_LOADBOOL skips only with a C of 1, a tail call asks for all results, a call that takes a
  variable number of arguments has its function below the values left there, and constants are of the four
  types of literals, with a string behind every string constant.
\<close>

definition leaves_open :: "Instruction \<Rightarrow> bool" where
  "leaves_open i = (op_of i \<in> {OP_CALL, OP_TAILCALL} \<and> GETARG_C i = 0 \<or> op_of i = OP_VARARG \<and> GETARG_B i = 0)"

definition calls_open :: "Instruction \<Rightarrow> bool" where
  "calls_open i = (op_of i \<in> {OP_CALL, OP_TAILCALL} \<and> GETARG_B i = 0)"

definition open_order :: "Instruction list \<Rightarrow> bool" where
  "open_order ins = list_all (\<lambda>j. scanned ins j \<and> leaves_open (ins ! j) \<and> calls_open (ins ! (j + 1)) \<longrightarrow>
     GETARG_A (ins ! (j + 1)) < GETARG_A (ins ! j)) [0..<length ins - 1]"

definition tailcalls_ok :: "Instruction list \<Rightarrow> bool" where
  "tailcalls_ok ins = list_all (\<lambda>i. op_of i = OP_TAILCALL \<longrightarrow> GETARG_C i = 0) ins"

fun konst_ok :: "kval \<Rightarrow> bool" where
  "konst_ok Vnil = True"
| "konst_ok (Vboolean b) = True"
| "konst_ok (Vnumber n) = True"
| "konst_ok (Vstring s) = (s \<noteq> None)"
| "konst_ok v = False"

definition compiled_ok :: "Proto \<Rightarrow> bool" where
  "compiled_ok pt = (loadbool_01 pt \<and> tailcalls_ok (pcode pt) \<and> open_order (pcode pt) \<and> list_all konst_ok (pk pt))"

inductive proto_ok :: "Proto \<Rightarrow> bool" where
  proto_okI: "luaG_checkcode pt = Inr True \<Longrightarrow> compiled_ok pt \<Longrightarrow> (\<And>q. q \<in> set (pp pt) \<Longrightarrow> proto_ok q) \<Longrightarrow> proto_ok pt"

inductive_simps proto_ok_simp: "proto_ok pt"

section \<open>Objects\<close>

definition val_ok :: "tval \<Rightarrow> bool" where
  "val_ok v = (\<forall>p. v \<noteq> Vdeadkey p)"

lemma val_ok_simps [simp]:
  "val_ok Vnil" "val_ok (Vboolean b)" "val_ok (Vnumber n)" "val_ok (Vstring s)" "val_ok (Vtable p)" "val_ok (Vfunction p)"
  by (simp_all add: val_ok_def)

definition table_ok :: "(ptr \<Rightarrow> uint32) \<Rightarrow> Table \<Rightarrow> bool" where
  "table_ok sh t = (tab_ok sh t \<and> (\<forall>k. proper k \<longrightarrow> val_ok (tget sh t k)))"

fun closure_ok :: "Closure \<Rightarrow> bool" where
  "closure_ok (CClosure f us env) = True"
| "closure_ok (LClosure pt us env) = (proto_ok pt \<and> int (length us) = uint (nups pt))"

definition upval_ok :: "int \<Rightarrow> UpVal \<Rightarrow> bool" where
  "upval_ok n u = (case u of UOpen i \<Rightarrow> 0 \<le> i \<and> i < n | UClosed v \<Rightarrow> val_ok v)"

definition heap_ok :: "'g lstate_scheme \<Rightarrow> bool" where
  "heap_ok G = ((\<forall>p. table_ok (strhash G) (tables G p)) \<and> (\<forall>p. closure_ok (closures G p)) \<and>
     (\<forall>u. upval_ok (stacksize G) (upvals G u)) \<and> (\<forall>v \<in> set (stack G). val_ok v))"

definition frame_ok :: "int \<Rightarrow> CallInfo \<Rightarrow> bool" where
  "frame_ok lst c = (0 \<le> ci_func c \<and> ci_func c < ci_base c \<and> ci_base c \<le> ci_top c \<and> ci_top c \<le> lst)"

definition base_ok :: "'g lstate_scheme \<Rightarrow> bool" where
  "base_ok G = (heap_ok G \<and> ci G \<noteq> [] \<and> lbase G = ci_base (hd (ci G)) \<and> (\<forall>c \<in> set (ci G). frame_ok (stack_last G) c))"

text \<open>Inside an instruction.\<close>

definition saved_eq :: "CallInfo list \<Rightarrow> CallInfo list \<Rightarrow> bool" where
  "saved_eq cs cs' = (\<exists>c rest x. cs = c # rest \<and> cs' = c\<lparr>savedpc := x\<rparr> # rest)"

definition inst :: "'g lstate_scheme \<Rightarrow> 'g lstate_scheme \<Rightarrow> bool" where
  "inst G0 G = (heap_ok G \<and> stacksize G0 \<le> stacksize G \<and> saved_eq (ci G0) (ci G) \<and> lbase G = lbase G0 \<and> lpc G = lpc G0 \<and> ltop G = ltop G0)"

lemma saved_eq_refl: "cs \<noteq> [] \<Longrightarrow> saved_eq cs cs"
  unfolding saved_eq_def by (intro exI [where x = "hd cs"] exI [where x = "tl cs"] exI [where x = "savedpc (hd cs)"]) simp

lemma saved_eq_trans: "saved_eq cs cs' \<Longrightarrow> saved_eq cs' cs'' \<Longrightarrow> saved_eq cs cs''"
  unfolding saved_eq_def by (elim exE conjE, rename_tac c rest x d rest' y) (rule_tac x = c in exI, rule_tac x = rest in exI, rule_tac x = y in exI, simp)

lemma saved_eq_hd: "saved_eq cs cs' \<Longrightarrow> ci_top (hd cs') = ci_top (hd cs) \<and> ci_base (hd cs') = ci_base (hd cs) \<and> ci_func (hd cs') = ci_func (hd cs) \<and> cs' \<noteq> []"
  by (auto simp: saved_eq_def)

lemma inst_refl: "base_ok G \<Longrightarrow> inst G G"
  by (simp add: inst_def base_ok_def saved_eq_refl)

lemma inst_trans: "inst G G' \<Longrightarrow> inst G' G'' \<Longrightarrow> inst G G''"
  by (auto simp: inst_def intro: saved_eq_trans)

lemma inst_base_ok: "base_ok G0 \<Longrightarrow> inst G0 G \<Longrightarrow> base_ok G"
proof -
  assume b: "base_ok G0" and i: "inst G0 G"
  obtain c rest x where c: "ci G0 = c # rest" "ci G = c\<lparr>savedpc := x\<rparr> # rest" using i by (auto simp: inst_def saved_eq_def)
  have "frame_ok (stack_last G) d" if "frame_ok (stack_last G0) d" for d
    using that i by (simp add: frame_ok_def inst_def stack_last_def)
  moreover have "frame_ok l (c\<lparr>savedpc := x\<rparr>) = frame_ok l c" for l by (simp add: frame_ok_def)
  ultimately show ?thesis using b i c by (simp add: base_ok_def inst_def)
qed

lemma instD:
  assumes "inst G0 G"
  shows "heap_ok G" "stacksize G0 \<le> stacksize G" "saved_eq (ci G0) (ci G)" "lbase G = lbase G0" "lpc G = lpc G0" "ltop G = ltop G0"
  using assms by (simp_all add: inst_def)

section \<open>Stack slots\<close>

lemma heap_okD:
  assumes "heap_ok G"
  shows "table_ok (strhash G) (tables G p)" "closure_ok (closures G p)" "upval_ok (stacksize G) (upvals G u)"
    "v \<in> set (stack G) \<Longrightarrow> val_ok v"
  using assms by (simp_all add: heap_ok_def)

lemma slot_rd_ok:
  assumes "heap_ok G" "0 \<le> i" "i < stacksize G"
  shows "yields A (rd G i) val_ok"
proof -
  have "nat i < length (stack G)" using assms by (simp add: stacksize_def)
  then show ?thesis using assms by (auto simp: rd_def heap_ok_def)
qed

definition slot_set :: "int \<Rightarrow> tval \<Rightarrow> 'g lstate_scheme \<Rightarrow> 'g lstate_scheme" where
  "slot_set i v G = G\<lparr>stack := (stack G)[nat i := v]\<rparr>"

lemma slot_set_simps [simp]:
  "stacksize (slot_set i v G) = stacksize G" "ci (slot_set i v G) = ci G" "lbase (slot_set i v G) = lbase G"
  "lpc (slot_set i v G) = lpc G" "ltop (slot_set i v G) = ltop G" "tables (slot_set i v G) = tables G"
  "closures (slot_set i v G) = closures G" "upvals (slot_set i v G) = upvals G" "strhash (slot_set i v G) = strhash G"
  "chars (slot_set i v G) = chars G" "size_ci (slot_set i v G) = size_ci G" "openupval (slot_set i v G) = openupval G"
  "nCcalls (slot_set i v G) = nCcalls G" "stack_last (slot_set i v G) = stack_last G"
  by (simp_all add: slot_set_def stacksize_def stack_last_def)

lemma wr_eq: "0 \<le> i \<Longrightarrow> i < stacksize G \<Longrightarrow> wr i v G = Inr (slot_set i v G)"
  by (simp add: wr_def slot_set_def)

lemma heap_ok_slot_set:
  assumes "heap_ok G" "val_ok v"
  shows "heap_ok (slot_set i v G)"
proof -
  have "val_ok w" if "w \<in> set (stack (slot_set i v G))" for w
    using that set_update_subset_insert [of "stack G" "nat i" v] assms by (auto simp: slot_set_def heap_ok_def)
  then show ?thesis using assms(1) by (simp add: heap_ok_def)
qed

lemma wr_inst:
  assumes "inst G0 G" "val_ok v" "0 \<le> i" "i < stacksize G0"
  shows "yields A (wr i v G) (inst G0)"
  using assms by (simp add: wr_eq inst_def heap_ok_slot_set)

lemma rd_inst:
  assumes "inst G0 G" "0 \<le> i" "i < stacksize G0"
  shows "yields A (rd G i) val_ok"
  using assms by (intro slot_rd_ok) (auto simp: inst_def)

text \<open>Changes to the heap that are not to the stack.\<close>

lemma heap_ok_set_table:
  assumes "heap_ok G" "table_ok (strhash G) t"
  shows "heap_ok (set_table p t G)"
  using assms by (auto simp: heap_ok_def set_table_def stacksize_def)

lemma set_table_l_simps [simp]:
  "stacksize (set_table p t G) = stacksize G" "ci (set_table p t G) = ci G" "lbase (set_table p t G) = lbase G"
  "lpc (set_table p t G) = lpc G" "ltop (set_table p t G) = ltop G" "stack (set_table p t G) = stack G"
  "closures (set_table p t G) = closures G" "upvals (set_table p t G) = upvals G"
  "stack_last (set_table p t G) = stack_last G"
  by (simp_all add: set_table_def stacksize_def stack_last_def)

lemma set_table_inst: "inst G0 G \<Longrightarrow> table_ok (strhash G) t \<Longrightarrow> inst G0 (set_table p t G)"
  by (simp add: inst_def heap_ok_set_table)

section \<open>Tables\<close>

lemma slot_val_get:
  assumes "table_ok sh t" "val_ok k"
  shows "val_ok (slot_val t (luaH_get sh t k))"
proof (cases "k = Vnil")
  case True
  then show ?thesis by (simp add: luaH_get_def slot_val_def)
next
  case False
  then have "proper k" using assms(2) by (auto simp: proper_def val_ok_def split: TValue.split)
  then show ?thesis using assms(1) by (simp add: table_ok_def tget_def)
qed

lemma val_ok_getstr: "table_ok sh t \<Longrightarrow> val_ok (slot_val t (luaH_getstr sh t s))"
  using slot_val_get [of sh t "Vstring s"] by (simp add: luaH_get_def)

lemma table_ok_flags [simp]: "table_ok sh (t\<lparr>flags := x\<rparr>) = table_ok sh t"
  by (simp add: table_ok_def)

lemma store_flags: "store (t\<lparr>flags := x\<rparr>) s v = (store t s v)\<lparr>flags := x\<rparr>"
  by (cases s) (simp_all add: store_def)

definition slot_of :: "(ptr \<Rightarrow> uint32) \<Rightarrow> Table \<Rightarrow> slot \<Rightarrow> bool" where
  "slot_of sh t s = (table_ok sh t \<and> (\<forall>v. val_ok v \<longrightarrow> table_ok sh (store t s v)))"

lemma slot_of_post:
  assumes "table_ok sh t" "proper k" "set_post sh t k t' s"
  shows "slot_of sh t' s"
proof -
  have p: "tab_ok sh t'" "luaH_get sh t' k = s" "s \<noteq> NilObject" "\<And>k'. proper k' \<Longrightarrow> tget sh t' k' = tget sh t k'"
    using assms(3) by (auto simp: set_post_def)
  have "table_ok sh t'" using assms(1) p by (simp add: table_ok_def)
  moreover have "table_ok sh (store t' s v)" if "val_ok v" for v
    using tab_ok_store(1) [OF p(1) assms(2) p(2,3)] tget_store [OF p(1) assms(2) p(2,3)] assms(1) p(4) that by (simp add: table_ok_def)
  ultimately show ?thesis by (simp add: slot_of_def)
qed

lemma luaH_set_yields:
  assumes "table_ok sh t" "val_ok k"
  shows "yields allowed (luaH_set sh t k) (\<lambda>(t', s). slot_of sh t' s)"
proof (cases "luaH_set sh t k")
  case (Inr r)
  obtain t' s where r: "r = (t', s)" by (rule prod.exhaust)
  have "tab_ok sh t" using assms(1) by (simp add: table_ok_def)
  then have k: "proper k" "no_nan k" using luaH_set_key [of sh t k t' s] assms(2) Inr r by (auto simp: proper_def val_ok_def split: TValue.split)
  then have "set_post sh t k t' s" using set_total [OF \<open>tab_ok sh t\<close> k] Inr r by auto
  then show ?thesis using slot_of_post [OF assms(1) k(1)] Inr r by simp
next
  case (Inl e)
  have t: "tab_ok sh t" using assms(1) by (simp add: table_ok_def)
  show ?thesis
  proof (cases "proper k \<and> no_nan k")
    case True
    then show ?thesis using set_total [OF t, of k] Inl by auto
  next
    case False
    have "\<exists>m. e = RunError m"
    proof (cases "k = Vnil")
      case True
      then show ?thesis using Inl by (auto simp: luaH_set_def luaH_set_with_def luaH_get_def ttisnil_def)
    next
      case False
      then have "\<not> no_nan k" using \<open>\<not> (proper k \<and> no_nan k)\<close> assms(2) by (auto simp: proper_def val_ok_def split: TValue.splits)
      then obtain n where n: "k = Vnumber n" "num_isnan n" by (cases k) (auto simp: no_nan_def)
      then have "luaH_get sh t k = NilObject" using luaH_get_nan [OF t] by simp
      then show ?thesis using Inl n by (auto simp: luaH_set_def luaH_set_with_def Let_def ttisnil_def)
    qed
    then show ?thesis using Inl by auto
  qed
qed

lemma newkey_yields:
  assumes "table_ok sh t" "proper k" "no_nan k" "luaH_get sh t k = NilObject"
  shows "yields allowed (newkey sh 2 t k) (\<lambda>(t', s). slot_of sh t' s)"
proof -
  have t: "tab_ok sh t" using assms(1) by (simp add: table_ok_def)
  note g = good_key_iff [OF t assms(2-4)]
  show ?thesis using newkey_total [OF t g, of "newkey sh 0"] slot_of_post [OF assms(1,2)] unfolding newkey_2 by auto
qed

lemma luaH_setnum_yields:
  assumes "table_ok sh t" "- (2 ^ 31) \<le> j" "j < 2 ^ 31"
  shows "yields allowed (luaH_setnum sh t j) (\<lambda>(t', s). slot_of sh t' s)"
proof -
  let ?k = "Vnumber (cast_num j)"
  have g: "luaH_getnum t j = luaH_get sh t ?k" using assms(2,3) by (rule luaH_getnum_eq)
  have k: "proper ?k" "no_nan ?k" by (simp_all add: proper_def no_nan_def)
  show ?thesis
  proof (cases "luaH_get sh t ?k = NilObject")
    case True
    then show ?thesis using newkey_yields [OF assms(1) k True] g by (simp add: luaH_setnum_def luaH_setnum_with_def Let_def)
  next
    case False
    then have "set_post sh t ?k t (luaH_get sh t ?k)" using assms(1) by (simp add: set_post_def table_ok_def)
    then show ?thesis using slot_of_post [OF assms(1) k(1)] False g by (simp add: luaH_setnum_def luaH_setnum_with_def Let_def)
  qed
qed

lemma luaH_setstr_yields:
  assumes "table_ok sh t"
  shows "yields allowed (luaH_setstr sh t p) (\<lambda>(t', s). slot_of sh t' s)"
proof -
  have g: "luaH_getstr sh t p = luaH_get sh t (Vstring p)" by (simp add: luaH_get_def)
  have k: "proper (Vstring p)" "no_nan (Vstring p)" by (simp_all add: proper_def no_nan_def)
  show ?thesis
  proof (cases "luaH_get sh t (Vstring p) = NilObject")
    case True
    then show ?thesis using newkey_yields [OF assms k True] g by (simp add: luaH_setstr_def luaH_setstr_with_def Let_def)
  next
    case False
    then have "set_post sh t (Vstring p) t (luaH_get sh t (Vstring p))" using assms by (simp add: set_post_def table_ok_def)
    then show ?thesis using slot_of_post [OF assms k(1)] False g by (simp add: luaH_setstr_def luaH_setstr_with_def Let_def)
  qed
qed

end
