(* ===== verification/Lvm_vals.thy ===== *)
theory Lvm_vals
  imports Lvm_ok
begin

text \<open>
  The operations on values keep the invariant of the interpreter: new objects, upvalues, growth of the stack,
  indexing, comparison, arithmetic and concatenation, given that the calls they make do.
\<close>

section \<open>The stack grows\<close>

definition grown :: "'g lstate_scheme \<Rightarrow> 'g lstate_scheme \<Rightarrow> bool" where
  "grown G G' = (\<exists>m. G' = G\<lparr>stack := stack G @ replicate m Vnil\<rparr>)"

lemma upval_ok_mono: "upval_ok n u \<Longrightarrow> n \<le> n' \<Longrightarrow> upval_ok n' u"
  by (auto simp: upval_ok_def split: UpVal.splits)

lemma grownD:
  assumes "grown G G'"
  shows "heap_ok G \<Longrightarrow> heap_ok G'" "stacksize G \<le> stacksize G'" "ci G' = ci G" "lbase G' = lbase G" "lpc G' = lpc G"
    "ltop G' = ltop G" "strhash G' = strhash G" "tables G' = tables G" "nCcalls G' = nCcalls G" "closures G' = closures G"
proof -
  obtain m where m: "G' = G\<lparr>stack := stack G @ replicate m Vnil\<rparr>" using assms by (auto simp: grown_def)
  then show le: "stacksize G \<le> stacksize G'" and "ci G' = ci G" "lbase G' = lbase G" "lpc G' = lpc G"
    "ltop G' = ltop G" "strhash G' = strhash G" "tables G' = tables G" "nCcalls G' = nCcalls G" "closures G' = closures G"
    by (simp_all add: stacksize_def)
  show "heap_ok G'" if h: "heap_ok G"
  proof -
    have "upval_ok (stacksize G') (upvals G u)" for u using upval_ok_mono [OF heap_okD(3) [OF h] le] .
    then show ?thesis using h m by (auto simp: heap_ok_def)
  qed
qed

lemma growstack_yields:
  assumes "ltop G < stacksize G" "0 \<le> n"
  shows "yields allowed (luaD_growstack C n G) (\<lambda>G'. grown G G' \<and> ltop G + n < stack_last G')"
proof -
  define newsize where "newsize = (if n \<le> stacksize G then 2 * stacksize G else stacksize G + n)"
  have "0 \<le> stacksize G" by (simp add: stacksize_def)
  then have ns: "stacksize G \<le> newsize" "ltop G + n < newsize" using assms by (auto simp: newsize_def)
  define G' where "G' = G\<lparr>stack := stack G @ replicate (nat (newsize + 1 + EXTRA_STACK - stacksize G)) Vnil\<rparr>"
  have "stack_last G' = newsize" using ns(1) by (simp add: G'_def stack_last_def stacksize_def EXTRA_STACK_def)
  moreover have "grown G G'" by (auto simp: grown_def G'_def)
  ultimately show ?thesis using ns(2)
    by (simp add: luaD_growstack_def luaD_reallocstack_def Let_def flip: newsize_def G'_def)
qed

lemma luaD_checkstack_yields:
  assumes "ltop G < stacksize G" "0 \<le> n"
  shows "yields allowed (luaD_checkstack C n G) (\<lambda>G'. grown G G' \<and> ltop G + n < stack_last G')"
proof (cases "stack_last G - ltop G \<le> n")
  case True
  then show ?thesis using growstack_yields [OF assms] by (simp add: luaD_checkstack_def)
next
  case False
  have "grown G G" unfolding grown_def by (rule exI [where x = 0]) simp
  then show ?thesis using False by (simp add: luaD_checkstack_def)
qed

lemma grown_inst: "inst G0 G \<Longrightarrow> grown G G' \<Longrightarrow> inst G0 G'"
  using grownD [of G G'] by (auto simp: inst_def)

section \<open>New objects and upvalues\<close>

lemma heap_ok_upd:
  "heap_ok G \<Longrightarrow> closure_ok c \<Longrightarrow> heap_ok (G\<lparr>closures := (closures G)(p := c)\<rparr>)"
  "heap_ok G \<Longrightarrow> upval_ok (stacksize G) u \<Longrightarrow> heap_ok (G\<lparr>upvals := (upvals G)(q := u)\<rparr>)"
  "heap_ok (G\<lparr>openupval := us\<rparr>) = heap_ok G" "heap_ok (G\<lparr>ltop := n\<rparr>) = heap_ok G" "heap_ok (G\<lparr>lpc := x\<rparr>) = heap_ok G"
  "heap_ok (G\<lparr>lbase := n\<rparr>) = heap_ok G" "heap_ok (G\<lparr>ci := cs\<rparr>) = heap_ok G" "heap_ok (G\<lparr>nCcalls := n\<rparr>) = heap_ok G"
  "heap_ok (G\<lparr>size_ci := n\<rparr>) = heap_ok G"
  by (auto simp: heap_ok_def stacksize_def)

lemma stacksize_upd [simp]:
  "stacksize (G\<lparr>closures := a\<rparr>) = stacksize G" "stacksize (G\<lparr>upvals := b\<rparr>) = stacksize G" "stacksize (G\<lparr>openupval := us\<rparr>) = stacksize G"
  "stacksize (G\<lparr>ltop := n\<rparr>) = stacksize G" "stacksize (G\<lparr>lpc := x\<rparr>) = stacksize G" "stacksize (G\<lparr>lbase := n\<rparr>) = stacksize G"
  "stacksize (G\<lparr>ci := cs\<rparr>) = stacksize G" "stacksize (G\<lparr>nCcalls := n\<rparr>) = stacksize G" "stacksize (G\<lparr>size_ci := n\<rparr>) = stacksize G"
  by (simp_all add: stacksize_def)

lemma stack_last_upd [simp]:
  "stack_last (G\<lparr>ltop := n\<rparr>) = stack_last G" "stack_last (G\<lparr>lpc := x\<rparr>) = stack_last G" "stack_last (G\<lparr>lbase := n\<rparr>) = stack_last G"
  "stack_last (G\<lparr>ci := cs\<rparr>) = stack_last G" "stack_last (G\<lparr>nCcalls := n\<rparr>) = stack_last G" "stack_last (G\<lparr>size_ci := n\<rparr>) = stack_last G"
  "stack_last (G\<lparr>upvals := b\<rparr>) = stack_last G" "stack_last (G\<lparr>openupval := us\<rparr>) = stack_last G"
  by (simp_all add: stack_last_def)

lemma new_table_yields:
  assumes "heap_ok G"
  shows "yields allowed (new_table C na nh G) (\<lambda>(p, G'). heap_ok G' \<and> (\<exists>t. G' = set_table p t G))"
proof (cases "na > int MAXASIZE \<or> nh > int MAXASIZE")
  case True
  then show ?thesis by (auto simp: new_table_def)
next
  case False
  then obtain t where t: "luaH_new (nat na) (nat nh) = Inr t" "tab_ok (strhash G) t" "\<And>k. proper k \<Longrightarrow> tget (strhash G) t k = Vnil"
    using new_spec [of "nat na" "nat nh" "strhash G"] by (auto simp: MAXASIZE_def)
  then have "table_ok (strhash G) t" by (simp add: table_ok_def)
  then show ?thesis using False t(1) heap_ok_set_table [OF assms] by (auto simp: new_table_def Let_def)
qed

lemma new_table_inst:
  assumes "inst G0 G"
  shows "yields allowed (new_table C na nh G) (\<lambda>(p, G'). inst G0 G')"
  by (rule yields_mono [OF new_table_yields [OF instD(1) [OF assms]]]) (use assms in \<open>auto simp: inst_def\<close>)

lemma findupval_inst:
  assumes "inst G0 G" "0 \<le> level" "level < stacksize G"
  shows "inst G0 (snd (luaF_findupval C level G))"
proof -
  obtain b r a where f: "find_open (uv_level G) level (openupval G) = (b, r, a)" by (metis prod.exhaust)
  have "upval_ok (stacksize G) (UOpen level)" using assms by (simp add: upval_ok_def)
  then have "heap_ok (G\<lparr>upvals := (upvals G)(u := UOpen level)\<rparr>\<lparr>openupval := us\<rparr>)" for u us
    using heap_ok_upd(2) [OF instD(1) [OF assms(1)]] heap_ok_upd(3) by blast
  then show ?thesis using assms(1) f by (cases r) (simp_all add: luaF_findupval_def Let_def inst_def)
qed

lemma only_open: "\<exists>us op. G\<lparr>openupval := os\<rparr> = G\<lparr>upvals := us, openupval := op\<rparr>"
  by (rule exI [where x = "upvals G"], rule exI [where x = os]) simp

lemma close_yields:
  assumes "heap_ok G" "0 \<le> level"
  shows "yields allowed (luaF_close level G) (\<lambda>G'. heap_ok G' \<and> (\<exists>us op. G' = G\<lparr>upvals := us, openupval := op\<rparr>))"
proof -
  have "yields allowed (uv_close_loop L level G) (\<lambda>G'. heap_ok G' \<and> (\<exists>us op. G' = G\<lparr>upvals := us, openupval := op\<rparr>))" for L
    using assms(1)
  proof (induction L arbitrary: G)
    case Nil
    then show ?case using only_open [of "[]" G] by (simp add: heap_ok_upd)
  next
    case (Cons u L)
    show ?case
    proof (cases "uv_level G u \<ge> level")
      case False
      then show ?thesis using Cons.prems only_open [of "u # L" G] by (simp add: heap_ok_upd)
    next
      case True
      have "0 \<le> uv_level G u \<and> uv_level G u < stacksize G"
        using True assms(2) heap_okD(3) [OF Cons.prems, of u] by (auto simp: uv_level_def upval_ok_def split: UpVal.splits)
      then have r: "yields allowed (rd G (uv_level G u)) val_ok" using Cons.prems by (intro slot_rd_ok) auto
      show ?thesis unfolding uv_close_loop.simps if_P [OF True]
      proof (rule yields_bind [OF r])
        fix v assume "val_ok v"
        then have h: "heap_ok (G\<lparr>upvals := (upvals G)(u := UClosed v)\<rparr>)" using Cons.prems by (intro heap_ok_upd) (simp_all add: upval_ok_def)
        show "yields allowed (uv_close_loop L level (G\<lparr>upvals := (upvals G)(u := UClosed v)\<rparr>))
            (\<lambda>G'. heap_ok G' \<and> (\<exists>us op. G' = G\<lparr>upvals := us, openupval := op\<rparr>))"
          by (rule yields_mono [OF Cons.IH [OF h]]) auto
      qed
    qed
  qed
  then show ?thesis by (simp add: luaF_close_def)
qed

lemma close_inst:
  assumes "inst G0 G" "0 \<le> level"
  shows "yields allowed (luaF_close level G) (inst G0)"
  by (rule yields_mono [OF close_yields [OF instD(1) [OF assms(1)] assms(2)]]) (use assms(1) in \<open>auto simp: inst_def stacksize_def\<close>)

lemma upval_get_inst:
  assumes "inst G0 G"
  shows "yields allowed (upval_get G u) val_ok"
  using heap_okD(3) [OF instD(1) [OF assms], of u] slot_rd_ok [OF instD(1) [OF assms]]
  by (cases "upvals G u") (auto simp: upval_get_def upval_ok_def)

lemma upval_set_inst:
  assumes "inst G0 G" "val_ok v"
  shows "yields allowed (upval_set u v G) (inst G0)"
proof (cases "upvals G u")
  case (UOpen i)
  then have i: "0 \<le> i" "i < stacksize G" using heap_okD(3) [OF instD(1) [OF assms(1)], of u] by (auto simp: upval_ok_def)
  have "inst G0 (slot_set i v G)" using assms heap_ok_slot_set [OF instD(1) [OF assms(1)] assms(2)] by (simp add: inst_def)
  then show ?thesis using UOpen i by (simp add: upval_set_def wr_eq)
next
  case (UClosed w)
  have "heap_ok (G\<lparr>upvals := (upvals G)(u := UClosed v)\<rparr>)"
    using assms by (intro heap_ok_upd) (simp_all add: upval_ok_def inst_def)
  then show ?thesis using UClosed assms(1) by (simp add: upval_set_def inst_def)
qed

section \<open>Metamethods\<close>

definition calls_inst :: "'g lstate_scheme \<Rightarrow> 'g lstate_scheme vmenv \<Rightarrow> bool" where
  "calls_inst G0 E = (\<forall>G f ps. inst G0 G \<longrightarrow> val_ok f \<longrightarrow> (\<forall>p \<in> set ps. val_ok p) \<longrightarrow>
     (length ps = 2 \<longrightarrow> yields allowed (call1 E f ps G) (\<lambda>(v, G'). val_ok v \<and> inst G0 G')) \<and>
     (length ps = 3 \<longrightarrow> yields allowed (call0 E f ps G) (inst G0)))"

definition news_inst :: "'g lstate_scheme \<Rightarrow> 'g lstate_scheme vmenv \<Rightarrow> bool" where
  "news_inst G0 E = (\<forall>G s. inst G0 G \<longrightarrow> yields allowed (newlstr_at E s G) (\<lambda>(p, G'). inst G0 G' \<and> stack G' = stack G))"

lemma call1_inst:
  "calls_inst G0 E \<Longrightarrow> inst G0 G \<Longrightarrow> val_ok f \<Longrightarrow> val_ok p \<Longrightarrow> val_ok q \<Longrightarrow>
   yields allowed (call1 E f [p, q] G) (\<lambda>(v, G'). val_ok v \<and> inst G0 G')"
  unfolding calls_inst_def by (elim allE [where x = G] allE [where x = f] allE [where x = "[p, q]"]) simp

lemma call0_inst:
  "calls_inst G0 E \<Longrightarrow> inst G0 G \<Longrightarrow> val_ok f \<Longrightarrow> val_ok p \<Longrightarrow> val_ok q \<Longrightarrow> val_ok r \<Longrightarrow>
   yields allowed (call0 E f [p, q, r] G) (inst G0)"
  unfolding calls_inst_def by (elim allE [where x = G] allE [where x = f] allE [where x = "[p, q, r]"]) simp

lemma newlstr_inst: "news_inst G0 E \<Longrightarrow> inst G0 G \<Longrightarrow> yields allowed (newlstr_at E s G) (\<lambda>(p, G'). inst G0 G' \<and> stack G' = stack G)"
  by (simp add: news_inst_def)

lemma gettmbyobj_ok: "heap_ok G \<Longrightarrow> val_ok (luaT_gettmbyobj G v e)"
  by (auto simp: luaT_gettmbyobj_def Let_def sval_def val_ok_getstr heap_ok_def split: option.split)

lemma fasttm_inst:
  assumes "inst G0 G"
  shows "inst G0 (snd (fasttm G et e)) \<and> (\<forall>tm. fst (fasttm G et e) = Some tm \<longrightarrow> val_ok tm) \<and>
    (\<forall>p. \<exists>x. tables (snd (fasttm G et e)) p = (tables G p)\<lparr>flags := x\<rparr>) \<and> strhash (snd (fasttm G et e)) = strhash G"
proof -
  have same: "\<exists>x. tables G p = (tables G p)\<lparr>flags := x\<rparr>" for p by (rule exI [where x = "flags (tables G p)"]) simp
  have t: "table_ok (strhash G) (tables G p)" for p using heap_okD(1) [OF instD(1) [OF assms]] .
  have st: "inst G0 (set_table p ((tables G p)\<lparr>flags := x\<rparr>) G)" for p x by (rule set_table_inst [OF assms]) (simp add: t)
  have tb: "\<exists>x. tables (set_table p ((tables G p)\<lparr>flags := y\<rparr>) G) q = (tables G q)\<lparr>flags := x\<rparr>" for p q y
    using same [of q] by (auto simp: set_table_def)
  show ?thesis
  proof (cases et)
    case None
    then show ?thesis using assms same by (simp add: fasttm_def)
  next
    case (Some p)
    show ?thesis
    proof (cases "bit (flags (tables G p)) (tm_bit e)")
      case True
      then show ?thesis using assms same Some by (simp add: fasttm_def)
    next
      case False
      then show ?thesis using assms same Some val_ok_getstr [OF t] st tb
        by (simp add: fasttm_def luaT_gettm_def Let_def sval_def set_table_def)
    qed
  qed
qed

section \<open>Indexing, comparison, arithmetic\<close>

lemma gettable_inst:
  assumes "calls_inst G0 E" "val_ok key"
  shows "inst G0 G \<Longrightarrow> val_ok t \<Longrightarrow> yields allowed (gettable_loop n E t key G) (\<lambda>(v, G'). val_ok v \<and> inst G0 G')"
proof (induction n arbitrary: t G)
  case (Suc n)
  have again: "yields allowed (if ttype tm = 6 then call1 E tm [t, key] G' else gettable_loop n E tm key G') (\<lambda>(v, G'). val_ok v \<and> inst G0 G')"
    if "inst G0 G'" "val_ok tm" for tm G'
    using call1_inst [OF assms(1) that(1,2) Suc.prems(2) assms(2)] Suc.IH [OF that] by simp
  show ?case
  proof (cases "\<exists>p. t = Vtable p")
    case True
    then obtain p where p: "t = Vtable p" by blast
    define r where "r = sval (tables G p) (luaH_get (strhash G) (tables G p) key)"
    have r: "val_ok r" using slot_val_get [OF heap_okD(1) [OF instD(1) [OF Suc.prems(1)]] assms(2)] by (simp add: r_def sval_def)
    obtain o' G' where f: "fasttm G (metatable (tables G p)) TM_INDEX = (o', G')" by (metis prod.exhaust)
    then have "inst G0 G'" "\<And>tm. o' = Some tm \<Longrightarrow> val_ok tm"
      using fasttm_inst [OF Suc.prems(1), of "metatable (tables G p)" TM_INDEX] by auto
    then show ?thesis using p r f again [of G' "the o'"] Suc.prems(1) by (cases o'; cases "ttype (the o') = 6") (simp_all add: Let_def flip: r_def)
  next
    case False
    have tm: "val_ok (luaT_gettmbyobj G t TM_INDEX)" using gettmbyobj_ok [OF instD(1) [OF Suc.prems(1)]] .
    show ?thesis using False again [OF Suc.prems(1) tm]
      by (cases "ttype (luaT_gettmbyobj G t TM_INDEX) = 6"; cases t) (simp_all add: Let_def)
  qed
qed simp

lemma settable_inst:
  assumes "calls_inst G0 E" "val_ok key" "val_ok v"
  shows "inst G0 G \<Longrightarrow> val_ok t \<Longrightarrow> yields allowed (settable_loop n E t key v G) (inst G0)"
proof (induction n arbitrary: t G)
  case (Suc n)
  have again: "yields allowed (if ttype tm = 6 then call0 E tm [t, key, v] G' else settable_loop n E tm key v G') (inst G0)"
    if "inst G0 G'" "val_ok tm" for tm G'
    using call0_inst [OF assms(1) that(1,2) Suc.prems(2) assms(2,3)] Suc.IH [OF that] by simp
  show ?case
  proof (cases "\<exists>p. t = Vtable p")
    case True
    then obtain p where p: "t = Vtable p" by blast
    have tab: "table_ok (strhash G) (tables G p)" using heap_okD(1) [OF instD(1) [OF Suc.prems(1)]] .
    show ?thesis unfolding p settable_loop.simps Let_def TValue.case
    proof (rule yields_bind [OF luaH_set_yields [OF tab assms(2)]])
      fix r assume r: "case r of (t', s) \<Rightarrow> slot_of (strhash G) t' s"
      obtain h s where hs: "r = (h, s)" by (rule prod.exhaust)
      define G1 where "G1 = set_table p h G"
      have so: "table_ok (strhash G) h" "table_ok (strhash G) (store h s v)" using r hs assms(3) by (simp_all add: slot_of_def)
      have G1: "inst G0 G1" using set_table_inst [OF Suc.prems(1) so(1)] by (simp add: G1_def)
      have sh: "strhash G1 = strhash G" and th: "tables G1 p = h" by (simp_all add: G1_def set_table_def)
      have put: "inst G0 (set_table p ((store (tables G2 p) s v)\<lparr>flags := 0\<rparr>) G2)"
        if "inst G0 G2" "tables G2 p = h\<lparr>flags := x\<rparr>" "strhash G2 = strhash G" for G2 x
        using that so(2) by (intro set_table_inst) (simp_all add: store_flags)
      have put1: "inst G0 (set_table p ((store h s v)\<lparr>flags := 0\<rparr>) G1)"
        using put [OF G1 _ sh, of "flags h"] th by simp
      obtain o' G2 where f: "fasttm G1 (metatable h) TM_NEWINDEX = (o', G2)" by (metis prod.exhaust)
      then have G2: "inst G0 G2" "\<And>tm. o' = Some tm \<Longrightarrow> val_ok tm" "strhash G2 = strhash G"
        using fasttm_inst [OF G1, of "metatable h" TM_NEWINDEX] sh by auto
      obtain x where x: "tables G2 p = h\<lparr>flags := x\<rparr>"
        using fasttm_inst [OF G1, of "metatable h" TM_NEWINDEX] f th by force
      show "yields allowed (case r of (h, oldval) \<Rightarrow> if \<not> ttisnil (sval h oldval)
          then Inr (set_table p ((store (tables (set_table p h G) p) oldval v)\<lparr>flags := 0\<rparr>) (set_table p h G))
          else case fasttm (set_table p h G) (metatable h) TM_NEWINDEX of
            (None, G) \<Rightarrow> Inr (set_table p ((store (tables G p) oldval v)\<lparr>flags := 0\<rparr>) G)
          | (Some tm, G) \<Rightarrow> if ttype tm = 6 then call0 E tm [Vtable p, key, v] G else settable_loop n E tm key v G) (inst G0)"
        using put1 put [OF G2(1) x G2(3)] again [OF G2(1) G2(2), of "the o'"] f th p
        by (cases o'; cases "ttype (the o') = 6") (simp_all add: hs flip: G1_def)
    qed
  next
    case False
    have tm: "val_ok (luaT_gettmbyobj G t TM_NEWINDEX)" using gettmbyobj_ok [OF instD(1) [OF Suc.prems(1)]] .
    show ?thesis using False again [OF Suc.prems(1) tm]
      by (cases "ttype (luaT_gettmbyobj G t TM_NEWINDEX) = 6"; cases t) (simp_all add: Let_def)
  qed
qed simp

lemma call_binTM_inst:
  assumes "calls_inst G0 E" "inst G0 G" "val_ok p" "val_ok q"
  shows "yields allowed (call_binTM E p q e G) (\<lambda>(r, G'). (\<forall>v. r = Some v \<longrightarrow> val_ok v) \<and> inst G0 G')"
proof -
  have tm: "val_ok (luaT_gettmbyobj G v e)" for v using gettmbyobj_ok [OF instD(1) [OF assms(2)]] .
  have "yields allowed (rbind (call1 E f [p, q] G) (\<lambda>(r, G). Inr (Some r, G))) (\<lambda>(r, G'). (\<forall>v. r = Some v \<longrightarrow> val_ok v) \<and> inst G0 G')"
    if "val_ok f" for f
    by (rule yields_bind [OF call1_inst [OF assms(1,2) that assms(3,4)]]) auto
  then show ?thesis using tm assms(2) by (simp add: call_binTM_def Let_def)
qed

lemma call_orderTM_inst:
  assumes "calls_inst G0 E" "inst G0 G" "val_ok p" "val_ok q"
  shows "yields allowed (call_orderTM E p q e G) (\<lambda>(r, G'). inst G0 G')"
proof -
  have tm: "val_ok (luaT_gettmbyobj G v e)" for v using gettmbyobj_ok [OF instD(1) [OF assms(2)]] .
  have "yields allowed (rbind (call1 E f [p, q] G) (\<lambda>(r, G). Inr (Some (\<not> l_isfalse r), G))) (\<lambda>(r, G'). inst G0 G')"
    if "val_ok f" for f
    by (rule yields_bind [OF call1_inst [OF assms(1,2) that assms(3,4)]]) auto
  then show ?thesis using tm assms(2) by (simp add: call_orderTM_def Let_def)
qed

lemma lessthan_inst:
  assumes "calls_inst G0 E" "inst G0 G" "val_ok p" "val_ok q"
  shows "yields allowed (luaV_lessthan E p q G) (\<lambda>(r, G'). inst G0 G')"
proof -
  have "yields allowed (rbind (call_orderTM E p q TM_LT G) (\<lambda>(res, G). case res of Some b \<Rightarrow> Inr (b, G) | None \<Rightarrow> luaG_ordererror p q))
      (\<lambda>(r, G'). inst G0 G')"
    by (rule yields_bind [OF call_orderTM_inst [OF assms]]) (auto split: option.split)
  then show ?thesis using assms(2) by (auto simp: luaV_lessthan_def split: TValue.split)
qed

lemma lessequal_inst:
  assumes "calls_inst G0 E" "inst G0 G" "val_ok p" "val_ok q"
  shows "yields allowed (lessequal E p q G) (\<lambda>(r, G'). inst G0 G')"
proof -
  have lt: "yields allowed (rbind (call_orderTM E q p TM_LT G') (\<lambda>(res, G). case res of Some b \<Rightarrow> Inr (\<not> b, G) | None \<Rightarrow> luaG_ordererror p q))
      (\<lambda>(r, G'). inst G0 G')" if "inst G0 G'" for G'
    by (rule yields_bind [OF call_orderTM_inst [OF assms(1) that assms(4,3)]]) (auto split: option.split)
  have "yields allowed (rbind (call_orderTM E p q TM_LE G) (\<lambda>(res, G). case res of
            Some b \<Rightarrow> Inr (b, G)
          | None \<Rightarrow> rbind (call_orderTM E q p TM_LT G) (\<lambda>(res, G). case res of Some b \<Rightarrow> Inr (\<not> b, G) | None \<Rightarrow> luaG_ordererror p q)))
      (\<lambda>(r, G'). inst G0 G')"
    by (rule yields_bind [OF call_orderTM_inst [OF assms]]) (auto simp: lt split: option.split)
  then show ?thesis using assms(2) by (auto simp: lessequal_def split: TValue.split)
qed

lemma get_compTM_inst:
  assumes "inst G0 G"
  shows "inst G0 (snd (get_compTM G m m' e)) \<and> (\<forall>tm. fst (get_compTM G m m' e) = Some tm \<longrightarrow> val_ok tm)"
proof -
  obtain o1 G1 where f1: "fasttm G m e = (o1, G1)" by (metis prod.exhaust)
  then have G1: "inst G0 G1" "\<And>tm. o1 = Some tm \<Longrightarrow> val_ok tm" using fasttm_inst [OF assms, of m e] by auto
  obtain o2 G2 where f2: "fasttm G1 m' e = (o2, G2)" by (metis prod.exhaust)
  then have "inst G0 G2" using fasttm_inst [OF G1(1), of m' e] by auto
  then show ?thesis using G1 f1 f2 by (cases o1; cases o2) (auto simp: get_compTM_def)
qed

lemma equalobj_inst:
  assumes "calls_inst G0 E" "inst G0 G" "val_ok p" "val_ok q"
  shows "yields allowed (equalobj E p q G) (\<lambda>(r, G'). inst G0 G')"
proof -
  have tm: "yields allowed (equal_tm E p q (get_compTM G m m' TM_EQ)) (\<lambda>(r, G'). inst G0 G')" for m m'
  proof -
    obtain o' G' where g: "get_compTM G m m' TM_EQ = (o', G')" by (metis prod.exhaust)
    then have G': "inst G0 G'" "\<And>tm. o' = Some tm \<Longrightarrow> val_ok tm" using get_compTM_inst [OF assms(2), of m m' TM_EQ] by auto
    have "yields allowed (rbind (call1 E f [p, q] G') (\<lambda>(r, G). Inr (\<not> l_isfalse r, G))) (\<lambda>(r, G'). inst G0 G')" if "val_ok f" for f
      by (rule yields_bind [OF call1_inst [OF assms(1) G'(1) that assms(3,4)]]) auto
    then show ?thesis using G' g by (simp add: equal_tm_def split: option.split)
  qed
  show ?thesis using assms(2) tm by (auto simp: equalobj_def luaV_equalval_def split: TValue.split)
qed

lemma arith_num_yields: "e \<in> {TM_ADD, TM_SUB, TM_MUL, TM_DIV, TM_MOD, TM_POW, TM_UNM} \<Longrightarrow> yields allowed (arith_num E e x y) (\<lambda>n. True)"
  by (elim insertE) (simp_all add: arith_num_def)

lemma arith_op_inst:
  assumes "calls_inst G0 E" "inst G0 G" "val_ok p" "val_ok q" "e \<in> {TM_ADD, TM_SUB, TM_MUL, TM_DIV, TM_MOD, TM_POW, TM_UNM}"
  shows "yields allowed (arith_op E p q e G) (\<lambda>(v, G'). val_ok v \<and> inst G0 G')"
proof -
  have n: "yields allowed (rbind (arith_num E e x y) (\<lambda>n. Inr (Vnumber n, G))) (\<lambda>(v, G'). val_ok v \<and> inst G0 G')" for x y
    by (rule yields_bind [OF arith_num_yields [OF assms(5)]]) (simp add: assms(2))
  have m: "yields allowed (rbind (call_binTM E p q e G) (\<lambda>(r, G). case r of Some v \<Rightarrow> Inr (v, G) | None \<Rightarrow> luaG_aritherror E G p q))
      (\<lambda>(v, G'). val_ok v \<and> inst G0 G')"
    by (rule yields_bind [OF call_binTM_inst [OF assms(1-4)]]) (auto split: option.split)
  have "yields allowed (Arith E p q e G) (\<lambda>(v, G'). val_ok v \<and> inst G0 G')"
    using n m by (simp add: Arith_def split: option.split)
  then show ?thesis using n by (auto simp: arith_op_def split: TValue.split)
qed

section \<open>Concatenation\<close>

lemma rd_slot_set: "0 \<le> i \<Longrightarrow> i \<noteq> j \<Longrightarrow> rd (slot_set i v G) j = rd G j"
  by (auto simp: rd_def slot_set_def stacksize_def)

lemma tostring_inst:
  assumes "news_inst G0 E" "inst G0 G" "0 \<le> i" "i < stacksize G0" "rd G i = Inr v"
  shows "yields allowed (tostring_at E i G) (\<lambda>(s, G'). inst G0 G' \<and> (\<forall>j. j \<noteq> i \<longrightarrow> rd G' j = rd G j) \<and>
    (ttype v = 3 \<or> ttype v = 4 \<longrightarrow> s \<noteq> None))"
proof (cases v)
  case (Vnumber n)
  show ?thesis unfolding tostring_at_def assms(5) rbind.simps Vnumber TValue.case Let_def
  proof (rule yields_bind [OF newlstr_inst [OF assms(1,2)]])
    fix r :: "ptr \<times> _" assume r: "case r of (p, G') \<Rightarrow> inst G0 G' \<and> stack G' = stack G"
    obtain p G' where pG: "r = (p, G')" by (rule prod.exhaust)
    have G': "inst G0 G'" "\<And>j. rd G' j = rd G j" using r pG by (simp_all add: rd_def stacksize_def)
    have "inst G0 (slot_set i (Vstring p) G')" using G'(1) by (simp add: inst_def heap_ok_slot_set)
    moreover have "i < stacksize G'" using assms(4) instD(2) [OF G'(1)] by simp
    ultimately show "yields allowed (case r of (p, G) \<Rightarrow> rbind (wr i (Vstring p) G) (\<lambda>G. Inr (Some (fmt14g (elib E) n), G)))
        (\<lambda>(s, G'). inst G0 G' \<and> (\<forall>j. j \<noteq> i \<longrightarrow> rd G' j = rd G j) \<and> (ttype (Vnumber n :: tval) = 3 \<or> ttype (Vnumber n :: tval) = 4 \<longrightarrow> s \<noteq> None))"
      using assms(3) G'(2) pG by (simp add: wr_eq rd_slot_set)
  qed
qed (use assms(2,5) in \<open>simp_all add: tostring_at_def\<close>)

lemma collect_inst:
  assumes "news_inst G0 E" "tp \<le> stacksize G0" "inst G0 G" "0 \<le> tp - int n - int r"
  shows "yields allowed (collect E tp r n b G) (\<lambda>(n', b', G'). n \<le> n' \<and> n' \<le> n + r \<and> inst G0 G')"
  using assms(3,4)
proof (induction r arbitrary: n b G)
  case (Suc r)
  have i: "0 \<le> tp - int n - 1" "tp - int n - 1 < stacksize G0" using Suc.prems(2) assms(2) by auto
  obtain v where v: "rd G (tp - int n - 1) = Inr v" using i instD(2) [OF Suc.prems(1)] by (simp add: rd_def)
  show ?case unfolding collect.simps
  proof (rule yields_bind [OF tostring_inst [OF assms(1) Suc.prems(1) i v]])
    fix x :: "bytes option \<times> _" assume x: "case x of (s, G') \<Rightarrow> inst G0 G' \<and> (\<forall>j. j \<noteq> tp - int n - 1 \<longrightarrow> rd G' j = rd G j) \<and> (ttype v = 3 \<or> ttype v = 4 \<longrightarrow> s \<noteq> None)"
    obtain s G' where sG: "x = (s, G')" by (rule prod.exhaust)
    then have G': "inst G0 G'" using x by simp
    have "yields allowed (collect E tp r (n + 1) b' G') (\<lambda>(n', b', G'). n \<le> n' \<and> n' \<le> n + Suc r \<and> inst G0 G')" for b'
      by (rule yields_mono [OF Suc.IH [OF G']]) (use Suc.prems(2) in auto)
    then show "yields allowed (case x of (s, G) \<Rightarrow> (case s of None \<Rightarrow> Inr (n, b, G)
        | Some s \<Rightarrow> if MAX_SIZET - length b \<le> length s then luaG_runerror ''string length overflow'' else collect E tp r (n + 1) (s @ b) G))
        (\<lambda>(n', b', G'). n \<le> n' \<and> n' \<le> n + Suc r \<and> inst G0 G')"
      using G' sG by (simp split: option.split)
  qed
qed simp

lemma wr2_inst:
  assumes "inst G0 G" "val_ok v" "0 \<le> i" "i < stacksize G0" "P"
  shows "yields allowed (rbind (wr i v G) (\<lambda>G. Inr (n, G))) (\<lambda>(n', G'). P \<and> n' = n \<and> inst G0 G')"
  by (rule yields_bind [OF wr_inst [OF assms(1-4)]]) (simp add: assms(5))

lemma concat_meta_inst:
  assumes "calls_inst G0 E" "inst G0 G" "2 \<le> tp" "tp \<le> stacksize G0"
  shows "yields allowed (concat_meta E tp G) (\<lambda>(n, G'). n = 2 \<and> inst G0 G')"
proof -
  have i: "0 \<le> tp - 2" "tp - 2 < stacksize G0" "0 \<le> tp - 1" "tp - 1 < stacksize G0" using assms(3,4) by auto
  have w: "yields allowed (rbind (wr (tp - 2) v G) (\<lambda>G. Inr (2 :: nat, G))) (\<lambda>(n, G'). n = 2 \<and> inst G0 G')" if "val_ok v" "inst G0 G" for v G
    using wr2_inst [OF that(2,1) i(1,2), where P = True] by simp
  have b: "yields allowed (rbind (call_binTM E v2 v1 TM_CONCAT G) (\<lambda>(r, G). case r of
      Some v \<Rightarrow> rbind (wr (tp - 2) v G) (\<lambda>G. Inr (2 :: nat, G)) | None \<Rightarrow> luaG_concaterror v2 v1)) (\<lambda>(n, G'). n = 2 \<and> inst G0 G')"
    if "val_ok v2" "val_ok v1" for v2 v1
    by (rule yields_bind [OF call_binTM_inst [OF assms(1,2) that]]) (auto simp: w split: option.split)
  show ?thesis unfolding concat_meta_def
    by (rule yields_bind [OF rd_inst [OF assms(2) i(1,2)]], rule yields_bind [OF rd_inst [OF assms(2) i(3,4)]], rule b)
qed

lemma collect_two_inst:
  assumes "news_inst G0 E" "inst G0 G" "2 \<le> cnt" "int cnt \<le> tp" "tp \<le> stacksize G0" "rd G (tp - 2) = Inr v" "ttype v = 4 \<or> ttype v = 3"
  shows "yields allowed (collect E tp (cnt - 1) 1 s G) (\<lambda>(n, b, G'). 2 \<le> n \<and> n \<le> cnt \<and> inst G0 G')"
proof -
  obtain r where r: "cnt - 1 = Suc r" using assms(3) by (cases "cnt - 1") auto
  have i: "0 \<le> tp - 2" "tp - 2 < stacksize G0" using assms(3-5) by auto
  have t: "yields allowed (tostring_at E (tp - int 1 - 1) G) (\<lambda>(s, G'). inst G0 G' \<and> s \<noteq> None)"
    using yields_mono [OF tostring_inst [OF assms(1,2) i assms(6)]] assms(7) by fastforce
  show ?thesis unfolding r collect.simps
  proof (rule yields_bind [OF t])
    fix x :: "bytes option \<times> _" assume x: "case x of (s, G') \<Rightarrow> inst G0 G' \<and> s \<noteq> None"
    obtain s' G2 where sG: "x = (s', G2)" by (rule prod.exhaust)
    have "yields allowed (collect E tp r (1 + 1) b G2) (\<lambda>(n, b, G'). 2 \<le> n \<and> n \<le> cnt \<and> inst G0 G')" for b
      by (rule yields_mono [OF collect_inst [OF assms(1,5)]]) (use x sG r assms(4) in auto)
    then show "yields allowed (case x of (sa, G) \<Rightarrow> (case sa of None \<Rightarrow> Inr (1, s, G)
        | Some sa \<Rightarrow> if MAX_SIZET - length s \<le> length sa then luaG_runerror ''string length overflow'' else collect E tp r (1 + 1) (sa @ s) G))
        (\<lambda>(n, b, G'). 2 \<le> n \<and> n \<le> cnt \<and> inst G0 G')"
      using x sG by (auto split: option.split)
  qed
qed

lemma concat_join_inst:
  assumes "news_inst G0 E" "inst G0 G" "2 \<le> cnt" "int cnt \<le> tp" "tp \<le> stacksize G0" "rd G (tp - 2) = Inr v" "ttype v = 4 \<or> ttype v = 3"
  shows "yields allowed (concat_join E tp cnt s G) (\<lambda>(n, G'). 2 \<le> n \<and> n \<le> cnt \<and> inst G0 G')"
  unfolding concat_join_def
proof (rule yields_bind [OF collect_two_inst [OF assms]], clarify)
  fix n b G1 assume n: "2 \<le> n" "n \<le> cnt" and G1: "inst G0 G1"
  show "yields allowed (rbind (newlstr_at E b G1) (\<lambda>(p, G). rbind (wr (tp - int n) (Vstring p) G) (\<lambda>G. Inr (n, G))))
      (\<lambda>(n, G'). 2 \<le> n \<and> n \<le> cnt \<and> inst G0 G')"
  proof (rule yields_bind [OF newlstr_inst [OF assms(1) G1]], clarify)
    fix p G2 assume "inst G0 G2"
    then show "yields allowed (rbind (wr (tp - int n) (Vstring p) G2) (\<lambda>G. Inr (n, G))) (\<lambda>(n, G'). 2 \<le> n \<and> n \<le> cnt \<and> inst G0 G')"
      using n assms(4,5) by (intro yields_mono [OF wr2_inst [where P = "2 \<le> n \<and> n \<le> cnt"]]) auto
  qed
qed

lemma concat_pass_inst:
  assumes "calls_inst G0 E" "news_inst G0 E" "inst G0 G" "2 \<le> cnt" "int cnt \<le> lbase G0 + lst + 1" "lbase G0 + lst < stacksize G0"
  shows "yields allowed (concat_pass E cnt lst G) (\<lambda>(n, G'). 2 \<le> n \<and> n \<le> cnt \<and> inst G0 G')"
proof -
  define tp where "tp = lbase G + lst + 1"
  have tp: "int cnt \<le> tp" "tp \<le> stacksize G0" using assms(5,6) instD(4) [OF assms(3)] by (auto simp: tp_def)
  have i: "0 \<le> tp - 2" "tp - 2 < stacksize G0" "0 \<le> tp - 1" "tp - 1 < stacksize G0" using tp assms(4) by auto
  have meta: "yields allowed (concat_meta E tp G) (\<lambda>(n, G'). 2 \<le> n \<and> n \<le> cnt \<and> inst G0 G')" if "inst G0 G" for G
    by (rule yields_mono [OF concat_meta_inst [OF assms(1) that]]) (use tp assms(4) in auto)
  obtain v2 v1 where v: "rd G (tp - 2) = Inr v2" "rd G (tp - 1) = Inr v1" using i instD(2) [OF assms(3)] by (simp add: rd_def)
  have two: "yields allowed (rbind (tostring_at E (tp - 2) G') (\<lambda>(_, G). Inr (2, G))) (\<lambda>(n, G'). 2 \<le> n \<and> n \<le> cnt \<and> inst G0 G')"
    if "inst G0 G'" "rd G' (tp - 2) = Inr v2" for G'
    by (rule yields_bind [OF tostring_inst [OF assms(2) that(1) i(1,2) that(2)]]) (use assms(4) in auto)
  have str: "yields allowed (rbind (tostring_at E (tp - 1) G) (\<lambda>(s, G). case s of
        None \<Rightarrow> concat_meta E tp G
      | Some s \<Rightarrow> if s = [] then rbind (tostring_at E (tp - 2) G) (\<lambda>(_, G). Inr (2, G)) else concat_join E tp cnt s G))
      (\<lambda>(n, G'). 2 \<le> n \<and> n \<le> cnt \<and> inst G0 G')"
    if ty: "ttype v2 = 4 \<or> ttype v2 = 3"
  proof (rule yields_bind [OF tostring_inst [OF assms(2,3) i(3,4) v(2)]], clarify)
    fix s G' assume G': "inst G0 G'" and "\<forall>j. j \<noteq> tp - 1 \<longrightarrow> rd G' j = rd G j"
    then have r2: "rd G' (tp - 2) = Inr v2" using v(1) by simp
    show "yields allowed (case s of None \<Rightarrow> concat_meta E tp G'
        | Some s \<Rightarrow> if s = [] then rbind (tostring_at E (tp - 2) G') (\<lambda>(_, G). Inr (2, G)) else concat_join E tp cnt s G')
        (\<lambda>(n, G'). 2 \<le> n \<and> n \<le> cnt \<and> inst G0 G')"
      using meta [OF G'] two [OF G' r2] concat_join_inst [OF assms(2) G' assms(4) tp r2 ty] by (auto split: option.split)
  qed
  show ?thesis unfolding concat_pass_def Let_def tp_def [symmetric] v rbind.simps
    using meta [OF assms(3)] str by auto
qed

lemma concat_loop_inst:
  assumes "calls_inst G0 E" "news_inst G0 E"
  shows "inst G0 G \<Longrightarrow> 2 \<le> cnt \<Longrightarrow> cnt \<le> fuel \<Longrightarrow> int cnt \<le> lbase G0 + lst + 1 \<Longrightarrow> lbase G0 + lst < stacksize G0 \<Longrightarrow>
    yields allowed (concat_loop_fuel fuel E cnt lst G) (inst G0)"
proof (induction fuel arbitrary: cnt lst G)
  case (Suc fuel)
  show ?case unfolding concat_loop_fuel.simps
  proof (rule yields_bind [OF concat_pass_inst [OF assms Suc.prems(1,2,4,5)]], clarify)
    fix n G' assume n: "2 \<le> n" "n \<le> cnt" and G': "inst G0 G'"
    show "yields allowed (let cnt = cnt - (n - 1); lst = lst - int (n - 1) in if cnt > 1 then concat_loop_fuel fuel E cnt lst G' else Inr G') (inst G0)"
      unfolding Let_def using n G' Suc.prems by (auto intro!: Suc.IH)
  qed
qed simp

lemma concat_inst:
  assumes "calls_inst G0 E" "news_inst G0 E" "inst G0 G" "0 \<le> lbase G0 + b" "b < c" "lbase G0 + c < stacksize G0"
  shows "yields allowed (luaV_concat E (nat (c - b + 1)) c G) (inst G0)"
  unfolding luaV_concat_def using assms by (intro concat_loop_inst) auto

end
