(* ===== verification/Lvm_call.thy ===== *)
theory Lvm_call
  imports Lvm_vals
begin

text \<open>
  The entry to functions and the return from them keep the invariant of the interpreter: arguments are moved,
  frames are pushed and popped inside the stack, and a call leaves its results where the caller wants them.
\<close>

section \<open>Moves on the stack\<close>

text \<open>\<open>moved G G'\<close>: only values in the stack have changed.\<close>

definition moved :: "'g lstate_scheme \<Rightarrow> 'g lstate_scheme \<Rightarrow> bool" where
  "moved G G' = (heap_ok G' \<and> (\<exists>s. length s = length (stack G) \<and> G' = G\<lparr>stack := s\<rparr>))"

lemma movedD:
  assumes "moved G G'"
  shows "heap_ok G'" "stacksize G' = stacksize G" "stack_last G' = stack_last G" "ci G' = ci G" "lbase G' = lbase G" "lpc G' = lpc G"
    "ltop G' = ltop G" "size_ci G' = size_ci G" "nCcalls G' = nCcalls G" "closures G' = closures G"
  using assms by (auto simp: moved_def stacksize_def stack_last_def)

lemma moved_refl: "heap_ok G \<Longrightarrow> moved G G"
  unfolding moved_def by (intro conjI exI [where x = "stack G"]) auto

lemma moved_trans: "moved G G' \<Longrightarrow> moved G' G'' \<Longrightarrow> moved G G''"
  by (auto simp: moved_def)

lemma wr_moved:
  assumes "heap_ok G" "val_ok v" "0 \<le> i" "i < stacksize G"
  shows "yields allowed (wr i v G) (moved G)"
proof -
  have "heap_ok (slot_set i v G)" using heap_ok_slot_set [OF assms(1,2)] .
  then have "moved G (slot_set i v G)"
    unfolding moved_def by (intro conjI exI [where x = "(stack G)[nat i := v]"]) (auto simp: slot_set_def)
  then show ?thesis using wr_eq [OF assms(3,4)] by simp
qed

lemma mv_moved:
  assumes "heap_ok G" "0 \<le> i" "i < stacksize G" "0 \<le> j" "j < stacksize G"
  shows "yields allowed (mv i j G) (moved G)"
  unfolding mv_def by (rule yields_bind [OF slot_rd_ok [OF assms(1,4,5)]]) (rule wr_moved [OF assms(1) _ assms(2,3)])

lemma moved_bind:
  assumes "yields allowed m (moved G)" "\<And>G1. moved G G1 \<Longrightarrow> yields allowed (f G1) (moved G1)"
  shows "yields allowed (rbind m f) (moved G)"
proof (rule yields_bind [OF assms(1)])
  fix G1 assume G1: "moved G G1"
  show "yields allowed (f G1) (moved G)" by (rule yields_mono [OF assms(2) [OF G1]]) (rule moved_trans [OF G1])
qed

lemma fill_nil_moved:
  "heap_ok G \<Longrightarrow> 0 \<le> i \<Longrightarrow> i + int n \<le> stacksize G \<Longrightarrow> yields allowed (fill_nil i n G) (moved G)"
proof (induction n arbitrary: i G)
  case 0
  then show ?case by (simp add: moved_refl)
next
  case (Suc n)
  show ?case unfolding fill_nil.simps
  proof (rule moved_bind)
    show "yields allowed (wr i Vnil G) (moved G)" using Suc.prems by (intro wr_moved) auto
    fix G1 assume "moved G G1"
    then show "yields allowed (fill_nil (i + 1) n G1) (moved G1)"
      using Suc.prems movedD [of G G1] by (intro Suc.IH) auto
  qed
qed

lemma move_vals_moved:
  "heap_ok G \<Longrightarrow> 0 \<le> i \<Longrightarrow> i + int n \<le> stacksize G \<Longrightarrow> 0 \<le> j \<Longrightarrow> j + int n \<le> stacksize G \<Longrightarrow> yields allowed (move_vals i j n G) (moved G)"
proof (induction n arbitrary: i j G)
  case 0
  then show ?case by (simp add: moved_refl)
next
  case (Suc n)
  show ?case unfolding move_vals.simps
  proof (rule moved_bind)
    show "yields allowed (mv i j G) (moved G)" using Suc.prems by (intro mv_moved) auto
    fix G1 assume "moved G G1"
    then show "yields allowed (move_vals (i + 1) (j + 1) n G1) (moved G1)"
      using Suc.prems movedD [of G G1] by (intro Suc.IH) auto
  qed
qed

lemma open_hole_moved:
  "heap_ok G \<Longrightarrow> 0 \<le> p - int n \<Longrightarrow> p < stacksize G \<Longrightarrow> yields allowed (open_hole p n G) (moved G)"
proof (induction n arbitrary: p G)
  case 0
  then show ?case by (simp add: moved_refl)
next
  case (Suc n)
  show ?case unfolding open_hole.simps
  proof (rule moved_bind)
    show "yields allowed (mv p (p - 1) G) (moved G)" using Suc.prems by (intro mv_moved) auto
    fix G1 assume "moved G G1"
    then show "yields allowed (open_hole (p - 1) n G1) (moved G1)"
      using Suc.prems movedD [of G G1] by (intro Suc.IH) auto
  qed
qed

lemma push_vals_moved:
  "heap_ok G \<Longrightarrow> 0 \<le> i \<Longrightarrow> i + int (length vs) \<le> stacksize G \<Longrightarrow> \<forall>v \<in> set vs. val_ok v \<Longrightarrow> yields allowed (push_vals i vs G) (moved G)"
proof (induction vs arbitrary: i G)
  case Nil
  then show ?case by (simp add: moved_refl)
next
  case (Cons v vs)
  show ?case unfolding push_vals.simps
  proof (rule moved_bind)
    show "yields allowed (wr i v G) (moved G)" using Cons.prems by (intro wr_moved) auto
    fix G1 assume "moved G G1"
    then show "yields allowed (push_vals (i + 1) vs G1) (moved G1)"
      using Cons.prems movedD [of G G1] by (intro Cons.IH) auto
  qed
qed

text \<open>\<open>kept G G'\<close>: the calls are the same, the stack may have grown and its top moved.\<close>

definition kept :: "'g lstate_scheme \<Rightarrow> 'g lstate_scheme \<Rightarrow> bool" where
  "kept G G' = (heap_ok G' \<and> stacksize G \<le> stacksize G' \<and> ci G' = ci G \<and> lbase G' = lbase G \<and> lpc G' = lpc G)"

lemma keptD:
  assumes "kept G G'"
  shows "heap_ok G'" "stacksize G \<le> stacksize G'" "stack_last G \<le> stack_last G'" "ci G' = ci G" "lbase G' = lbase G" "lpc G' = lpc G"
  using assms by (auto simp: kept_def stack_last_def)

lemma kept_trans: "kept G G' \<Longrightarrow> kept G' G'' \<Longrightarrow> kept G G''"
  by (auto simp: kept_def)

lemma moved_kept: "moved G G' \<Longrightarrow> kept G G'"
  using movedD [of G G'] by (simp add: kept_def)

lemma grown_kept: "heap_ok G \<Longrightarrow> grown G G' \<Longrightarrow> kept G G'"
  using grownD [of G G'] by (simp add: kept_def)

lemma kept_simps [simp]:
  "kept (G\<lparr>ltop := n\<rparr>) G' = kept G G'" "kept G (G'\<lparr>ltop := n\<rparr>) = kept G G'"
  by (simp_all add: kept_def heap_ok_upd)

section \<open>Entering a function\<close>

lemma incr_top_yields:
  assumes "heap_ok G" "ltop G < stacksize G"
  shows "yields allowed (incr_top C G) (\<lambda>G'. kept G G' \<and> ltop G' = ltop G + 1 \<and> ltop G' < stack_last G')"
  unfolding incr_top_def
  by (rule yields_bind [OF luaD_checkstack_yields [OF assms(2)]]) (use assms(1) in \<open>auto simp: grown_kept grownD\<close>)

lemma rd_slot_set_same: "0 \<le> i \<Longrightarrow> i < stacksize G \<Longrightarrow> rd (slot_set i v G) i = Inr v"
  by (simp add: rd_def slot_set_def stacksize_def)

lemma tryfuncTM_yields:
  assumes "heap_ok G" "0 \<le> func" "func < ltop G" "ltop G \<le> stack_last G + 2"
  shows "yields allowed (tryfuncTM C func G) (\<lambda>G'. kept G G' \<and> ltop G' = ltop G + 1 \<and> ltop G' < stack_last G' \<and>
    (\<exists>f. rd G' func = Inr f \<and> ttype f = 6))"
proof -
  have last: "stack_last G + 6 = stacksize G" by (simp add: stack_last_def EXTRA_STACK_def)
  have r: "yields allowed (rd G func) val_ok" using assms last by (intro slot_rd_ok) auto
  have h: "yields allowed (open_hole (ltop G) (nat (ltop G - func)) G) (moved G)"
    using assms last by (intro open_hole_moved) auto
  show ?thesis unfolding tryfuncTM_def Let_def
  proof (rule yields_bind [OF r], rule yields_if, simp, rule yields_bind [OF h])
    fix f G1 assume f: "\<not> ttype (luaT_gettmbyobj G f TM_CALL) \<noteq> 6" and G1: "moved G G1"
    note m = movedD [OF G1]
    have i: "yields allowed (incr_top C G1) (\<lambda>G'. kept G1 G' \<and> ltop G' = ltop G1 + 1 \<and> ltop G' < stack_last G')"
      using assms last m by (intro incr_top_yields) auto
    define tm where "tm = luaT_gettmbyobj G f TM_CALL"
    have tm: "val_ok tm" "ttype tm = 6" using gettmbyobj_ok [OF assms(1)] f by (simp_all add: tm_def)
    show "yields allowed (rbind (incr_top C G1) (wr func (luaT_gettmbyobj G f TM_CALL)))
        (\<lambda>G'. kept G G' \<and> ltop G' = ltop G + 1 \<and> ltop G' < stack_last G' \<and> (\<exists>f. rd G' func = Inr f \<and> ttype f = 6))"
      unfolding tm_def [symmetric]
    proof (rule yields_bind [OF i])
      fix G2 assume G2: "kept G1 G2 \<and> ltop G2 = ltop G1 + 1 \<and> ltop G2 < stack_last G2"
      have fs: "func < stacksize G2" using assms last m keptD(2) [of G1 G2] G2 by auto
      have "moved G2 (slot_set func tm G2)"
        using wr_moved [OF keptD(1) tm(1) assms(2) fs, of G1] wr_eq [OF assms(2) fs, of tm] G2 by simp
      then have "kept G (slot_set func tm G2)" using kept_trans [OF moved_kept [OF G1] kept_trans [OF _ moved_kept]] G2 by blast
      then show "yields allowed (wr func tm G2)
          (\<lambda>G'. kept G G' \<and> ltop G' = ltop G + 1 \<and> ltop G' < stack_last G' \<and> (\<exists>f. rd G' func = Inr f \<and> ttype f = 6))"
        using wr_eq [OF assms(2) fs] rd_slot_set_same [OF assms(2) fs] tm(2) G2 m by simp
    qed
  qed
qed

definition news_ok :: "'g lstate_scheme cenv \<Rightarrow> bool" where
  "news_ok C = (\<forall>s G. heap_ok G \<longrightarrow> yields allowed (newlstr_at (vmops C) s G)
     (\<lambda>(p, G'). heap_ok G' \<and> (\<exists>ch sh. G' = G\<lparr>chars := ch, strhash := sh\<rparr>)))"

lemma newlstr_kept:
  assumes "news_ok C" "heap_ok G"
  shows "yields allowed (newlstr_at (vmops C) s G) (\<lambda>(p, G'). kept G G' \<and> ltop G' = ltop G)"
  using assms unfolding news_ok_def by (elim allE [where x = s] allE [where x = G]) (auto simp: kept_def stacksize_def elim!: yields_mono)

lemma set_table_kept: "heap_ok G \<Longrightarrow> table_ok (strhash G) t \<Longrightarrow> kept G (set_table p t G)"
  by (simp add: kept_def heap_ok_set_table)

lemma setnum_store_kept:
  assumes "heap_ok G" "slot_of (strhash G) t s" "val_ok v"
  shows "kept G (set_table h (store t s v) G)"
  using assms by (intro set_table_kept) (simp_all add: slot_of_def)

lemma fill_arg_kept:
  "heap_ok G \<Longrightarrow> 0 \<le> i \<Longrightarrow> 0 \<le> src + i \<Longrightarrow> src + i + int n \<le> stacksize G \<Longrightarrow> i + int n < 2 ^ 31 \<Longrightarrow>
   yields allowed (fill_arg h src i n G) (\<lambda>G'. kept G G' \<and> ltop G' = ltop G)"
proof (induction n arbitrary: i G)
  case 0
  then show ?case by (simp add: kept_def)
next
  case (Suc n)
  have s: "yields allowed (luaH_setnum (strhash G) (tables G h) (i + 1)) (\<lambda>(t', s). slot_of (strhash G) t' s)"
    using Suc.prems heap_okD(1) [OF Suc.prems(1)] by (intro luaH_setnum_yields) auto
  have r: "yields allowed (rd G (src + i)) val_ok" using Suc.prems by (intro slot_rd_ok) auto
  show ?case unfolding fill_arg.simps
  proof (rule yields_bind [OF s], clarify, rule yields_bind [OF r])
    fix t s v assume "slot_of (strhash G) t s" "val_ok v"
    then have k: "kept G (set_table h (store t s v) G)" using setnum_store_kept Suc.prems(1) by blast
    have "yields allowed (fill_arg h src (i + 1) n (set_table h (store t s v) G)) (\<lambda>G'. kept (set_table h (store t s v) G) G' \<and> ltop G' = ltop (set_table h (store t s v) G))"
      using Suc.prems k by (intro Suc.IH) (auto simp: kept_def)
    then show "yields allowed (fill_arg h src (i + 1) n (set_table h (store t s v) G)) (\<lambda>G'. kept G G' \<and> ltop G' = ltop G)"
      by (rule yields_mono) (use k in \<open>auto intro: kept_trans\<close>)
  qed
qed

lemma set_arg_n_kept:
  assumes "news_ok C" "heap_ok G"
  shows "yields allowed (set_arg_n C h nvar G) (\<lambda>G'. kept G G' \<and> ltop G' = ltop G)"
  unfolding set_arg_n_def
proof (rule yields_bind [OF newlstr_kept [OF assms]], clarify)
  fix n G1 assume G1: "kept G G1" "ltop G1 = ltop G"
  show "yields allowed (rbind (luaH_setstr (strhash G1) (tables G1 h) n) (\<lambda>(t, s). Inr (set_table h (store t s (Vnumber (cast_num nvar))) G1)))
      (\<lambda>G'. kept G G' \<and> ltop G' = ltop G)"
    by (rule yields_bind [OF luaH_setstr_yields [OF heap_okD(1) [OF keptD(1) [OF G1(1)]]]])
      (use G1 in \<open>auto intro!: kept_trans [OF G1(1)] setnum_store_kept simp: keptD\<close>)
qed

lemma arg_table_kept:
  assumes "news_ok C" "heap_ok G" "0 \<le> ltop G - nvar" "ltop G < stacksize G" "0 \<le> nvar"
  shows "yields allowed (rbind (new_table C nvar 1 G) (\<lambda>(h, G). rbind (fill_arg h (ltop G - nvar) 0 (nat nvar) G) (\<lambda>G.
    rbind (set_arg_n C h nvar G) (\<lambda>G. Inr (Some h, G))))) (\<lambda>(h, G'). kept G G' \<and> ltop G' = ltop G)"
proof (cases "nvar > int MAXASIZE")
  case True
  then show ?thesis by (simp add: new_table_def)
next
  case small: False
  show ?thesis
  proof (rule yields_bind [OF new_table_yields [OF assms(2)]], clarify)
    fix h t assume h: "heap_ok (set_table h t G)"
    have G2: "kept G (set_table h t G)" "ltop (set_table h t G) = ltop G" using h by (auto simp: kept_def)
    have f: "yields allowed (fill_arg h (ltop (set_table h t G) - nvar) 0 (nat nvar) (set_table h t G))
        (\<lambda>G'. kept (set_table h t G) G' \<and> ltop G' = ltop (set_table h t G))"
      using h assms(3-5) small by (intro fill_arg_kept) (auto simp: MAXASIZE_def MAXBITS_def)
    have n: "yields allowed (rbind (set_arg_n C h nvar G3) (\<lambda>G. Inr (Some h, G))) (\<lambda>(h, G'). kept G G' \<and> ltop G' = ltop G)"
      if "kept G G3" "ltop G3 = ltop G" for G3
      by (rule yields_bind [OF set_arg_n_kept [OF assms(1) keptD(1) [OF that(1)]]]) (use that kept_trans in auto)
    show "yields allowed (rbind (fill_arg h (ltop (set_table h t G) - nvar) 0 (nat nvar) (set_table h t G)) (\<lambda>G.
        rbind (set_arg_n C h nvar G) (\<lambda>G. Inr (Some h, G)))) (\<lambda>(h, G'). kept G G' \<and> ltop G' = ltop G)"
      by (rule yields_bind [OF f]) (use G2 in \<open>auto intro!: n intro: kept_trans\<close>)
  qed
qed

lemma make_arg_kept:
  assumes "news_ok C" "heap_ok G" "0 \<le> ltop G - nvar" "ltop G < stacksize G" "nvar = actual - uint (numparams p)" "0 \<le> nvar"
  shows "yields allowed (make_arg C p actual G) (\<lambda>(h, G'). kept G G' \<and> ltop G' = ltop G \<and> (h \<noteq> None \<longrightarrow> is_vararg p AND VARARG_NEEDSARG \<noteq> 0))"
proof (cases "is_vararg p AND VARARG_NEEDSARG = 0")
  case True
  then show ?thesis using assms(2) by (simp add: make_arg_def kept_def)
next
  case False
  note q = luaD_checkstack_yields [OF assms(4), of "maxstack p" C]
  show ?thesis unfolding make_arg_def Let_def if_not_P [OF False] assms(5) [symmetric]
  proof (rule yields_bind [OF q], simp, elim conjE)
    fix G1 assume "grown G G1"
    then have G1: "kept G G1" "ltop G1 = ltop G" using grown_kept [OF assms(2)] grownD(6) by auto
    have a: "0 \<le> ltop G1 - nvar" "ltop G1 < stacksize G1" using G1 keptD(2) [OF G1(1)] assms(3,4) by auto
    show "yields allowed (rbind (new_table C nvar 1 G1) (\<lambda>(h, G). rbind (fill_arg h (ltop G - nvar) 0 (nat nvar) G) (\<lambda>G.
        rbind (set_arg_n C h nvar G) (\<lambda>G. Inr (Some h, G)))))
        (\<lambda>(h, G'). kept G G' \<and> ltop G' = ltop G \<and> (h \<noteq> None \<longrightarrow> is_vararg p AND VARARG_NEEDSARG \<noteq> 0))"
      by (rule yields_mono [OF arg_table_kept [OF assms(1) keptD(1) [OF G1(1)] a assms(6)]])
        (use False G1 in \<open>auto intro: kept_trans\<close>)
  qed
qed

lemma move_params_kept:
  "heap_ok G \<Longrightarrow> 0 \<le> fixed \<Longrightarrow> fixed + int n \<le> stacksize G \<Longrightarrow> 0 \<le> ltop G \<Longrightarrow> ltop G + int n \<le> stacksize G \<Longrightarrow>
   yields allowed (move_params fixed n G) (\<lambda>G'. kept G G' \<and> ltop G' = ltop G + int n \<and> stacksize G' = stacksize G)"
proof (induction n arbitrary: fixed G)
  case 0
  then show ?case by (simp add: kept_def)
next
  case (Suc n)
  have m: "yields allowed (mv (ltop G) fixed G) (moved G)" using Suc.prems by (intro mv_moved) auto
  show ?case unfolding move_params.simps
  proof (rule yields_bind [OF m])
    fix G1 assume G1: "moved G G1"
    have w: "yields allowed (wr fixed Vnil G1) (moved G1)" using Suc.prems movedD [OF G1] by (intro wr_moved) auto
    show "yields allowed (rbind (wr fixed Vnil G1) (\<lambda>G. move_params (fixed + 1) n (G\<lparr>ltop := ltop G + 1\<rparr>)))
        (\<lambda>G'. kept G G' \<and> ltop G' = ltop G + int (Suc n) \<and> stacksize G' = stacksize G)"
    proof (rule yields_bind [OF w])
      fix G2 assume "moved G1 G2"
      then have G2: "moved G G2" using moved_trans [OF G1] by blast
      have "yields allowed (move_params (fixed + 1) n (G2\<lparr>ltop := ltop G2 + 1\<rparr>))
          (\<lambda>G'. kept (G2\<lparr>ltop := ltop G2 + 1\<rparr>) G' \<and> ltop G' = ltop (G2\<lparr>ltop := ltop G2 + 1\<rparr>) + int n \<and> stacksize G' = stacksize (G2\<lparr>ltop := ltop G2 + 1\<rparr>))"
        using Suc.prems movedD [OF G2] by (intro Suc.IH) (auto simp: heap_ok_upd)
      then show "yields allowed (move_params (fixed + 1) n (G2\<lparr>ltop := ltop G2 + 1\<rparr>))
          (\<lambda>G'. kept G G' \<and> ltop G' = ltop G + int (Suc n) \<and> stacksize G' = stacksize G)"
        by (rule yields_mono) (use movedD [OF G2] kept_trans [OF moved_kept [OF G2]] in auto)
    qed
  qed
qed

text \<open>What the checker has made sure of before it looks at the code.\<close>

definition header_ok :: "Proto \<Rightarrow> bool" where
  "header_ok p = (uint (numparams p) + uint (is_vararg p AND VARARG_HASARG) \<le> maxstack p \<and>
     (is_vararg p AND VARARG_NEEDSARG = 0 \<or> is_vararg p AND VARARG_HASARG \<noteq> 0))"

lemma hasarg_1: "(w :: 8 word) AND VARARG_HASARG \<noteq> 0 \<Longrightarrow> uint (w AND VARARG_HASARG) = 1"
proof -
  have "w AND 1 = 0 \<or> w AND 1 = 1" by (simp add: and_one_eq mod_2_eq_odd)
  then show "w AND VARARG_HASARG \<noteq> 0 \<Longrightarrow> uint (w AND VARARG_HASARG) = 1" by (auto simp: VARARG_HASARG_def)
qed

lemma proto_header:
  assumes "proto_ok p"
  shows "header_ok p"
proof -
  have "luaG_checkcode p = Inr True" using assms by (cases rule: proto_ok.cases)
  then have "precheck p = Inr True" by (auto simp: luaG_checkcode_def symbexec_def split: if_splits)
  then show ?thesis by (auto simp: precheck_def header_ok_def split: if_splits)
qed

lemma numparams_le: "header_ok p \<Longrightarrow> uint (numparams p) \<le> maxstack p"
  unfolding header_ok_def using uint_ge_0 [of "is_vararg p AND VARARG_HASARG"] by linarith

lemma stack_last_eq: "stack_last G = stacksize G - 6"
  by (simp add: stack_last_def EXTRA_STACK_def)

lemma place_args_yields:
  assumes "heap_ok G" "0 \<le> fixed" "fixed + nfix \<le> ltop G" "ltop G + ms < stack_last G" "0 \<le> nfix" "nfix \<le> ms" "h \<noteq> None \<Longrightarrow> nfix + 1 \<le> ms"
  shows "yields allowed (rbind (move_params fixed (nat nfix) G) (\<lambda>G1. case h of
      None \<Rightarrow> Inr (ltop G, G1) | Some h \<Rightarrow> rbind (wr (ltop G1) (Vtable h) G1) (\<lambda>G2. Inr (ltop G, G2\<lparr>ltop := ltop G2 + 1\<rparr>))))
    (\<lambda>(b, G'). kept G G' \<and> b = ltop G \<and> ltop G \<le> ltop G' \<and> ltop G' \<le> ltop G + ms)"
proof -
  have mp: "yields allowed (move_params fixed (nat nfix) G) (\<lambda>G'. kept G G' \<and> ltop G' = ltop G + int (nat nfix) \<and> stacksize G' = stacksize G)"
    using assms(1-6) stack_last_eq [of G] by (intro move_params_kept) auto
  show ?thesis
  proof (rule yields_bind [OF mp], elim conjE)
    fix G1 assume G1: "kept G G1" "ltop G1 = ltop G + int (nat nfix)" "stacksize G1 = stacksize G"
    have w: "yields allowed (wr (ltop G1) (Vtable q) G1) (moved G1)" for q
      using keptD(1) [OF G1(1)] G1 assms stack_last_eq [of G] by (intro wr_moved) auto
    have "yields allowed (rbind (wr (ltop G1) (Vtable q) G1) (\<lambda>G2. Inr (ltop G, G2\<lparr>ltop := ltop G2 + 1\<rparr>)))
        (\<lambda>(b, G'). kept G G' \<and> b = ltop G \<and> ltop G \<le> ltop G' \<and> ltop G' \<le> ltop G + ms)" if "h = Some q" for q
      by (rule yields_bind [OF w]) (use kept_trans [OF G1(1) moved_kept] G1 assms(5-7) that in \<open>auto simp: movedD\<close>)
    then show "yields allowed (case h of None \<Rightarrow> Inr (ltop G, G1)
        | Some h \<Rightarrow> rbind (wr (ltop G1) (Vtable h) G1) (\<lambda>G2. Inr (ltop G, G2\<lparr>ltop := ltop G2 + 1\<rparr>)))
        (\<lambda>(b, G'). kept G G' \<and> b = ltop G \<and> ltop G \<le> ltop G' \<and> ltop G' \<le> ltop G + ms)"
      using G1 assms(5-6) by (auto split: option.split)
  qed
qed

lemma adjust_varargs_yields:
  assumes "news_ok C" "heap_ok G" "0 \<le> func" "func < ltop G" "ltop G + maxstack p + uint (numparams p) < stack_last G" "header_ok p"
  shows "yields allowed (adjust_varargs C p (ltop G - func - 1) G) (\<lambda>(base, G'). kept G G' \<and> func + 1 + uint (numparams p) \<le> base \<and>
    base + maxstack p < stack_last G' \<and> base \<le> ltop G' \<and> ltop G' \<le> base + maxstack p)"
proof -
  define nfix where "nfix = uint (numparams p)"
  define missing where "missing = nat (nfix - (ltop G - func - 1))"
  define actual where "actual = max (ltop G - func - 1) nfix"
  have nf: "0 \<le> nfix" "nfix \<le> maxstack p" using numparams_le [OF assms(6)] by (simp_all add: nfix_def)
  have mt: "ltop G + int missing = func + 1 + actual" "ltop G + int missing \<le> ltop G + nfix"
    using assms(4) nf(1) by (auto simp: missing_def actual_def)
  have f: "yields allowed (fill_nil (ltop G) missing G) (moved G)"
    using assms(2-5) nf mt stack_last_eq [of G] by (intro fill_nil_moved) (auto simp: nfix_def)
  show ?thesis unfolding adjust_varargs_def Let_def nfix_def [symmetric] missing_def [symmetric] actual_def [symmetric]
  proof (rule yields_bind [OF f])
    fix G1 assume G1: "moved G G1"
    define G2 where "G2 = G1\<lparr>ltop := ltop G1 + int missing\<rparr>"
    have G2: "kept G G2" "ltop G2 = func + 1 + actual" "stack_last G2 = stack_last G" "stacksize G2 = stacksize G"
      using moved_kept [OF G1] movedD [OF G1] mt(1) by (simp_all add: G2_def)
    have m: "yields allowed (make_arg C p actual G2) (\<lambda>(h, G'). kept G2 G' \<and> ltop G' = ltop G2 \<and> (h \<noteq> None \<longrightarrow> is_vararg p AND VARARG_NEEDSARG \<noteq> 0))"
      using assms(1,3,5) G2 keptD(1) [OF G2(1)] nf mt stack_last_eq [of G]
      by (intro make_arg_kept [OF _ _ _ _ refl]) (auto simp: actual_def nfix_def)
    show "yields allowed (rbind (make_arg C p actual (G1\<lparr>ltop := ltop G1 + int missing\<rparr>)) (\<lambda>(htab, G).
        rbind (move_params (ltop G - actual) (nat nfix) G) (\<lambda>Ga. case htab of
          None \<Rightarrow> Inr (ltop G, Ga) | Some h \<Rightarrow> rbind (wr (ltop Ga) (Vtable h) Ga) (\<lambda>Gb. Inr (ltop G, Gb\<lparr>ltop := ltop Gb + 1\<rparr>)))))
        (\<lambda>(base, G'). kept G G' \<and> func + 1 + nfix \<le> base \<and> base + maxstack p < stack_last G' \<and> base \<le> ltop G' \<and> ltop G' \<le> base + maxstack p)"
      unfolding G2_def [symmetric]
    proof (rule yields_bind [OF m], clarify)
      fix h :: "ptr option" and G3 assume G3: "kept G2 G3" "ltop G3 = ltop G2" "h \<noteq> None \<longrightarrow> is_vararg p AND VARARG_NEEDSARG \<noteq> 0"
      note k = kept_trans [OF G2(1) G3(1)]
      have base: "ltop G3 - actual = func + 1" "ltop G3 + maxstack p < stack_last G3" "func + 1 + nfix \<le> ltop G3"
        using G3(2) G2 assms(5) mt keptD(3) [OF k] by (auto simp: actual_def nfix_def)
      have arg: "nfix + 1 \<le> maxstack p" if "h \<noteq> None"
        using G3(3) that assms(6) hasarg_1 [of "is_vararg p"] by (auto simp: header_ok_def nfix_def)
      have "yields allowed (rbind (move_params (func + 1) (nat nfix) G3) (\<lambda>Ga. case h of
          None \<Rightarrow> Inr (ltop G3, Ga) | Some h \<Rightarrow> rbind (wr (ltop Ga) (Vtable h) Ga) (\<lambda>Gb. Inr (ltop G3, Gb\<lparr>ltop := ltop Gb + 1\<rparr>))))
          (\<lambda>(b, G'). kept G3 G' \<and> b = ltop G3 \<and> ltop G3 \<le> ltop G' \<and> ltop G' \<le> ltop G3 + maxstack p)"
        using keptD(1) [OF k] assms(3) base nf arg by (intro place_args_yields) auto
      then show "yields allowed (rbind (move_params (ltop G3 - actual) (nat nfix) G3) (\<lambda>Ga. case h of
          None \<Rightarrow> Inr (ltop G3, Ga) | Some h \<Rightarrow> rbind (wr (ltop Ga) (Vtable h) Ga) (\<lambda>Gb. Inr (ltop G3, Gb\<lparr>ltop := ltop Gb + 1\<rparr>))))
          (\<lambda>(base, G'). kept G G' \<and> func + 1 + nfix \<le> base \<and> base + maxstack p < stack_last G' \<and> base \<le> ltop G' \<and> ltop G' \<le> base + maxstack p)"
        unfolding base(1) by (rule yields_mono) (use base kept_trans [OF k] keptD(3) [of G3] in force)
    qed
  qed
qed

lemma inc_ci_yields: "yields allowed (inc_ci c G) (\<lambda>G'. \<exists>n. G' = G\<lparr>ci := c # ci G, size_ci := n\<rparr>)"
proof -
  have "G\<lparr>ci := c # ci G\<rparr> = G\<lparr>ci := c # ci G, size_ci := size_ci G\<rparr>" by simp
  then have "yields allowed (Inr (G\<lparr>ci := c # ci G\<rparr>)) (\<lambda>G'. \<exists>n. G' = G\<lparr>ci := c # ci G, size_ci := n\<rparr>)"
    unfolding yields_simps by (rule exI)
  moreover have "yields allowed (Inr (G\<lparr>ci := c # ci G, size_ci := m\<rparr>)) (\<lambda>G'. \<exists>n. G' = G\<lparr>ci := c # ci G, size_ci := n\<rparr>)" for m
    unfolding yields_simps by (rule exI) (rule refl)
  ultimately show ?thesis unfolding inc_ci_def by (intro yields_if) (assumption | simp only: yields_simps(1) allowed_simps runerror_yields)+
qed

text \<open>The state in which a Lua function begins, over the calls \<open>cs\<close>.\<close>

definition entered :: "Proto \<Rightarrow> int \<Rightarrow> int \<Rightarrow> CallInfo list \<Rightarrow> 'g lstate_scheme \<Rightarrow> bool" where
  "entered p func nres cs G = (heap_ok G \<and>
     ci G = \<lparr>ci_base = lbase G, ci_func = func, ci_top = ltop G, savedpc = (p, 0), nresults = nres, tailcalls = 0\<rparr> # cs \<and>
     lpc G = (p, 0) \<and> ltop G = lbase G + maxstack p \<and> func < lbase G \<and> ltop G \<le> stack_last G \<and>
     (is_vararg p \<noteq> 0 \<longrightarrow> func + 1 + uint (numparams p) \<le> lbase G))"

lemma enter_frame_yields:
  assumes "heap_ok G" "0 \<le> func" "func < base" "base \<le> ltop G" "ltop G \<le> base + maxstack p" "base + maxstack p \<le> stack_last G"
    "is_vararg p \<noteq> 0 \<longrightarrow> func + 1 + uint (numparams p) \<le> base"
  shows "yields allowed (rbind (inc_ci \<lparr>ci_base = base, ci_func = func, ci_top = base + maxstack p, savedpc = (p, 0), nresults = nres, tailcalls = 0\<rparr> G) (\<lambda>G.
      rbind (fill_nil (ltop G) (nat (base + maxstack p - ltop G)) G) (\<lambda>G. Inr (PCRLUA, G\<lparr>lbase := base, lpc := (p, 0), ltop := base + maxstack p\<rparr>))))
    (\<lambda>(r, G'). r = PCRLUA \<and> entered p func nres (ci G) G' \<and> stacksize G' = stacksize G)"
proof (rule yields_bind [OF inc_ci_yields], elim exE)
  fix G1 n assume G1: "G1 = G\<lparr>ci := \<lparr>ci_base = base, ci_func = func, ci_top = base + maxstack p, savedpc = (p, 0), nresults = nres, tailcalls = 0\<rparr> # ci G, size_ci := n\<rparr>"
  have "heap_ok G1" using assms(1) by (simp add: G1 heap_ok_def stacksize_def)
  moreover have sz: "stacksize G1 = stacksize G" "ltop G1 = ltop G" by (simp_all add: G1 stacksize_def)
  ultimately have f: "yields allowed (fill_nil (ltop G1) (nat (base + maxstack p - ltop G1)) G1) (moved G1)"
    using assms stack_last_eq [of G] by (intro fill_nil_moved) auto
  show "yields allowed (rbind (fill_nil (ltop G1) (nat (base + maxstack p - ltop G1)) G1) (\<lambda>G. Inr (PCRLUA, G\<lparr>lbase := base, lpc := (p, 0), ltop := base + maxstack p\<rparr>)))
      (\<lambda>(r, G'). r = PCRLUA \<and> entered p func nres (ci G) G' \<and> stacksize G' = stacksize G)"
    by (rule yields_bind [OF f]) (use assms sz in \<open>auto simp: entered_def heap_ok_upd movedD G1 stack_last_eq\<close>)
qed

lemma precall_lua_yields:
  assumes "news_ok C" "heap_ok G" "0 \<le> func" "func < ltop G" "ltop G < stacksize G" "header_ok p"
  shows "yields allowed (precall_lua C p func nres G) (\<lambda>(r, G'). r = PCRLUA \<and> entered p func nres (ci G) G' \<and> stacksize G \<le> stacksize G')"
proof -
  define Q where "Q = (\<lambda>(r, G' :: 'a lstate_scheme). r = PCRLUA \<and> entered p func nres (ci G) G' \<and> stacksize G \<le> stacksize G')"
  have "0 \<le> maxstack p + uint (numparams p)" by simp
  note q = luaD_checkstack_yields [OF assms(5) this]
  have enter: "yields allowed (rbind (inc_ci \<lparr>ci_base = base, ci_func = func, ci_top = base + maxstack p, savedpc = (p, 0), nresults = nres, tailcalls = 0\<rparr> G2) (\<lambda>G.
      rbind (fill_nil (ltop G) (nat (base + maxstack p - ltop G)) G) (\<lambda>G. Inr (PCRLUA, G\<lparr>lbase := base, lpc := (p, 0), ltop := base + maxstack p\<rparr>)))) Q"
    if "kept G G2" "func < base" "base \<le> ltop G2" "ltop G2 \<le> base + maxstack p" "base + maxstack p \<le> stack_last G2"
      "is_vararg p \<noteq> 0 \<longrightarrow> func + 1 + uint (numparams p) \<le> base" for base G2
    by (rule yields_mono [OF enter_frame_yields [OF keptD(1) [OF that(1)] assms(3) that(2-6)]]) (use keptD [OF that(1)] in \<open>auto simp: Q_def\<close>)
  show ?thesis unfolding precall_lua_def Let_def Q_def [symmetric]
  proof (rule yields_bind [OF q], elim conjE)
    fix G1 assume G1: "grown G G1" "ltop G + (maxstack p + uint (numparams p)) < stack_last G1"
    note k = grown_kept [OF assms(2) G1(1)]
    have t1: "ltop G1 = ltop G" using grownD(6) [OF G1(1)] .
    have np: "0 \<le> uint (numparams p)" "uint (numparams p) \<le> maxstack p" using numparams_le [OF assms(6)] by simp_all
    have roomy: "ltop G + maxstack p < stack_last G1" using G1(2) np by linarith
    have above: "func < base" if "func + 1 + uint (numparams p) \<le> base" for base using that np by linarith
    have a: "yields allowed (adjust_varargs C p (ltop G1 - func - 1) G1) (\<lambda>(base, G'). kept G1 G' \<and> func + 1 + uint (numparams p) \<le> base \<and>
        base + maxstack p < stack_last G' \<and> base \<le> ltop G' \<and> ltop G' \<le> base + maxstack p)"
      using keptD(1) [OF k] assms(3,4) G1 t1 by (intro adjust_varargs_yields [OF assms(1) _ _ _ _ assms(6)]) auto
    have v: "yields allowed (if is_vararg p = 0 then Inr (func + 1, if ltop G1 > func + 1 + uint (numparams p) then G1\<lparr>ltop := func + 1 + uint (numparams p)\<rparr> else G1)
        else adjust_varargs C p (ltop G1 - func - 1) G1)
        (\<lambda>(base, G2). kept G G2 \<and> func < base \<and> base \<le> ltop G2 \<and> ltop G2 \<le> base + maxstack p \<and> base + maxstack p \<le> stack_last G2 \<and>
          (is_vararg p \<noteq> 0 \<longrightarrow> func + 1 + uint (numparams p) \<le> base))"
    proof (rule yields_if)
      show "yields allowed (adjust_varargs C p (ltop G1 - func - 1) G1)
        (\<lambda>(base, G2). kept G G2 \<and> func < base \<and> base \<le> ltop G2 \<and> ltop G2 \<le> base + maxstack p \<and> base + maxstack p \<le> stack_last G2 \<and>
          (is_vararg p \<noteq> 0 \<longrightarrow> func + 1 + uint (numparams p) \<le> base))"
        by (rule yields_mono [OF a]) (auto intro: kept_trans [OF k] above)
    qed (use k t1 np assms(4) roomy in auto)
    show "yields allowed (rbind (if is_vararg p = 0 then Inr (func + 1, if ltop G1 > func + 1 + uint (numparams p) then G1\<lparr>ltop := func + 1 + uint (numparams p)\<rparr> else G1)
        else adjust_varargs C p (ltop G1 - func - 1) G1) (\<lambda>(base, G).
          rbind (inc_ci \<lparr>ci_base = base, ci_func = func, ci_top = base + maxstack p, savedpc = (p, 0), nresults = nres, tailcalls = 0\<rparr> G) (\<lambda>G.
          rbind (fill_nil (ltop G) (nat (base + maxstack p - ltop G)) G) (\<lambda>G. Inr (PCRLUA, G\<lparr>lbase := base, lpc := (p, 0), ltop := base + maxstack p\<rparr>))))) Q"
      by (rule yields_bind [OF v]) (auto intro!: enter)
  qed
qed

section \<open>Returning\<close>

text \<open>Where the results of a call end; the frame above the caller is gone.\<close>

definition results_at :: "int \<Rightarrow> int \<Rightarrow> 'g lstate_scheme \<Rightarrow> bool" where
  "results_at func nres G = (if nres < 0 then func \<le> ltop G \<and> ltop G \<le> stack_last G else ltop G = func + nres)"

lemma poscall_yields:
  assumes "heap_ok G" "ci G = c # c1 # cs" "0 \<le> ci_func c" "ci_func c \<le> first" "ltop G \<le> stack_last G" "ci_func c \<le> stack_last G"
    "0 \<le> nresults c \<longrightarrow> ci_func c + nresults c \<le> stack_last G + 1"
  shows "yields allowed (luaD_poscall first G) (\<lambda>(w, G'). w = nresults c + 1 \<and> heap_ok G' \<and> stacksize G' = stacksize G \<and> ci G' = c1 # cs \<and>
    lbase G' = ci_base c1 \<and> lpc G' = savedpc c1 \<and> results_at (ci_func c) (nresults c) G')"
proof -
  define avail where "avail = nat (ltop G - first)"
  define n where "n = (if nresults c < 0 then avail else min (nat (nresults c)) avail)"
  define m where "m = nat (nresults c) - n"
  define G1 where "G1 = G\<lparr>ci := c1 # cs, lbase := ci_base c1, lpc := savedpc c1\<rparr>"
  have G1: "heap_ok G1" "stacksize G1 = stacksize G" using assms(1) by (simp_all add: G1_def heap_ok_def stacksize_def)
  have sz: "stacksize G = stack_last G + 6" using stack_last_eq [of G] by simp
  have av: "int n \<le> max 0 (ltop G - first)" by (auto simp: n_def avail_def)
  have mn: "0 \<le> nresults c \<Longrightarrow> int n + int m = nresults c" "nresults c < 0 \<Longrightarrow> m = 0" by (auto simp: m_def n_def)
  have i: "0 \<le> first" "ci_func c + int n \<le> stacksize G" using av assms(3-6) sz by auto
  have "n = 0 \<or> first + int n \<le> stacksize G" using av assms(5) sz by auto
  then have mv: "yields allowed (move_vals (ci_func c) first n G1) (moved G1)"
    using move_vals_moved [OF G1(1) assms(3), of n first] i G1(2) by (cases n) (auto simp: moved_refl G1)
  have "yields allowed (fill_nil (ci_func c + int n) m G2) (moved G2)" if "moved G1 G2" for G2
    using movedD [OF that] i G1(2) assms(3,7) sz mn by (intro fill_nil_moved) (cases "nresults c < 0"; auto)+
  then have f: "yields allowed (rbind (move_vals (ci_func c) first n G1) (fill_nil (ci_func c + int n) m)) (moved G1)"
    by (intro moved_bind [OF mv]) auto
  have "yields allowed (rbind (rbind (move_vals (ci_func c) first n G1) (fill_nil (ci_func c + int n) m))
      (\<lambda>G. Inr (nresults c - LUA_MULTRET, G\<lparr>ltop := ci_func c + int n + int m\<rparr>)))
      (\<lambda>(w, G'). w = nresults c + 1 \<and> heap_ok G' \<and> stacksize G' = stacksize G \<and> ci G' = c1 # cs \<and>
        lbase G' = ci_base c1 \<and> lpc G' = savedpc c1 \<and> results_at (ci_func c) (nresults c) G')"
  proof (rule yields_bind [OF f])
    fix G2 assume G2: "moved G1 G2"
    have "results_at (ci_func c) (nresults c) (G2\<lparr>ltop := ci_func c + int n + int m\<rparr>)"
      using mn av assms(4-6) movedD(3) [OF G2] by (auto simp: results_at_def G1_def)
    then show "yields allowed (Inr (nresults c - LUA_MULTRET, G2\<lparr>ltop := ci_func c + int n + int m\<rparr>))
        (\<lambda>(w, G'). w = nresults c + 1 \<and> heap_ok G' \<and> stacksize G' = stacksize G \<and> ci G' = c1 # cs \<and>
          lbase G' = ci_base c1 \<and> lpc G' = savedpc c1 \<and> results_at (ci_func c) (nresults c) G')"
      using movedD [OF G2] G1 by (simp add: heap_ok_upd LUA_MULTRET_def) (simp add: G1_def)
  qed
  then show ?thesis
    unfolding luaD_poscall_def assms(2) list.case Let_def avail_def [symmetric] n_def [symmetric] m_def [symmetric] G1_def [symmetric] rbind_assoc .
qed

section \<open>Calls\<close>

text \<open>
  What a C function may do: its frame is on top, it works above its base, leaves the frames below alone (but
  for the \<open>savedpc\<close> of its own, which a call back into Lua sets) and returns how many results it has left on
  the top of the stack. A negative number asks for a yield; coroutines are not modelled.
\<close>

definition c_ok :: "'g lstate_scheme cenv \<Rightarrow> bool" where
  "c_ok C = (\<forall>f G. base_ok G \<longrightarrow> lbase G \<le> ltop G \<longrightarrow> ltop G + LUA_MINSTACK \<le> stack_last G \<longrightarrow>
     yields allowed (cfunc C f G) (\<lambda>(n, G'). 0 \<le> n \<and> heap_ok G' \<and> stacksize G \<le> stacksize G' \<and>
       (\<exists>c'. ci G' = c' # tl (ci G) \<and> ci_func c' = ci_func (hd (ci G)) \<and> nresults c' = nresults (hd (ci G))) \<and>
       lbase G \<le> ltop G' - n \<and> ltop G' \<le> stack_last G'))"

lemma c_okD:
  assumes "c_ok C" "base_ok G" "lbase G \<le> ltop G" "ltop G + LUA_MINSTACK \<le> stack_last G"
  shows "yields allowed (cfunc C f G) (\<lambda>(n, G'). 0 \<le> n \<and> heap_ok G' \<and> stacksize G \<le> stacksize G' \<and>
       (\<exists>c'. ci G' = c' # tl (ci G) \<and> ci_func c' = ci_func (hd (ci G)) \<and> nresults c' = nresults (hd (ci G))) \<and>
       lbase G \<le> ltop G' - n \<and> ltop G' \<le> stack_last G')"
  using assms unfolding c_ok_def by blast

text \<open>A call that has ended, made in \<open>G\<close>.\<close>

definition save_pc :: "'g lstate_scheme \<Rightarrow> CallInfo list" where
  "save_pc G = (hd (ci G))\<lparr>savedpc := lpc G\<rparr> # tl (ci G)"

definition call_done :: "int \<Rightarrow> int \<Rightarrow> 'g lstate_scheme \<Rightarrow> 'g lstate_scheme \<Rightarrow> bool" where
  "call_done func nres G G' = (heap_ok G' \<and> stacksize G \<le> stacksize G' \<and> ci G' = save_pc G \<and> lbase G' = lbase G \<and> lpc G' = lpc G \<and>
     results_at func nres G')"

lemma frame_ok_mono: "frame_ok l c \<Longrightarrow> l \<le> l' \<Longrightarrow> frame_ok l' c"
  by (simp add: frame_ok_def)

lemma frame_ok_savedpc [simp]: "frame_ok l (c\<lparr>savedpc := x\<rparr>) = frame_ok l c"
  by (simp add: frame_ok_def)

lemma base_okD:
  assumes "base_ok G"
  shows "heap_ok G" "ci G = hd (ci G) # tl (ci G)" "lbase G = ci_base (hd (ci G))" "\<forall>c \<in> set (ci G). frame_ok (stack_last G) c"
    "frame_ok (stack_last G) (hd (ci G))"
  using assms by (auto simp: base_ok_def)

lemma frames_save_pc:
  assumes "base_ok G"
  shows "\<forall>c \<in> set (save_pc G). frame_ok (stack_last G) c"
proof -
  have "set (tl (ci G)) \<subseteq> set (ci G)" by (cases "ci G") auto
  then show ?thesis using base_okD(4,5) [OF assms] by (auto simp: save_pc_def)
qed

lemma precall_c_yields:
  assumes "c_ok C" "heap_ok G" "0 \<le> func" "func < ltop G" "ltop G < stacksize G" "ci G = c1 # cs" "\<forall>c \<in> set (ci G). frame_ok (stack_last G) c"
    "0 \<le> nres \<longrightarrow> func + nres \<le> stack_last G + 1"
  shows "yields allowed (precall_c C f func nres G) (\<lambda>(r, G'). r = PCRC \<and> heap_ok G' \<and> stacksize G \<le> stacksize G' \<and> ci G' = ci G \<and>
    lbase G' = ci_base c1 \<and> lpc G' = savedpc c1 \<and> results_at func nres G')"
proof -
  have "0 \<le> LUA_MINSTACK" by (simp add: LUA_MINSTACK_def)
  note q = luaD_checkstack_yields [OF assms(5) this]
  show ?thesis unfolding precall_c_def
  proof (rule yields_bind [OF q], elim conjE, rule yields_bind [OF inc_ci_yields], elim exE)
    fix G1 G2 :: "'a lstate_scheme" and n
    let ?c = "\<lparr>ci_base = func + 1, ci_func = func, ci_top = ltop G1 + LUA_MINSTACK, savedpc = lpc G1, nresults = nres, tailcalls = 0\<rparr>"
    assume G1: "grown G G1" "ltop G + LUA_MINSTACK < stack_last G1" and G2: "G2 = G1\<lparr>ci := ?c # ci G1, size_ci := n\<rparr>"
    note k = grown_kept [OF assms(2) G1(1)]
    note g = keptD [OF k] grownD(6) [OF G1(1)]
    define G3 where "G3 = G2\<lparr>lbase := func + 1\<rparr>"
    have f3: "stacksize G3 = stacksize G1" "stack_last G3 = stack_last G1" "ci G3 = ?c # ci G" "lbase G3 = func + 1" "ltop G3 = ltop G"
      using g by (simp_all add: G3_def G2 stacksize_def stack_last_def)
    have h3: "heap_ok G3" using g(1) by (simp add: G3_def G2 heap_ok_def stacksize_def)
    have fr: "frame_ok (stack_last G1) c" if "c \<in> set (ci G)" for c using assms(7) that g(3) frame_ok_mono by blast
    have "base_ok G3" using h3 f3 fr g(7) G1(2) assms(3,4) by (auto simp: base_ok_def frame_ok_def LUA_MINSTACK_def)
    then have cf: "yields allowed (cfunc C f G3) (\<lambda>(n, G'). 0 \<le> n \<and> heap_ok G' \<and> stacksize G3 \<le> stacksize G' \<and>
        (\<exists>c'. ci G' = c' # tl (ci G3) \<and> ci_func c' = ci_func (hd (ci G3)) \<and> nresults c' = nresults (hd (ci G3))) \<and>
        lbase G3 \<le> ltop G' - n \<and> ltop G' \<le> stack_last G')"
      using f3 G1(2) assms(4) by (intro c_okD [OF assms(1)]) auto
    show "yields allowed (rbind (cfunc C f (G2\<lparr>lbase := func + 1\<rparr>)) (\<lambda>(n, G). if n < 0 then Inr (PCRYIELD, G)
          else rbind (luaD_poscall (ltop G - n) G) (\<lambda>(_, G). Inr (PCRC, G))))
        (\<lambda>(r, G'). r = PCRC \<and> heap_ok G' \<and> stacksize G \<le> stacksize G' \<and> ci G' = ci G \<and> lbase G' = ci_base c1 \<and> lpc G' = savedpc c1 \<and> results_at func nres G')"
      unfolding G3_def [symmetric]
    proof (rule yields_bind [OF cf], clarify)
      fix m G4 c' assume G4: "0 \<le> m" "heap_ok G4" "stacksize G3 \<le> stacksize G4" "ci G4 = c' # tl (ci G3)" "ci_func c' = ci_func (hd (ci G3))"
        "nresults c' = nresults (hd (ci G3))" "lbase G3 \<le> ltop G4 - m" "ltop G4 \<le> stack_last G4"
      have c': "ci G4 = c' # c1 # cs" "ci_func c' = func" "nresults c' = nres" using G4(4-6) f3(3) assms(6) by auto
      have "0 \<le> nresults c' \<longrightarrow> ci_func c' + nresults c' \<le> stack_last G4 + 1"
        using assms(8) c' g(3) f3(1,2) G4(3) by (auto simp: stack_last_def)
      then have p: "yields allowed (luaD_poscall (ltop G4 - m) G4) (\<lambda>(w, G'). w = nresults c' + 1 \<and> heap_ok G' \<and> stacksize G' = stacksize G4 \<and> ci G' = c1 # cs \<and>
          lbase G' = ci_base c1 \<and> lpc G' = savedpc c1 \<and> results_at (ci_func c') (nresults c') G')"
        using G4 c' f3 assms(3) by (intro poscall_yields) auto
      show "yields allowed (if m < 0 then Inr (PCRYIELD, G4) else rbind (luaD_poscall (ltop G4 - m) G4) (\<lambda>(_, G). Inr (PCRC, G)))
          (\<lambda>(r, G'). r = PCRC \<and> heap_ok G' \<and> stacksize G \<le> stacksize G' \<and> ci G' = ci G \<and> lbase G' = ci_base c1 \<and> lpc G' = savedpc c1 \<and> results_at func nres G')"
        using G4(1) by (simp, intro yields_bind [OF p]) (use c' assms(6) G4(3) f3(1) g(2) in auto)
    qed
  qed
qed

lemma precall_yields:
  assumes "news_ok C" "c_ok C" "base_ok G" "0 \<le> func" "func < ltop G" "ltop G \<le> stack_last G + 2"
    "0 \<le> nres \<longrightarrow> func + nres \<le> stack_last G + 1"
  shows "yields allowed (luaD_precall C func nres G) (\<lambda>(r, G'). stacksize G \<le> stacksize G' \<and>
    (r = PCRLUA \<and> (\<exists>p. proto_ok p \<and> entered p func nres (save_pc G) G') \<or> r = PCRC \<and> call_done func nres G G'))"
proof -
  note h = base_okD [OF assms(3)]
  have sz: "stacksize G = stack_last G + 6" using stack_last_eq [of G] by simp
  have r: "yields allowed (rd G func) val_ok" using assms(4-6) h(1) sz by (intro slot_rd_ok) auto
  have t: "yields allowed (if ttype f \<noteq> 6 then tryfuncTM C func G else Inr G)
      (\<lambda>G'. kept G G' \<and> ltop G \<le> ltop G' \<and> ltop G' < stacksize G' \<and> (\<exists>f. rd G' func = Inr f \<and> ttype f = 6))" if "rd G func = Inr f" for f
  proof (rule yields_if)
    have "n < stacksize G'" if "n < stack_last G'" for n and G' :: "'a lstate_scheme" using that stack_last_eq [of G'] by simp
    then show "yields allowed (tryfuncTM C func G) (\<lambda>G'. kept G G' \<and> ltop G \<le> ltop G' \<and> ltop G' < stacksize G' \<and> (\<exists>f. rd G' func = Inr f \<and> ttype f = 6))"
      by (intro yields_mono [OF tryfuncTM_yields [OF h(1) assms(4-6)]]) auto
  qed (use h(1) assms(6) sz that in \<open>auto simp: kept_def\<close>)
  define Q where "Q = (\<lambda>(r, G'). stacksize G \<le> stacksize G' \<and>
    (r = PCRLUA \<and> (\<exists>p. proto_ok p \<and> entered p func nres (save_pc G) G') \<or> r = PCRC \<and> call_done func nres G G'))"
  obtain f where f: "rd G func = Inr f" using assms(4-6) sz by (simp add: rd_def)
  show ?thesis unfolding luaD_precall_def f rbind.simps Q_def [symmetric]
  proof (rule yields_bind [OF t [OF f]], elim conjE exE)
    fix G1 f1 assume G1: "kept G G1" "ltop G \<le> ltop G1" "ltop G1 < stacksize G1" and f1: "rd G1 func = Inr f1" "ttype f1 = 6"
    note k = keptD [OF G1(1)]
    define G2 where "G2 = G1\<lparr>ci := save_pc G\<rparr>"
    have G2: "heap_ok G2" "ltop G2 = ltop G1" "stacksize G2 = stacksize G1" "stack_last G2 = stack_last G1" "ci G2 = save_pc G" "stacksize G \<le> stacksize G2"
      using k by (simp_all add: G2_def heap_ok_upd)
    have fr: "\<forall>c \<in> set (ci G2). frame_ok (stack_last G2) c"
      using frames_save_pc [OF assms(3)] k(3) G2(4,5) frame_ok_mono by metis
    have body: "yields allowed (case closures G2 p of LClosure pt _ _ \<Rightarrow> precall_lua C pt func nres G2 | CClosure cf _ _ \<Rightarrow> precall_c C cf func nres G2) Q" for p
    proof (cases "closures G2 p")
      case (LClosure pt us env)
      then have pt: "proto_ok pt" using heap_okD(2) [OF G2(1), of p] by simp
      have "yields allowed (precall_lua C pt func nres G2) (\<lambda>(r, G'). r = PCRLUA \<and> entered pt func nres (ci G2) G' \<and> stacksize G2 \<le> stacksize G')"
        using G2 G1 assms(4,5) proto_header [OF pt] by (intro precall_lua_yields [OF assms(1)]) auto
      then show ?thesis unfolding LClosure Closure.case by (rule yields_mono) (use G2 pt in \<open>auto simp: Q_def\<close>)
    next
      case (CClosure cf us env)
      have "yields allowed (precall_c C cf func nres G2) (\<lambda>(r, G'). r = PCRC \<and> heap_ok G' \<and> stacksize G2 \<le> stacksize G' \<and> ci G' = ci G2 \<and>
          lbase G' = ci_base ((hd (ci G))\<lparr>savedpc := lpc G\<rparr>) \<and> lpc G' = savedpc ((hd (ci G))\<lparr>savedpc := lpc G\<rparr>) \<and> results_at func nres G')"
        using G2 G1 assms(4,5,7) fr k(3) by (intro precall_c_yields [OF assms(2), where cs = "tl (ci G)"]) (auto simp: save_pc_def)
      then show ?thesis unfolding CClosure Closure.case by (rule yields_mono) (use G2 h(3) in \<open>auto simp: Q_def call_done_def\<close>)
    qed
    obtain p where p: "f1 = Vfunction p" using f1(2) by (cases f1) auto
    have "ci G1 = hd (ci G) # tl (ci G)" using k(4) h(2) by simp
    then show "yields allowed (rbind (rd G1 func) (\<lambda>f. case f of Vfunction p \<Rightarrow> (case ci G1 of [] \<Rightarrow> Inl (Undefined ''no frame'')
          | c # cs \<Rightarrow> let G = G1\<lparr>ci := c\<lparr>savedpc := lpc G1\<rparr> # cs\<rparr>
              in case closures G p of LClosure pt _ _ \<Rightarrow> precall_lua C pt func nres G | CClosure cf _ _ \<Rightarrow> precall_c C cf func nres G)
        | _ \<Rightarrow> Inl (Undefined ''not a function''))) Q"
      using body [of p] k(6) f1(1) by (cases "closures G1 p") (simp_all add: p Let_def G2_def save_pc_def)
  qed
qed

text \<open>A function called from inside an instruction, and the metamethods of an instruction.\<close>

definition dcall_ok :: "(int \<Rightarrow> int \<Rightarrow> 'g lstate_scheme \<Rightarrow> 'g lstate_scheme res) \<Rightarrow> bool" where
  "dcall_ok dcall = (\<forall>G func nres. base_ok G \<longrightarrow> 0 \<le> func \<longrightarrow> func < ltop G \<longrightarrow> ltop G \<le> stack_last G + 2 \<longrightarrow> - 1 \<le> nres \<longrightarrow>
     (0 \<le> nres \<longrightarrow> func + nres \<le> stack_last G + 1) \<longrightarrow> yields allowed (dcall func nres G) (call_done func nres G))"

lemma dcall_okD:
  "dcall_ok dcall \<Longrightarrow> base_ok G \<Longrightarrow> 0 \<le> func \<Longrightarrow> func < ltop G \<Longrightarrow> ltop G \<le> stack_last G + 2 \<Longrightarrow> - 1 \<le> nres \<Longrightarrow>
   (0 \<le> nres \<Longrightarrow> func + nres \<le> stack_last G + 1) \<Longrightarrow> yields allowed (dcall func nres G) (call_done func nres G)"
  by (simp add: dcall_ok_def)

lemma call_done_inst:
  assumes "inst G0 G" "call_done func nres (G\<lparr>ltop := n\<rparr>) G'" "0 \<le> nres" "func + nres = ltop G0 + m"
  shows "inst G0 (G'\<lparr>ltop := ltop G' - m\<rparr>)"
proof -
  obtain c rest where "ci G = c # rest" using instD(3) [OF assms(1)] by (auto simp: saved_eq_def)
  then have "saved_eq (ci G) (save_pc (G\<lparr>ltop := n\<rparr>))"
    unfolding saved_eq_def by (intro exI [where x = c] exI [where x = rest] exI [where x = "lpc G"]) (simp add: save_pc_def)
  then have "saved_eq (ci G0) (ci G')" using instD(3) [OF assms(1)] assms(2) saved_eq_trans by (auto simp: call_done_def)
  then show ?thesis using assms instD [OF assms(1)] by (simp add: inst_def call_done_def results_at_def heap_ok_upd)
qed

lemma push_call_yields:
  assumes "dcall_ok dcall" "base_ok G0" "lbase G0 \<le> ltop G0" "ltop G0 \<le> stack_last G0" "inst G0 G" "val_ok f" "\<forall>p \<in> set ps. val_ok p"
    "length ps \<le> 3" "n = int (length ps) + 1" "0 \<le> nres" "nres \<le> 1"
  shows "yields allowed (rbind (push_vals (ltop G) (f # ps) G) (\<lambda>G. rbind (luaD_checkstack C n G) (\<lambda>G. dcall (ltop G) nres (G\<lparr>ltop := ltop G + n\<rparr>))))
    (\<lambda>G'. inst G0 (G'\<lparr>ltop := ltop G' - nres\<rparr>) \<and> 0 \<le> ltop G' - nres \<and> ltop G' - nres < stacksize G')"
proof -
  note i = instD [OF assms(5)]
  have b0: "0 < lbase G0" using base_okD(3,5) [OF assms(2)] by (auto simp: frame_ok_def)
  have sz: "stacksize G0 = stack_last G0 + 6" using stack_last_eq [of G0] by simp
  have pv: "yields allowed (push_vals (ltop G) (f # ps) G) (moved G)"
    using i assms b0 sz by (intro push_vals_moved) auto
  show ?thesis
  proof (rule yields_bind [OF pv])
    fix G1 assume G1: "moved G G1"
    have q: "yields allowed (luaD_checkstack C n G1) (\<lambda>G'. grown G1 G' \<and> ltop G1 + n < stack_last G')"
      using movedD [OF G1] i assms(4,9) sz by (intro luaD_checkstack_yields) auto
    show "yields allowed (rbind (luaD_checkstack C n G1) (\<lambda>G. dcall (ltop G) nres (G\<lparr>ltop := ltop G + n\<rparr>)))
        (\<lambda>G'. inst G0 (G'\<lparr>ltop := ltop G' - nres\<rparr>) \<and> 0 \<le> ltop G' - nres \<and> ltop G' - nres < stacksize G')"
    proof (rule yields_bind [OF q], elim conjE)
      fix G2 assume G2: "grown G1 G2" "ltop G1 + n < stack_last G2"
      have i2: "inst G0 G2" using grown_inst [OF _ G2(1)] movedD [OF G1] i by (simp add: inst_def)
      note t = instD(6) [OF i2] movedD(7) [OF G1] i(6)
      have "base_ok (G2\<lparr>ltop := ltop G2 + n\<rparr>)" using inst_base_ok [OF assms(2) i2] by (simp add: base_ok_def heap_ok_upd)
      then have d: "yields allowed (dcall (ltop G2) nres (G2\<lparr>ltop := ltop G2 + n\<rparr>)) (call_done (ltop G2) nres (G2\<lparr>ltop := ltop G2 + n\<rparr>))"
        using t G2(2) assms(3,9-11) b0 by (intro dcall_okD [OF assms(1)]) auto
      show "yields allowed (dcall (ltop G2) nres (G2\<lparr>ltop := ltop G2 + n\<rparr>))
          (\<lambda>G'. inst G0 (G'\<lparr>ltop := ltop G' - nres\<rparr>) \<and> 0 \<le> ltop G' - nres \<and> ltop G' - nres < stacksize G')"
      proof (rule yields_mono [OF d])
        fix G' assume d: "call_done (ltop G2) nres (G2\<lparr>ltop := ltop G2 + n\<rparr>) G'"
        have "inst G0 (G'\<lparr>ltop := ltop G' - nres\<rparr>)" using call_done_inst [OF i2 d assms(10)] t by simp
        moreover have "ltop G' = ltop G0 + nres" "stacksize G2 \<le> stacksize G'" using d t assms(10) by (simp_all add: call_done_def results_at_def)
        ultimately show "inst G0 (G'\<lparr>ltop := ltop G' - nres\<rparr>) \<and> 0 \<le> ltop G' - nres \<and> ltop G' - nres < stacksize G'"
          using assms(3,4) b0 sz instD(2) [OF i2] by simp
      qed
    qed
  qed
qed

lemma calls_inst_vm:
  assumes "dcall_ok dcall" "base_ok G0" "lbase G0 \<le> ltop G0" "ltop G0 \<le> stack_last G0"
  shows "calls_inst G0 (vm_env dcall C)"
proof -
  have c0: "yields allowed (callTM_with dcall C f ps G) (inst G0)"
    if "inst G0 G" "val_ok f" "\<forall>p \<in> set ps. val_ok p" "length ps = 3" for f ps G
    using push_call_yields [OF assms that(1-3), of 4 0 C] that(4) unfolding callTM_with_def by (auto elim: yields_mono)
  have c1: "yields allowed (callTMres_with dcall C f ps G) (\<lambda>(v, G'). val_ok v \<and> inst G0 G')"
    if "inst G0 G" "val_ok f" "\<forall>p \<in> set ps. val_ok p" "length ps = 2" for f ps G
  proof -
    have r: "yields allowed (rbind (rd (G'\<lparr>ltop := ltop G' - 1\<rparr>) (ltop (G'\<lparr>ltop := ltop G' - 1\<rparr>))) (\<lambda>r. Inr (r, G'\<lparr>ltop := ltop G' - 1\<rparr>))) (\<lambda>(v, G'). val_ok v \<and> inst G0 G')"
      if "inst G0 (G'\<lparr>ltop := ltop G' - 1\<rparr>)" "0 \<le> ltop G' - 1" "ltop G' - 1 < stacksize G'" for G'
      by (rule yields_bind [OF slot_rd_ok [OF instD(1) [OF that(1)]]]) (use that in auto)
    show ?thesis
      using yields_bind [OF push_call_yields [OF assms that(1-3), of 3 1 C], of "\<lambda>G. rbind (rd (G\<lparr>ltop := ltop G - 1\<rparr>) (ltop (G\<lparr>ltop := ltop G - 1\<rparr>))) (\<lambda>r. Inr (r, G\<lparr>ltop := ltop G - 1\<rparr>))"] r that(4)
      unfolding callTMres_with_def Let_def by (simp add: rbind_assoc)
  qed
  show ?thesis using c0 c1 by (simp add: calls_inst_def vm_env_def)
qed

lemma news_inst_vm:
  assumes "news_ok C"
  shows "news_inst G0 (vm_env dcall C)"
proof -
  have "yields allowed (newlstr_at (vmops C) s G) (\<lambda>(p, G'). inst G0 G' \<and> stack G' = stack G)" if "inst G0 G" for G s
    using assms instD(1) [OF that] unfolding news_ok_def
    by (elim allE [where x = s] allE [where x = G]) (use that in \<open>auto elim!: yields_mono simp: inst_def stacksize_def\<close>)
  then show ?thesis by (simp add: news_inst_def vm_env_def)
qed

end
