(* ===== verification/Lvm_instr.thy ===== *)
theory Lvm_instr
  imports Lvm_call
begin

text \<open>
  One instruction of the main loop. \<open>running\<close> is the invariant at the top of the loop, \<open>step_post\<close> what holds
  after an instruction: the next one is a checked instruction of the same function, or a frame has been
  entered, replaced or left.
\<close>

section \<open>Operands\<close>

lemma opmode_table:
  "getOpMode (0::int) = iABC" "getBMode 0 = OpArgR" "getCMode 0 = OpArgN" "getOpMode 1 = iABx"
  "getOpMode 2 = iABC" "getBMode 2 = OpArgU" "getCMode 2 = OpArgU" "getOpMode 3 = iABC" "getBMode 3 = OpArgR" "getCMode 3 = OpArgN"
  "getOpMode 4 = iABC" "getBMode 4 = OpArgU" "getCMode 4 = OpArgN" "getOpMode 5 = iABx"
  "getOpMode 6 = iABC" "getBMode 6 = OpArgR" "getCMode 6 = OpArgK" "getOpMode 7 = iABx"
  "getOpMode 8 = iABC" "getBMode 8 = OpArgU" "getCMode 8 = OpArgN" "getOpMode 9 = iABC" "getBMode 9 = OpArgK" "getCMode 9 = OpArgK"
  "getOpMode 10 = iABC" "getBMode 10 = OpArgU" "getCMode 10 = OpArgU" "getOpMode 11 = iABC" "getBMode 11 = OpArgR" "getCMode 11 = OpArgK"
  "getOpMode 12 = iABC" "getBMode 12 = OpArgK" "getCMode 12 = OpArgK" "getOpMode 13 = iABC" "getBMode 13 = OpArgK" "getCMode 13 = OpArgK"
  "getOpMode 14 = iABC" "getBMode 14 = OpArgK" "getCMode 14 = OpArgK" "getOpMode 15 = iABC" "getBMode 15 = OpArgK" "getCMode 15 = OpArgK"
  "getOpMode 16 = iABC" "getBMode 16 = OpArgK" "getCMode 16 = OpArgK" "getOpMode 17 = iABC" "getBMode 17 = OpArgK" "getCMode 17 = OpArgK"
  "getOpMode 18 = iABC" "getBMode 18 = OpArgR" "getCMode 18 = OpArgN" "getOpMode 19 = iABC" "getBMode 19 = OpArgR" "getCMode 19 = OpArgN"
  "getOpMode 20 = iABC" "getBMode 20 = OpArgR" "getCMode 20 = OpArgN" "getOpMode 21 = iABC" "getBMode 21 = OpArgR" "getCMode 21 = OpArgR"
  "getOpMode 22 = iAsBx" "getOpMode 23 = iABC" "getBMode 23 = OpArgK" "getCMode 23 = OpArgK"
  "getOpMode 24 = iABC" "getBMode 24 = OpArgK" "getCMode 24 = OpArgK" "getOpMode 25 = iABC" "getBMode 25 = OpArgK" "getCMode 25 = OpArgK"
  "getOpMode 26 = iABC" "getBMode 26 = OpArgR" "getCMode 26 = OpArgU" "getOpMode 27 = iABC" "getBMode 27 = OpArgR" "getCMode 27 = OpArgU"
  "getOpMode 28 = iABC" "getBMode 28 = OpArgU" "getCMode 28 = OpArgU" "getOpMode 29 = iABC" "getBMode 29 = OpArgU" "getCMode 29 = OpArgU"
  "getOpMode 30 = iABC" "getBMode 30 = OpArgU" "getCMode 30 = OpArgN" "getOpMode 31 = iAsBx"
  "getOpMode 32 = iAsBx" "getOpMode 33 = iABC" "getBMode 33 = OpArgN" "getCMode 33 = OpArgU"
  "getOpMode 34 = iABC" "getBMode 34 = OpArgU" "getCMode 34 = OpArgU" "getOpMode 35 = iABC" "getBMode 35 = OpArgN" "getCMode 35 = OpArgN"
  "getOpMode 36 = iABx" "getOpMode 37 = iABC" "getBMode 37 = OpArgU" "getCMode 37 = OpArgN"
  by code_simp+

lemma argmode_simps:
  "checkArgMode pt r OpArgR = (r < maxstack pt)" "checkArgMode pt r OpArgU" "checkArgMode pt r OpArgN = (r = 0)"
  by (simp_all add: checkArgMode_def)

lemmas operand_simps = instr_ok_def Let_def opmode_table argmode_simps op_num.simps

section \<open>The invariant\<close>

definition frame_lua :: "Proto \<Rightarrow> CallInfo \<Rightarrow> bool" where
  "frame_lua pt c = (proto_ok pt \<and> ci_top c = ci_base c + maxstack pt \<and>
     (is_vararg pt \<noteq> 0 \<longrightarrow> ci_func c + 1 + uint (numparams pt) \<le> ci_base c))"

text \<open>
  The top of the stack is that of the frame, except before an instruction that takes a variable number of
  values, which has been left it by the one before.
\<close>

definition top_ok :: "Proto \<Rightarrow> int \<Rightarrow> 'g lstate_scheme \<Rightarrow> bool" where
  "top_ok pt pc G = (let i = pcode pt ! nat pc in ltop G = ci_top (hd (ci G)) \<or>
     luaG_checkopenop i \<and> lbase G \<le> ltop G \<and> ltop G \<le> stack_last G \<and> (calls_open i \<longrightarrow> lbase G + GETARG_A i < ltop G))"

definition at_frame :: "frame \<Rightarrow> 'g lstate_scheme \<Rightarrow> bool" where
  "at_frame cl G = (case cl of (pt, us, env) \<Rightarrow> base_ok G \<and> frame_lua pt (hd (ci G)) \<and> int (length us) = uint (nups pt))"

definition running :: "frame \<Rightarrow> int \<Rightarrow> 'g lstate_scheme \<Rightarrow> bool" where
  "running cl pc G = (at_frame cl G \<and> at_instr (fst cl) pc \<and> top_ok (fst cl) pc G)"

text \<open>The frame on top can return: there is one below, and room for the results it wants.\<close>

definition can_return :: "'g lstate_scheme \<Rightarrow> bool" where
  "can_return G = (tl (ci G) \<noteq> [] \<and> - 1 \<le> nresults (hd (ci G)) \<and>
     (0 \<le> nresults (hd (ci G)) \<longrightarrow> ci_func (hd (ci G)) + nresults (hd (ci G)) \<le> stack_last G + 1))"

text \<open>A caller that can go on at \<open>q\<close> when the function called at \<open>func\<close> returns.\<close>

definition resumes :: "Proto \<Rightarrow> int \<Rightarrow> CallInfo \<Rightarrow> int \<Rightarrow> int \<Rightarrow> bool" where
  "resumes pt q c func nres = (frame_lua pt c \<and> at_instr pt q \<and> ci_base c \<le> func \<and> - 1 \<le> nres \<and>
     (if nres < 0 then luaG_checkopenop (pcode pt ! nat q) \<and> (calls_open (pcode pt ! nat q) \<longrightarrow> ci_base c + GETARG_A (pcode pt ! nat q) < func)
      else func + nres \<le> ci_top c))"

definition step_post :: "frame \<Rightarrow> 'g lstate_scheme \<Rightarrow> ctl \<times> 'g lstate_scheme \<Rightarrow> bool" where
  "step_post cl G = (\<lambda>(r, G'). stacksize G \<le> stacksize G' \<and> (case r of
     Next q \<Rightarrow> running cl q G' \<and> saved_eq (ci G) (ci G')
   | Entered \<Rightarrow> (\<exists>p func nres q c. proto_ok p \<and> entered p func nres (c # tl (ci G)) G' \<and> savedpc c = (fst cl, q) \<and>
       resumes (fst cl) q c func nres \<and> saved_eq (ci G) (c # tl (ci G)))
   | Replaced \<Rightarrow> (\<exists>p c. base_ok G' \<and> frame_lua p c \<and> ci G' = c # tl (ci G) \<and> lpc G' = (p, 0) \<and> ltop G' = ci_top c \<and>
       ci_func c = ci_func (hd (ci G)) \<and> nresults c = nresults (hd (ci G)))
   | Returned b \<Rightarrow> heap_ok G' \<and> ci G' = tl (ci G) \<and> lbase G' = ci_base (hd (tl (ci G))) \<and> lpc G' = savedpc (hd (tl (ci G))) \<and>
       results_at (ci_func (hd (ci G))) (nresults (hd (ci G))) G' \<and> b = (0 \<le> nresults (hd (ci G)))
   | Yielded \<Rightarrow> False))"

section \<open>Registers and constants\<close>

lemma at_frame_inst: "at_frame cl G0 \<Longrightarrow> inst G0 G \<Longrightarrow> at_frame cl G"
  using inst_base_ok [of G0 G] saved_eq_hd [OF instD(3), of G0 G] by (auto simp: at_frame_def frame_lua_def)

lemma at_frameD:
  assumes "at_frame (pt, us, env) G"
  shows "base_ok G" "proto_ok pt" "ci_top (hd (ci G)) = lbase G + maxstack pt" "0 < lbase G" "lbase G + maxstack pt \<le> stack_last G"
    "int (length us) = uint (nups pt)" "is_vararg pt \<noteq> 0 \<longrightarrow> ci_func (hd (ci G)) + 1 + uint (numparams pt) \<le> lbase G"
    "ci_base (hd (ci G)) = lbase G" "0 \<le> ci_func (hd (ci G))" "ci_func (hd (ci G)) < lbase G"
  using assms base_okD(3,5) [of G] by (auto simp: at_frame_def frame_lua_def frame_ok_def)

lemma reg_slot:
  assumes "at_frame (pt, us, env) G0" "inst G0 G" "0 \<le> n" "n < maxstack pt"
  shows "0 \<le> lbase G + n" "lbase G + n < stacksize G0" "lbase G + n < stacksize G"
  using at_frameD(4,5) [OF assms(1)] instD(2,4) [OF assms(2)] stack_last_eq [of G0] assms(3,4) by auto

lemma reg_inst:
  assumes "at_frame (pt, us, env) G0" "inst G0 G" "0 \<le> n" "n < maxstack pt"
  shows "yields allowed (reg G n) val_ok"
  unfolding reg_def using reg_slot [OF assms] by (intro rd_inst [OF assms(2)]) auto

lemma setreg_inst:
  assumes "at_frame (pt, us, env) G0" "inst G0 G" "0 \<le> n" "n < maxstack pt" "val_ok v"
  shows "yields allowed (setreg n v G) (inst G0)"
  unfolding setreg_def using reg_slot [OF assms(1-4)] by (intro wr_inst [OF assms(2,5)]) auto

lemma konst_inst:
  assumes "at_frame (pt, us, env) G0" "0 \<le> n" "n < int (length (pk pt))"
  shows "yields allowed (konst C pt n) val_ok"
proof -
  have "compiled_ok pt" using at_frameD(2) [OF assms(1)] by (cases rule: proto_ok.cases)
  then have "konst_ok (pk pt ! nat n)" using assms(2,3) by (auto simp: compiled_ok_def list_all_length)
  then show ?thesis using assms(2,3)
    by (cases "pk pt ! nat n" rule: konst_ok.cases) (auto simp: konst_def read_at_def const_val_def)
qed

lemma RK_inst:
  assumes "at_frame (pt, us, env) G0" "inst G0 G" "0 \<le> n" "checkArgMode pt n OpArgK"
  shows "yields allowed (RK C pt G n) val_ok"
proof (cases "ISK n")
  case True
  have "0 \<le> INDEXK n" using assms(3) by (simp add: INDEXK_def)
  then show ?thesis using True assms(4) konst_inst [OF assms(1)] by (simp add: RK_def checkArgMode_def)
next
  case False
  then show ?thesis using assms(3,4) reg_inst [OF assms(1,2)] by (simp add: RK_def checkArgMode_def)
qed

section \<open>Where an instruction goes\<close>

text \<open>The assumptions under which an instruction runs, and its operands.\<close>

definition exec :: "'g lstate_scheme cenv \<Rightarrow> (int \<Rightarrow> int \<Rightarrow> 'g lstate_scheme \<Rightarrow> 'g lstate_scheme res) \<Rightarrow> frame \<Rightarrow> int \<Rightarrow> 'g lstate_scheme \<Rightarrow> Instruction \<Rightarrow> OpCode \<Rightarrow> bool" where
  "exec C dcall cl pc G i op = (news_ok C \<and> c_ok C \<and> dcall_ok dcall \<and> can_return G \<and> running cl pc G \<and>
     i = pcode (fst cl) ! nat pc \<and> op = op_of i \<and> lpc G = (fst cl, pc + 1))"

lemma running_next:
  assumes "running (pt, us, env) pc G" "q \<in> set (vm_next pt pc)"
  shows "at_instr pt q"
proof -
  have p: "luaG_checkcode pt = Inr True" "compiled_ok pt"
    using at_frameD(2) [of pt us env G] assms(1) by (auto simp: running_def elim: proto_ok.cases)
  have a: "at_instr pt pc" using assms(1) by (simp add: running_def)
  show ?thesis using passed_next [OF a checkcode_passes(1) [OF p(1) a] _ assms(2) checkcode_passes(2) [OF p(1)]] p(2)
    by (simp add: compiled_ok_def)
qed

lemma running_instr:
  assumes "running (pt, us, env) pc G"
  shows "instr_ok pt (nat pc)" "read_at (pcode pt) pc = Inr (pcode pt ! nat pc)" "precheck pt = Inr True" "passed pt pc"
proof -
  have p: "luaG_checkcode pt = Inr True" using at_frameD(2) [of pt us env G] assms by (auto simp: running_def elim: proto_ok.cases)
  have a: "at_instr pt pc" using assms by (simp add: running_def)
  show "precheck pt = Inr True" "passed pt pc" using checkcode_passes [OF p a] .
  then show "instr_ok pt (nat pc)" using passed_operands a by (simp add: at_instr_def)
  show "read_at (pcode pt) pc = Inr (pcode pt ! nat pc)" using a by (simp add: at_instr_def read_at_ok)
qed

lemma open_ops: "luaG_checkopenop i \<Longrightarrow> op_of i \<in> {OP_CALL, OP_TAILCALL, OP_RETURN, OP_SETLIST} \<and> GETARG_B i = 0"
  by (auto simp: luaG_checkopenop_def cast_OpCode_def op_of_def split: option.splits if_splits OpCode.splits)

text \<open>An instruction that leaves the frame and the top of the stack alone.\<close>

lemma plain_next:
  assumes "exec C dcall (pt, us, env) pc G i op" "inst G G'" "q \<in> set (vm_next pt pc)" "ltop G = ci_top (hd (ci G))"
  shows "step_post (pt, us, env) G (Next q, G')"
proof -
  have r: "running (pt, us, env) pc G" using assms(1) by (simp add: exec_def)
  then have "at_frame (pt, us, env) G'" using at_frame_inst [OF _ assms(2)] by (simp add: running_def)
  moreover have "top_ok pt q G'" using assms(4) instD(6) [OF assms(2)] saved_eq_hd [OF instD(3) [OF assms(2)]] by (simp add: top_ok_def Let_def)
  ultimately show ?thesis using running_next [OF r assms(3)] instD(2,3) [OF assms(2)] by (simp add: step_post_def running_def)
qed

lemma go_post:
  assumes "exec C dcall (pt, us, env) pc G i op" "yields allowed m (inst G)" "q \<in> set (vm_next pt pc)" "ltop G = ci_top (hd (ci G))"
  shows "yields allowed (go q m) (step_post (pt, us, env) G)"
  unfolding go_def by (rule yields_bind [OF assms(2)]) (use plain_next [OF assms(1) _ assms(3,4)] in simp)

lemma execD:
  assumes "exec C dcall (pt, us, env) pc G i op"
  shows "cast_OpCode (GET_OPCODE i) = Some op" "lpc G = (pt, pc + 1)" "at_frame (pt, us, env) G" "inst G G"
    "instr_ok pt (nat pc)" "pcode pt ! nat pc = i" "op_of i = op" "0 \<le> pc" "read_at (pcode pt) pc = Inr i"
proof -
  have r: "running (pt, us, env) pc G" "i = pcode pt ! nat pc" "op = op_of i" using assms by (simp_all add: exec_def)
  then show "at_frame (pt, us, env) G" "pcode pt ! nat pc = i" "op_of i = op" "0 \<le> pc" by (simp_all add: running_def at_instr_def)
  then show "inst G G" using at_frameD(1) inst_refl by blast
  show "lpc G = (pt, pc + 1)" using assms by (simp add: exec_def)
  note q = running_instr [OF r(1)]
  show "instr_ok pt (nat pc)" "read_at (pcode pt) pc = Inr i" using q r(2) by simp_all
  then have "GET_OPCODE i < NUM_OPCODES" using r(2) by (simp add: instr_ok_def Let_def)
  then show "cast_OpCode (GET_OPCODE i) = Some op" using r(3) by (simp add: cast_OpCode_def op_of_def)
qed

lemma exec_top:
  assumes "exec C dcall (pt, us, env) pc G i op" "op \<notin> {OP_CALL, OP_TAILCALL, OP_RETURN, OP_SETLIST} \<or> GETARG_B i \<noteq> 0"
  shows "ltop G = ci_top (hd (ci G))" "lbase G \<le> ltop G" "ltop G \<le> stack_last G"
proof -
  note d = execD [OF assms(1)]
  have "\<not> luaG_checkopenop (pcode pt ! nat pc)" using open_ops [of i] d(6,7) assms(2) by auto
  then show t: "ltop G = ci_top (hd (ci G))" using assms(1) by (auto simp: exec_def running_def top_ok_def Let_def)
  show "lbase G \<le> ltop G" "ltop G \<le> stack_last G" using at_frameD(3,5) [OF d(3)] t by auto
qed

lemma exec_env:
  assumes "exec C dcall (pt, us, env) pc G i op" "op \<notin> {OP_CALL, OP_TAILCALL, OP_RETURN, OP_SETLIST} \<or> GETARG_B i \<noteq> 0"
  shows "calls_inst G (vm_env dcall C)" "news_inst G (vm_env dcall C)"
  using calls_inst_vm [of dcall G C] news_inst_vm [of C G dcall] exec_top(2,3) [OF assms] at_frameD(1) [OF execD(3) [OF assms(1)]] assms(1)
  by (simp_all add: exec_def)

text \<open>Instructions that fall through: it is enough that what they do keeps the frame.\<close>

lemma same_lpc [simp]: "lpc G = p \<Longrightarrow> G\<lparr>lpc := p\<rparr> = G"
  by auto

lemma falls_through:
  "op_of (pcode pt ! nat pc) \<notin> {OP_LOADBOOL, OP_JMP, OP_EQ, OP_LT, OP_LE, OP_TEST, OP_TESTSET, OP_RETURN, OP_FORLOOP, OP_FORPREP, OP_TFORLOOP, OP_SETLIST, OP_CLOSURE} \<Longrightarrow>
   vm_next pt pc = [pc + 1]"
  by (simp add: vm_next_def Let_def split: OpCode.split)

lemma step_plain:
  assumes "exec C dcall (pt, us, env) pc G i op" "vm_op C dcall (pt, us, env) i (pc + 1) G = go (pc + 1) m" "yields allowed m (inst G)"
    "op \<notin> {OP_LOADBOOL, OP_JMP, OP_EQ, OP_LT, OP_LE, OP_TEST, OP_TESTSET, OP_RETURN, OP_FORLOOP, OP_FORPREP, OP_TFORLOOP, OP_SETLIST, OP_CLOSURE, OP_CALL, OP_TAILCALL}"
  shows "yields allowed (vm_op C dcall (pt, us, env) i (pc + 1) G) (step_post (pt, us, env) G)"
  unfolding assms(2)
proof (rule go_post [OF assms(1,3)])
  show "pc + 1 \<in> set (vm_next pt pc)" using falls_through [of pt pc] execD(6,7) [OF assms(1)] assms(4) by auto
  show "ltop G = ci_top (hd (ci G))" using exec_top(1) [OF assms(1)] assms(4) by auto
qed

section \<open>Moves, constants, upvalues\<close>

lemma step_MOVE:
  assumes e: "exec C dcall (pt, us, env) pc G i OP_MOVE"
  shows "yields allowed (vm_op C dcall (pt, us, env) i (pc + 1) G) (step_post (pt, us, env) G)"
proof (rule step_plain [OF e])
  note d = execD [OF e]
  have o: "GETARG_A i < maxstack pt" "GETARG_B i < maxstack pt" using d(5,6,7) by (simp_all add: operand_simps)
  show "vm_op C dcall (pt, us, env) i (pc + 1) G = go (pc + 1) (rbind (reg G (GETARG_B i)) (\<lambda>v. setreg (GETARG_A i) v G))"
    using d(1,2) by (simp add: vm_op_def Let_def)
  show "yields allowed (rbind (reg G (GETARG_B i)) (\<lambda>v. setreg (GETARG_A i) v G)) (inst G)"
    using o by (intro yields_bind [OF reg_inst [OF d(3,4)]] setreg_inst [OF d(3,4)]) auto
qed simp

lemma step_LOADK:
  assumes e: "exec C dcall (pt, us, env) pc G i OP_LOADK"
  shows "yields allowed (vm_op C dcall (pt, us, env) i (pc + 1) G) (step_post (pt, us, env) G)"
proof (rule step_plain [OF e])
  note d = execD [OF e]
  have o: "GETARG_A i < maxstack pt" "GETARG_Bx i < int (length (pk pt))" using d(5,6,7) by (simp_all add: operand_simps)
  show "vm_op C dcall (pt, us, env) i (pc + 1) G = go (pc + 1) (rbind (konst C pt (GETARG_Bx i)) (\<lambda>v. setreg (GETARG_A i) v G))"
    using d(1,2) by (simp add: vm_op_def Let_def)
  show "yields allowed (rbind (konst C pt (GETARG_Bx i)) (\<lambda>v. setreg (GETARG_A i) v G)) (inst G)"
    using o by (intro yields_bind [OF konst_inst [OF d(3)]] setreg_inst [OF d(3,4)]) auto
qed simp

lemma step_LOADBOOL:
  assumes e: "exec C dcall (pt, us, env) pc G i OP_LOADBOOL"
  shows "yields allowed (vm_op C dcall (pt, us, env) i (pc + 1) G) (step_post (pt, us, env) G)"
proof -
  note d = execD [OF e]
  have o: "GETARG_A i < maxstack pt" using d(5,6,7) by (simp add: operand_simps)
  have eq: "vm_op C dcall (pt, us, env) i (pc + 1) G = go (if GETARG_C i \<noteq> 0 then pc + 2 else pc + 1) (setreg (GETARG_A i) (Vboolean (GETARG_B i \<noteq> 0)) G)"
    using d(1,2) by (simp add: vm_op_def Let_def add.commute [of 2])
  show ?thesis unfolding eq
    using o d(6,7) exec_top(1) [OF e] by (intro go_post [OF e] setreg_inst [OF d(3,4)]) (auto simp: vm_next_def Let_def)
qed

lemma nil_down_inst:
  assumes "at_frame (pt, us, env) G0"
  shows "inst G0 G \<Longrightarrow> n < maxstack pt \<Longrightarrow> int m \<le> n + 1 \<Longrightarrow> yields allowed (nil_down n m G) (inst G0)"
proof (induction m arbitrary: n G)
  case (Suc m)
  have s: "yields allowed (setreg n Vnil G) (inst G0)" using Suc.prems by (intro setreg_inst [OF assms]) auto
  show ?case unfolding nil_down.simps
    by (rule yields_bind [OF s]) (use Suc in auto)
qed simp

lemma step_LOADNIL:
  assumes e: "exec C dcall (pt, us, env) pc G i OP_LOADNIL"
  shows "yields allowed (vm_op C dcall (pt, us, env) i (pc + 1) G) (step_post (pt, us, env) G)"
proof (rule step_plain [OF e])
  note d = execD [OF e]
  have o: "GETARG_A i < maxstack pt" "GETARG_B i < maxstack pt" using d(5,6,7) by (simp_all add: operand_simps)
  show "vm_op C dcall (pt, us, env) i (pc + 1) G = go (pc + 1) (nil_down (GETARG_B i) (nat (GETARG_B i - GETARG_A i) + 1) G)"
    using d(1,2) by (simp add: vm_op_def Let_def)
  show "yields allowed (nil_down (GETARG_B i) (nat (GETARG_B i - GETARG_A i) + 1) G) (inst G)"
    using o GETARG_nonneg [of i] by (intro nil_down_inst [OF d(3,4)]) auto
qed simp

lemma step_GETUPVAL:
  assumes e: "exec C dcall (pt, us, env) pc G i OP_GETUPVAL"
  shows "yields allowed (vm_op C dcall (pt, us, env) i (pc + 1) G) (step_post (pt, us, env) G)"
proof (rule step_plain [OF e])
  note d = execD [OF e]
  have o: "GETARG_A i < maxstack pt" "GETARG_B i < uint (nups pt)" using d(5,6,7) by (simp_all add: operand_simps)
  show "vm_op C dcall (pt, us, env) i (pc + 1) G = go (pc + 1) (rbind (read_at us (GETARG_B i)) (\<lambda>u. rbind (upval_get G u) (\<lambda>v. setreg (GETARG_A i) v G)))"
    using d(1,2) by (simp add: vm_op_def Let_def)
  show "yields allowed (rbind (read_at us (GETARG_B i)) (\<lambda>u. rbind (upval_get G u) (\<lambda>v. setreg (GETARG_A i) v G))) (inst G)"
  proof -
    have "read_at us (GETARG_B i) = Inr (us ! nat (GETARG_B i))" using o at_frameD(6) [OF d(3)] by (simp add: read_at_ok)
    then show ?thesis using o by (simp, intro yields_bind [OF upval_get_inst [OF d(4)]] setreg_inst [OF d(3,4)]) auto
  qed
qed simp

lemma step_SETUPVAL:
  assumes e: "exec C dcall (pt, us, env) pc G i OP_SETUPVAL"
  shows "yields allowed (vm_op C dcall (pt, us, env) i (pc + 1) G) (step_post (pt, us, env) G)"
proof (rule step_plain [OF e])
  note d = execD [OF e]
  have o: "GETARG_A i < maxstack pt" "GETARG_B i < uint (nups pt)" using d(5,6,7) by (simp_all add: operand_simps)
  show "vm_op C dcall (pt, us, env) i (pc + 1) G = go (pc + 1) (rbind (read_at us (GETARG_B i)) (\<lambda>u. rbind (reg G (GETARG_A i)) (\<lambda>v. upval_set u v G)))"
    using d(1,2) by (simp add: vm_op_def Let_def)
  show "yields allowed (rbind (read_at us (GETARG_B i)) (\<lambda>u. rbind (reg G (GETARG_A i)) (\<lambda>v. upval_set u v G))) (inst G)"
  proof -
    have "read_at us (GETARG_B i) = Inr (us ! nat (GETARG_B i))" using o at_frameD(6) [OF d(3)] by (simp add: read_at_ok)
    then show ?thesis using o by (simp, intro yields_bind [OF reg_inst [OF d(3,4)]] upval_set_inst [OF d(4)]) auto
  qed
qed simp

section \<open>Tables\<close>

lemma gettable_vm:
  assumes "exec C dcall (pt, us, env) pc G i op" "op \<notin> {OP_CALL, OP_TAILCALL, OP_RETURN, OP_SETLIST}" "inst G G1" "val_ok t" "val_ok k"
    "0 \<le> n" "n < maxstack pt"
  shows "yields allowed (rbind (luaV_gettable (vm_env dcall C) t k G1) (\<lambda>(v, G). setreg n v G)) (inst G)"
  unfolding luaV_gettable_def
  by (rule yields_bind [OF gettable_inst [OF exec_env(1) [OF assms(1)] assms(5,3,4)]])
    (use assms(2,6,7) setreg_inst [OF execD(3) [OF assms(1)]] in auto)

lemma settable_vm:
  assumes "exec C dcall (pt, us, env) pc G i op" "op \<notin> {OP_CALL, OP_TAILCALL, OP_RETURN, OP_SETLIST}" "inst G G1" "val_ok t" "val_ok k" "val_ok v"
  shows "yields allowed (luaV_settable (vm_env dcall C) t k v G1) (inst G)"
  unfolding luaV_settable_def using settable_inst [OF exec_env(1) [OF assms(1)] assms(5,6,3,4)] assms(2) by simp

lemma step_GETGLOBAL:
  assumes e: "exec C dcall (pt, us, env) pc G i OP_GETGLOBAL"
  shows "yields allowed (vm_op C dcall (pt, us, env) i (pc + 1) G) (step_post (pt, us, env) G)"
proof (rule step_plain [OF e])
  note d = execD [OF e]
  have o: "GETARG_A i < maxstack pt" "GETARG_Bx i < int (length (pk pt))" using d(5,6,7) by (simp_all add: operand_simps)
  show "vm_op C dcall (pt, us, env) i (pc + 1) G = go (pc + 1) (rbind (konst C pt (GETARG_Bx i)) (\<lambda>k. rbind (luaV_gettable (vm_env dcall C) (Vtable env) k G) (\<lambda>(v, G). setreg (GETARG_A i) v G)))"
    using d(1,2) by (simp add: vm_op_def Let_def)
  show "yields allowed (rbind (konst C pt (GETARG_Bx i)) (\<lambda>k. rbind (luaV_gettable (vm_env dcall C) (Vtable env) k G) (\<lambda>(v, G). setreg (GETARG_A i) v G))) (inst G)"
    using o by (intro yields_bind [OF konst_inst [OF d(3)]] gettable_vm [OF e _ d(4)]) auto
qed simp

lemma step_SETGLOBAL:
  assumes e: "exec C dcall (pt, us, env) pc G i OP_SETGLOBAL"
  shows "yields allowed (vm_op C dcall (pt, us, env) i (pc + 1) G) (step_post (pt, us, env) G)"
proof (rule step_plain [OF e])
  note d = execD [OF e]
  have o: "GETARG_A i < maxstack pt" "GETARG_Bx i < int (length (pk pt))" using d(5,6,7) by (simp_all add: operand_simps)
  show "vm_op C dcall (pt, us, env) i (pc + 1) G = go (pc + 1) (rbind (konst C pt (GETARG_Bx i)) (\<lambda>k. rbind (reg G (GETARG_A i)) (\<lambda>v. luaV_settable (vm_env dcall C) (Vtable env) k v G)))"
    using d(1,2) by (simp add: vm_op_def Let_def)
  show "yields allowed (rbind (konst C pt (GETARG_Bx i)) (\<lambda>k. rbind (reg G (GETARG_A i)) (\<lambda>v. luaV_settable (vm_env dcall C) (Vtable env) k v G))) (inst G)"
    using o by (intro yields_bind [OF konst_inst [OF d(3)]] yields_bind [OF reg_inst [OF d(3,4)]] settable_vm [OF e _ d(4)]) auto
qed simp

lemma step_GETTABLE:
  assumes e: "exec C dcall (pt, us, env) pc G i OP_GETTABLE"
  shows "yields allowed (vm_op C dcall (pt, us, env) i (pc + 1) G) (step_post (pt, us, env) G)"
proof (rule step_plain [OF e])
  note d = execD [OF e]
  have o: "GETARG_A i < maxstack pt" "GETARG_B i < maxstack pt" "checkArgMode pt (GETARG_C i) OpArgK" using d(5,6,7) by (simp_all add: operand_simps)
  show "vm_op C dcall (pt, us, env) i (pc + 1) G = go (pc + 1) (rbind (reg G (GETARG_B i)) (\<lambda>t. rbind (RK C pt G (GETARG_C i)) (\<lambda>k. rbind (luaV_gettable (vm_env dcall C) t k G) (\<lambda>(v, G). setreg (GETARG_A i) v G))))"
    using d(1,2) by (simp add: vm_op_def Let_def)
  show "yields allowed (rbind (reg G (GETARG_B i)) (\<lambda>t. rbind (RK C pt G (GETARG_C i)) (\<lambda>k. rbind (luaV_gettable (vm_env dcall C) t k G) (\<lambda>(v, G). setreg (GETARG_A i) v G)))) (inst G)"
    using o by (intro yields_bind [OF reg_inst [OF d(3,4)]] yields_bind [OF RK_inst [OF d(3,4)]] gettable_vm [OF e _ d(4)]) auto
qed simp

lemma step_SETTABLE:
  assumes e: "exec C dcall (pt, us, env) pc G i OP_SETTABLE"
  shows "yields allowed (vm_op C dcall (pt, us, env) i (pc + 1) G) (step_post (pt, us, env) G)"
proof (rule step_plain [OF e])
  note d = execD [OF e]
  have o: "GETARG_A i < maxstack pt" "checkArgMode pt (GETARG_B i) OpArgK" "checkArgMode pt (GETARG_C i) OpArgK" using d(5,6,7) by (simp_all add: operand_simps)
  show "vm_op C dcall (pt, us, env) i (pc + 1) G = go (pc + 1) (rbind (reg G (GETARG_A i)) (\<lambda>t. rbind (RK C pt G (GETARG_B i)) (\<lambda>k. rbind (RK C pt G (GETARG_C i)) (\<lambda>v. luaV_settable (vm_env dcall C) t k v G))))"
    using d(1,2) by (simp add: vm_op_def Let_def)
  show "yields allowed (rbind (reg G (GETARG_A i)) (\<lambda>t. rbind (RK C pt G (GETARG_B i)) (\<lambda>k. rbind (RK C pt G (GETARG_C i)) (\<lambda>v. luaV_settable (vm_env dcall C) t k v G)))) (inst G)"
    using o by (intro yields_bind [OF reg_inst [OF d(3,4)]] yields_bind [OF RK_inst [OF d(3,4)]] settable_vm [OF e _ d(4)]) auto
qed simp

lemma step_NEWTABLE:
  assumes e: "exec C dcall (pt, us, env) pc G i OP_NEWTABLE"
  shows "yields allowed (vm_op C dcall (pt, us, env) i (pc + 1) G) (step_post (pt, us, env) G)"
proof (rule step_plain [OF e])
  note d = execD [OF e]
  have o: "GETARG_A i < maxstack pt" using d(5,6,7) by (simp_all add: operand_simps)
  show "vm_op C dcall (pt, us, env) i (pc + 1) G = go (pc + 1) (rbind (new_table C (luaO_fb2int (GETARG_B i)) (luaO_fb2int (GETARG_C i)) G) (\<lambda>(p, G). setreg (GETARG_A i) (Vtable p) G))"
    using d(1,2) by (simp add: vm_op_def Let_def)
  show "yields allowed (rbind (new_table C (luaO_fb2int (GETARG_B i)) (luaO_fb2int (GETARG_C i)) G) (\<lambda>(p, G). setreg (GETARG_A i) (Vtable p) G)) (inst G)"
    by (rule yields_bind [OF new_table_inst [OF d(4)]]) (use o setreg_inst [OF d(3)] in auto)
qed simp

lemma step_SELF:
  assumes e: "exec C dcall (pt, us, env) pc G i OP_SELF"
  shows "yields allowed (vm_op C dcall (pt, us, env) i (pc + 1) G) (step_post (pt, us, env) G)"
proof (rule step_plain [OF e])
  note d = execD [OF e]
  have o: "GETARG_B i < maxstack pt" "checkArgMode pt (GETARG_C i) OpArgK" "GETARG_A i + 1 < maxstack pt" using d(5,6,7) by (simp_all add: operand_simps)
  show "vm_op C dcall (pt, us, env) i (pc + 1) G = go (pc + 1) (op_self C (vm_env dcall C) pt (GETARG_A i) (GETARG_B i) (GETARG_C i) G)"
    using d(1,2) by (simp add: vm_op_def Let_def)
  show "yields allowed (op_self C (vm_env dcall C) pt (GETARG_A i) (GETARG_B i) (GETARG_C i) G) (inst G)"
    unfolding op_self_def
  proof (rule yields_bind [OF reg_inst [OF d(3,4)]])
    fix v assume v: "val_ok v"
    have w: "yields allowed (setreg (GETARG_A i + 1) v G) (inst G)" using o v GETARG_nonneg(1) [of i] by (intro setreg_inst [OF d(3,4)]) auto
    show "yields allowed (rbind (setreg (GETARG_A i + 1) v G) (\<lambda>G. rbind (reg G (GETARG_B i)) (\<lambda>rb. rbind (RK C pt G (GETARG_C i)) (\<lambda>rc.
        rbind (luaV_gettable (vm_env dcall C) rb rc G) (\<lambda>(v, G). setreg (GETARG_A i) v G))))) (inst G)"
      by (rule yields_bind [OF w])
        (use o in \<open>auto intro!: yields_bind [OF reg_inst [OF d(3)]] yields_bind [OF RK_inst [OF d(3)]] gettable_vm [OF e]\<close>)
  qed (use o in auto)
qed simp

section \<open>Arithmetic, comparison, concatenation\<close>

lemma arith_vm:
  assumes "exec C dcall (pt, us, env) pc G i op" "op \<notin> {OP_CALL, OP_TAILCALL, OP_RETURN, OP_SETLIST}" "val_ok v" "val_ok w"
    "ev \<in> {TM_ADD, TM_SUB, TM_MUL, TM_DIV, TM_MOD, TM_POW, TM_UNM}" "GETARG_A i < maxstack pt"
  shows "yields allowed (rbind (arith_op (vm_env dcall C) v w ev G) (\<lambda>(v, G). setreg (GETARG_A i) v G)) (inst G)"
proof -
  have n: "op \<notin> {OP_CALL, OP_TAILCALL, OP_RETURN, OP_SETLIST} \<or> GETARG_B i \<noteq> 0" using assms(2) by blast
  show ?thesis
    by (rule yields_bind [OF arith_op_inst [OF exec_env(1) [OF assms(1) n] execD(4) [OF assms(1)] assms(3-5)]])
      (use assms(6) setreg_inst [OF execD(3) [OF assms(1)]] in auto)
qed

lemma step_arith:
  assumes e: "exec C dcall (pt, us, env) pc G i op"
    and op: "(op, ev) \<in> {(OP_ADD, TM_ADD), (OP_SUB, TM_SUB), (OP_MUL, TM_MUL), (OP_DIV, TM_DIV), (OP_MOD, TM_MOD), (OP_POW, TM_POW)}"
  shows "yields allowed (vm_op C dcall (pt, us, env) i (pc + 1) G) (step_post (pt, us, env) G)"
proof (rule step_plain [OF e])
  note d = execD [OF e]
  have o: "GETARG_A i < maxstack pt" "checkArgMode pt (GETARG_B i) OpArgK" "checkArgMode pt (GETARG_C i) OpArgK"
    using op d(5,6,7) by (elim insertE emptyE; simp add: operand_simps)+
  show "vm_op C dcall (pt, us, env) i (pc + 1) G = go (pc + 1) (op_arith C (vm_env dcall C) pt ev (GETARG_A i) (GETARG_B i) (GETARG_C i) G)"
    using op d(1,2) by (elim insertE emptyE; simp add: vm_op_def Let_def)
  show "yields allowed (op_arith C (vm_env dcall C) pt ev (GETARG_A i) (GETARG_B i) (GETARG_C i) G) (inst G)"
    unfolding op_arith_def
    using o op by (intro yields_bind [OF RK_inst [OF d(3,4)]] arith_vm [OF e]) auto
qed (use op in auto)

lemma step_UNM:
  assumes e: "exec C dcall (pt, us, env) pc G i OP_UNM"
  shows "yields allowed (vm_op C dcall (pt, us, env) i (pc + 1) G) (step_post (pt, us, env) G)"
proof (rule step_plain [OF e])
  note d = execD [OF e]
  have o: "GETARG_A i < maxstack pt" "GETARG_B i < maxstack pt" using d(5,6,7) by (simp_all add: operand_simps)
  show "vm_op C dcall (pt, us, env) i (pc + 1) G = go (pc + 1) (op_unm (vm_env dcall C) (GETARG_A i) (GETARG_B i) G)"
    using d(1,2) by (simp add: vm_op_def Let_def)
  show "yields allowed (op_unm (vm_env dcall C) (GETARG_A i) (GETARG_B i) G) (inst G)"
    unfolding op_unm_def using o by (intro yields_bind [OF reg_inst [OF d(3,4)]] arith_vm [OF e]) auto
qed simp

lemma step_NOT:
  assumes e: "exec C dcall (pt, us, env) pc G i OP_NOT"
  shows "yields allowed (vm_op C dcall (pt, us, env) i (pc + 1) G) (step_post (pt, us, env) G)"
proof (rule step_plain [OF e])
  note d = execD [OF e]
  have o: "GETARG_A i < maxstack pt" "GETARG_B i < maxstack pt" using d(5,6,7) by (simp_all add: operand_simps)
  show "vm_op C dcall (pt, us, env) i (pc + 1) G = go (pc + 1) (rbind (reg G (GETARG_B i)) (\<lambda>v. setreg (GETARG_A i) (Vboolean (l_isfalse v)) G))"
    using d(1,2) by (simp add: vm_op_def Let_def)
  show "yields allowed (rbind (reg G (GETARG_B i)) (\<lambda>v. setreg (GETARG_A i) (Vboolean (l_isfalse v)) G)) (inst G)"
    using o by (intro yields_bind [OF reg_inst [OF d(3,4)]] setreg_inst [OF d(3,4)]) auto
qed simp

lemma step_LEN:
  assumes e: "exec C dcall (pt, us, env) pc G i OP_LEN"
  shows "yields allowed (vm_op C dcall (pt, us, env) i (pc + 1) G) (step_post (pt, us, env) G)"
proof (rule step_plain [OF e])
  note d = execD [OF e]
  have o: "GETARG_A i < maxstack pt" "GETARG_B i < maxstack pt" using d(5,6,7) by (simp_all add: operand_simps)
  show "vm_op C dcall (pt, us, env) i (pc + 1) G = go (pc + 1) (op_len (vm_env dcall C) (GETARG_A i) (GETARG_B i) G)"
    using d(1,2) by (simp add: vm_op_def Let_def)
  show "yields allowed (op_len (vm_env dcall C) (GETARG_A i) (GETARG_B i) G) (inst G)"
    unfolding op_len_def
  proof (rule yields_bind [OF reg_inst [OF d(3,4)]])
    fix v assume v: "val_ok v"
    have s: "yields allowed (setreg (GETARG_A i) w G') (inst G)" if "val_ok w" "inst G G'" for w G'
      using o that by (intro setreg_inst [OF d(3)]) auto
    have m: "yields allowed (rbind (call_binTM (vm_env dcall C) v Vnil TM_LEN G) (\<lambda>(r, G). case r of
        Some v \<Rightarrow> setreg (GETARG_A i) v G | None \<Rightarrow> luaG_typeerror v ''get length of'')) (inst G)"
      by (rule yields_bind [OF call_binTM_inst [OF exec_env(1) [OF e] d(4) v]]) (auto simp: s split: option.split)
    have n: "yields allowed (case luaH_getn (tables G p) of
        Some n \<Rightarrow> setreg (GETARG_A i) (Vnumber (cast_num (int n))) G | None \<Rightarrow> Inl (Undefined ''luaH_getn'')) (inst G)" for p
    proof -
      obtain n where "luaH_getn (tables G p) = Some n"
        using getn_spec [of "strhash G" "tables G p"] heap_okD(1) [OF instD(1) [OF d(4)], of p] by (auto simp: table_ok_def)
      then show ?thesis using s d(4) by simp
    qed
    show "yields allowed (case v of Vtable p \<Rightarrow> (case luaH_getn (tables G p) of
           Some n \<Rightarrow> setreg (GETARG_A i) (Vnumber (cast_num (int n))) G | None \<Rightarrow> Inl (Undefined ''luaH_getn''))
       | Vstring p \<Rightarrow> setreg (GETARG_A i) (Vnumber (cast_num (int (length (chars G p))))) G
       | _ \<Rightarrow> rbind (call_binTM (vm_env dcall C) v Vnil TM_LEN G) (\<lambda>(r, G). case r of
           Some w \<Rightarrow> setreg (GETARG_A i) w G | None \<Rightarrow> luaG_typeerror v ''get length of'')) (inst G)"
      using m s d(4) n by (cases v) auto
  qed (use o in auto)
qed simp

lemma step_CONCAT:
  assumes e: "exec C dcall (pt, us, env) pc G i OP_CONCAT"
  shows "yields allowed (vm_op C dcall (pt, us, env) i (pc + 1) G) (step_post (pt, us, env) G)"
proof (rule step_plain [OF e])
  note d = execD [OF e]
  have o: "GETARG_A i < maxstack pt" "GETARG_B i < maxstack pt" "GETARG_C i < maxstack pt" "GETARG_B i < GETARG_C i" using d(5,6,7) by (simp_all add: operand_simps)
  show "vm_op C dcall (pt, us, env) i (pc + 1) G = go (pc + 1) (op_concat (vm_env dcall C) (GETARG_A i) (GETARG_B i) (GETARG_C i) G)"
    using d(1,2) by (simp add: vm_op_def Let_def)
  show "yields allowed (op_concat (vm_env dcall C) (GETARG_A i) (GETARG_B i) (GETARG_C i) G) (inst G)"
    unfolding op_concat_def
  proof (rule yields_bind [OF concat_inst [OF exec_env [OF e] d(4)]])
    fix G1 assume "inst G G1"
    then show "yields allowed (rbind (reg G1 (GETARG_B i)) (\<lambda>v. setreg (GETARG_A i) v G1)) (inst G)"
      using o by (intro yields_bind [OF reg_inst [OF d(3)]] setreg_inst [OF d(3)]) auto
  qed (use o reg_slot [OF d(3,4)] GETARG_nonneg [of i] in auto)
qed simp

lemma step_CLOSE:
  assumes e: "exec C dcall (pt, us, env) pc G i OP_CLOSE"
  shows "yields allowed (vm_op C dcall (pt, us, env) i (pc + 1) G) (step_post (pt, us, env) G)"
proof (rule step_plain [OF e])
  note d = execD [OF e]
  have o: "GETARG_A i < maxstack pt" using d(5,6,7) by (simp_all add: operand_simps)
  show "vm_op C dcall (pt, us, env) i (pc + 1) G = go (pc + 1) (luaF_close (lbase G + GETARG_A i) G)"
    using d(1,2) by (simp add: vm_op_def Let_def)
  show "yields allowed (luaF_close (lbase G + GETARG_A i) G) (inst G)"
    using at_frameD(4) [OF d(3)] by (intro close_inst [OF d(4)]) auto
qed simp

end
