(* ===== verification/Lvm_step.thy ===== *)
theory Lvm_step
  imports Lvm_instr
begin

text \<open>
  The instructions that do more than fall through: jumps and tests, loops, lists, closures, variable arguments,
  calls and returns; and one round of the main loop.
\<close>

section \<open>Jumps and tests\<close>

text \<open>The frame goes on with its top of the stack back in place.\<close>

lemma resume_next:
  assumes "exec C dcall (pt, us, env) pc G i op" "inst (G\<lparr>ltop := ci_top (hd (ci G))\<rparr>) G'" "q \<in> set (vm_next pt pc)"
  shows "step_post (pt, us, env) G (Next q, G')"
proof -
  have r: "running (pt, us, env) pc G" using assms(1) by (simp add: exec_def)
  have "at_frame (pt, us, env) (G\<lparr>ltop := ci_top (hd (ci G))\<rparr>)"
    using execD(3) [OF assms(1)] by (simp add: at_frame_def base_ok_def heap_ok_upd)
  then have "at_frame (pt, us, env) G'" by (rule at_frame_inst [OF _ assms(2)])
  moreover have "top_ok pt q G'" using instD(6) [OF assms(2)] saved_eq_hd [OF instD(3) [OF assms(2)]] by (simp add: top_ok_def Let_def)
  ultimately show ?thesis using running_next [OF r assms(3)] instD(2,3) [OF assms(2)] by (simp add: step_post_def running_def)
qed

lemma step_JMP:
  assumes e: "exec C dcall (pt, us, env) pc G i OP_JMP"
  shows "yields allowed (vm_op C dcall (pt, us, env) i (pc + 1) G) (step_post (pt, us, env) G)"
proof -
  note d = execD [OF e]
  have "step_post (pt, us, env) G (Next (pc + 1 + GETARG_sBx i), G)"
    using d(6,7) exec_top(1) [OF e] by (intro plain_next [OF e d(4)]) (simp_all add: vm_next_def)
  then show ?thesis using d(1,2) by (simp add: vm_op_def Let_def)
qed

lemma test_next:
  assumes "exec C dcall (pt, us, env) pc G i op" "op \<in> {OP_EQ, OP_LT, OP_LE, OP_TEST, OP_TESTSET, OP_TFORLOOP}"
  shows "pc + 2 \<in> set (vm_next pt pc)" "pc + 2 + GETARG_sBx (pcode pt ! nat (pc + 1)) \<in> set (vm_next pt pc)"
  using assms(2) execD(6,7) [OF assms(1)] by (elim insertE; simp add: vm_next_def Let_def)+

lemma test_jump_post:
  assumes "exec C dcall (pt, us, env) pc G i op" "op \<in> {OP_EQ, OP_LT, OP_LE, OP_TEST, OP_TESTSET, OP_TFORLOOP}" "inst G G'"
  shows "yields allowed (test_jump pt (pc + 1) cond G') (step_post (pt, us, env) G)"
proof -
  have r: "running (pt, us, env) pc G" using assms(1) by (simp add: exec_def)
  note n = test_next [OF assms(1,2)]
  have t: "ltop G = ci_top (hd (ci G))" using exec_top(1) [OF assms(1)] assms(2) by auto
  have "at_instr pt (pc + 2)" by (rule running_next [OF r n(1)])
  then have "read_at (pcode pt) (pc + 1) = Inr (pcode pt ! nat (pc + 1))"
    using execD(8) [OF assms(1)] by (intro read_at_ok) (auto simp: at_instr_def)
  then show ?thesis using plain_next [OF assms(1,3) n(1) t] plain_next [OF assms(1,3) n(2) t]
    by (simp add: test_jump_def add.assoc algebra_simps)
qed

lemma step_compare:
  assumes e: "exec C dcall (pt, us, env) pc G i op" and op: "op \<in> {OP_EQ, OP_LT, OP_LE}"
  shows "yields allowed (vm_op C dcall (pt, us, env) i (pc + 1) G) (step_post (pt, us, env) G)"
proof -
  note d = execD [OF e]
  have o: "checkArgMode pt (GETARG_B i) OpArgK" "checkArgMode pt (GETARG_C i) OpArgK"
    using op d(5,6,7) by (elim insertE emptyE; simp add: operand_simps)+
  define cmp where "cmp = (if op = OP_EQ then equalobj (vm_env dcall C) else if op = OP_LT then luaV_lessthan (vm_env dcall C) else lessequal (vm_env dcall C))"
  have eq: "vm_op C dcall (pt, us, env) i (pc + 1) G = rbind (RK C pt G (GETARG_B i)) (\<lambda>rb. rbind (RK C pt G (GETARG_C i)) (\<lambda>rc.
      rbind (cmp rb rc G) (\<lambda>(r, G). test_jump pt (pc + 1) (bool_int r = GETARG_A i) G)))"
    using op d(1,2) by (elim insertE emptyE; simp add: vm_op_def Let_def cmp_def)
  have n: "op \<notin> {OP_CALL, OP_TAILCALL, OP_RETURN, OP_SETLIST} \<or> GETARG_B i \<noteq> 0" using op by auto
  have c: "yields allowed (cmp v w G) (\<lambda>(r, G'). inst G G')" if "val_ok v" "val_ok w" for v w
    using equalobj_inst [OF exec_env(1) [OF e n] d(4) that] lessthan_inst [OF exec_env(1) [OF e n] d(4) that]
      lessequal_inst [OF exec_env(1) [OF e n] d(4) that] by (simp add: cmp_def)
  have j: "yields allowed (rbind (cmp v w G) (\<lambda>(r, G). test_jump pt (pc + 1) (bool_int r = GETARG_A i) G)) (step_post (pt, us, env) G)"
    if "val_ok v" "val_ok w" for v w
    by (rule yields_bind [OF c [OF that]]) (use test_jump_post [OF e] op in auto)
  show ?thesis unfolding eq
    using o by (intro yields_bind [OF RK_inst [OF d(3,4)]] j) auto
qed

lemma step_TEST:
  assumes e: "exec C dcall (pt, us, env) pc G i OP_TEST"
  shows "yields allowed (vm_op C dcall (pt, us, env) i (pc + 1) G) (step_post (pt, us, env) G)"
proof -
  note d = execD [OF e]
  have o: "GETARG_A i < maxstack pt" using d(5,6,7) by (simp add: operand_simps)
  have eq: "vm_op C dcall (pt, us, env) i (pc + 1) G =
      rbind (reg G (GETARG_A i)) (\<lambda>v. test_jump pt (pc + 1) (bool_int (l_isfalse v) \<noteq> GETARG_C i) G)"
    using d(1,2) by (simp add: vm_op_def Let_def)
  show ?thesis unfolding eq using o by (intro yields_bind [OF reg_inst [OF d(3,4)]] test_jump_post [OF e _ d(4)]) auto
qed

lemma step_TESTSET:
  assumes e: "exec C dcall (pt, us, env) pc G i OP_TESTSET"
  shows "yields allowed (vm_op C dcall (pt, us, env) i (pc + 1) G) (step_post (pt, us, env) G)"
proof -
  note d = execD [OF e]
  have o: "GETARG_A i < maxstack pt" "GETARG_B i < maxstack pt" using d(5,6,7) by (simp_all add: operand_simps)
  have eq: "vm_op C dcall (pt, us, env) i (pc + 1) G = op_testset pt (GETARG_A i) (GETARG_B i) (GETARG_C i) (pc + 1) G"
    using d(1,2) by (simp add: vm_op_def Let_def)
  have n: "step_post (pt, us, env) G (Next (pc + 1 + 1), G)"
    using test_next(1) [OF e] exec_top(1) [OF e] by (intro plain_next [OF e d(4)]) (auto simp: add.assoc)
  have s: "yields allowed (rbind (setreg (GETARG_A i) v G) (test_jump pt (pc + 1) True)) (step_post (pt, us, env) G)" if "val_ok v" for v
    using o that by (intro yields_bind [OF setreg_inst [OF d(3,4)]] test_jump_post [OF e]) auto
  show ?thesis unfolding eq op_testset_def
    using o n s by (intro yields_bind [OF reg_inst [OF d(3,4)]]) auto
qed

section \<open>Loops\<close>

lemma nvalue_inst:
  assumes "at_frame (pt, us, env) G0" "inst G0 G" "0 \<le> n" "n < maxstack pt"
  shows "yields allowed (nvalue_at G n) (\<lambda>_. True)"
  unfolding nvalue_at_def by (rule yields_bind [OF reg_inst [OF assms]]) (simp split: TValue.split)

lemma step_FORLOOP:
  assumes e: "exec C dcall (pt, us, env) pc G i OP_FORLOOP"
  shows "yields allowed (vm_op C dcall (pt, us, env) i (pc + 1) G) (step_post (pt, us, env) G)"
proof -
  note d = execD [OF e]
  have o: "GETARG_A i + 3 < maxstack pt" "0 \<le> GETARG_A i" using d(5,6,7) by (simp_all add: operand_simps)
  have t: "ltop G = ci_top (hd (ci G))" using exec_top(1) [OF e] by simp
  have eq: "vm_op C dcall (pt, us, env) i (pc + 1) G = op_forloop (GETARG_A i) (GETARG_sBx i) (pc + 1) G"
    using d(1,2) by (simp add: vm_op_def Let_def)
  have q: "pc + 1 \<in> set (vm_next pt pc)" "pc + 1 + GETARG_sBx i \<in> set (vm_next pt pc)"
    using d(6,7) by (simp_all add: vm_next_def)
  have n: "yields allowed (nvalue_at G (GETARG_A i + m)) (\<lambda>_. True)" if "0 \<le> m" "m \<le> 2" for m
    using o that by (intro nvalue_inst [OF d(3,4)]) auto
  have s: "yields allowed (rbind (setreg (GETARG_A i) (Vnumber x) G) (\<lambda>G. go (pc + 1 + GETARG_sBx i) (setreg (GETARG_A i + 3) (Vnumber x) G)))
      (step_post (pt, us, env) G)" for x
    using o t q by (intro yields_bind [OF setreg_inst [OF d(3,4)]] go_post [OF e] setreg_inst [OF d(3)]) auto
  show ?thesis unfolding eq op_forloop_def
    using s plain_next [OF e d(4) q(1) t] n [of 0] n [of 1] n [of 2]
    by (intro yields_bind [where P = "\<lambda>_. True"]) (auto simp: Let_def)
qed

lemma tonumber_inst:
  assumes "at_frame (pt, us, env) G0" "inst G0 G" "0 \<le> n" "n < maxstack pt"
  shows "yields allowed (tonumber_at E n msg G) (\<lambda>(x, G'). inst G0 G')"
proof -
  have s: "yields allowed (rbind (setreg n (Vnumber x) G) (\<lambda>G. Inr (x, G))) (\<lambda>(x, G'). inst G0 G')" for x
    by (rule yields_bind [OF setreg_inst [OF assms]]) auto
  show ?thesis unfolding tonumber_at_def
    by (rule yields_bind [OF reg_inst [OF assms]]) (auto simp: s assms(2) split: TValue.split option.split)
qed

lemma step_FORPREP:
  assumes e: "exec C dcall (pt, us, env) pc G i OP_FORPREP"
  shows "yields allowed (vm_op C dcall (pt, us, env) i (pc + 1) G) (step_post (pt, us, env) G)"
proof -
  note d = execD [OF e]
  have o: "GETARG_A i + 3 < maxstack pt" "0 \<le> GETARG_A i" using d(5,6,7) by (simp_all add: operand_simps)
  have t: "ltop G = ci_top (hd (ci G))" using exec_top(1) [OF e] by simp
  have eq: "vm_op C dcall (pt, us, env) i (pc + 1) G = op_forprep (vm_env dcall C) (GETARG_A i) (GETARG_sBx i) (pc + 1) G"
    using d(1,2) by (simp add: vm_op_def Let_def)
  have q: "pc + 1 + GETARG_sBx i \<in> set (vm_next pt pc)" using d(6,7) by (simp add: vm_next_def)
  have n: "yields allowed (tonumber_at (vm_env dcall C) (GETARG_A i + m) msg G') (\<lambda>(x, G'). inst G G')" if "inst G G'" "0 \<le> m" "m \<le> 2" for m msg G'
    using o that by (intro tonumber_inst [OF d(3)]) auto
  have s: "yields allowed (go (pc + 1 + GETARG_sBx i) (setreg (GETARG_A i) (Vnumber x) G')) (step_post (pt, us, env) G)" if "inst G G'" for x G'
    using o t q that by (intro go_post [OF e] setreg_inst [OF d(3)]) auto
  show ?thesis unfolding eq op_forprep_def
    using n [OF d(4), of 0] n [of _ 1] n [of _ 2] s
    by (intro yields_bind [where P = "\<lambda>(x, G'). inst G G'"]) (auto intro!: yields_bind [where P = "\<lambda>(x, G'). inst G G'"])
qed

lemma moved_inst: "inst G0 G \<Longrightarrow> moved G G' \<Longrightarrow> inst G0 G'"
  using movedD [of G G'] by (simp add: inst_def)

lemma tfor_operands:
  assumes "exec C dcall (pt, us, env) pc G i OP_TFORLOOP"
  shows "0 \<le> GETARG_A i" "1 \<le> GETARG_C i" "GETARG_A i + 2 + GETARG_C i < maxstack pt"
  using execD(5,6,7) [OF assms] by (simp_all add: operand_simps)

lemma tfor_resume:
  assumes e: "exec C dcall (pt, us, env) pc G i OP_TFORLOOP" and G1: "inst G G1"
    and G': "call_done cb (GETARG_C i) (G1\<lparr>ltop := n\<rparr>) G'"
  shows "yields allowed (let G = G'\<lparr>ltop := ci_top (hd (ci G'))\<rparr> in rbind (reg G (GETARG_A i + 3)) (\<lambda>v.
    if ttisnil v then Inr (Next (pc + 1 + 1), G) else rbind (setreg (GETARG_A i + 2) v G) (test_jump pt (pc + 1) True))) (step_post (pt, us, env) G)"
proof -
  note d = execD [OF e] and o = tfor_operands [OF e]
  have t: "ltop G = ci_top (hd (ci G))" using exec_top(1) [OF e] by simp
  have h: "ci_top (hd (ci G')) = ci_top (hd (ci G))" using G' saved_eq_hd [OF instD(3) [OF G1]] by (simp add: call_done_def save_pc_def)
  have i2: "inst G (G'\<lparr>ltop := ci_top (hd (ci G'))\<rparr>)"
    using call_done_inst [OF G1 G', of "cb + GETARG_C i - ltop G"] o(2) h t G' by (simp add: call_done_def results_at_def)
  show ?thesis unfolding Let_def
  proof (rule yields_bind [OF reg_inst [OF d(3) i2]])
    fix v assume v: "val_ok v"
    have s: "yields allowed (setreg (GETARG_A i + 2) v (G'\<lparr>ltop := ci_top (hd (ci G'))\<rparr>)) (inst G)"
      using o v by (intro setreg_inst [OF d(3) i2]) auto
    have "yields allowed (rbind (setreg (GETARG_A i + 2) v (G'\<lparr>ltop := ci_top (hd (ci G'))\<rparr>)) (test_jump pt (pc + 1) True)) (step_post (pt, us, env) G)"
      by (rule yields_bind [OF s]) (rule test_jump_post [OF e], simp_all)
    then show "yields allowed (if ttisnil v then Inr (Next (pc + 1 + 1), G'\<lparr>ltop := ci_top (hd (ci G'))\<rparr>)
        else rbind (setreg (GETARG_A i + 2) v (G'\<lparr>ltop := ci_top (hd (ci G'))\<rparr>)) (test_jump pt (pc + 1) True)) (step_post (pt, us, env) G)"
      using plain_next [OF e i2 test_next(1) [OF e] t] by (simp add: add.assoc)
  qed (use o in auto)
qed

lemma step_TFORLOOP:
  assumes e: "exec C dcall (pt, us, env) pc G i OP_TFORLOOP"
  shows "yields allowed (vm_op C dcall (pt, us, env) i (pc + 1) G) (step_post (pt, us, env) G)"
proof -
  note d = execD [OF e] and o = tfor_operands [OF e]
  note f = at_frameD [OF d(3)]
  define cb where "cb = lbase G + GETARG_A i + 3"
  have sz: "stacksize G = stack_last G + 6" using stack_last_eq [of G] by simp
  have b: "0 < cb" "cb + GETARG_C i \<le> stack_last G" unfolding cb_def using o f(4,5) by linarith+
  have eq: "vm_op C dcall (pt, us, env) i (pc + 1) G = op_tforloop dcall pt (GETARG_A i) (GETARG_C i) (pc + 1) G"
    using d(1,2) by (simp add: vm_op_def Let_def)
  have mv: "yields allowed (mv (cb + m) (lbase G + GETARG_A i + m) G') (inst G)" if "inst G G'" "0 \<le> m" "m \<le> 2" for m G'
  proof -
    have "yields allowed (mv (cb + m) (lbase G + GETARG_A i + m) G') (moved G')"
      using that b o f(4) sz instD(1,2) [OF that(1)] by (intro mv_moved) (auto simp: cb_def)
    then show ?thesis by (rule yields_mono) (rule moved_inst [OF that(1)])
  qed
  have call: "yields allowed (rbind (dcall cb (GETARG_C i) (G1\<lparr>ltop := cb + 3, lpc := (pt, pc + 1)\<rparr>)) (\<lambda>G'.
      let G = G'\<lparr>ltop := ci_top (hd (ci G'))\<rparr> in rbind (reg G (GETARG_A i + 3)) (\<lambda>v.
        if ttisnil v then Inr (Next (pc + 1 + 1), G) else rbind (setreg (GETARG_A i + 2) v G) (test_jump pt (pc + 1) True)))) (step_post (pt, us, env) G)"
    if G1: "inst G G1" for G1
  proof -
    have l: "G1\<lparr>ltop := cb + 3, lpc := (pt, pc + 1)\<rparr> = G1\<lparr>ltop := cb + 3\<rparr>" using instD(5) [OF G1] d(2) by simp
    have "stack_last G \<le> stack_last G1" using instD(2) [OF G1] by (simp add: stack_last_def)
    then have "yields allowed (dcall cb (GETARG_C i) (G1\<lparr>ltop := cb + 3\<rparr>)) (call_done cb (GETARG_C i) (G1\<lparr>ltop := cb + 3\<rparr>))"
      using inst_base_ok [OF f(1) G1] b o(2) e by (intro dcall_okD) (auto simp: exec_def base_ok_def heap_ok_upd)
    then show ?thesis unfolding l by (rule yields_bind) (rule tfor_resume [OF e G1])
  qed
  have m2: "yields allowed (mv (cb + 2) (lbase G + GETARG_A i + 2) G) (inst G)" using mv [OF d(4)] by simp
  have m1: "yields allowed (mv (cb + 1) (lbase G + GETARG_A i + 1) G') (inst G)" if "inst G G'" for G' using mv [OF that] by simp
  have m0: "yields allowed (mv cb (lbase G + GETARG_A i) G') (inst G)" if "inst G G'" for G' using mv [OF that, of 0] by simp
  show ?thesis unfolding eq op_tforloop_def Let_def cb_def [symmetric]
    by (rule yields_bind [OF m2], rule yields_bind [OF m1], assumption, rule yields_bind [OF m0], assumption, rule call [unfolded Let_def])
qed

section \<open>Lists and closures\<close>

lemma setlist_loop_inst:
  assumes "at_frame (pt, us, env) G0"
  shows "inst G0 G \<Longrightarrow> 0 \<le> a \<Longrightarrow> lbase G0 + a + int n < stacksize G0 \<Longrightarrow> - (2 ^ 31) \<le> lst - int n \<Longrightarrow> lst < 2 ^ 31 \<Longrightarrow>
    yields allowed (setlist_loop h a lst n G) (inst G0)"
proof (induction n arbitrary: lst G)
  case (Suc n)
  have s: "yields allowed (luaH_setnum (strhash G) (tables G h) lst) (\<lambda>(t', s). slot_of (strhash G) t' s)"
    using Suc.prems heap_okD(1) [OF instD(1) [OF Suc.prems(1)]] by (intro luaH_setnum_yields) auto
  have r: "yields allowed (reg G (a + int n + 1)) val_ok"
    unfolding reg_def using Suc.prems instD(4) [OF Suc.prems(1)] at_frameD(4) [OF assms] by (intro rd_inst [OF Suc.prems(1)]) auto
  show ?case unfolding setlist_loop.simps
  proof (rule yields_bind [OF s], clarify, rule yields_bind [OF r])
    fix t s v assume "slot_of (strhash G) t s" "val_ok v"
    then have "inst G0 (set_table h (store t s v) G)" by (intro set_table_inst [OF Suc.prems(1)]) (simp add: slot_of_def)
    then show "yields allowed (setlist_loop h a (lst - 1) n (set_table h (store t s v) G)) (inst G0)"
      using Suc.prems by (intro Suc.IH) auto
  qed
qed simp

lemma resizearray_inst:
  assumes "inst G0 G" "lst > int (sizearray (tables G h))"
  shows "yields allowed (if lst > int MAXASIZE then Inl (Undefined ''array size'')
    else rbind (luaH_resizearray (strhash G) (tables G h) (nat lst)) (\<lambda>t. Inr (set_table h t G))) (inst G0)"
proof (rule yields_if)
  assume "\<not> lst > int MAXASIZE"
  then have l: "sizearray (tables G h) \<le> nat lst" "nat lst \<le> MAXASIZE" using assms(2) by linarith+
  have t: "table_ok (strhash G) (tables G h)" using heap_okD(1) [OF instD(1) [OF assms(1)]] .
  obtain t' where t': "luaH_resizearray (strhash G) (tables G h) (nat lst) = Inr t'" "tab_ok (strhash G) t'"
    "\<forall>k. proper k \<longrightarrow> tget (strhash G) t' k = tget (strhash G) (tables G h) k"
    using resizearray_spec [OF _ l, of "strhash G"] t by (auto simp: table_ok_def)
  then have "table_ok (strhash G) t'" using t by (simp add: table_ok_def)
  then show "yields allowed (rbind (luaH_resizearray (strhash G) (tables G h) (nat lst)) (\<lambda>t. Inr (set_table h t G))) (inst G0)"
    using t'(1) set_table_inst [OF assms(1)] by simp
qed simp

lemma setlist_into_inst:
  assumes "at_frame (pt, us, env) G0" "inst G0 G" "0 \<le> a" "lbase G0 + a + int (nat n) < stacksize G0"
  shows "yields allowed (setlist_into h a c n G) (inst G0)"
proof -
  define lst where "lst = (c - 1) * LFIELDS_PER_FLUSH + n"
  have fit: "yields allowed (if lst > int (sizearray (tables G h)) then if lst > int MAXASIZE then Inl (Undefined ''array size'')
      else rbind (luaH_resizearray (strhash G) (tables G h) (nat lst)) (\<lambda>t. Inr (set_table h t G)) else Inr G) (inst G0)"
    using resizearray_inst [OF assms(2), of h lst] assms(2) by auto
  have loop: "yields allowed (setlist_loop h a lst (nat n) G') (inst G0)" if "inst G0 G'" "- (2 ^ 31) \<le> lst - n" "- (2 ^ 31) \<le> lst" "lst < 2 ^ 31" for G'
    using that assms(3,4) by (intro setlist_loop_inst [OF assms(1)]) (cases "0 \<le> n"; simp)+
  have "yields allowed (rbind (if lst > int (sizearray (tables G h)) then if lst > int MAXASIZE then Inl (Undefined ''array size'')
      else rbind (luaH_resizearray (strhash G) (tables G h) (nat lst)) (\<lambda>t. Inr (set_table h t G)) else Inr G) (setlist_loop h a lst (nat n))) (inst G0)"
    if "- (2 ^ 31) \<le> lst - n" "- (2 ^ 31) \<le> lst" "lst < 2 ^ 31"
    by (rule yields_bind [OF fit]) (rule loop [OF _ that])
  then show ?thesis unfolding setlist_into_def Let_def lst_def [symmetric] by (intro yields_if) auto
qed

lemma step_SETLIST:
  assumes e: "exec C dcall (pt, us, env) pc G i OP_SETLIST"
  shows "yields allowed (vm_op C dcall (pt, us, env) i (pc + 1) G) (step_post (pt, us, env) G)"
proof -
  note d = execD [OF e]
  note f = at_frameD [OF d(3)]
  define a where "a = GETARG_A i"
  define G0 where "G0 = G\<lparr>ltop := ci_top (hd (ci G))\<rparr>"
  define n where "n = (if GETARG_B i = 0 then ltop G - (lbase G + a) - 1 else GETARG_B i)"
  have o: "0 \<le> a" "a < maxstack pt" "0 < GETARG_B i \<longrightarrow> a + GETARG_B i < maxstack pt" using d(5,6,7) by (simp_all add: operand_simps a_def)
  have f0: "at_frame (pt, us, env) G0" using d(3) by (simp add: at_frame_def base_ok_def heap_ok_upd G0_def)
  have i0: "inst G0 G0" using inst_refl at_frameD(1) [OF f0] by blast
  have t: "ltop G \<le> stack_last G" using e f(3,5) by (auto simp: exec_def running_def top_ok_def Let_def)
  have g: "(if GETARG_B i = 0 then G\<lparr>ltop := ci_top (hd (ci G))\<rparr> else G) = G0"
    using exec_top(1) [OF e] by (simp add: G0_def)
  have sz: "stacksize G0 = stack_last G + 6" "lbase G0 = lbase G" using stack_last_eq [of G] by (simp_all add: G0_def)
  have n: "lbase G0 + a + int (nat n) < stacksize G0"
    using o t f(4,5) sz GETARG_nonneg(2) [of i] by (cases "GETARG_B i = 0"; cases "0 \<le> n") (auto simp: n_def)
  define q where "q = (if GETARG_C i = 0 then pc + 2 else pc + 1)"
  have q: "q \<in> set (vm_next pt pc)" using d(6,7) by (simp add: vm_next_def q_def)
  have w: "read_at (pcode pt) (pc + 1) = Inr (pcode pt ! nat (pc + 1))" if "GETARG_C i = 0"
  proof -
    have "at_instr pt (pc + 2)" using running_next [of pt us env pc G q] e q that by (simp add: exec_def q_def)
    then show ?thesis using d(8) by (intro read_at_ok) (auto simp: at_instr_def)
  qed
  define c where "c = (if GETARG_C i = 0 then sint (pcode pt ! nat (pc + 1)) else GETARG_C i)"
  have cq: "(if GETARG_C i = 0 then rbind (read_at (pcode pt) (pc + 1)) (\<lambda>w. Inr (sint w, pc + 1 + 1)) else Inr (GETARG_C i, pc + 1)) = Inr (c, q)"
    using w by (simp add: c_def q_def)
  have eq: "vm_op C dcall (pt, us, env) i (pc + 1) G = op_setlist pt a (GETARG_B i) (GETARG_C i) (pc + 1) G"
    using d(1,2) by (simp add: vm_op_def Let_def a_def)
  have post: "step_post (pt, us, env) G (Next q, G')" if "inst G0 G'" for G'
    using resume_next [OF e _ q, of G'] that by (simp add: G0_def)
  have "yields allowed (go q (setlist_into h a c n G0)) (step_post (pt, us, env) G)" for h
    unfolding go_def by (rule yields_bind [OF setlist_into_inst [OF f0 i0 o(1) n]]) (simp add: post)
  then show ?thesis unfolding eq op_setlist_def Let_def n_def [symmetric] g cq rbind.simps prod.case
    by (intro yields_bind [OF reg_inst [OF f0 i0 o(1,2)]]) (simp add: post i0 split: TValue.split)
qed

lemma closure_upvals_inst:
  assumes "at_frame (pt, us, env) G0"
  shows "inst G0 G \<Longrightarrow> 0 \<le> q \<Longrightarrow>
    (\<And>m. m < n \<Longrightarrow> q + int m < sizecode pt \<and> cast_OpCode (GET_OPCODE (pcode pt ! nat (q + int m))) \<in> {Some OP_GETUPVAL, Some OP_MOVE} \<and>
      instr_ok pt (nat (q + int m))) \<Longrightarrow>
    yields allowed (closure_upvals C (pt, us, env) q n G) (\<lambda>(us', G'). inst G0 G' \<and> length us' = n)"
proof (induction n arbitrary: q G)
  case (Suc n)
  define i where "i = pcode pt ! nat q"
  have q: "q < sizecode pt" "cast_OpCode (GET_OPCODE i) = Some OP_GETUPVAL \<or> cast_OpCode (GET_OPCODE i) = Some OP_MOVE" "instr_ok pt (nat q)"
    using Suc.prems(3) [of 0] by (auto simp: i_def)
  have rd: "read_at (pcode pt) q = Inr i" using q(1) Suc.prems(2) by (simp add: read_at_ok i_def)
  have op: "cast_OpCode (GET_OPCODE i) = Some x \<Longrightarrow> op_of i = x" for x by (auto simp: cast_OpCode_def op_of_def split: if_splits)
  have u: "yields allowed (if cast_OpCode (GET_OPCODE i) = Some OP_GETUPVAL then rbind (read_at us (GETARG_B i)) (\<lambda>u. Inr (u, G))
      else Inr (luaF_findupval C (lbase G + GETARG_B i) G)) (\<lambda>(u, G'). inst G0 G')"
  proof (cases "cast_OpCode (GET_OPCODE i) = Some OP_GETUPVAL")
    case True
    have "GETARG_B i < uint (nups pt)" using q(3) op [OF True] by (simp add: operand_simps i_def [symmetric])
    then show ?thesis using True at_frameD(6) [OF assms] Suc.prems(1) by (simp add: read_at_ok)
  next
    case False
    then have "op_of i = OP_MOVE" using q(2) op by blast
    then have "GETARG_B i < maxstack pt" using q(3) by (simp add: operand_simps i_def [symmetric])
    then have "inst G0 (snd (luaF_findupval C (lbase G + GETARG_B i) G))"
      using reg_slot [OF assms Suc.prems(1), of "GETARG_B i"] by (intro findupval_inst [OF Suc.prems(1)]) auto
    then show ?thesis using False by (simp add: split_beta)
  qed
  have rest: "yields allowed (closure_upvals C (pt, us, env) (q + 1) n G') (\<lambda>(us', G'). inst G0 G' \<and> length us' = n)" if "inst G0 G'" for G'
    using Suc.prems(2) Suc.prems(3) [of "Suc m" for m] that by (intro Suc.IH) (auto simp: add.assoc)
  have more: "yields allowed (rbind (closure_upvals C (pt, us, env) (q + 1) n G') (\<lambda>(us', G). Inr (u # us', G)))
      (\<lambda>(us', G'). inst G0 G' \<and> length us' = Suc n)" if "inst G0 G'" for u G'
    by (rule yields_bind [OF rest [OF that]]) auto
  show ?case unfolding closure_upvals.simps prod.case rd rbind.simps
    by (rule yields_bind [OF u]) (use more in auto)
qed simp

lemma step_CLOSURE:
  assumes e: "exec C dcall (pt, us, env) pc G i OP_CLOSURE"
  shows "yields allowed (vm_op C dcall (pt, us, env) i (pc + 1) G) (step_post (pt, us, env) G)"
proof -
  note d = execD [OF e]
  define p where "p = pp pt ! nat (GETARG_Bx i)"
  have r: "running (pt, us, env) pc G" using e by (simp add: exec_def)
  have o: "GETARG_A i < maxstack pt" "GETARG_Bx i < int (length (pp pt))" using d(5,6,7) by (simp_all add: operand_simps)
  have rd: "read_at (pp pt) (GETARG_Bx i) = Inr p" using o(2) by (simp add: read_at_ok p_def)
  have "nat (GETARG_Bx i) < length (pp pt)" using o(2) GETARG_nonneg(4) [of i] by (simp add: nat_less_iff)
  then have "p \<in> set (pp pt)" by (simp add: p_def)
  then have pok: "proto_ok p" using at_frameD(2) [OF d(3)] by (auto elim: proto_ok.cases)
  have cl: "luaG_checkcode pt = Inr True" using at_frameD(2) [OF d(3)] by (auto elim: proto_ok.cases)
  have at: "at_instr pt pc" using r by (simp add: running_def)
  note up = passed_upvals [OF running_instr(4) [OF r] at running_instr(3) [OF r], unfolded d(6) p_def [symmetric], OF d(7)]
  have iok: "instr_ok pt (nat (pc + 1 + int m))" if "m < unat (nups p)" for m
    using passed_operands [OF checkcode_passes(2) [OF cl up(1)], of m] up(1) [of m] that by (auto simp: at_instr_def)
  have cu: "yields allowed (closure_upvals C (pt, us, env) (pc + 1) (unat (nups p)) G) (\<lambda>(us', G'). inst G G' \<and> length us' = unat (nups p))"
    using up iok d(8) by (intro closure_upvals_inst [OF d(3,4)]) (auto simp: at_instr_def)
  have eq: "vm_op C dcall (pt, us, env) i (pc + 1) G = op_closure C (pt, us, env) (GETARG_A i) (GETARG_Bx i) (pc + 1) G"
    using d(1,2) by (simp add: vm_op_def Let_def)
  have q: "pc + 1 + uint (nups p) \<in> set (vm_next pt pc)" using d(6,7) by (simp add: vm_next_def p_def)
  have n: "uint (nups p) = int (unat (nups p))" by simp
  have s: "yields allowed (go (pc + 1 + uint (nups p)) (setreg (GETARG_A i) (Vfunction f) (G'\<lparr>closures := (closures G')(f := LClosure p us' env)\<rparr>)))
      (step_post (pt, us, env) G)" if "inst G G'" "length us' = unat (nups p)" for f us' G'
  proof -
    have "heap_ok (G'\<lparr>closures := (closures G')(f := LClosure p us' env)\<rparr>)"
      using that pok by (intro heap_ok_upd(1) [OF instD(1)]) auto
    then have "inst G (G'\<lparr>closures := (closures G')(f := LClosure p us' env)\<rparr>)" using that(1) by (simp add: inst_def)
    then show ?thesis using o exec_top(1) [OF e] q by (intro go_post [OF e] setreg_inst [OF d(3)]) auto
  qed
  show ?thesis unfolding eq op_closure_def prod.case rd rbind.simps Let_def
    by (rule yields_bind [OF cu]) (use s in auto)
qed

section \<open>Variable arguments\<close>

lemma copy_varargs_inst:
  assumes "at_frame (pt, us, env) G0" "0 \<le> j" "0 \<le> a" "0 \<le> src + j" "src + n \<le> stacksize G0"
  shows "inst G0 G \<Longrightarrow> lbase G0 + a + j + int r \<le> stacksize G0 \<Longrightarrow> yields allowed (copy_varargs a src n j r G) (inst G0)"
  using assms(2-)
proof (induction r arbitrary: j G)
  case (Suc r)
  have w: "yields allowed (setreg (a + j) v G) (inst G0)" if "val_ok v" for v
    unfolding setreg_def using Suc.prems instD(4) [OF Suc.prems(1)] at_frameD(4) [OF assms(1)] that by (intro wr_inst [OF Suc.prems(1)]) auto
  have v: "yields allowed (rbind (rd G (src + j)) (\<lambda>v. setreg (a + j) v G)) (inst G0)" if "j < n"
    using Suc.prems that by (intro yields_bind [OF rd_inst [OF Suc.prems(1)]] w) auto
  have "yields allowed (if j < n then rbind (rd G (src + j)) (\<lambda>v. setreg (a + j) v G) else setreg (a + j) Vnil G) (inst G0)"
    using v w by simp
  then show ?case unfolding copy_varargs.simps by (rule yields_bind) (use Suc in auto)
qed simp

text \<open>The instruction after one that leaves values open takes them where the code generator puts it.\<close>

lemma open_next:
  assumes "exec C dcall (pt, us, env) pc G i op" "leaves_open i" "calls_open (pcode pt ! nat (pc + 1))" "pc + 1 < sizecode pt"
  shows "GETARG_A (pcode pt ! nat (pc + 1)) < GETARG_A i"
proof -
  note d = execD [OF assms(1)]
  have "compiled_ok pt" using at_frameD(2) [OF d(3)] by (cases rule: proto_ok.cases)
  then have "open_order (pcode pt)" by (simp add: compiled_ok_def)
  moreover have "nat pc < length (pcode pt) - 1" "nat (pc + 1) = nat pc + 1" using assms(4) d(8) by auto
  moreover have "scanned (pcode pt) (nat pc)" using assms(1) by (simp add: exec_def running_def at_instr_def)
  ultimately show ?thesis using assms(2,3) d(6) by (auto simp: open_order_def list_all_iff)
qed

lemma falls_at:
  assumes "exec C dcall (pt, us, env) pc G i op" "op \<in> {OP_VARARG, OP_CALL, OP_TAILCALL}"
  shows "at_instr pt (pc + 1)" "pc + 1 < sizecode pt" "nat (pc + 1) = Suc (nat pc)"
proof -
  have "pc + 1 \<in> set (vm_next pt pc)" using falls_through [of pt pc] execD(6,7) [OF assms(1)] assms(2) by auto
  then show "at_instr pt (pc + 1)" using running_next [of pt us env pc G "pc + 1"] assms(1) by (simp add: exec_def)
  then show "pc + 1 < sizecode pt" by (simp add: at_instr_def)
  show "nat (pc + 1) = Suc (nat pc)" using execD(8) [OF assms(1)] by simp
qed

lemma step_VARARG:
  assumes e: "exec C dcall (pt, us, env) pc G i OP_VARARG"
  shows "yields allowed (vm_op C dcall (pt, us, env) i (pc + 1) G) (step_post (pt, us, env) G)"
proof -
  note d = execD [OF e]
  note f = at_frameD [OF d(3)]
  note fl = falls_at [OF e, simplified]
  define a where "a = GETARG_A i"
  define n where "n = ci_base (hd (ci G)) - ci_func (hd (ci G)) - uint (numparams pt) - 1"
  have o: "0 \<le> a" "a < maxstack pt" "a + GETARG_B i - 2 < maxstack pt" "is_vararg pt \<noteq> 0"
    "GETARG_B i = 0 \<Longrightarrow> luaG_checkopenop (pcode pt ! Suc (nat pc))"
    using d(5,6,7) by (auto simp: operand_simps a_def)
  have n: "0 \<le> n" "0 \<le> lbase G - n" "n \<le> lbase G" 
    using f(7) [rule_format, OF o(4)] f(8-10) uint_ge_0 [of "numparams pt"] unfolding n_def by linarith+
  have t: "ltop G = ci_top (hd (ci G))" "lbase G + a < ltop G" using exec_top(1) [OF e] f(3) o(2) by auto
  have sz: "stacksize H = stack_last H + 6" for H :: "'a lstate_scheme" using stack_last_eq [of H] by simp
  have eq: "vm_op C dcall (pt, us, env) i (pc + 1) G = go (pc + 1) (op_vararg C pt a (GETARG_B i) G)"
    using d(1,2) by (simp add: vm_op_def Let_def a_def)
  show ?thesis
  proof (cases "GETARG_B i = 0")
    case False
    then have b: "GETARG_B i - 1 \<noteq> LUA_MULTRET" "0 \<le> GETARG_B i - 1"
      using GETARG_nonneg(2) [of i] unfolding LUA_MULTRET_def by linarith+
    have "yields allowed (op_vararg C pt a (GETARG_B i) G) (inst G)"
      unfolding op_vararg_def Let_def n_def [symmetric] if_not_P [OF b(1)]
      using b o n f(4,5,8) sz [of G] by (intro copy_varargs_inst [OF d(3) _ _ _ _ d(4)]) auto
    then show ?thesis unfolding eq using t(1) falls_through [of pt pc] d(6,7) by (intro go_post [OF e]) auto
  next
    case True
    have b: "GETARG_B i - 1 = LUA_MULTRET" using True by (simp add: LUA_MULTRET_def)
    have cs: "yields allowed (luaD_checkstack C n G) (\<lambda>G'. grown G G' \<and> ltop G + n < stack_last G')"
      using exec_top(3) [OF e] sz [of G] n by (intro luaD_checkstack_yields) auto
    show ?thesis unfolding eq go_def op_vararg_def Let_def n_def [symmetric] if_P [OF b] rbind_assoc
    proof (rule yields_bind [OF cs], elim conjE)
      fix G1 assume G1: "grown G G1" "ltop G + n < stack_last G1"
      have i1: "inst G G1" by (rule grown_inst [OF d(4) G1(1)])
      define G2 where "G2 = G1\<lparr>ltop := lbase G1 + a + n\<rparr>"
      have f2: "at_frame (pt, us, env) G2" using at_frame_inst [OF d(3) i1] by (simp add: at_frame_def base_ok_def heap_ok_upd G2_def)
      have i2: "inst G2 G2" using inst_refl at_frameD(1) [OF f2] by blast
      have g2: "lbase G2 = lbase G" "stacksize G2 = stacksize G1" "ltop G2 = lbase G + a + n" "stack_last G2 = stack_last G1" "ci G2 = ci G"
        using instD(4) [OF i1] grownD(3) [OF G1(1)] by (simp_all add: G2_def)
      have cp: "yields allowed (copy_varargs a (ci_base (hd (ci G)) - n) n 0 (nat n) G2) (inst G2)"
        using o(1) n f(5,8) g2 G1(2) t sz [of G1] by (intro copy_varargs_inst [OF f2 _ _ _ _ i2]) auto
      show "yields allowed (rbind (copy_varargs a (ci_base (hd (ci G)) - n) n 0 (nat n) (G1\<lparr>ltop := lbase G1 + a + n\<rparr>)) (\<lambda>G. Inr (Next (pc + 1), G)))
          (step_post (pt, us, env) G)"
        unfolding G2_def [symmetric]
      proof (rule yields_bind [OF cp])
        fix G3 assume G3: "inst G2 G3"
        note i3 = instD [OF G3]
        have "calls_open (pcode pt ! nat (pc + 1)) \<Longrightarrow> GETARG_A (pcode pt ! nat (pc + 1)) < a"
          unfolding a_def using open_next [OF e _ _ fl(2)] True d(7) by (auto simp: leaves_open_def)
        then have "top_ok pt (pc + 1) G3" using o(1) o(5) [OF True] fl(3) i3 g2 n(1) t(2) G1(2)
          by (auto simp: top_ok_def Let_def stack_last_eq)
        moreover have "saved_eq (ci G) (ci G3)" using i3(3) g2(5) by simp
        ultimately show "yields allowed (Inr (Next (pc + 1), G3)) (step_post (pt, us, env) G)"
          using at_frame_inst [OF f2 G3] fl(1) i3(2) g2(2) instD(2) [OF i1] by (simp add: step_post_def running_def)
      qed
    qed
  qed
qed

section \<open>Calls and returns\<close>

lemma call_done_frame:
  assumes "at_frame cl G" "call_done func nres G G'"
  shows "at_frame cl G'" "saved_eq (ci G) (ci G')" "stacksize G \<le> stacksize G'"
proof -
  obtain pt us env where cl: "cl = (pt, us, env)" using prod_cases3 by blast
  note f = at_frameD [OF assms(1) [unfolded cl]]
  note h = base_okD [OF f(1)]
  have c: "heap_ok G'" "ci G' = save_pc G" "lbase G' = lbase G" "stacksize G \<le> stacksize G'" using assms(2) by (simp_all add: call_done_def)
  have "stack_last G \<le> stack_last G'" using c(4) by (simp add: stack_last_def)
  then have "\<forall>x \<in> set (ci G'). frame_ok (stack_last G') x" using frames_save_pc [OF f(1)] frame_ok_mono c(2) by metis
  then have "base_ok G'" using c h(3) by (simp add: base_ok_def save_pc_def)
  then show "at_frame cl G'" using assms(1) c(2) by (simp add: at_frame_def cl frame_lua_def save_pc_def)
  show "saved_eq (ci G) (ci G')" using h(2) c(2) unfolding saved_eq_def
    by (intro exI [where x = "hd (ci G)"] exI [where x = "tl (ci G)"] exI [where x = "lpc G"]) (simp add: save_pc_def)
  show "stacksize G \<le> stacksize G'" using c(4) .
qed

text \<open>The call that OP_CALL and OP_TAILCALL make, and the caller when it is done.\<close>

lemma call_yields:
  assumes e: "exec C dcall (pt, us, env) pc G i op" and op: "op \<in> {OP_CALL, OP_TAILCALL}" and nres: "nres = GETARG_C i - 1"
    and G1: "G1 = (if GETARG_B i \<noteq> 0 then G\<lparr>ltop := lbase G + GETARG_A i + GETARG_B i\<rparr> else G)"
  shows "yields allowed (luaD_precall C (lbase G + GETARG_A i) nres G1) (\<lambda>(r, G'). stacksize G \<le> stacksize G' \<and>
      (r = PCRLUA \<and> (\<exists>p. proto_ok p \<and> entered p (lbase G + GETARG_A i) nres (save_pc G1) G') \<or>
       r = PCRC \<and> call_done (lbase G + GETARG_A i) nres G1 G'))"
    and "resumes pt (pc + 1) ((hd (ci G))\<lparr>savedpc := (pt, pc + 1)\<rparr>) (lbase G + GETARG_A i) nres"
    and "save_pc G1 = (hd (ci G))\<lparr>savedpc := (pt, pc + 1)\<rparr> # tl (ci G)" "at_frame (pt, us, env) G1"
proof -
  note d = execD [OF e]
  note f = at_frameD [OF d(3)]
  have fl: "at_instr pt (pc + 1)" "pc + 1 < sizecode pt" "nat (pc + 1) = Suc (nat pc)" using falls_at [OF e] op by auto
  have o: "0 \<le> GETARG_A i" "GETARG_A i < maxstack pt" "GETARG_B i \<noteq> 0 \<longrightarrow> GETARG_A i + GETARG_B i - 1 < maxstack pt"
    "1 < GETARG_C i \<longrightarrow> GETARG_A i + GETARG_C i - 2 < maxstack pt" "GETARG_C i = 0 \<longrightarrow> luaG_checkopenop (pcode pt ! Suc (nat pc))"
    using op d(5,6,7) by (elim insertE emptyE; simp add: operand_simps)+
  have bc: "GETARG_B i = 0 \<or> 1 \<le> GETARG_B i" "GETARG_C i = 0 \<or> GETARG_C i = 1 \<or> 1 < GETARG_C i" "0 \<le> GETARG_C i"
    using GETARG_nonneg(2,3) [of i] by linarith+
  have top: "ltop G = ci_top (hd (ci G)) \<or> ltop G \<le> stack_last G \<and> (GETARG_B i = 0 \<longrightarrow> lbase G + GETARG_A i < ltop G)"
    using e op d(6,7) by (auto simp: exec_def running_def top_ok_def Let_def calls_open_def)
  have l1: "lbase G + GETARG_A i < ltop G1" "ltop G1 \<le> stack_last G"
    using top bc(1) o f(3,5) by (auto simp: G1)
  show f1: "at_frame (pt, us, env) G1" using d(3) by (simp add: G1 at_frame_def base_ok_def heap_ok_upd)
  have g1: "stack_last G1 = stack_last G" "stacksize G1 = stacksize G" "ci G1 = ci G" "lpc G1 = (pt, pc + 1)" using d(2) by (simp_all add: G1)
  show "save_pc G1 = (hd (ci G))\<lparr>savedpc := (pt, pc + 1)\<rparr> # tl (ci G)" using g1 by (simp add: save_pc_def)
  have fit: "0 \<le> nres \<longrightarrow> lbase G + GETARG_A i + nres \<le> lbase G + maxstack pt" using bc(2) o(1,2,4) by (auto simp: nres)
  have pre: "0 \<le> lbase G + GETARG_A i" "ltop G1 \<le> stack_last G1 + 2" "0 \<le> nres \<longrightarrow> lbase G + GETARG_A i + nres \<le> stack_last G1 + 1"
    using o(1) l1(2) f(4,5) fit g1(1) by auto
  have "news_ok C" "c_ok C" using e by (simp_all add: exec_def)
  then show "yields allowed (luaD_precall C (lbase G + GETARG_A i) nres G1) (\<lambda>(r, G'). stacksize G \<le> stacksize G' \<and>
      (r = PCRLUA \<and> (\<exists>p. proto_ok p \<and> entered p (lbase G + GETARG_A i) nres (save_pc G1) G') \<or>
       r = PCRC \<and> call_done (lbase G + GETARG_A i) nres G1 G'))"
    using precall_yields [OF _ _ at_frameD(1) [OF f1] pre(1) l1(1) pre(2,3), of C] unfolding g1(2) by blast
  have "calls_open (pcode pt ! nat (pc + 1)) \<longrightarrow> GETARG_A (pcode pt ! nat (pc + 1)) < GETARG_A i" if "GETARG_C i = 0"
    using open_next [OF e _ _ fl(2)] op d(7) that by (auto simp: leaves_open_def)
  with fit show "resumes pt (pc + 1) ((hd (ci G))\<lparr>savedpc := (pt, pc + 1)\<rparr>) (lbase G + GETARG_A i) nres"
    using d(3) fl(1,3) f(3,8) o(1,5) bc(2)
    by (cases "GETARG_C i = 0") (auto simp: resumes_def at_frame_def frame_lua_def nres)
qed

lemma entered_post:
  "proto_ok p \<Longrightarrow> entered p func nres (c # tl (ci G)) G' \<Longrightarrow> savedpc c = (pt, q) \<Longrightarrow> resumes pt q c func nres \<Longrightarrow>
   saved_eq (ci G) (c # tl (ci G)) \<Longrightarrow> stacksize G \<le> stacksize G' \<Longrightarrow> step_post (pt, us, env) G (Entered, G')"
  unfolding step_post_def by simp blast

text \<open>The results are where the caller wants them: after \<open>if (nresults >= 0) L->top = L->ci->top\<close> it goes on.\<close>

lemma results_top:
  assumes "resumes pt q c func nres" "results_at func nres G" "ci_base (hd (ci G)) = ci_base c" "ci_top (hd (ci G)) = ci_top c" "lbase G = ci_base c"
  shows "top_ok pt q (if 0 \<le> nres then G\<lparr>ltop := ci_top (hd (ci G))\<rparr> else G)"
  using assms by (auto simp: top_ok_def resumes_def results_at_def Let_def)

lemma after_call:
  assumes "at_frame (pt, us, env) G1" "call_done func nres G1 G'" "resumes pt q ((hd (ci G1))\<lparr>savedpc := x\<rparr>) func nres"
  shows "running (pt, us, env) q (if 0 \<le> nres then G'\<lparr>ltop := ci_top (hd (ci G'))\<rparr> else G')"
proof -
  note f = call_done_frame [OF assms(1,2)]
  have b: "lbase G' = ci_base (hd (ci G1))" "ci_base (hd (ci G')) = ci_base (hd (ci G1))" "ci_top (hd (ci G')) = ci_top (hd (ci G1))"
    using assms(2) at_frameD(8) [OF assms(1)] by (simp_all add: call_done_def save_pc_def)
  have "at_frame (pt, us, env) (if 0 \<le> nres then G'\<lparr>ltop := ci_top (hd (ci G'))\<rparr> else G')"
    using f(1) by (simp add: at_frame_def base_ok_def heap_ok_upd)
  moreover have "top_ok pt q (if 0 \<le> nres then G'\<lparr>ltop := ci_top (hd (ci G'))\<rparr> else G')"
    using results_top [OF assms(3), of G'] assms(2) b by (simp add: call_done_def)
  moreover have "at_instr pt q" using assms(3) by (simp add: resumes_def)
  ultimately show ?thesis by (simp add: running_def)
qed

lemma step_CALL:
  assumes e: "exec C dcall (pt, us, env) pc G i OP_CALL"
  shows "yields allowed (vm_op C dcall (pt, us, env) i (pc + 1) G) (step_post (pt, us, env) G)"
proof -
  note d = execD [OF e]
  define ra where "ra = lbase G + GETARG_A i"
  define nres where "nres = GETARG_C i - 1"
  define G1 where "G1 = (if GETARG_B i \<noteq> 0 then G\<lparr>ltop := ra + GETARG_B i\<rparr> else G)"
  note c = call_yields [OF e _ nres_def G1_def [unfolded ra_def], folded ra_def, simplified]
  have g1: "G1\<lparr>lpc := (pt, pc + 1)\<rparr> = G1" "ci G1 = ci G" "stacksize G1 = stacksize G" using d(2) by (auto simp: G1_def)
  have eq: "vm_op C dcall (pt, us, env) i (pc + 1) G = rbind (luaD_precall C ra nres G1) (\<lambda>(r, G). case r of
      PCRLUA \<Rightarrow> Inr (Entered, G) | PCRC \<Rightarrow> Inr (Next (pc + 1), if nres \<ge> 0 then G\<lparr>ltop := ci_top (hd (ci G))\<rparr> else G) | PCRYIELD \<Rightarrow> Inr (Yielded, G))"
    using d(1,2) unfolding G1_def ra_def nres_def by (simp add: vm_op_def op_call_def Let_def)
  show ?thesis unfolding eq
  proof (rule yields_bind [OF c(1)], clarify)
    fix r G' assume sz: "stacksize G \<le> stacksize G'"
      and r: "r = PCRLUA \<and> (\<exists>p. proto_ok p \<and> entered p ra nres (save_pc G1) G') \<or> r = PCRC \<and> call_done ra nres G1 G'"
    show "yields allowed (case r of PCRLUA \<Rightarrow> Inr (Entered, G')
        | PCRC \<Rightarrow> Inr (Next (pc + 1), if nres \<ge> 0 then G'\<lparr>ltop := ci_top (hd (ci G'))\<rparr> else G') | PCRYIELD \<Rightarrow> Inr (Yielded, G')) (step_post (pt, us, env) G)"
      using r
    proof (elim disjE conjE exE)
      fix p assume p: "r = PCRLUA" "proto_ok p" "entered p ra nres (save_pc G1) G'"
      have "saved_eq (ci G) (save_pc G1)" unfolding saved_eq_def c(3)
        using base_okD(2) [OF at_frameD(1) [OF d(3)]]
        by (intro exI [where x = "hd (ci G)"] exI [where x = "tl (ci G)"] exI [where x = "(pt, pc + 1)"]) simp
      then have "step_post (pt, us, env) G (Entered, G')" using p(2,3) sz c(2) unfolding c(3) by (intro entered_post) simp_all
      then show ?thesis using p(1) by simp
    next
      assume p: "r = PCRC" "call_done ra nres G1 G'"
      have "resumes pt (pc + 1) ((hd (ci G1))\<lparr>savedpc := (pt, pc + 1)\<rparr>) ra nres" using c(2) g1(2) by simp
      then show ?thesis using p after_call [OF c(4) p(2)] call_done_frame(2,3) [OF c(4) p(2)] g1 by (auto simp: step_post_def)
    qed
  qed
qed

lemma replace_frame_yields:
  assumes "at_frame (pt, us, env) G" "ci_base (hd (ci G)) \<le> func" "proto_ok p" "entered p func nres (c # tl (ci G)) G'"
    "c = (hd (ci G))\<lparr>savedpc := x\<rparr>" "stacksize G \<le> stacksize G'"
  shows "yields allowed (replace_frame G') (\<lambda>G2. stacksize G2 = stacksize G' \<and> (\<exists>c'. base_ok G2 \<and> frame_lua p c' \<and> ci G2 = c' # tl (ci G) \<and>
    lpc G2 = (p, 0) \<and> ltop G2 = ci_top c' \<and> ci_func c' = ci_func (hd (ci G)) \<and> nresults c' = nresults (hd (ci G))))"
proof -
  note f = at_frameD [OF assms(1)]
  note h = base_okD [OF f(1)]
  have en: "heap_ok G'" "ci G' = \<lparr>ci_base = lbase G', ci_func = func, ci_top = ltop G', savedpc = (p, 0), nresults = nres, tailcalls = 0\<rparr> # c # tl (ci G)"
    "lpc G' = (p, 0)" "ltop G' = lbase G' + maxstack p" "func < lbase G'" "ltop G' \<le> stack_last G'"
    "is_vararg p \<noteq> 0 \<longrightarrow> func + 1 + uint (numparams p) \<le> lbase G'"
    using assms(4) by (simp_all add: entered_def)
  have c: "ci_func c = ci_func (hd (ci G))" "ci_base c = lbase G" "nresults c = nresults (hd (ci G))" using assms(5) f(8) by simp_all
  define aux where "aux = nat (ltop G' - func)"
  define base where "base = ci_func c + (lbase G' - func)"
  have b: "0 \<le> ci_func c" "ci_func c < func" "0 \<le> func" "0 < base" using f(8-10) c assms(2) en(5) by (auto simp: base_def)
  have "0 \<le> maxstack p" by simp
  then have "func \<le> ltop G'" using en(4,5) by linarith
  then have t: "ci_func c + int aux = base + maxstack p" "func + int aux = ltop G'" using en(4) by (simp_all add: base_def aux_def)
  have cl: "yields allowed (luaF_close (ci_base c) G') (\<lambda>G2. heap_ok G2 \<and> (\<exists>u op. G2 = G'\<lparr>upvals := u, openupval := op\<rparr>))"
    using c(2) f(4) by (intro close_yields [OF en(1)]) auto
  show ?thesis unfolding replace_frame_def en(2) list.case Let_def CallInfo.simps base_def [symmetric]
  proof (rule yields_bind [OF cl], elim conjE exE)
    fix G2 u op assume G2: "heap_ok G2" "G2 = G'\<lparr>upvals := u, openupval := op\<rparr>"
    define G3 where "G3 = G2\<lparr>lbase := base\<rparr>"
    have g3: "heap_ok G3" "stacksize G3 = stacksize G'" "lbase G3 = base" "lpc G3 = (p, 0)" using G2 en(3) by (simp_all add: G3_def heap_ok_upd)
    have a: "nat (ltop G2 - func) = aux" using G2(2) by (simp add: aux_def)
    have mv: "yields allowed (move_vals (ci_func c) func aux G3) (moved G3)"
      using b t en(6) g3 stack_last_eq [of G'] by (intro move_vals_moved) auto
    define c' where "c' = c\<lparr>ci_base := base, ci_top := ci_func c + int aux, savedpc := (p, 0), tailcalls := tailcalls c + 1\<rparr>"
    have c': "ci_func c' = ci_func (hd (ci G))" "nresults c' = nresults (hd (ci G))" "ci_base c' = base" "ci_top c' = ci_func c + int aux"
      using c by (simp_all add: c'_def)
    have fr: "frame_lua p c'" using assms(3) en(7) c' t(1) c(1) by (auto simp: frame_lua_def base_def)
    have sl: "stack_last G \<le> stack_last G'" using assms(6) by (simp add: stack_last_def)
    have "frame_ok (stack_last G') c'" using b(1,2) c' c(1) t en(5,6) by (auto simp: frame_ok_def base_def)
    moreover have "frame_ok (stack_last G') y" if "y \<in> set (tl (ci G))" for y
      using h(4) that frame_ok_mono [OF _ sl] by (metis list.sel(2) list.set_sel(2))
    ultimately have fs: "\<forall>y \<in> set (c' # tl (ci G)). frame_ok (stack_last G') y" by simp
    have fin: "stacksize G5 = stacksize G' \<and> (\<exists>c'. base_ok G5 \<and> frame_lua p c' \<and> ci G5 = c' # tl (ci G) \<and>
          lpc G5 = (p, 0) \<and> ltop G5 = ci_top c' \<and> ci_func c' = ci_func (hd (ci G)) \<and> nresults c' = nresults (hd (ci G)))"
      if "moved G3 G4" "G5 = G4\<lparr>ltop := ci_func c + int aux, ci := c' # tl (ci G)\<rparr>" for G4 G5
    proof -
      note m = movedD [OF that(1)]
      have "stacksize G5 = stacksize G'" "ci G5 = c' # tl (ci G)" "lbase G5 = base" "lpc G5 = (p, 0)" "ltop G5 = ci_top c'" "heap_ok G5"
        using m g3 c' that(2) by (simp_all add: heap_ok_upd)
      then show ?thesis using fs c' fr by (auto simp: base_ok_def stack_last_def)
    qed
    show "yields allowed (rbind (move_vals (ci_func c) func (nat (ltop G2 - func)) (G2\<lparr>lbase := base\<rparr>)) (\<lambda>H. Inr (H\<lparr>ltop := ci_func c + int (nat (ltop G2 - func)),
        ci := c\<lparr>ci_base := base, ci_top := ci_func c + int (nat (ltop G2 - func)), savedpc := lpc H, tailcalls := tailcalls c + 1\<rparr> # tl (ci G)\<rparr>)))
        (\<lambda>G2. stacksize G2 = stacksize G' \<and> (\<exists>c'. base_ok G2 \<and> frame_lua p c' \<and> ci G2 = c' # tl (ci G) \<and>
          lpc G2 = (p, 0) \<and> ltop G2 = ci_top c' \<and> ci_func c' = ci_func (hd (ci G)) \<and> nresults c' = nresults (hd (ci G))))"
      unfolding G3_def [symmetric] a
    proof (rule yields_bind [OF mv])
      fix G4 assume m: "moved G3 G4"
      show "yields allowed (Inr (G4\<lparr>ltop := ci_func c + int aux,
          ci := c\<lparr>ci_base := base, ci_top := ci_func c + int aux, savedpc := lpc G4, tailcalls := tailcalls c + 1\<rparr> # tl (ci G)\<rparr>))
          (\<lambda>G2. stacksize G2 = stacksize G' \<and> (\<exists>c'. base_ok G2 \<and> frame_lua p c' \<and> ci G2 = c' # tl (ci G) \<and>
            lpc G2 = (p, 0) \<and> ltop G2 = ci_top c' \<and> ci_func c' = ci_func (hd (ci G)) \<and> nresults c' = nresults (hd (ci G))))"
        unfolding yields_simps using movedD(6) [OF m] g3(4) by (intro fin [OF m]) (simp add: c'_def)
    qed
  qed
qed

lemma step_TAILCALL:
  assumes e: "exec C dcall (pt, us, env) pc G i OP_TAILCALL"
  shows "yields allowed (vm_op C dcall (pt, us, env) i (pc + 1) G) (step_post (pt, us, env) G)"
proof -
  note d = execD [OF e]
  define ra where "ra = lbase G + GETARG_A i"
  define G1 where "G1 = (if GETARG_B i \<noteq> 0 then G\<lparr>ltop := ra + GETARG_B i\<rparr> else G)"
  have "i \<in> set (pcode pt)" using d(6,8) e by (force simp: exec_def running_def at_instr_def)
  moreover have "compiled_ok pt" using at_frameD(2) [OF d(3)] by (cases rule: proto_ok.cases)
  ultimately have "GETARG_C i = 0" using d(7) by (auto simp: compiled_ok_def tailcalls_ok_def list_all_iff)
  then have nres: "LUA_MULTRET = GETARG_C i - 1" by (simp add: LUA_MULTRET_def)
  note c = call_yields [OF e _ nres G1_def [unfolded ra_def], folded ra_def, simplified]
  have g1: "ci G1 = ci G" "stacksize G1 = stacksize G" by (auto simp: G1_def)
  have eq: "vm_op C dcall (pt, us, env) i (pc + 1) G = rbind (luaD_precall C ra LUA_MULTRET G1) (\<lambda>(r, G). case r of
      PCRLUA \<Rightarrow> rbind (replace_frame G) (\<lambda>G. Inr (Replaced, G)) | PCRC \<Rightarrow> Inr (Next (pc + 1), G) | PCRYIELD \<Rightarrow> Inr (Yielded, G))"
    using d(1,2) unfolding G1_def ra_def by (simp add: vm_op_def op_tailcall_def Let_def)
  show ?thesis unfolding eq
  proof (rule yields_bind [OF c(1)], clarify)
    fix r G' assume sz: "stacksize G \<le> stacksize G'"
      and r: "r = PCRLUA \<and> (\<exists>p. proto_ok p \<and> entered p ra LUA_MULTRET (save_pc G1) G') \<or> r = PCRC \<and> call_done ra LUA_MULTRET G1 G'"
    show "yields allowed (case r of PCRLUA \<Rightarrow> rbind (replace_frame G') (\<lambda>G. Inr (Replaced, G))
        | PCRC \<Rightarrow> Inr (Next (pc + 1), G') | PCRYIELD \<Rightarrow> Inr (Yielded, G')) (step_post (pt, us, env) G)"
      using r
    proof (elim disjE conjE exE)
      fix p assume p: "r = PCRLUA" "proto_ok p" "entered p ra LUA_MULTRET (save_pc G1) G'"
      have "ci_base (hd (ci G)) \<le> ra" using at_frameD(8) [OF d(3)] by (simp add: ra_def)
      note rf = replace_frame_yields [OF d(3) this p(2) p(3) [unfolded c(3)] refl sz]
      show ?thesis unfolding p(1) pcr.case by (rule yields_bind [OF rf]) (use sz in \<open>auto simp: step_post_def\<close>)
    next
      assume p: "r = PCRC" "call_done ra LUA_MULTRET G1 G'"
      have "resumes pt (pc + 1) ((hd (ci G1))\<lparr>savedpc := (pt, pc + 1)\<rparr>) ra LUA_MULTRET" using c(2) g1(1) by simp
      then show ?thesis using p after_call [OF c(4) p(2)] call_done_frame(2,3) [OF c(4) p(2)] g1
        by (auto simp: step_post_def LUA_MULTRET_def)
    qed
  qed
qed

lemma step_RETURN:
  assumes e: "exec C dcall (pt, us, env) pc G i OP_RETURN"
  shows "yields allowed (vm_op C dcall (pt, us, env) i (pc + 1) G) (step_post (pt, us, env) G)"
proof -
  note d = execD [OF e]
  note f = at_frameD [OF d(3)]
  define ra where "ra = lbase G + GETARG_A i"
  define G1 where "G1 = (if GETARG_B i \<noteq> 0 then G\<lparr>ltop := ra + GETARG_B i - 1\<rparr> else G)"
  have o: "0 \<le> GETARG_A i" "GETARG_A i < maxstack pt" "1 < GETARG_B i \<longrightarrow> GETARG_A i + GETARG_B i - 2 < maxstack pt"
    using d(5,6,7) by (simp_all add: operand_simps)
  have b: "GETARG_B i = 0 \<or> GETARG_B i = 1 \<or> 1 < GETARG_B i" using GETARG_nonneg(2) [of i] by linarith
  have "ltop G \<le> stack_last G" using e f(3,5) by (auto simp: exec_def running_def top_ok_def Let_def)
  then have t: "ltop G1 \<le> stack_last G" using o b f(5) by (auto simp: G1_def ra_def)
  have g1: "heap_ok G1" "stacksize G1 = stacksize G" "ci G1 = ci G" "lbase G1 = lbase G" "lpc G1 = (pt, pc + 1)"
    using instD(1) [OF d(4)] d(2) by (simp_all add: G1_def heap_ok_upd)
  obtain c1 cs where cs: "tl (ci G) = c1 # cs" using e by (cases "tl (ci G)") (auto simp: exec_def can_return_def)
  define c where "c = hd (ci G)"
  have ci: "ci G = c # c1 # cs" using base_okD(2) [OF f(1)] cs by (simp add: c_def)
  have fn: "ci_func c \<le> ra" "ci_func c \<le> stack_last G" using o(1,2) f(5,10) unfolding ra_def c_def by linarith+
  have ret: "- 1 \<le> nresults c" "0 \<le> nresults c \<longrightarrow> ci_func c + nresults c \<le> stack_last G + 1"
    using e by (simp_all add: exec_def can_return_def c_def)
  have eq: "vm_op C dcall (pt, us, env) i (pc + 1) G = rbind (luaF_close (lbase G1) G1) (\<lambda>G. rbind (luaD_poscall ra (G\<lparr>lpc := (pt, pc + 1)\<rparr>)) (\<lambda>(r, G). Inr (Returned (r \<noteq> 0), G)))"
    using d(1,2) unfolding G1_def ra_def by (simp add: vm_op_def op_return_def Let_def)
  have cl: "yields allowed (luaF_close (lbase G1) G1) (\<lambda>G2. heap_ok G2 \<and> (\<exists>u op. G2 = G1\<lparr>upvals := u, openupval := op\<rparr>))"
    using f(4) g1(4) by (intro close_yields [OF g1(1)]) auto
  show ?thesis unfolding eq
  proof (rule yields_bind [OF cl], elim conjE exE)
    fix G2 u op assume G2: "heap_ok G2" "G2 = G1\<lparr>upvals := u, openupval := op\<rparr>"
    have l: "G2\<lparr>lpc := (pt, pc + 1)\<rparr> = G2" using G2(2) g1(5) by simp
    have g2: "stacksize G2 = stacksize G" "stack_last G2 = stack_last G" "ltop G2 = ltop G1" "ci G2 = c # c1 # cs"
      using G2(2) g1 ci by (simp_all add: stack_last_def)
    have p: "yields allowed (luaD_poscall ra G2) (\<lambda>(w, G'). w = nresults c + 1 \<and> heap_ok G' \<and> stacksize G' = stacksize G2 \<and> ci G' = c1 # cs \<and>
        lbase G' = ci_base c1 \<and> lpc G' = savedpc c1 \<and> results_at (ci_func c) (nresults c) G')"
      using G2(1) g2 t fn ret f(9) by (intro poscall_yields) (auto simp: c_def)
    show "yields allowed (rbind (luaD_poscall ra (G2\<lparr>lpc := (pt, pc + 1)\<rparr>)) (\<lambda>(r, G). Inr (Returned (r \<noteq> 0), G))) (step_post (pt, us, env) G)"
      unfolding l by (rule yields_bind [OF p]) (use g2(1) ci ret(1) in \<open>auto simp: step_post_def\<close>)
  qed
qed

section \<open>One round of the main loop\<close>

lemma vm_op_safe:
  assumes "exec C dcall (pt, us, env) pc G i op"
  shows "yields allowed (vm_op C dcall (pt, us, env) i (pc + 1) G) (step_post (pt, us, env) G)"
  using assms
  by (cases op) (simp_all only: step_MOVE step_LOADK step_LOADBOOL step_LOADNIL step_GETUPVAL step_GETGLOBAL step_GETTABLE
    step_SETGLOBAL step_SETUPVAL step_SETTABLE step_NEWTABLE step_SELF step_UNM step_NOT step_LEN step_CONCAT step_JMP step_TEST step_TESTSET
    step_CALL step_TAILCALL step_RETURN step_FORLOOP step_FORPREP step_TFORLOOP step_SETLIST step_CLOSE step_CLOSURE step_VARARG
    step_arith [of C dcall pt us env pc G i OP_ADD TM_ADD] step_arith [of C dcall pt us env pc G i OP_SUB TM_SUB]
    step_arith [of C dcall pt us env pc G i OP_MUL TM_MUL] step_arith [of C dcall pt us env pc G i OP_DIV TM_DIV]
    step_arith [of C dcall pt us env pc G i OP_MOD TM_MOD] step_arith [of C dcall pt us env pc G i OP_POW TM_POW]
    step_compare [of C dcall pt us env pc G i OP_EQ] step_compare [of C dcall pt us env pc G i OP_LT] step_compare [of C dcall pt us env pc G i OP_LE]
    insert_iff refl simp_thms)

end
