(* ===== verification/Lvm_safe.thy ===== *)
theory Lvm_safe
  imports Lvm_step
begin

text \<open>
  The interpreter is memory safe on accepted code: the main loop keeps its invariant through calls, returns and
  metamethods, and a call either ends with its results where the caller wants them or with one of the
  errors of \<open>allowed\<close>.
\<close>

section \<open>One instruction\<close>

lemma vm_step_safe:
  assumes "news_ok C" "c_ok C" "dcall_ok dcall" "can_return G" "running cl pc G"
  shows "yields allowed (vm_step C dcall cl pc G) (step_post cl G)"
proof -
  obtain pt us env where cl: "cl = (pt, us, env)" using prod_cases3 by blast
  define i where "i = pcode pt ! nat pc"
  define G1 where "G1 = G\<lparr>lpc := (pt, pc + 1)\<rparr>"
  have rd: "read_at (pcode pt) pc = Inr i" using running_instr(2) [of pt us env pc G] assms(5) by (simp add: cl i_def)
  have g1: "ci G1 = ci G" "stacksize G1 = stacksize G" "stack_last G1 = stack_last G" "lpc G1 = (pt, pc + 1)" by (simp_all add: G1_def)
  have up: "G1\<lparr>lpc := (pt, pc + 1)\<rparr> = G\<lparr>lpc := (pt, pc + 1)\<rparr>" by (simp add: G1_def)
  have "base_ok G1 = base_ok G" by (auto simp: base_ok_def heap_ok_upd G1_def)
  moreover have "top_ok pt pc G1 = top_ok pt pc G" by (simp add: top_ok_def G1_def)
  ultimately have "running (pt, us, env) pc G1" using assms(5) by (simp add: cl running_def at_frame_def g1(1))
  then have "exec C dcall (pt, us, env) pc G1 i (op_of i)" using assms(1-4) g1 by (simp add: exec_def can_return_def i_def)
  then have "yields allowed (vm_op C dcall (pt, us, env) i (pc + 1) G1) (step_post (pt, us, env) G1)" by (rule vm_op_safe)
  moreover have "vm_op C dcall (pt, us, env) i (pc + 1) G1 = vm_op C dcall (pt, us, env) i (pc + 1) G"
    unfolding vm_op_def Let_def prod.case up by (rule refl)
  moreover have "step_post (pt, us, env) G1 = step_post (pt, us, env) G" unfolding step_post_def g1 by (rule refl)
  ultimately show ?thesis using rd by (simp add: vm_step_def cl)
qed

section \<open>Frames\<close>

text \<open>
  The frames this activation of the loop runs: \<open>n\<close> callers below the running one, then the frames \<open>R\<close> of
  whoever called the loop for results at \<open>func\<close>.
\<close>

primrec chain :: "CallInfo list \<Rightarrow> int \<Rightarrow> int \<Rightarrow> nat \<Rightarrow> CallInfo \<Rightarrow> CallInfo list \<Rightarrow> bool" where
  "chain R func nres 0 c cs = (cs = R \<and> ci_func c = func \<and> nresults c = nres)"
| "chain R func nres (Suc n) c cs = (\<exists>c1 cs1 pt q. cs = c1 # cs1 \<and> savedpc c1 = (pt, q) \<and>
     resumes pt q c1 (ci_func c) (nresults c) \<and> chain R func nres n c1 cs1)"

lemma chain_cong: "ci_func c = ci_func c' \<Longrightarrow> nresults c = nresults c' \<Longrightarrow> chain R func nres n c cs = chain R func nres n c' cs"
  by (cases n) simp_all

text \<open>A state in which \<open>reentry\<close> finds a function to run.\<close>

definition resumable :: "'g lstate_scheme \<Rightarrow> bool" where
  "resumable G = (base_ok G \<and> (\<exists>pt q. lpc G = (pt, q) \<and> frame_lua pt (hd (ci G)) \<and> at_instr pt q \<and> top_ok pt q G))"

lemma reentry_yields:
  assumes "resumable G"
  shows "yields allowed (reentry G) (\<lambda>(cl, pc). running cl pc G)"
proof -
  obtain pt q where l: "lpc G = (pt, q)" "frame_lua pt (hd (ci G))" "at_instr pt q" "top_ok pt q G" "base_ok G"
    using assms by (auto simp: resumable_def)
  note h = base_okD [OF l(5)]
  have "0 \<le> ci_func (hd (ci G))" "ci_func (hd (ci G)) < stacksize G" using h(5) stack_last_eq [of G] by (auto simp: frame_ok_def)
  then have r: "yields allowed (rd G (ci_func (hd (ci G)))) val_ok" using h(1) by (intro slot_rd_ok)
  have c: "yields allowed (case closures G p of LClosure p us env \<Rightarrow> if p = fst (lpc G) then Inr ((p, us, env), snd (lpc G)) else Inl (Undefined ''frame'')
      | CClosure _ _ _ \<Rightarrow> Inl (Undefined ''frame'')) (\<lambda>(cl, pc). running cl pc G)" for p
    using heap_okD(2) [OF h(1), of p] l by (auto simp: running_def at_frame_def split: Closure.split)
  have "yields allowed (rbind (rd G (ci_func (hd (ci G)))) (\<lambda>f. case f of
      Vfunction p \<Rightarrow> (case closures G p of
          LClosure pt us env \<Rightarrow> if pt = fst (lpc G) then Inr ((pt, us, env), snd (lpc G)) else Inl (Undefined ''frame'')
        | CClosure _ _ _ \<Rightarrow> Inl (Undefined ''frame''))
    | _ \<Rightarrow> Inl (Undefined ''frame''))) (\<lambda>(cl, pc). running cl pc G)"
    by (rule yields_bind [OF r]) (use c in \<open>simp split: TValue.split\<close>)
  then show ?thesis unfolding reentry_def by (subst h(2)) simp
qed

lemma at_instr_0: "proto_ok p \<Longrightarrow> at_instr p 0"
proof -
  assume "proto_ok p"
  then have "luaG_checkcode p = Inr True" by (cases rule: proto_ok.cases)
  then have "precheck p = Inr True" by (auto simp: luaG_checkcode_def symbexec_def split: if_splits)
  then show ?thesis using precheck_return(1) by (simp add: at_instr_def)
qed

lemma entered_resumable:
  assumes "proto_ok p" "entered p func nres cs G" "0 \<le> func" "\<forall>c \<in> set cs. frame_ok (stack_last G) c"
  shows "resumable G" "ci_func (hd (ci G)) = func" "nresults (hd (ci G)) = nres" "tl (ci G) = cs"
proof -
  have e: "heap_ok G" "ci G = \<lparr>ci_base = lbase G, ci_func = func, ci_top = ltop G, savedpc = (p, 0), nresults = nres, tailcalls = 0\<rparr> # cs"
    "lpc G = (p, 0)" "ltop G = lbase G + maxstack p" "func < lbase G" "ltop G \<le> stack_last G"
    "is_vararg p \<noteq> 0 \<longrightarrow> func + 1 + uint (numparams p) \<le> lbase G"
    using assms(2) by (simp_all add: entered_def)
  then show "ci_func (hd (ci G)) = func" "nresults (hd (ci G)) = nres" "tl (ci G) = cs" by simp_all
  have "frame_ok (stack_last G) (hd (ci G))" unfolding e(2) frame_ok_def using assms(3) e(4-6) by simp
  then have "base_ok G" using e(1,2) assms(4) by (simp add: base_ok_def)
  moreover have "frame_lua p (hd (ci G))" unfolding e(2) frame_lua_def using assms(1) e(4,7) by simp
  moreover have "top_ok p 0 G" unfolding top_ok_def Let_def e(2) by simp
  ultimately show "resumable G" using e(3) at_instr_0 [OF assms(1)] by (simp add: resumable_def)
qed

section \<open>The main loop\<close>

text \<open>The loop is left with its frames gone and the results at \<open>func\<close>.\<close>

definition left :: "CallInfo list \<Rightarrow> int \<Rightarrow> int \<Rightarrow> int \<Rightarrow> 'g lstate_scheme \<Rightarrow> bool" where
  "left R func nres S G = (heap_ok G \<and> ci G = R \<and> lbase G = ci_base (hd R) \<and> lpc G = savedpc (hd R) \<and> S \<le> stacksize G \<and> results_at func nres G)"

definition wanted_ok :: "CallInfo list \<Rightarrow> int \<Rightarrow> int \<Rightarrow> int \<Rightarrow> bool" where
  "wanted_ok R func nres S = (R \<noteq> [] \<and> - 1 \<le> nres \<and> (0 \<le> nres \<longrightarrow> func + nres \<le> S - 5))"

lemma chain_can_return:
  assumes "base_ok G" "chain R func nres n (hd (ci G)) (tl (ci G))" "wanted_ok R func nres S" "S \<le> stacksize G"
  shows "can_return G"
proof (cases n)
  case 0
  then show ?thesis using assms stack_last_eq [of G] by (auto simp: can_return_def wanted_ok_def)
next
  case (Suc m)
  then obtain c1 cs1 pt q where c: "tl (ci G) = c1 # cs1" "resumes pt q c1 (ci_func (hd (ci G))) (nresults (hd (ci G)))"
    using assms(2) by auto
  have "c1 \<in> set (ci G)" using c(1) base_okD(2) [OF assms(1)] by (metis list.set_intros)
  then have "frame_ok (stack_last G) c1" using base_okD(4) [OF assms(1)] by blast
  then show ?thesis using c by (auto simp: can_return_def resumes_def frame_ok_def)
qed

text \<open>What \<open>n\<close> more frames need of the rest of an activation.\<close>

definition loops_ok :: "(nat \<Rightarrow> 'g lstate_scheme \<Rightarrow> 'g lstate_scheme res) \<Rightarrow> bool" where
  "loops_ok run = (\<forall>R func nres S n G. resumable G \<longrightarrow> chain R func nres n (hd (ci G)) (tl (ci G)) \<longrightarrow> wanted_ok R func nres S \<longrightarrow> S \<le> stacksize G \<longrightarrow>
     yields allowed (run (Suc n) G) (left R func nres S))"

lemma luaD_call_with_safe:
  assumes "news_ok C" "c_ok C" "loops_ok run"
  shows "dcall_ok (luaD_call_with (run 1) C)"
  unfolding dcall_ok_def
proof (intro allI impI)
  fix G :: "'a lstate_scheme" and func nres
  assume G: "base_ok G" "0 \<le> func" "func < ltop G" "ltop G \<le> stack_last G + 2" "- 1 \<le> nres" "0 \<le> nres \<longrightarrow> func + nres \<le> stack_last G + 1"
  define G1 where "G1 = G\<lparr>nCcalls := nCcalls G + 1\<rparr>"
  have g1: "save_pc G1 = save_pc G" "lbase G1 = lbase G" "lpc G1 = lpc G" "stacksize G1 = stacksize G" "stack_last G1 = stack_last G" "ltop G1 = ltop G"
    by (simp_all add: G1_def save_pc_def)
  have b1: "base_ok G1" using G(1) by (simp add: G1_def base_ok_def heap_ok_upd)
  have pc: "yields allowed (luaD_precall C func nres G1) (\<lambda>(r, G'). stacksize G1 \<le> stacksize G' \<and>
      (r = PCRLUA \<and> (\<exists>p. proto_ok p \<and> entered p func nres (save_pc G1) G') \<or> r = PCRC \<and> call_done func nres G1 G'))"
    using G g1 by (intro precall_yields [OF assms(1,2) b1]) auto
  have run: "yields allowed (if r = PCRLUA then run 1 G' else Inr G') (call_done func nres G)"
    if r: "r = PCRLUA \<and> (\<exists>p. proto_ok p \<and> entered p func nres (save_pc G1) G') \<or> r = PCRC \<and> call_done func nres G1 G'"
      and sz: "stacksize G1 \<le> stacksize G'" for r G'
    using r
  proof (elim disjE conjE exE)
    fix p assume p: "r = PCRLUA" "proto_ok p" "entered p func nres (save_pc G1) G'"
    have "\<forall>c \<in> set (save_pc G). frame_ok (stack_last G') c"
      using frames_save_pc [OF G(1)] sz g1(4) frame_ok_mono by (fastforce simp: stack_last_def)
    note en = entered_resumable [OF p(2) p(3) [unfolded g1(1)] G(2) this]
    have "wanted_ok (save_pc G) func nres (stacksize G)" using G(5,6) stack_last_eq [of G] by (auto simp: wanted_ok_def save_pc_def)
    then have "yields allowed (run 1 G') (left (save_pc G) func nres (stacksize G))"
      using assms(3) en sz g1(4) unfolding loops_ok_def
      by (elim allE [where x = "save_pc G"] allE [where x = func] allE [where x = nres] allE [where x = "stacksize G"] allE [where x = 0] allE [where x = G']) simp
    then show ?thesis using p(1) base_okD(3) [OF G(1)]
      by (auto simp: left_def call_done_def save_pc_def elim!: yields_mono)
  next
    assume "r = PCRC" "call_done func nres G1 G'"
    then show ?thesis using g1 by (simp add: call_done_def)
  qed
  have fin: "yields allowed (rbind (if r = PCRLUA then run 1 G' else Inr G') (\<lambda>G. Inr (G\<lparr>nCcalls := nCcalls G - 1\<rparr>))) (call_done func nres G)"
    if "r = PCRLUA \<and> (\<exists>p. proto_ok p \<and> entered p func nres (save_pc G1) G') \<or> r = PCRC \<and> call_done func nres G1 G'" "stacksize G1 \<le> stacksize G'" for r G'
    by (rule yields_bind [OF run [OF that]]) (simp add: call_done_def heap_ok_upd results_at_def)
  have "yields allowed (rbind (luaD_precall C func nres G1) (\<lambda>(r, G). rbind (if r = PCRLUA then run 1 G else Inr G) (\<lambda>G. Inr (G\<lparr>nCcalls := nCcalls G - 1\<rparr>))))
      (call_done func nres G)"
    by (rule yields_bind [OF pc]) (use fin in auto)
  then show "yields allowed (luaD_call_with (run 1) C func nres G) (call_done func nres G)"
    unfolding luaD_call_with_def Let_def G1_def [symmetric] by (intro yields_if) simp_all
qed

text \<open>After one instruction, the loop goes on with the frames the instruction has left.\<close>

lemma next_frames:
  assumes "running cl pc G" "chain R func nres n (hd (ci G)) (tl (ci G))" "saved_eq (ci G) (ci G')"
  shows "chain R func nres n (hd (ci G')) (tl (ci G'))"
  using assms(2,3) chain_cong [of "hd (ci G)" "hd (ci G')"] by (auto simp: saved_eq_def)

lemma running_base: "running cl pc G \<Longrightarrow> base_ok G"
  by (auto simp: running_def at_frame_def)

lemma entered_frames:
  assumes "running cl pc G" "chain R func nres n (hd (ci G)) (tl (ci G))" "step_post cl G (Entered, G')"
  shows "resumable G'" "chain R func nres (Suc n) (hd (ci G')) (tl (ci G'))" "stacksize G \<le> stacksize G'"
proof -
  obtain p func' nres' q c where p: "proto_ok p" "entered p func' nres' (c # tl (ci G)) G'" "savedpc c = (fst cl, q)"
    "resumes (fst cl) q c func' nres'" "saved_eq (ci G) (c # tl (ci G))" and sz: "stacksize G \<le> stacksize G'"
    using assms(3) by (auto simp: step_post_def)
  note b = running_base [OF assms(1)]
  have hc: "ci_func c = ci_func (hd (ci G))" "nresults c = nresults (hd (ci G))" "frame_ok l c = frame_ok l (hd (ci G))" for l
  proof -
    obtain c0 rest x where "ci G = c0 # rest" "c # tl (ci G) = c0\<lparr>savedpc := x\<rparr> # rest" using p(5) unfolding saved_eq_def by blast
    then have "c = (hd (ci G))\<lparr>savedpc := x\<rparr>" by simp
    then show "ci_func c = ci_func (hd (ci G))" "nresults c = nresults (hd (ci G))" "frame_ok l c = frame_ok l (hd (ci G))" for l
      by (simp_all add: frame_ok_def)
  qed
  have sl: "stack_last G \<le> stack_last G'" using sz by (simp add: stack_last_def)
  have "frame_ok (stack_last G') x" if "x \<in> set (c # tl (ci G))" for x
  proof (cases "x = c")
    case True
    then show ?thesis using hc(3) base_okD(5) [OF b] frame_ok_mono [OF _ sl] by blast
  next
    case False
    then have "x \<in> set (ci G)" using that base_okD(2) [OF b] by (metis list.set_intros(2) set_ConsD)
    then show ?thesis using base_okD(4) [OF b] frame_ok_mono [OF _ sl] by blast
  qed
  moreover have "0 \<le> func'"
  proof -
    have "frame_ok (stack_last G) c" using hc(3) base_okD(5) [OF b] by simp
    then show ?thesis using p(4) by (simp add: resumes_def frame_ok_def)
  qed
  ultimately have e: "resumable G'" "ci_func (hd (ci G')) = func'" "nresults (hd (ci G')) = nres'" "tl (ci G') = c # tl (ci G)"
    using entered_resumable [OF p(1,2)] by auto
  show "resumable G'" by (rule e(1))
  show "stacksize G \<le> stacksize G'" by (rule sz)
  have "chain R func nres n c (tl (ci G))" using assms(2) chain_cong [OF hc(1,2)] by simp
  then show "chain R func nres (Suc n) (hd (ci G')) (tl (ci G'))" using e p(3,4) by auto
qed

lemma replaced_frames:
  assumes "chain R func nres n (hd (ci G)) (tl (ci G))" "step_post cl G (Replaced, G')"
  shows "resumable G'" "chain R func nres n (hd (ci G')) (tl (ci G'))" "stacksize G \<le> stacksize G'"
proof -
  obtain p c where p: "base_ok G'" "frame_lua p c" "ci G' = c # tl (ci G)" "lpc G' = (p, 0)" "ltop G' = ci_top c"
    "ci_func c = ci_func (hd (ci G))" "nresults c = nresults (hd (ci G))" and sz: "stacksize G \<le> stacksize G'"
    using assms(2) by (auto simp: step_post_def)
  then show "resumable G'" using at_instr_0 [of p] by (auto simp: resumable_def top_ok_def Let_def frame_lua_def)
  show "chain R func nres n (hd (ci G')) (tl (ci G'))" using assms(1) chain_cong [OF p(6,7)] p(3) by simp
  show "stacksize G \<le> stacksize G'" by (rule sz)
qed

lemma returned_frames:
  assumes "running cl pc G" "chain R func nres (Suc n) (hd (ci G)) (tl (ci G))" "step_post cl G (Returned b, G')"
    "G2 = (if b then G'\<lparr>ltop := ci_top (hd (ci G'))\<rparr> else G')"
  shows "resumable G2" "chain R func nres n (hd (ci G2)) (tl (ci G2))" "stacksize G \<le> stacksize G2"
proof -
  obtain c1 cs1 pt q where c: "tl (ci G) = c1 # cs1" "savedpc c1 = (pt, q)" "resumes pt q c1 (ci_func (hd (ci G))) (nresults (hd (ci G)))"
    "chain R func nres n c1 cs1"
    using assms(2) by auto
  have r: "heap_ok G'" "ci G' = c1 # cs1" "lbase G' = ci_base c1" "lpc G' = (pt, q)" "b = (0 \<le> nresults (hd (ci G)))"
    "results_at (ci_func (hd (ci G))) (nresults (hd (ci G))) G'" and sz: "stacksize G \<le> stacksize G'"
    using assms(3) c(1,2) by (auto simp: step_post_def)
  note b = running_base [OF assms(1)]
  have sl: "stack_last G \<le> stack_last G'" using sz by (simp add: stack_last_def)
  have "frame_ok (stack_last G') x" if "x \<in> set (c1 # cs1)" for x
  proof -
    have "x \<in> set (ci G)" using that c(1) base_okD(2) [OF b] by (metis list.set_intros(2))
    then show ?thesis using base_okD(4) [OF b] frame_ok_mono [OF _ sl] by blast
  qed
  then have "base_ok G2" using r by (simp add: base_ok_def heap_ok_upd assms(4))
  moreover have "top_ok pt q G2" using results_top [OF c(3) r(6)] r(2,3,5) by (simp add: assms(4))
  moreover have "lpc G2 = (pt, q)" "ci G2 = c1 # cs1" using r(2,4) by (simp_all add: assms(4))
  ultimately show "resumable G2" using c(3) by (auto simp: resumable_def resumes_def)
  show "chain R func nres n (hd (ci G2)) (tl (ci G2))" using c(4) r(2) by (simp add: assms(4))
  show "stacksize G \<le> stacksize G2" using sz by (simp add: assms(4))
qed

lemma returned_last:
  assumes "chain R func nres 0 (hd (ci G)) (tl (ci G))" "step_post cl G (Returned b, G')" "S \<le> stacksize G"
  shows "left R func nres S G'"
  using assms by (auto simp: step_post_def left_def)

lemma vm_loop_safe:
  assumes "news_ok C" "c_ok C"
  shows "wanted_ok R func nres S \<Longrightarrow> running cl pc G \<Longrightarrow> chain R func nres n (hd (ci G)) (tl (ci G)) \<Longrightarrow> S \<le> stacksize G \<Longrightarrow>
    yields allowed (vm_loop k C (Suc n) cl pc G) (left R func nres S)"
proof (induction k arbitrary: R func nres S n cl pc G)
  case (Suc k)
  define run where "run = (\<lambda>n G. rbind (reentry G) (\<lambda>(cl, pc). vm_loop k C n cl pc G))"
  have run: "yields allowed (run (Suc n) G) (left R func nres S)"
    if "resumable G" "chain R func nres n (hd (ci G)) (tl (ci G))" "wanted_ok R func nres S" "S \<le> stacksize G" for R func nres S n G
    unfolding run_def by (rule yields_bind [OF reentry_yields [OF that(1)]]) (use Suc.IH [OF that(3) _ that(2,4)] in auto)
  then have "loops_ok run" by (simp add: loops_ok_def)
  then have d: "dcall_ok (luaD_call_with (run 1) C)" by (rule luaD_call_with_safe [OF assms])
  have cr: "can_return G" using chain_can_return [OF running_base [OF Suc.prems(2)] Suc.prems(3,1,4)] .
  show ?case unfolding vm_loop.simps Let_def run_def [symmetric]
  proof (rule yields_bind [OF vm_step_safe [OF assms d cr Suc.prems(2)]], clarify)
    fix r G' assume post: "step_post cl G (r, G')"
    have sz: "S \<le> stacksize G'" using post Suc.prems(4) by (auto simp: step_post_def)
    show "yields allowed (case r of Next pc \<Rightarrow> vm_loop k C (Suc n) cl pc G' | Entered \<Rightarrow> run (Suc n + 1) G' | Replaced \<Rightarrow> run (Suc n) G'
        | Returned b \<Rightarrow> if Suc n \<le> 1 then Inr G' else run (Suc n - 1) (if b then G'\<lparr>ltop := ci_top (hd (ci G'))\<rparr> else G')
        | Yielded \<Rightarrow> Inr G') (left R func nres S)"
    proof (cases r)
      case (Next q)
      then have "running cl q G'" "saved_eq (ci G) (ci G')" using post by (auto simp: step_post_def)
      then show ?thesis using Next Suc.IH [OF Suc.prems(1) _ next_frames [OF Suc.prems(2,3)] sz] by simp
    next
      case Entered
      then show ?thesis using run entered_frames [OF Suc.prems(2,3)] post Suc.prems(1) sz by simp
    next
      case Replaced
      then show ?thesis using run replaced_frames [OF Suc.prems(3)] post Suc.prems(1) sz by simp
    next
      case (Returned b)
      show ?thesis
      proof (cases n)
        case 0
        then show ?thesis using Returned returned_last [OF _ _ Suc.prems(4)] Suc.prems(3) post by simp
      next
        case (Suc m)
        then show ?thesis using Returned run returned_frames [OF Suc.prems(2) Suc.prems(3) [unfolded Suc] post [unfolded Returned] refl] Suc.prems(1,4) by simp
      qed
    next
      case Yielded
      then show ?thesis using post by (simp add: step_post_def)
    qed
  qed
qed simp

lemma luaD_call_safe:
  assumes "news_ok C" "c_ok C"
  shows "dcall_ok (luaD_call fuel C)"
proof -
  have "yields allowed (luaV_execute fuel C (Suc n) G) (left R func nres S)"
    if "resumable G" "chain R func nres n (hd (ci G)) (tl (ci G))" "wanted_ok R func nres S" "S \<le> stacksize G"
    for R func nres S n and G :: "'a lstate_scheme"
    unfolding luaV_execute_def by (rule yields_bind [OF reentry_yields [OF that(1)]]) (use vm_loop_safe [OF assms that(3) _ that(2,4)] in auto)
  then have "loops_ok (luaV_execute fuel C)" by (simp add: loops_ok_def)
  then show ?thesis unfolding luaD_call_def by (rule luaD_call_with_safe [OF assms])
qed

end
