(* ===== verification/Lvm_sound.thy ===== *)
theory Lvm_sound
  imports Lvm_safe Lvm_meta
begin

text \<open>
  The properties of closures, calls and the interpreter, with a small state on which they run.
\<close>

section \<open>A state\<close>

text \<open>\<open>RETURN 0 1\<close>, as the body of every function.\<close>

definition sample_proto :: Proto where
  "sample_proto = Proto [] [8388638] [] [] [] [] None 0 0 0 0 0 2"

definition sample_cenv :: "lstate cenv" where
  "sample_cenv = \<lparr>cfunc = (\<lambda>_ G. Inr (0, G)), newobj = (\<lambda>_. 7), kstr = (\<lambda>_. 0), stack_alloc = (\<lambda>_. True),
     vmops = \<lparr>call0 = (\<lambda>_ _ G. Inr G), call1 = (\<lambda>_ _ G. Inr (Vnil, G)), newlstr_at = (\<lambda>_ G. Inr (0, G)), strcoll = (\<lambda>_ _. 0),
       c_floor = (\<lambda>x. x), c_pow = (\<lambda>x _. x),
       elib = \<lparr>ar = None, strtod = (\<lambda>_. (num_zero, 0)), strtoul16 = (\<lambda>_. (0, 0)), fmt14g = (\<lambda>_. [])\<rparr>\<rparr>\<rparr>"

definition sample_ci :: "int \<Rightarrow> CallInfo" where
  "sample_ci b = \<lparr>ci_base = b, ci_func = b - 1, ci_top = b + 2, savedpc = (sample_proto, 0), nresults = 0, tailcalls = 0\<rparr>"

text \<open>The frames start at \<open>bs\<close>, the innermost first; every slot holds the function.\<close>

definition sample_lstate :: "Proto \<Rightarrow> int list \<Rightarrow> lstate" where
  "sample_lstate p bs = \<lparr>tables = (\<lambda>_. empty_table), chars = (\<lambda>_. []), strhash = (\<lambda>_. 0), udmeta = (\<lambda>_. None), gmt = (\<lambda>_. None),
     tmname = (\<lambda>e. word_of_nat (tm_bit e)), stack = replicate 45 (Vfunction 0), ltop = hd bs + 2, lbase = hd bs, lpc = (p, 0),
     ci = map sample_ci bs, size_ci = 8, closures = (\<lambda>_. LClosure p [] 0), upvals = (\<lambda>_. UClosed Vnil), openupval = [], nCcalls = 0\<rparr>"

lemma sample_table_ok: "table_ok sh empty_table"
proof -
  have "tget sh empty_table k = Vnil" if "proper k" for k
    by (rule tget_empty [OF empty_table_ok _ that]) (auto simp: empty_table_def live_entries_def nilnode_def arr_key_def arrayindex_def)
  then show ?thesis using empty_table_ok by (simp add: table_ok_def)
qed

lemma sample_proto_ok: "proto_ok sample_proto"
proof (rule proto_okI)
  show "luaG_checkcode sample_proto = Inr True" by code_simp
  show "compiled_ok sample_proto" by code_simp
qed (simp add: sample_proto_def)

lemma sample_base_ok:
  assumes "proto_ok p" "nups p = 0" "bs \<noteq> []" "\<forall>b \<in> set bs. 1 \<le> b \<and> b \<le> 37"
  shows "base_ok (sample_lstate p bs)"
proof -
  have "heap_ok (sample_lstate p bs)" using assms(1,2) sample_table_ok by (simp add: heap_ok_def sample_lstate_def upval_ok_def)
  moreover have "\<forall>c \<in> set (ci (sample_lstate p bs)). frame_ok (stack_last (sample_lstate p bs)) c"
    using assms(4) by (auto simp: sample_lstate_def sample_ci_def frame_ok_def stack_last_def stacksize_def EXTRA_STACK_def)
  ultimately show ?thesis using assms(3) by (cases bs) (simp_all add: base_ok_def sample_lstate_def sample_ci_def)
qed

lemma sample_news_ok: "news_ok sample_cenv"
proof -
  have "\<exists>ch sh. G = G\<lparr>chars := ch, strhash := sh\<rparr>" for G :: lstate
    by (intro exI [where x = "chars G"] exI [where x = "strhash G"]) simp
  then show ?thesis by (simp add: news_ok_def sample_cenv_def)
qed

lemma sample_c_ok: "c_ok sample_cenv"
proof -
  have "\<exists>c'. ci G = c' # tl (ci G) \<and> ci_func c' = ci_func (hd (ci G)) \<and> nresults c' = nresults (hd (ci G))" if "base_ok G" for G :: lstate
    by (intro exI [where x = "hd (ci G)"]) (use base_okD(2) [OF that] in simp)
  then show ?thesis by (auto simp: c_ok_def sample_cenv_def base_okD(1) LUA_MINSTACK_def)
qed

section \<open>The interpreter\<close>





section \<open>Loops that are not prepared\<close>

text \<open>\<open>FORLOOP 0 -1; RETURN 0 1\<close>.\<close>

definition forloop_proto :: Proto where
  "forloop_proto = Proto [] [2147450911, 8388638] [] [] [] [] None 0 0 0 0 0 4"

text \<open>
  C29. The checker does not see to it that OP_FORPREP has run before OP_FORLOOP: a function that starts with OP_FORLOOP is accepted, and the
  interpreter takes the nil in its registers for numbers.
\<close>

theorem forloop_unprepared:
  "luaG_checkcode forloop_proto = Inr True \<and>
   (case luaD_call 5 sample_cenv 1 0 (sample_lstate forloop_proto [1]) of Inl e \<Rightarrow> e = Undefined ''for loop'' | Inr G \<Rightarrow> False)"
proof
  show "luaG_checkcode forloop_proto = Inr True" by code_simp
  show "case luaD_call 5 sample_cenv 1 0 (sample_lstate forloop_proto [1]) of Inl e \<Rightarrow> e = Undefined ''for loop'' | Inr G \<Rightarrow> False" by code_simp
qed

end
