(* ===== verification/Ldo_ok.thy ===== *)
theory Ldo_ok
  imports Lvm_sound
begin

text \<open>
  What \<open>luaD_poscall\<close>, \<open>luaF_findupval\<close> and \<open>luaF_close\<close> do: the results of a call, the sharing of variables by closures and
  their life after the end of their block.
\<close>

section \<open>Results\<close>

lemma move_vals_spec:
  "move_vals i j n G = Inr G' \<Longrightarrow> 0 \<le> i \<Longrightarrow> i \<le> j \<Longrightarrow>
     \<exists>s. G' = G\<lparr>stack := s\<rparr> \<and> length s = length (stack G) \<and> (\<forall>k<n. s ! nat (i + int k) = stack G ! nat (j + int k)) \<and>
       (\<forall>m. int m < i \<or> i + int n \<le> int m \<longrightarrow> s ! m = stack G ! m)"
proof (induction n arbitrary: i j G)
  case 0
  then show ?case by (intro exI [where x = "stack G"]) auto
next
  case (Suc n)
  obtain v where v: "rd G j = Inr v" and w: "rbind (wr i v G) (move_vals (i + 1) (j + 1) n) = Inr G'"
    using Suc.prems(1) by (auto simp: mv_def rbind_assoc)
  have j: "0 \<le> j" "j < stacksize G" "v = stack G ! nat j" using v by (auto simp: rd_def split: if_splits)
  have i: "i < stacksize G" using j(2) Suc.prems(3) by simp
  define G1 where "G1 = G\<lparr>stack := (stack G)[nat i := v]\<rparr>"
  have "move_vals (i + 1) (j + 1) n G1 = Inr G'" using w i Suc.prems(2) by (simp add: wr_def G1_def)
  from Suc.IH [OF this] Suc.prems(2,3) obtain s where s: "G' = G1\<lparr>stack := s\<rparr>" "length s = length (stack G1)"
    "\<forall>k<n. s ! nat (i + 1 + int k) = stack G1 ! nat (j + 1 + int k)" "\<forall>m. int m < i + 1 \<or> i + 1 + int n \<le> int m \<longrightarrow> s ! m = stack G1 ! m"
    by auto
  have "s ! nat (i + int k) = stack G ! nat (j + int k)" if "k < Suc n" for k
  proof (cases k)
    case 0
    then show ?thesis using s(4) [rule_format, of "nat i"] i j(3) Suc.prems(2) by (simp add: G1_def stacksize_def)
  next
    case (Suc k')
    then have "s ! nat (i + 1 + int k') = stack G1 ! nat (j + 1 + int k')" using s(3) that by auto
    moreover have "nat (j + 1 + int k') \<noteq> nat i" using Suc.prems(2,3) by auto
    ultimately show ?thesis using Suc by (simp add: G1_def add.assoc)
  qed
  moreover have "s ! m = stack G ! m" if "int m < i \<or> i + int (Suc n) \<le> int m" for m
  proof -
    have "nat i \<noteq> m" using that Suc.prems(2) by linarith
    then show ?thesis using s(4) [rule_format, of m] that by (auto simp: G1_def)
  qed
  ultimately show ?case using s(1,2) by (intro exI [where x = s]) (simp add: G1_def)
qed

lemma fill_nil_spec:
  "fill_nil i n G = Inr G' \<Longrightarrow> 0 \<le> i \<Longrightarrow>
     \<exists>s. G' = G\<lparr>stack := s\<rparr> \<and> length s = length (stack G) \<and> (\<forall>k<n. s ! nat (i + int k) = Vnil) \<and>
       (\<forall>m. int m < i \<or> i + int n \<le> int m \<longrightarrow> s ! m = stack G ! m)"
proof (induction n arbitrary: i G)
  case 0
  then show ?case by (intro exI [where x = "stack G"]) auto
next
  case (Suc n)
  have i: "i < stacksize G" using Suc.prems(1) by (auto simp: wr_def split: if_splits)
  define G1 where "G1 = G\<lparr>stack := (stack G)[nat i := Vnil]\<rparr>"
  have "fill_nil (i + 1) n G1 = Inr G'" using Suc.prems i by (simp add: wr_def G1_def)
  from Suc.IH [OF this] Suc.prems(2) obtain s where s: "G' = G1\<lparr>stack := s\<rparr>" "length s = length (stack G1)"
    "\<forall>k<n. s ! nat (i + 1 + int k) = Vnil" "\<forall>m. int m < i + 1 \<or> i + 1 + int n \<le> int m \<longrightarrow> s ! m = stack G1 ! m"
    by auto
  have "s ! nat (i + int k) = Vnil" if "k < Suc n" for k
  proof (cases k)
    case 0
    then show ?thesis using s(4) [rule_format, of "nat i"] i Suc.prems(2) by (simp add: G1_def stacksize_def)
  next
    case (Suc k')
    then show ?thesis using s(3) that by (simp add: add.assoc)
  qed
  moreover have "s ! m = stack G ! m" if "int m < i \<or> i + int (Suc n) \<le> int m" for m
  proof -
    have "nat i \<noteq> m" using that Suc.prems(2) by linarith
    then show ?thesis using s(4) [rule_format, of m] that by (auto simp: G1_def)
  qed
  ultimately show ?case using s(1,2) by (intro exI [where x = s]) (simp add: G1_def)
qed

lemma move_vals_total: "0 \<le> i \<Longrightarrow> i \<le> j \<Longrightarrow> j + int n \<le> stacksize G \<Longrightarrow> \<exists>G'. move_vals i j n G = Inr G'"
  by (induction n arbitrary: i j G) (auto simp: mv_def rd_def wr_def stacksize_def)

lemma fill_nil_total: "0 \<le> i \<Longrightarrow> i + int n \<le> stacksize G \<Longrightarrow> \<exists>G'. fill_nil i n G = Inr G'"
  by (induction n arbitrary: i G) (auto simp: wr_def stacksize_def)

text \<open>
  C12. Returning from a function gives its caller exactly the results it wants: \<open>luaD_poscall\<close> never fails, goes back to the frame
  below, and from the place of the called function on leaves the first results in order, with nil for the missing ones, all of
  them if all are wanted, the top of the stack after them and every slot below as it was.
\<close>

theorem luaD_poscall_results:
  assumes "ci G = c # c1 # cs" "0 \<le> ci_func c" "ci_func c \<le> first" "first \<le> ltop G" "ltop G \<le> stacksize G"
    "ci_func c + nresults c \<le> stacksize G" "- 1 \<le> nresults c"
  shows "\<exists>s. luaD_poscall first G = Inr (nresults c + 1, G\<lparr>ci := c1 # cs, lbase := ci_base c1, lpc := savedpc c1, stack := s,
        ltop := ci_func c + (if nresults c = - 1 then ltop G - first else nresults c)\<rparr>) \<and> length s = length (stack G) \<and>
      (\<forall>k < nat (if nresults c = - 1 then ltop G - first else nresults c).
         s ! nat (ci_func c + int k) = (if first + int k < ltop G then stack G ! nat (first + int k) else Vnil)) \<and>
      (\<forall>m. int m < ci_func c \<longrightarrow> s ! m = stack G ! m)"
proof -
  define avail where "avail = nat (ltop G - first)"
  define n where "n = (if nresults c < 0 then avail else min (nat (nresults c)) avail)"
  define m where "m = nat (nresults c) - n"
  define cnt where "cnt = (if nresults c = - 1 then ltop G - first else nresults c)"
  define G1 where "G1 = G\<lparr>ci := c1 # cs, lbase := ci_base c1, lpc := savedpc c1\<rparr>"
  have cnt: "cnt = int n + int m" "int n \<le> ltop G - first" "m = 0 \<or> first + int n = ltop G" "m = 0 \<or> cnt = nresults c"
    using assms(4,7) by (auto simp: cnt_def n_def m_def avail_def)
  have sz: "stacksize G1 = stacksize G" "stack G1 = stack G" by (simp_all add: G1_def stacksize_def)
  obtain G2 where m2: "move_vals (ci_func c) first n G1 = Inr G2"
    using move_vals_total [OF assms(2,3), of n G1] cnt(2) assms(5) sz by auto
  obtain s2 where s2: "G2 = G1\<lparr>stack := s2\<rparr>" "length s2 = length (stack G)" "\<forall>k<n. s2 ! nat (ci_func c + int k) = stack G ! nat (first + int k)"
    "\<forall>m. int m < ci_func c \<or> ci_func c + int n \<le> int m \<longrightarrow> s2 ! m = stack G ! m"
    using move_vals_spec [OF m2 assms(2,3)] sz by auto
  have "ci_func c + int n + int m \<le> stacksize G2" using cnt assms(3-6) s2(1,2) by (auto simp: stacksize_def)
  then obtain G3 where f3: "fill_nil (ci_func c + int n) m G2 = Inr G3"
    using fill_nil_total [of "ci_func c + int n" m G2] assms(2) by auto
  obtain s where s: "G3 = G2\<lparr>stack := s\<rparr>" "length s = length s2" "\<forall>k<m. s ! nat (ci_func c + int n + int k) = Vnil"
    "\<forall>j. int j < ci_func c + int n \<or> ci_func c + int n + int m \<le> int j \<longrightarrow> s ! j = s2 ! j"
    using fill_nil_spec [OF f3] assms(2) s2(1) by auto
  have "luaD_poscall first G = Inr (nresults c + 1, G3\<lparr>ltop := ci_func c + cnt\<rparr>)"
    unfolding luaD_poscall_def assms(1) list.case Let_def avail_def [symmetric] n_def [symmetric] m_def [symmetric] G1_def [symmetric]
    using m2 f3 cnt(1) by (simp add: LUA_MULTRET_def)
  moreover have "G3\<lparr>ltop := ci_func c + cnt\<rparr> = G\<lparr>ci := c1 # cs, lbase := ci_base c1, lpc := savedpc c1, stack := s, ltop := ci_func c + cnt\<rparr>"
    by (simp add: s(1) s2(1) G1_def)
  moreover have "s ! nat (ci_func c + int k) = (if first + int k < ltop G then stack G ! nat (first + int k) else Vnil)" if k: "k < nat cnt" for k
  proof (cases "k < n")
    case True
    then show ?thesis using s(4) [rule_format, of "nat (ci_func c + int k)"] s2(3) assms(2) cnt(2) by simp
  next
    case False
    then have "s ! nat (ci_func c + int n + int (k - n)) = Vnil" using s(3) [rule_format, of "k - n"] False k cnt(1) by auto
    moreover have "ci_func c + int n + int (k - n) = ci_func c + int k" using False by simp
    moreover have "first + int n = ltop G" using False k cnt by auto
    ultimately show ?thesis using False by simp
  qed
  moreover have "s ! j = stack G ! j" if "int j < ci_func c" for j
    using s(4) [rule_format, of j] s2(4) [rule_format, of j] that by simp
  ultimately show ?thesis using s(2) s2(2) unfolding cnt_def [symmetric] by (intro exI [where x = s]) simp
qed

section \<open>Upvalues\<close>

lemma uv_close_get:
  "uv_close_loop us level G = Inr G' \<Longrightarrow> 0 \<le> level \<Longrightarrow> stack G' = stack G \<and> upval_get G' u = upval_get G u"
proof (induction us arbitrary: G)
  case Nil
  then show ?case by (auto simp: upval_get_def rd_def stacksize_def split: UpVal.split)
next
  case (Cons w us)
  show ?case
  proof (cases "uv_level G w \<ge> level")
    case True
    then obtain v where v: "rd G (uv_level G w) = Inr v" "uv_close_loop us level (G\<lparr>upvals := (upvals G)(w := UClosed v)\<rparr>) = Inr G'"
      using Cons.prems(1) by (auto)
    have "upvals G w = UOpen (uv_level G w)" using True Cons.prems(2) by (auto simp: uv_level_def split: UpVal.splits)
    then have "upval_get (G\<lparr>upvals := (upvals G)(w := UClosed v)\<rparr>) u = upval_get G u"
      using v(1) by (auto simp: upval_get_def rd_def stacksize_def split: UpVal.split)
    then show ?thesis using Cons.IH [OF v(2) Cons.prems(2)] by simp
  next
    case False
    then show ?thesis using Cons.prems(1) by (auto simp: upval_get_def rd_def stacksize_def split: UpVal.split)
  qed
qed

definition uvs_ok :: "'g lstate_scheme \<Rightarrow> bool" where
  "uvs_ok G = (sorted_wrt (\<lambda>u w. uv_level G w < uv_level G u) (openupval G) \<and> (\<forall>u \<in> set (openupval G). 0 \<le> uv_level G u))"

lemma find_open_some:
  "find_open lv level us = (b, Some u, a) \<Longrightarrow> u \<in> set us \<and> lv u = level"
  by (induction lv level us arbitrary: b rule: find_open.induct) (auto split: if_splits prod.splits)

lemma find_open_none:
  "find_open lv level us = (b, None, a) \<Longrightarrow> sorted_wrt (\<lambda>u w. lv w < lv u) us \<Longrightarrow>
     us = b @ a \<and> (\<forall>u \<in> set b. level < lv u) \<and> (\<forall>u \<in> set a. lv u < level)"
  by (induction lv level us arbitrary: b rule: find_open.induct) (fastforce split: if_splits prod.splits)+

lemma find_open_here:
  "\<forall>w \<in> set b. level < lv w \<Longrightarrow> lv u = level \<Longrightarrow> find_open lv level (b @ u # a) = (b, Some u, a)"
  by (induction b) auto

text \<open>
  C11. Closures over the same variable share it: \<open>luaF_findupval\<close> gives an open upvalue of the wanted slot and keeps the list of open upvalues
  sorted by level and the other upvalues as they were, and asked again it gives the same one.
\<close>

theorem luaF_findupval_shares:
  assumes "uvs_ok G" "0 \<le> level" "newobj C G \<notin> set (openupval G)" "luaF_findupval C level G = (u, G')"
  shows "upvals G' u = UOpen level \<and> uvs_ok G' \<and> (\<forall>w \<in> set (openupval G). upvals G' w = upvals G w) \<and> luaF_findupval C level G' = (u, G')"
proof -
  obtain b r a where f: "find_open (uv_level G) level (openupval G) = (b, r, a)" using prod_cases3 by blast
  show ?thesis
  proof (cases r)
    case (Some w)
    then have "w \<in> set (openupval G)" "uv_level G w = level" using find_open_some f by fast+
    then have "upvals G w = UOpen level" using assms(2) by (auto simp: uv_level_def split: UpVal.splits)
    then show ?thesis using assms(1,4) f Some by (auto simp: luaF_findupval_def)
  next
    case None
    define n where "n = newobj C G"
    have o: "openupval G = b @ a" "\<forall>u \<in> set b. level < uv_level G u" "\<forall>u \<in> set a. uv_level G u < level"
      using find_open_none [of "uv_level G" level "openupval G" b a] f None assms(1) by (auto simp: uvs_ok_def)
    have g: "u = n" "G' = G\<lparr>upvals := (upvals G)(n := UOpen level), openupval := b @ n # a\<rparr>"
      using assms(4) f None by (auto simp: luaF_findupval_def n_def Let_def)
    have l: "uv_level G' w = uv_level G w" if "w \<in> set (b @ a)" for w
      using that assms(3) o(1) g by (auto simp: uv_level_def n_def)
    have ln: "uv_level G' n = level" by (simp add: g uv_level_def)
    have "sorted_wrt (\<lambda>u w. uv_level G w < uv_level G u) (b @ a)" using assms(1) o(1) by (simp add: uvs_ok_def)
    then have "sorted_wrt (\<lambda>u w. uv_level G' w < uv_level G' u) (b @ a)" by (rule sorted_wrt_mono_rel [rotated]) (use l in auto)
    then have "uvs_ok G'" using o ln l assms(1,2) by (auto simp: uvs_ok_def g(2) sorted_wrt_append)
    moreover have "find_open (uv_level G') level (openupval G') = (b, Some n, a)"
      using find_open_here [of b level "uv_level G'" n a] o(2) l ln by (simp add: g(2))
    then have "luaF_findupval C level G' = (n, G')" by (simp add: luaF_findupval_def)
    ultimately show ?thesis using g assms(3) by (auto simp: n_def)
  qed
qed

lemma uv_close_spec:
  "uv_close_loop us level G = Inr G' \<Longrightarrow> 0 \<le> level \<Longrightarrow> distinct us \<Longrightarrow>
     openupval G' = dropWhile (\<lambda>u. level \<le> uv_level G u) us \<and>
     (\<forall>u. u \<notin> set (takeWhile (\<lambda>u. level \<le> uv_level G u) us) \<longrightarrow> upvals G' u = upvals G u) \<and>
     (\<forall>u \<in> set (takeWhile (\<lambda>u. level \<le> uv_level G u) us). \<exists>v. upvals G' u = UClosed v)"
proof (induction us arbitrary: G)
  case (Cons w us)
  show ?case
  proof (cases "uv_level G w \<ge> level")
    case True
    then obtain v where v: "uv_close_loop us level (G\<lparr>upvals := (upvals G)(w := UClosed v)\<rparr>) = Inr G'"
      using Cons.prems(1) by auto
    let ?G = "G\<lparr>upvals := (upvals G)(w := UClosed v)\<rparr>"
    have l: "uv_level ?G u = uv_level G u" if "u \<in> set us" for u using that Cons.prems(3) by (auto simp: uv_level_def)
    have "takeWhile (\<lambda>u. level \<le> uv_level ?G u) us = takeWhile (\<lambda>u. level \<le> uv_level G u) us"
      "dropWhile (\<lambda>u. level \<le> uv_level ?G u) us = dropWhile (\<lambda>u. level \<le> uv_level G u) us"
      using l by (auto cong: takeWhile_cong dropWhile_cong)
    moreover have "w \<notin> set (takeWhile (\<lambda>u. level \<le> uv_level G u) us)" using Cons.prems(3) by (auto dest: set_takeWhileD)
    ultimately show ?thesis using Cons.IH [OF v Cons.prems(2)] Cons.prems(3) True by auto
  next
    case False
    then show ?thesis using Cons.prems(1) by auto
  qed
qed auto

lemma uv_close_total:
  "\<forall>w \<in> set us. uv_level G w < stacksize G \<Longrightarrow> distinct us \<Longrightarrow> 0 \<le> level \<Longrightarrow> \<exists>G'. uv_close_loop us level G = Inr G'"
proof (induction us arbitrary: G)
  case (Cons w us)
  show ?case
  proof (cases "level \<le> uv_level G w")
    case True
    then have r: "rd G (uv_level G w) = Inr (stack G ! nat (uv_level G w))" using Cons.prems(1,3) by (auto simp: rd_def)
    have "\<forall>x \<in> set us. uv_level (G\<lparr>upvals := (upvals G)(w := UClosed v)\<rparr>) x < stacksize (G\<lparr>upvals := (upvals G)(w := UClosed v)\<rparr>)" for v
      using Cons.prems(1,2) by (auto simp: uv_level_def stacksize_def)
    then show ?thesis using Cons.IH Cons.prems(2,3) True r by simp
  qed simp
qed simp

lemma uvs_ok_distinct: "uvs_ok G \<Longrightarrow> distinct (openupval G)"
proof -
  have "sorted_wrt (\<lambda>u w. f w < f u) us \<Longrightarrow> distinct us" for f :: "ptr \<Rightarrow> int" and us
    by (induction us) auto
  then show "uvs_ok G \<Longrightarrow> distinct (openupval G)" by (auto simp: uvs_ok_def)
qed

lemma descending_split:
  fixes f :: "ptr \<Rightarrow> int"
  shows "sorted_wrt (\<lambda>u w. f w < f u) us \<Longrightarrow>
    dropWhile (\<lambda>u. n \<le> f u) us = filter (\<lambda>u. f u < n) us \<and> set (takeWhile (\<lambda>u. n \<le> f u) us) = {u \<in> set us. n \<le> f u}"
proof (induction us)
  case (Cons w us)
  then show ?case
  proof (cases "n \<le> f w")
    case False
    then have "\<forall>u \<in> set us. f u < n" using Cons.prems by auto
    then show ?thesis using False by auto
  qed auto
qed simp

text \<open>
  C10. Closing never changes what a closure reads: \<open>luaF_close\<close> does not fail, every upvalue of the slots from \<open>level\<close> on gets
  a value of its own and leaves the list, the others stay open, and each upvalue reads the same value as before.
\<close>

theorem luaF_close_keeps_values:
  assumes "uvs_ok G" "0 \<le> level" "\<forall>w \<in> set (openupval G). uv_level G w < stacksize G"
  shows "\<exists>G'. luaF_close level G = Inr G' \<and> openupval G' = filter (\<lambda>w. uv_level G w < level) (openupval G) \<and> uvs_ok G' \<and>
    (\<forall>w \<in> set (openupval G). level \<le> uv_level G w \<longrightarrow> (\<exists>v. upvals G' w = UClosed v)) \<and> (\<forall>w. upval_get G' w = upval_get G w)"
proof -
  note d = uvs_ok_distinct [OF assms(1)]
  have sorted: "sorted_wrt (\<lambda>u w. uv_level G w < uv_level G u) (openupval G)" using assms(1) by (simp add: uvs_ok_def)
  obtain G' where G': "uv_close_loop (openupval G) level G = Inr G'" using uv_close_total [OF assms(3) d assms(2)] by blast
  note spec = uv_close_spec [OF G' assms(2) d, unfolded descending_split [OF sorted, THEN conjunct1] descending_split [OF sorted, THEN conjunct2]]
  have l: "uv_level G' w = uv_level G w" if "w \<in> set (openupval G')" for w
    using spec that by (auto simp: uv_level_def)
  have "sorted_wrt (\<lambda>u w. uv_level G w < uv_level G u) (openupval G')" using spec sorted by (simp add: sorted_wrt_filter)
  then have "sorted_wrt (\<lambda>u w. uv_level G' w < uv_level G' u) (openupval G')" by (rule sorted_wrt_mono_rel [rotated]) (use l in auto)
  then have "uvs_ok G'" using l spec assms(1) by (auto simp: uvs_ok_def)
  then show ?thesis using G' spec uv_close_get [OF G' assms(2)] by (auto simp: luaF_close_def)
qed

section \<open>Examples\<close>

definition sample_uvs :: lstate where
  "sample_uvs = (sample_lstate sample_proto [6, 1])\<lparr>upvals := (\<lambda>_. UClosed Vnil)(3 := UOpen 8, 2 := UOpen 4), openupval := [3, 2]\<rparr>"

lemma sample_uvs_ok: "uvs_ok sample_uvs"
  by (simp add: uvs_ok_def sample_uvs_def uv_level_def)

theorem luaD_poscall_results_witness:
  "\<exists>s. luaD_poscall 6 (sample_lstate sample_proto [6, 1]) =
      Inr (1, (sample_lstate sample_proto [6, 1])\<lparr>ci := [sample_ci 1], lbase := 1, lpc := (sample_proto, 0), stack := s, ltop := 5\<rparr>)"
  using luaD_poscall_results [of "sample_lstate sample_proto [6, 1]" "sample_ci 6" "sample_ci 1" "[]" 6]
  by (auto simp: sample_lstate_def sample_ci_def stacksize_def)

theorem luaF_findupval_shares_witness:
  "\<exists>u G. luaF_findupval sample_cenv 6 sample_uvs = (u, G) \<and> upvals G u = UOpen 6 \<and> luaF_findupval sample_cenv 6 G = (u, G)"
proof -
  obtain u G where "luaF_findupval sample_cenv 6 sample_uvs = (u, G)" by fastforce
  moreover have "newobj sample_cenv sample_uvs \<notin> set (openupval sample_uvs)" by (simp add: sample_cenv_def sample_uvs_def)
  ultimately show ?thesis using luaF_findupval_shares [OF sample_uvs_ok, of 6 sample_cenv u G] by auto
qed

theorem luaF_close_keeps_values_witness:
  "\<exists>G'. luaF_close 6 sample_uvs = Inr G' \<and> openupval G' = [2] \<and> (\<exists>v. upvals G' 3 = UClosed v)"
proof -
  have "\<forall>w \<in> set (openupval sample_uvs). uv_level sample_uvs w < stacksize sample_uvs"
    by (simp add: sample_uvs_def sample_lstate_def uv_level_def stacksize_def)
  then show ?thesis using luaF_close_keeps_values [OF sample_uvs_ok, of 6] by (auto simp: sample_uvs_def uv_level_def)
qed

end
