(* ===== verification/Spec2Isabelle.thy ===== *)
theory Spec2Isabelle
  imports Lopcodes Lstring Ltable_iter Ldebug_names Lundump Lstr_quote Ltab_sort Ldo_ok
begin

text \<open>
  Lunacy is Lua 5.1 with a keyed hash (HalfSipHash) for its strings, 32-bit word sizes fixed at build time and
  a few extra libraries. This development models the parts of its C code under src/src that hold the
  program's own logic, each as definitions that follow the code function by function, with the theorems
  that make the part correct.

  \<^bold>\<open>How the parts interact.\<close> Source text is read through a stream (lzio.c), split into tokens (llex.c) and
  compiled to prototypes; a prototype can also be dumped (ldump.c) and loaded (lundump.c), and what is loaded is
  accepted only if the checker (ldebug.c) passes. Instructions are packed words (lopcodes.h). Values are tagged
  (lobject.h), numbers are doubles (luaconf.h). Strings are interned in a hash table (lstring.c), tables have an
  array part and a hash part (ltable.c) and compare strings by address. The interpreter (lvm.c) runs the
  instructions of a prototype on a stack of values with a list of active calls (ldo.c); closures share variables
  through upvalues (lfunc.c), and operations on values that are not numbers, strings or tables call the
  metamethods of their types (ltm.c). Library functions (lstrlib.c, ltablib.c) read their arguments and build their
  results through the auxiliary library (lauxlib.c, lapi.c).

  \<^bold>\<open>Theories.\<close>
  \<^item> Prelude: the result type with its errors (run-time, syntax, memory, and \<open>Undefined\<close> for what C leaves
    undefined: reads and writes outside an object, missing fuel), its sequencing, the postcondition
    predicates \<open>ens\<close> and \<open>yields\<close>, bit lengths and shifts.
  \<^item> Lnumber (luaconf.h): IEEE doubles as 64-bit words, their arithmetic with rounding to nearest, comparison and
    conversion to integers. Lobject (lobject.c): tagged values, raw equality, the floating byte, logarithms,
    chunk names. Lformat (lobject.c): \<open>luaO_pushvfstring\<close> and the C locale's character classes.
  \<^item> Lopcodes (lopcodes.h): fields of instructions; packing and unpacking are inverse within the field widths.
  \<^item> Siphash, Lstring (lstring.c): the hash equals HalfSipHash-1-3, its 64-bit variant SipHash-1-3 (2-4 when built so); the
    string table keeps every string once, in its bucket, over creation, growth and shrinking.
  \<^item> Ltable, Ltable_hash, Ltable_map, Ltable_resize, Ltable_rehash, Ltable_ops, Ltable_iter (ltable.c): the table
    operations, the invariant \<open>tab_ok\<close> (every live key is on the chain of its main position, chains end, the
    free pointer is sound), and the refinement: a table is a finite map on keys up to raw equality; a rehash
    nests at most once, so \<open>newkey\<close> runs at depth 2.
  \<^item> Lproto, Ldebug, Ldebug_flow, Ldebug_names (lobject.h, ldebug.c, lvm.c): prototypes; the symbolic execution
    that checks loaded code never reads outside it and ends (its fuel is the number of instructions); what it
    accepts never transfers control outside the code except after OP_LOADBOOL; names of registers.
  \<^item> Lzio, Ldump, Lundump (lzio.c, ldump.c, lundump.c): streams of any chunking; loading a dump gives the
    prototype back, a truncated dump is refused, and loading any bytes ends in a prototype or an error.
  \<^item> Llex, Llex_ok (llex.c): the whole lexer; any text is split into tokens or refused, the stream is never read
    past its end, lines are counted.
  \<^item> Lauxlib (lauxlib.c, lapi.c): arguments of library functions, their errors, and the string buffer with
    its stack slots, which refines concatenation.
  \<^item> Lstr_match, Lstrlib, Lstr_ok, Lstr_subst, Lstr_format, Lstr_quote (lstrlib.c): the pattern matcher (fuel: the
    pattern position grows with every nested call, so one more than the pattern's length is enough; the loop of
    \<open>gsub\<close> advances in every round but the last), the functions built on it, \<open>format\<close>; the matcher stays inside its
    strings and restores captures, plain search is the first occurrence and agrees with the matcher, \<open>gsub\<close>
    by \<open>%0\<close> is the identity, \<open>format\<close> stays inside its arrays, and the lexer reads \<open>%q\<close> back.
  \<^item> Lsort, Ltablib, Ltab_sort (ltablib.c): the quicksort of \<open>table.sort\<close> over any array and comparison (fuel: one
    more than the number of elements, as every part is smaller than the whole), the table library on Lua tables;
    the sort sorts for every strict weak order.
  \<^item> Lvm_ops, Lvm_meta (ltm.c, lvm.c): indexing, assignment, arithmetic and comparison with their metamethods;
    the cache of absent metamethods never hides a field.
  \<^item> Ldo (lfunc.c, ldo.c), Lvm (lvm.c): the stack, closures, upvalues, calls and returns; the main loop with every
    instruction. Each access to the stack, the code, the constants and the upvalues checks its index and is
    \<open>Undefined\<close> outside. The fuel of the main loop bounds the number of instructions: a Lua program need not end.
  \<^item> Lvm_ok, Lvm_vals, Lvm_call, Lvm_instr, Lvm_step, Lvm_safe, Lvm_sound, Ldo_ok: the invariant of the
    interpreter (every slot holds a value, tables are well formed, closures have accepted prototypes, frames lie
    inside the stack; \<open>compiled_ok\<close> states four conventions of the code generator that the checker does not
    look at), its preservation by the operations on values, by the entry to and the return from
    functions, by each instruction and by the main loop; so that no execution of accepted code leaves the stack,
    the code, the constants or the upvalues. The errors that remain (\<open>allowed\<close>) are those of the language,
    missing fuel, a loop that was not prepared (which the checker does not exclude), a frame whose function slot
    does not hold its function, which the C code takes on trust, and the bounds of the model.

  \<^bold>\<open>Parameters.\<close> The reader and writer callbacks of streams, allocation success and fresh addresses, the C
  library's conversions between numbers and text (\<open>strtod\<close>, \<open>strtoul\<close>, \<open>sprintf\<close>) and its \<open>floor\<close>, \<open>pow\<close> and \<open>strcoll\<close>,
  functions written in C, Lua functions and table accesses called back by the library functions. Where a theorem
  relies on one, the hypothesis states its documented behaviour.

  \<^bold>\<open>Not modelled.\<close> The parser and code generator (lparser.c, lcode.c), the garbage collector but for the
  clearing of table entries (lgc.c), hooks, coroutines and protected calls (ldo.c): an error ends an execution;
  the state and memory modules (lstate.c, lmem.c), the rest of the API and the auxiliary library, and the
  libraries that are mainly system calls (liolib.c, loslib.c, loadlib.c, lfs.c, spawner.c) or programs around the
  library (lua.c, luac.c, print.c). The depth of recursion on the C stack is not modelled but for the count of
  nested calls, nor is the position that \<open>luaL_where\<close> puts in front of messages. New stack slots hold nil, where
  the C code leaves them uninitialised; tables created for \<open>arg\<close> and by OP_NEWTABLE have at most \<open>MAXASIZE\<close> slots.
\<close>

end
